(* ===== verification/Prelude.thy ===== *)
theory Prelude
  imports Main "HOL-Library.Word" "HOL-Library.Multiset"
begin

text \<open>
  The shared layer of the development: the types every component uses (bytes, byte strings, fixed
  width integers of Go read as \<open>int\<close> or \<open>nat\<close>), the three-way result of a Go call (value, error,
  panic), slicing with its bounds check, the byte order encodings of \<^verbatim>\<open>encoding/binary\<close>, and the generic
  list lemmas.  The collections \<open>go_simps\<close> (evaluation of the Go primitives) and
  \<open>len_simps\<close> (lengths of encodings) are fed here and by later theories.
\<close>

named_theorems go_simps \<open>unfolding of the Go primitives\<close>
named_theorems len_simps \<open>lengths of encodings\<close>

section \<open>Results of Go calls\<close>

text \<open>A Go call returns a value, returns a non-nil error, or panics.\<close>

datatype ('e, 'a) outcome = Ret 'a | Fail 'e | Panic

fun obind :: "('e, 'a) outcome \<Rightarrow> ('a \<Rightarrow> ('e, 'b) outcome) \<Rightarrow> ('e, 'b) outcome" where
  "obind (Ret a) f = f a"
| "obind (Fail e) f = Fail e"
| "obind Panic f = Panic"

lemma obind_Ret_iff: "obind m f = Ret b \<longleftrightarrow> (\<exists>a. m = Ret a \<and> f a = Ret b)"
  by (cases m) auto

lemma obind_Panic_iff: "obind m f = Panic \<longleftrightarrow> m = Panic \<or> (\<exists>a. m = Ret a \<and> f a = Panic)"
  by (cases m) auto

text \<open>A checked access that panics when it is out of range.\<close>

fun or_panic :: "'a option \<Rightarrow> ('e, 'a) outcome" where
  "or_panic None = Panic"
| "or_panic (Some a) = Ret a"

lemma or_panic_Ret_iff [simp]: "or_panic x = Ret a \<longleftrightarrow> x = Some a"
  by (cases x) auto

lemma or_panic_Panic_iff [simp]: "or_panic x = Panic \<longleftrightarrow> x = None"
  by (cases x) auto

lemma or_panic_not_Fail [simp]: "or_panic x \<noteq> Fail e"
  by (cases x) auto

section \<open>Bytes, strings, slices\<close>

type_synonym byte = "8 word"
type_synonym bytes = "8 word list"

text \<open>
  A Go \<^verbatim>\<open>string\<close> is a sequence of bytes; HOL's \<open>string\<close> is a list of 8-bit characters.  The
  conversions \<^verbatim>\<open>[]byte(s)\<close> and \<^verbatim>\<open>string(b)\<close> are bijections.
\<close>

definition byte_of_char :: "char \<Rightarrow> byte" where
  "byte_of_char c = word_of_nat (of_char c)"

definition char_of_byte :: "byte \<Rightarrow> char" where
  "char_of_byte b = char_of (unat b)"

lemma char_of_byte_of_char [simp]: "char_of_byte (byte_of_char c) = c"
proof -
  have "of_char c < (256::nat)" by (cases c) (simp add: of_char_def)
  then have "unat (word_of_nat (of_char c) :: byte) = of_char c"
    by (simp add: unat_of_nat take_bit_nat_eq_self)
  then show ?thesis by (simp add: byte_of_char_def char_of_byte_def)
qed

lemma byte_of_char_of_byte [simp]: "byte_of_char (char_of_byte b) = b"
proof -
  have "unat b < 256" using unsigned_less [of b] by simp
  then have "of_char (char_of (unat b) :: char) = unat b" by simp
  then show ?thesis by (simp add: byte_of_char_def char_of_byte_def)
qed

definition bytes_of :: "string \<Rightarrow> bytes" where
  "bytes_of s = map byte_of_char s"

definition string_of :: "bytes \<Rightarrow> string" where
  "string_of b = map char_of_byte b"

lemma string_of_bytes_of [simp]: "string_of (bytes_of s) = s"
  by (simp add: string_of_def bytes_of_def o_def)

lemma bytes_of_string_of [simp]: "bytes_of (string_of b) = b"
  by (simp add: string_of_def bytes_of_def o_def)

lemma length_bytes_of [simp]: "length (bytes_of s) = length s"
  by (simp add: bytes_of_def)

lemma length_string_of [simp]: "length (string_of b) = length b"
  by (simp add: string_of_def)

lemma bytes_of_append [simp]: "bytes_of (s @ t) = bytes_of s @ bytes_of t"
  by (simp add: bytes_of_def)

lemma bytes_of_Nil [simp]: "bytes_of [] = []"
  by (simp add: bytes_of_def)

lemma string_of_inj: "string_of a = string_of b \<longleftrightarrow> a = b"
  by (metis bytes_of_string_of)

lemma bytes_of_inj: "bytes_of a = bytes_of b \<longleftrightarrow> a = b"
  by (metis string_of_bytes_of)

text \<open>\<^verbatim>\<open>s[i]\<close> and \<^verbatim>\<open>s[i:j]\<close> with the bounds check of the language: \<open>None\<close> is the panic.\<close>

definition index_at :: "'a list \<Rightarrow> nat \<Rightarrow> 'a option" where
  "index_at xs i = (if i < length xs then Some (xs ! i) else None)"

definition slice :: "'a list \<Rightarrow> nat \<Rightarrow> nat \<Rightarrow> 'a list option" where
  "slice xs i j = (if i \<le> j \<and> j \<le> length xs then Some (take (j - i) (drop i xs)) else None)"

declare index_at_def [go_simps] slice_def [go_simps]

lemma index_at_Some_iff: "index_at xs i = Some x \<longleftrightarrow> i < length xs \<and> xs ! i = x"
  by (auto simp: index_at_def)

lemma slice_SomeD: "slice xs i j = Some ys \<Longrightarrow> length ys = j - i \<and> j \<le> length xs"
  by (auto simp: slice_def split: if_splits)

lemma slice_append_mid:
  "length a = i \<Longrightarrow> length b = n \<Longrightarrow> j = i + n \<Longrightarrow> slice (a @ b @ c) i j = Some b"
  by (simp add: slice_def)

lemma index_at_append_mid: "length a = i \<Longrightarrow> index_at (a @ x # c) i = Some x"
  by (auto simp: index_at_def nth_append)

text \<open>\<^verbatim>\<open>copy(dst[at:], src)\<close>: as much of \<open>src\<close> as fits is written from \<open>at\<close> on.\<close>

definition copy_at :: "'a list \<Rightarrow> nat \<Rightarrow> 'a list \<Rightarrow> 'a list" where
  "copy_at dst at src =
     (let n = min (length src) (length dst - at)
      in take at dst @ take n src @ drop (at + n) dst)"

lemma length_copy_at [simp]: "at \<le> length dst \<Longrightarrow> length (copy_at dst at src) = length dst"
  by (auto simp: copy_at_def Let_def min_def)

lemma copy_at_fits:
  "at + length src \<le> length dst \<Longrightarrow>
     copy_at dst at src = take at dst @ src @ drop (at + length src) dst"
  by (simp add: copy_at_def Let_def)

lemma copy_at_append_mid:
  "length a = at \<Longrightarrow> length src = length b \<Longrightarrow> copy_at (a @ b @ c) at src = a @ src @ c"
  by (simp add: copy_at_fits)

section \<open>Fixed-width integers\<close>

text \<open>
  \<^verbatim>\<open>int\<close>, \<^verbatim>\<open>int64\<close> and \<^verbatim>\<open>nostr.Timestamp\<close> are 64-bit two's complement integers.  They are
  read as \<open>int\<close>; the conversions of the language wrap explicitly.
\<close>

definition uint64 :: "int \<Rightarrow> int" where
  "uint64 x = x mod 2 ^ 64"

definition int64 :: "int \<Rightarrow> int" where
  "int64 x = (x + 2 ^ 63) mod 2 ^ 64 - 2 ^ 63"

definition MaxInt64 :: int where
  "MaxInt64 = 2 ^ 63 - 1"

definition in_int64 :: "int \<Rightarrow> bool" where
  "in_int64 x \<longleftrightarrow> - (2 ^ 63) \<le> x \<and> x < 2 ^ 63"

lemma int64_in_int64 [simp]: "in_int64 (int64 x)"
proof -
  have "0 \<le> (x + 2 ^ 63) mod 2 ^ 64" "(x + 2 ^ 63) mod 2 ^ 64 < (2 ^ 64 :: int)"
    by simp_all
  then show ?thesis by (simp add: in_int64_def int64_def)
qed

lemma int64_id: "in_int64 x \<Longrightarrow> int64 x = x"
  by (auto simp: in_int64_def int64_def)

lemma int64_over: "2 ^ 63 \<le> x \<Longrightarrow> x < 2 ^ 63 + 2 ^ 64 \<Longrightarrow> int64 x = x - 2 ^ 64"
proof -
  assume x: "2 ^ 63 \<le> x" "x < 2 ^ 63 + 2 ^ 64"
  have "(x + 2 ^ 63) mod 2 ^ 64 = (x + 2 ^ 63 - 2 ^ 64) mod (2 ^ 64 :: int)" by (rule minus_mod_self2 [symmetric])
  then show ?thesis using x by (simp add: int64_def)
qed

lemma in_int64_nat: "n < 2 ^ 63 \<Longrightarrow> in_int64 (int n)"
  by (simp add: in_int64_def)

lemma int64_uint64 [simp]: "int64 (uint64 x) = int64 x"
  by (simp add: int64_def uint64_def mod_simps)

lemma uint64_int64 [simp]: "uint64 (int64 x) = uint64 x"
proof -
  have "((x + 2 ^ 63) mod 2 ^ 64 - 2 ^ 63) mod 2 ^ 64 = (x + 2 ^ 63 - 2 ^ 63) mod (2 ^ 64 :: int)"
    by (rule mod_diff_left_eq)
  then show ?thesis by (simp add: int64_def uint64_def)
qed

lemma uint64_range: "0 \<le> uint64 x \<and> uint64 x < 2 ^ 64"
  by (simp add: uint64_def)

lemma uint64_id: "0 \<le> x \<Longrightarrow> x < 2 ^ 64 \<Longrightarrow> uint64 x = x"
  by (simp add: uint64_def)

text \<open>Truncation to 32 bits without sign.\<close>

definition uint32 :: "int \<Rightarrow> nat" where
  "uint32 v = nat (v mod 2 ^ 32)"

section \<open>Byte orders\<close>

text \<open>
  \<^verbatim>\<open>binary.LittleEndian.PutUintN\<close> writes the \<open>n\<close> low bytes of a value, least significant first;
  \<^verbatim>\<open>binary.BigEndian\<close> writes the same bytes in the other order.
\<close>

fun putLE :: "nat \<Rightarrow> nat \<Rightarrow> bytes" where
  "putLE 0 v = []"
| "putLE (Suc n) v = word_of_nat v # putLE n (v div 256)"

fun getLE :: "bytes \<Rightarrow> nat" where
  "getLE [] = 0"
| "getLE (b # bs) = unat b + 256 * getLE bs"

definition putBE :: "nat \<Rightarrow> nat \<Rightarrow> bytes" where
  "putBE n v = rev (putLE n v)"

definition getBE :: "bytes \<Rightarrow> nat" where
  "getBE bs = getLE (rev bs)"

lemma length_putLE [simp, len_simps]: "length (putLE n v) = n"
  by (induction n arbitrary: v) auto

lemma length_putBE [simp, len_simps]: "length (putBE n v) = n"
  by (simp add: putBE_def)

lemma getLE_putLE: "getLE (putLE n v) = v mod 256 ^ n"
proof (induction n arbitrary: v)
  case 0
  then show ?case by simp
next
  case (Suc n)
  have "unat (word_of_nat v :: byte) = v mod 256"
    by (simp add: unat_of_nat take_bit_eq_mod)
  then show ?case using Suc by (simp add: mod_mult2_eq)
qed

lemma putLE_getLE: "putLE (length bs) (getLE bs) = bs"
proof (induction bs)
  case Nil
  then show ?case by simp
next
  case (Cons b bs)
  have b: "unat b < 256" using unsigned_less [of b] by simp
  have "(word_of_nat (unat b + 256 * getLE bs) :: byte) = b"
  proof -
    have "unat (word_of_nat (unat b + 256 * getLE bs) :: byte) = unat b"
      using b unat_of_nat [where 'a = 8, of "unat b + 256 * getLE bs"] by (simp del: of_nat_add)
    then show ?thesis by (rule unsigned_word_eqI)
  qed
  moreover have "(unat b + 256 * getLE bs) div 256 = getLE bs" using b by simp
  ultimately show ?case using Cons by simp
qed

lemma getBE_putBE: "getBE (putBE n v) = v mod 256 ^ n"
  by (simp add: getBE_def putBE_def getLE_putLE)

lemma putBE_getBE: "length bs = n \<Longrightarrow> putBE n (getBE bs) = bs"
  using putLE_getLE [of "rev bs"] by (auto simp: putBE_def getBE_def)

lemma getLE_bound: "getLE bs < 256 ^ length bs"
proof (induction bs)
  case Nil
  then show ?case by simp
next
  case (Cons b bs)
  have "unat b < 256" using unsigned_less [of b] by simp
  then show ?case using Cons by simp
qed

lemma getBE_bound: "getBE bs < 256 ^ length bs"
  using getLE_bound [of "rev bs"] by (simp add: getBE_def)

lemma putBE_inj: "v < 256 ^ n \<Longrightarrow> w < 256 ^ n \<Longrightarrow> putBE n v = putBE n w \<longleftrightarrow> v = w"
  by (metis getBE_putBE mod_less)

section \<open>List lemmas\<close>

lemma filter_take_while_sorted:
  "(\<And>i j. i < j \<Longrightarrow> j < length xs \<Longrightarrow> P (xs ! j) \<Longrightarrow> P (xs ! i)) \<Longrightarrow>
     filter P xs = takeWhile P xs"
proof (induction xs)
  case Nil
  then show ?case by simp
next
  case (Cons x xs)
  show ?case
  proof (cases "P x")
    case True
    have "\<And>i j. i < j \<Longrightarrow> j < length xs \<Longrightarrow> P (xs ! j) \<Longrightarrow> P (xs ! i)"
      using Cons.prems [of "Suc _" "Suc _"] by auto
    then show ?thesis using True Cons.IH by simp
  next
    case False
    have "\<forall>y \<in> set xs. \<not> P y"
    proof
      fix y
      assume "y \<in> set xs"
      then obtain i where "i < length xs" "y = xs ! i" by (auto simp: in_set_conv_nth)
      then show "\<not> P y" using Cons.prems [of 0 "Suc i"] False by auto
    qed
    then show ?thesis using False by (simp add: filter_empty_conv)
  qed
qed

lemma sorted_wrt_insert_mid:
  assumes "sorted_wrt R (a @ b)" "\<And>x. x \<in> set a \<Longrightarrow> R x y" "\<And>z. z \<in> set b \<Longrightarrow> R y z"
  shows "sorted_wrt R (a @ y # b)"
  using assms by (auto simp: sorted_wrt_append)

lemma sorted_wrt_remove_mid: "sorted_wrt R (a @ y # b) \<Longrightarrow> sorted_wrt R (a @ b)"
  by (auto simp: sorted_wrt_append)

lemma distinct_mset_subset: "mset xs \<subseteq># mset ys \<Longrightarrow> distinct ys \<Longrightarrow> distinct xs"
proof -
  assume "mset xs \<subseteq># mset ys" "distinct ys"
  then obtain zs where "mset ys = mset (xs @ zs)" by (metis ex_mset mset_append subset_mset.le_iff_add)
  then have "distinct (xs @ zs)" using \<open>distinct ys\<close> mset_eq_imp_distinct_iff by blast
  then show "distinct xs" by simp
qed

lemma fold_invariant:
  "P s \<Longrightarrow> (\<And>x s. x \<in> set xs \<Longrightarrow> P s \<Longrightarrow> P (f x s)) \<Longrightarrow> P (fold f xs s)"
  by (induction xs arbitrary: s) auto

end
