(* ===== verification/GoStd.thy ===== *)
theory GoStd
  imports Prelude
begin

text \<open>
  The parts of Go's standard library the modelled code calls: three-way comparison
  (\<^verbatim>\<open>cmp.Compare\<close>, \<^verbatim>\<open>bytes.Compare\<close>), \<^verbatim>\<open>slices.BinarySearchFunc\<close> (the loop of the library),
  \<^verbatim>\<open>slices.SortFunc\<close>, searching and splitting of \<^verbatim>\<open>strings\<close>, number parsing and printing of
  \<^verbatim>\<open>strconv\<close> and \<^verbatim>\<open>encoding/hex\<close>.  The locale \<open>go_comparator\<close> is the contract between a
  comparison function and the search and sort routines; \<open>go_total\<close> adds that equal keys mean equal
  elements, so the unstable sort of the library has only one possible result.
\<close>

section \<open>Comparison\<close>

definition cmp_Compare :: "'a::linorder \<Rightarrow> 'a \<Rightarrow> int" where
  "cmp_Compare a b = (if a < b then -1 else if a > b then 1 else 0)"

fun bytes_Compare :: "bytes \<Rightarrow> bytes \<Rightarrow> int" where
  "bytes_Compare [] [] = 0"
| "bytes_Compare [] (y # ys) = -1"
| "bytes_Compare (x # xs) [] = 1"
| "bytes_Compare (x # xs) (y # ys) =
     (if x < y then -1 else if y < x then 1 else bytes_Compare xs ys)"

lemma bytes_Compare_cases: "bytes_Compare a b \<in> {-1, 0, 1}"
  by (induction a b rule: bytes_Compare.induct) auto

lemma bytes_Compare_eq_0 [simp]: "bytes_Compare a b = 0 \<longleftrightarrow> a = b"
  by (induction a b rule: bytes_Compare.induct) auto

lemma bytes_Compare_refl [simp]: "bytes_Compare a a = 0"
  by simp

lemma bytes_Compare_anti: "bytes_Compare b a = - bytes_Compare a b"
  by (induction a b rule: bytes_Compare.induct) auto

lemma bytes_Compare_less_trans:
  "bytes_Compare a b < 0 \<Longrightarrow> bytes_Compare b c < 0 \<Longrightarrow> bytes_Compare a c < 0"
proof (induction a b arbitrary: c rule: bytes_Compare.induct)
  case (2 y ys)
  then show ?case by (cases c) auto
next
  case (4 x xs y ys)
  then show ?case by (cases c) (auto split: if_splits)
qed auto

lemma bytes_Compare_less_1: "bytes_Compare a b < 0 \<longleftrightarrow> bytes_Compare a b = -1"
  using bytes_Compare_cases [of a b] by auto

section \<open>Binary search and sorting\<close>

text \<open>
  The loop of \<^verbatim>\<open>slices.BinarySearchFunc\<close>: \<open>p h\<close> stands for \<^verbatim>\<open>cmp(x[h], target) < 0\<close>; the
  midpoint \<^verbatim>\<open>int(uint(i+j) >> 1)\<close> does not overflow.
\<close>

function bsearch :: "(nat \<Rightarrow> bool) \<Rightarrow> nat \<Rightarrow> nat \<Rightarrow> nat" where
  "bsearch p i j =
     (if i < j then
        (let h = (i + j) div 2 in if p h then bsearch p (h + 1) j else bsearch p i h)
      else i)"
  by pat_completeness auto
termination
  by (relation "measure (\<lambda>(p, i, j). j - i)") (auto simp: Let_def)

declare bsearch.simps [simp del]

lemma bsearch_bounds: "i \<le> j \<Longrightarrow> i \<le> bsearch p i j \<and> bsearch p i j \<le> j"
proof (induction p i j rule: bsearch.induct)
  case (1 p i j)
  show ?case
  proof (cases "i < j")
    case False
    then have "bsearch p i j = i" by (subst bsearch.simps) simp
    then show ?thesis using False 1 by auto
  next
    case True
    define h where "h = (i + j) div 2"
    have h: "i \<le> h" "h < j" using True by (auto simp: h_def)
    have "p h \<Longrightarrow> h + 1 \<le> bsearch p (h + 1) j \<and> bsearch p (h + 1) j \<le> j"
      using "1.IH"(1) [OF True h_def] h by simp
    moreover have "\<not> p h \<Longrightarrow> i \<le> bsearch p i h \<and> bsearch p i h \<le> h"
      using "1.IH"(2) [OF True h_def] h by simp
    moreover have "bsearch p i j = (if p h then bsearch p (h + 1) j else bsearch p i h)"
      using True by (subst bsearch.simps) (simp add: h_def Let_def)
    ultimately show ?thesis using h by (cases "p h") auto
  qed
qed

lemma bsearch_correct:
  assumes "i \<le> j" and mono: "\<And>a b. a < b \<Longrightarrow> b < j \<Longrightarrow> p b \<Longrightarrow> p a"
  shows "(\<forall>k. i \<le> k \<and> k < bsearch p i j \<longrightarrow> p k) \<and>
    (\<forall>k. bsearch p i j \<le> k \<and> k < j \<longrightarrow> \<not> p k)"
  using assms
proof (induction p i j rule: bsearch.induct)
  case (1 p i j)
  note mono = "1.prems"(2)
  show ?case
  proof (cases "i < j")
    case False
    then have "bsearch p i j = i" by (subst bsearch.simps) simp
    then show ?thesis using False by (metis le_less_trans less_imp_le_nat not_le)
  next
    case True
    define h where "h = (i + j) div 2"
    have h: "i \<le> h" "h < j" using True by (auto simp: h_def)
    have eq: "bsearch p i j = (if p h then bsearch p (h + 1) j else bsearch p i h)"
      using True by (subst bsearch.simps) (simp add: h_def Let_def)
    show ?thesis
    proof (cases "p h")
      case T: True
      have "(\<forall>k. h + 1 \<le> k \<and> k < bsearch p (h + 1) j \<longrightarrow> p k) \<and>
          (\<forall>k. bsearch p (h + 1) j \<le> k \<and> k < j \<longrightarrow> \<not> p k)"
      proof (rule "1.IH"(1) [OF True h_def T])
        show "h + 1 \<le> j" using h by simp
        show "p a" if "a < b" "b < j" "p b" for a b using that by (rule mono)
      qed
      moreover have "p k" if "k \<le> h" for k
        using mono [of k h] that T h by (cases "k = h") auto
      ultimately have "(\<forall>k. i \<le> k \<and> k < bsearch p (h + 1) j \<longrightarrow> p k) \<and>
          (\<forall>k. bsearch p (h + 1) j \<le> k \<and> k < j \<longrightarrow> \<not> p k)"
        by (metis Suc_eq_plus1 not_less_eq_eq)
      then show ?thesis by (simp add: eq T)
    next
      case F: False
      have *: "(\<forall>k. i \<le> k \<and> k < bsearch p i h \<longrightarrow> p k) \<and>
          (\<forall>k. bsearch p i h \<le> k \<and> k < h \<longrightarrow> \<not> p k)"
      proof (rule "1.IH"(2) [OF True h_def F])
        show "i \<le> h" by (rule h)
        show "p a" if "a < b" "b < h" "p b" for a b using mono [of a b] that h by simp
      qed
      have "\<not> p k" if "h \<le> k" "k < j" for k
        using mono [of h k] that F by (cases "k = h") auto
      with * have "(\<forall>k. i \<le> k \<and> k < bsearch p i h \<longrightarrow> p k) \<and>
          (\<forall>k. bsearch p i h \<le> k \<and> k < j \<longrightarrow> \<not> p k)"
        by (meson not_le)
      then show ?thesis by (simp add: eq F)
    qed
  qed
qed

definition slices_BinarySearchFunc :: "'a list \<Rightarrow> 't \<Rightarrow> ('a \<Rightarrow> 't \<Rightarrow> int) \<Rightarrow> nat \<times> bool" where
  "slices_BinarySearchFunc xs t cmp =
     (let i = bsearch (\<lambda>h. cmp (xs ! h) t < 0) 0 (length xs)
      in (i, i < length xs \<and> cmp (xs ! i) t = 0))"

text \<open>
  On a slice where the elements smaller than the target come first, the returned position splits
  the slice into exactly those elements and the rest.
\<close>

lemma BinarySearchFunc_split:
  assumes mono: "\<And>a b. a < b \<Longrightarrow> b < length xs \<Longrightarrow> cmp (xs ! b) t < 0 \<Longrightarrow> cmp (xs ! a) t < 0"
    and i: "i = fst (slices_BinarySearchFunc xs t cmp)"
  shows "i \<le> length xs" "\<forall>x \<in> set (take i xs). cmp x t < 0" "\<forall>x \<in> set (drop i xs). \<not> cmp x t < 0"
    "take i xs = filter (\<lambda>x. cmp x t < 0) xs" "drop i xs = filter (\<lambda>x. \<not> cmp x t < 0) xs"
proof -
  let ?p = "\<lambda>h. cmp (xs ! h) t < 0"
  have i': "i = bsearch ?p 0 (length xs)" by (simp add: i slices_BinarySearchFunc_def Let_def)
  have b: "(\<forall>k. 0 \<le> k \<and> k < i \<longrightarrow> ?p k) \<and> (\<forall>k. i \<le> k \<and> k < length xs \<longrightarrow> \<not> ?p k)"
    unfolding i' by (rule bsearch_correct) (use mono in auto)
  show le: "i \<le> length xs" using bsearch_bounds [of 0 "length xs" ?p] by (simp add: i')
  show t: "\<forall>x \<in> set (take i xs). cmp x t < 0" using b le by (auto simp: in_set_conv_nth)
  show d: "\<forall>x \<in> set (drop i xs). \<not> cmp x t < 0" using b le by (auto simp: in_set_conv_nth)
  have "filter (\<lambda>x. cmp x t < 0) (take i xs @ drop i xs) = take i xs"
    unfolding filter_append using t d by (simp add: filter_empty_conv)
  then show "take i xs = filter (\<lambda>x. cmp x t < 0) xs" by simp
  have "filter (\<lambda>x. \<not> cmp x t < 0) (take i xs @ drop i xs) = drop i xs"
    unfolding filter_append using t d by (simp add: filter_empty_conv)
  then show "drop i xs = filter (\<lambda>x. \<not> cmp x t < 0) xs" by simp
qed

text \<open>
  \<^verbatim>\<open>slices.SortFunc\<close> returns a permutation ordered by the comparison; it is not stable.  The model
  is the insertion sort, and \<open>sort_unique\<close> below says when the choice does not matter.
\<close>

fun insort_func :: "('a \<Rightarrow> 'a \<Rightarrow> int) \<Rightarrow> 'a \<Rightarrow> 'a list \<Rightarrow> 'a list" where
  "insort_func cmp x [] = [x]"
| "insort_func cmp x (y # ys) = (if cmp x y \<le> 0 then x # y # ys else y # insort_func cmp x ys)"

fun slices_SortFunc :: "('a \<Rightarrow> 'a \<Rightarrow> int) \<Rightarrow> 'a list \<Rightarrow> 'a list" where
  "slices_SortFunc cmp [] = []"
| "slices_SortFunc cmp (x # xs) = insort_func cmp x (slices_SortFunc cmp xs)"

lemma mset_insort_func [simp]: "mset (insort_func cmp x xs) = add_mset x (mset xs)"
  by (induction xs) auto

lemma mset_SortFunc [simp]: "mset (slices_SortFunc cmp xs) = mset xs"
  by (induction xs) auto

lemma set_SortFunc [simp]: "set (slices_SortFunc cmp xs) = set xs"
  by (metis mset_SortFunc set_mset_mset)

lemma set_insort_func [simp]: "set (insort_func cmp x xs) = insert x (set xs)"
  by (metis mset_insort_func set_mset_add_mset_insert set_mset_mset)

lemma length_SortFunc [simp]: "length (slices_SortFunc cmp xs) = length xs"
  by (metis mset_SortFunc size_mset)

locale go_comparator =
  fixes cmp :: "'a \<Rightarrow> 'a \<Rightarrow> int"
  assumes cmp_anti: "cmp b a = - cmp a b"
    and cmp_trans: "cmp a b \<le> 0 \<Longrightarrow> cmp b c \<le> 0 \<Longrightarrow> cmp a c \<le> 0"
begin

lemma cmp_self: "cmp a a = 0"
  using cmp_anti [of a a] by simp

lemma cmp_less_le_trans: "cmp a b < 0 \<Longrightarrow> cmp b c \<le> 0 \<Longrightarrow> cmp a c < 0"
proof (rule ccontr)
  assume *: "cmp a b < 0" "cmp b c \<le> 0" "\<not> cmp a c < 0"
  then have "cmp c a \<le> 0" using cmp_anti [of c a] by simp
  then have "cmp b a \<le> 0" using *(2) cmp_trans [of b c a] by simp
  then show False using *(1) cmp_anti [of b a] by simp
qed

lemma cmp_le_less_trans: "cmp a b \<le> 0 \<Longrightarrow> cmp b c < 0 \<Longrightarrow> cmp a c < 0"
proof (rule ccontr)
  assume *: "cmp a b \<le> 0" "cmp b c < 0" "\<not> cmp a c < 0"
  then have "cmp c a \<le> 0" using cmp_anti [of c a] by simp
  then have "cmp c b \<le> 0" using *(1) cmp_trans [of c a b] by simp
  then show False using *(2) cmp_anti [of c b] by simp
qed

lemma sorted_insort: "sorted_wrt (\<lambda>a b. cmp a b \<le> 0) xs \<Longrightarrow>
    sorted_wrt (\<lambda>a b. cmp a b \<le> 0) (insort_func cmp x xs)"
proof (induction xs)
  case Nil
  then show ?case by simp
next
  case (Cons y ys)
  show ?case
  proof (cases "cmp x y \<le> 0")
    case True
    then show ?thesis using Cons.prems cmp_trans [of x y] by auto
  next
    case False
    then have "cmp y x \<le> 0" using cmp_anti [of y x] by simp
    then show ?thesis using False Cons by auto
  qed
qed

lemma sorted_SortFunc: "sorted_wrt (\<lambda>a b. cmp a b \<le> 0) (slices_SortFunc cmp xs)"
  by (induction xs) (auto intro: sorted_insort)

lemma search_sorted:
  assumes "sorted_wrt (\<lambda>a b. cmp a b \<le> 0) xs" "i = fst (slices_BinarySearchFunc xs t cmp)"
  shows "i \<le> length xs" "take i xs = filter (\<lambda>x. cmp x t < 0) xs"
    "drop i xs = filter (\<lambda>x. \<not> cmp x t < 0) xs"
proof -
  have mono: "cmp (xs ! a) t < 0" if "a < b" "b < length xs" "cmp (xs ! b) t < 0" for a b
    using sorted_wrt_nth_less [OF assms(1) that(1,2)] that(3) by (rule cmp_le_less_trans)
  show "i \<le> length xs" "take i xs = filter (\<lambda>x. cmp x t < 0) xs"
    "drop i xs = filter (\<lambda>x. \<not> cmp x t < 0) xs"
    using BinarySearchFunc_split [OF _ assms(2)] mono by blast+
qed

text \<open>On a sorted slice the search reports an element of equal key exactly when there is one.\<close>

lemma search_found_iff:
  assumes srt: "sorted_wrt (\<lambda>a b. cmp a b \<le> 0) xs"
  shows "snd (slices_BinarySearchFunc xs t cmp) \<longleftrightarrow> (\<exists>x \<in> set xs. cmp x t = 0)"
proof -
  define i where "i = fst (slices_BinarySearchFunc xs t cmp)"
  note s = search_sorted [OF srt i_def]
  have found: "snd (slices_BinarySearchFunc xs t cmp) \<longleftrightarrow> i < length xs \<and> cmp (xs ! i) t = 0"
    by (simp add: slices_BinarySearchFunc_def Let_def i_def)
  show ?thesis
  proof
    assume "\<exists>x \<in> set xs. cmp x t = 0"
    then obtain x where x: "x \<in> set xs" "cmp x t = 0" by blast
    then have "x \<in> set (drop i xs)" by (simp add: s(3))
    then obtain k where k: "k < length (drop i xs)" "drop i xs ! k = x"
      by (auto simp: in_set_conv_nth)
    then have il: "i < length xs" by simp
    then have hd: "xs ! i \<in> set (drop i xs)"
      by (metis drop_eq_Nil hd_drop_conv_nth hd_in_set leD)
    then have "\<not> cmp (xs ! i) t < 0" by (simp add: s(3))
    moreover have "cmp (xs ! i) x \<le> 0"
    proof (cases k)
      case 0
      then show ?thesis using k il cmp_self by simp
    next
      case (Suc m)
      then show ?thesis using sorted_wrt_nth_less [OF srt, of i "i + k"] k by auto
    qed
    then have "cmp (xs ! i) t \<le> 0" using x(2) cmp_trans [of "xs ! i" x t] by simp
    ultimately show "snd (slices_BinarySearchFunc xs t cmp)" using il by (simp add: found)
  qed (use found in auto)
qed

end

locale go_total = go_comparator +
  assumes cmp_0: "cmp a b = 0 \<Longrightarrow> a = b"
begin

lemma sort_unique:
  "mset ys = mset xs \<Longrightarrow> sorted_wrt (\<lambda>a b. cmp a b \<le> 0) ys \<Longrightarrow> ys = slices_SortFunc cmp xs"
proof -
  have uniq: "ys = zs" if "mset ys = mset zs" "sorted_wrt (\<lambda>a b. cmp a b \<le> 0) ys"
    "sorted_wrt (\<lambda>a b. cmp a b \<le> 0) zs" for ys zs
    using that
  proof (induction ys arbitrary: zs)
    case Nil
    then show ?case by simp
  next
    case (Cons y ys)
    obtain z zs' where zs: "zs = z # zs'" using Cons.prems(1) by (cases zs) auto
    have "z \<in> set (y # ys)" "y \<in> set (z # zs')"
      using Cons.prems(1) zs by (metis list.set_intros(1) set_mset_mset)+
    then have "cmp y z \<le> 0" "cmp z y \<le> 0" using Cons.prems(2,3) zs cmp_self by auto
    then have "y = z" using cmp_anti [of z y] cmp_0 [of y z] by simp
    then show ?case using Cons zs by simp
  qed
  assume "mset ys = mset xs" "sorted_wrt (\<lambda>a b. cmp a b \<le> 0) ys"
  then show ?thesis using uniq sorted_SortFunc [of xs] by simp
qed

end

interpretation bytes_cmp: go_total bytes_Compare
proof
  show "bytes_Compare b a = - bytes_Compare a b" for a b by (rule bytes_Compare_anti)
  show "bytes_Compare a c \<le> 0" if "bytes_Compare a b \<le> 0" "bytes_Compare b c \<le> 0" for a b c
    using that bytes_Compare_less_trans [of a b c] by (auto simp: le_less)
qed auto

interpretation int_cmp: go_total "cmp_Compare :: int \<Rightarrow> int \<Rightarrow> int"
  by unfold_locales (auto simp: cmp_Compare_def split: if_splits)

section \<open>Strings\<close>

definition strings_HasPrefix :: "string \<Rightarrow> string \<Rightarrow> bool" where
  "strings_HasPrefix s p \<longleftrightarrow> take (length p) s = p"

fun strings_Index :: "string \<Rightarrow> string \<Rightarrow> int" where
  "strings_Index [] sub = (if sub = [] then 0 else -1)"
| "strings_Index (c # s) sub =
     (if strings_HasPrefix (c # s) sub then 0
      else let r = strings_Index s sub in if r < 0 then -1 else r + 1)"

definition strings_IndexByte :: "string \<Rightarrow> char \<Rightarrow> int" where
  "strings_IndexByte s c = (if c \<in> set s then int (length (takeWhile (\<lambda>d. d \<noteq> c) s)) else -1)"

definition strings_Contains :: "string \<Rightarrow> string \<Rightarrow> bool" where
  "strings_Contains s sub \<longleftrightarrow> strings_Index s sub \<noteq> -1"

lemma strings_Index_bounds: "-1 \<le> strings_Index s sub \<and> strings_Index s sub \<le> int (length s)"
  by (induction s) (auto simp: Let_def)

lemma strings_Index_found:
  "0 \<le> strings_Index s sub \<Longrightarrow> strings_HasPrefix (drop (nat (strings_Index s sub)) s) sub"
proof (induction s)
  case Nil
  then show ?case by (auto simp: strings_HasPrefix_def split: if_splits)
next
  case (Cons c s)
  then show ?case by (auto simp: Let_def nat_add_distrib split: if_splits)
qed

lemma strings_Index_append: "0 \<le> strings_Index (a @ sub @ b) sub"
proof (induction a)
  case Nil
  have "strings_HasPrefix (sub @ b) sub" by (simp add: strings_HasPrefix_def)
  then show ?case by (cases "sub @ b") (auto simp: strings_HasPrefix_def)
next
  case (Cons c a)
  then show ?case by (auto simp: Let_def)
qed

text \<open>\<^verbatim>\<open>strings.SplitN(s, sep, n)\<close> for a separator of one byte and \<open>n > 0\<close>.\<close>

fun strings_SplitN :: "string \<Rightarrow> char \<Rightarrow> nat \<Rightarrow> string list" where
  "strings_SplitN s c 0 = []"
| "strings_SplitN s c (Suc 0) = [s]"
| "strings_SplitN s c (Suc (Suc n)) =
     (if c \<in> set s
      then takeWhile (\<lambda>d. d \<noteq> c) s # strings_SplitN (tl (dropWhile (\<lambda>d. d \<noteq> c) s)) c (Suc n)
      else [s])"

lemma SplitN_step:
  "c \<notin> set a \<Longrightarrow> strings_SplitN (a @ c # b) c (Suc (Suc n)) = a # strings_SplitN b c (Suc n)"
proof -
  assume c: "c \<notin> set a"
  then have "takeWhile (\<lambda>d. d \<noteq> c) (a @ c # b) = a" "dropWhile (\<lambda>d. d \<noteq> c) (a @ c # b) = c # b"
    by (induction a) auto
  then show ?thesis by simp
qed

text \<open>\<^verbatim>\<open>strings.Split\<close> at a separator of one byte.\<close>

fun strings_Split :: "string \<Rightarrow> char \<Rightarrow> string list" where
  "strings_Split [] c = [[]]"
| "strings_Split (a # s) c =
     (case strings_Split s c of
        p # ps \<Rightarrow> if a = c then [] # p # ps else (a # p) # ps
      | [] \<Rightarrow> [])"

section \<open>Numbers\<close>

definition digit_char :: "nat \<Rightarrow> char" where
  "digit_char d = char_of (48 + d)"

definition char_digit :: "char \<Rightarrow> nat option" where
  "char_digit c = (let n = of_char c :: nat in if 48 \<le> n \<and> n \<le> 57 then Some (n - 48) else None)"

lemma char_digit_digit_char [simp]: "d < 10 \<Longrightarrow> char_digit (digit_char d) = Some d"
  by (simp add: char_digit_def digit_char_def Let_def)

function nat_Itoa :: "nat \<Rightarrow> string" where
  "nat_Itoa n = (if n < 10 then [digit_char n] else nat_Itoa (n div 10) @ [digit_char (n mod 10)])"
  by pat_completeness auto
termination
  by (relation "measure id") auto

declare nat_Itoa.simps [simp del]

text \<open>\<^verbatim>\<open>strconv.Itoa\<close>, \<^verbatim>\<open>strconv.AppendInt(_, v, 10)\<close>.\<close>

definition strconv_Itoa :: "int \<Rightarrow> string" where
  "strconv_Itoa v = (if v < 0 then CHR ''-'' # nat_Itoa (nat (- v)) else nat_Itoa (nat v))"

fun parse_digits :: "nat \<Rightarrow> string \<Rightarrow> nat option" where
  "parse_digits acc [] = Some acc"
| "parse_digits acc (c # s) =
     (case char_digit c of None \<Rightarrow> None | Some d \<Rightarrow> parse_digits (10 * acc + d) s)"

definition parse_nat :: "string \<Rightarrow> nat option" where
  "parse_nat s = (if s = [] then None else parse_digits 0 s)"

lemma parse_digits_append:
  "parse_digits acc (s @ t) = Option.bind (parse_digits acc s) (\<lambda>a. parse_digits a t)"
  by (induction acc s rule: parse_digits.induct) (auto split: option.splits)

lemma nat_Itoa_ne [simp]: "nat_Itoa n \<noteq> []"
  by (subst nat_Itoa.simps) simp

lemma parse_digits_Itoa: "parse_digits 0 (nat_Itoa n) = Some n"
proof (induction n rule: nat_Itoa.induct)
  case (1 n)
  show ?case
  proof (cases "n < 10")
    case True
    then show ?thesis by (subst nat_Itoa.simps) simp
  next
    case False
    then show ?thesis using 1 by (subst nat_Itoa.simps) (simp add: parse_digits_append)
  qed
qed

lemma parse_nat_Itoa [simp]: "parse_nat (nat_Itoa n) = Some n"
  by (simp add: parse_nat_def parse_digits_Itoa)

lemma parse_nat_digits: "parse_digits acc s = Some n \<Longrightarrow> c \<in> set s \<Longrightarrow> char_digit c \<noteq> None"
  by (induction acc s rule: parse_digits.induct) (auto split: option.splits)

lemma Itoa_digits: "c \<in> set (nat_Itoa n) \<Longrightarrow> char_digit c \<noteq> None"
  using parse_nat_digits [OF parse_digits_Itoa] by blast

text \<open>
  \<^verbatim>\<open>strconv.ParseInt(s, 10, 64)\<close> and \<^verbatim>\<open>strconv.Atoi\<close>: the value and whether the error is nil.  On a
  syntax error the value is 0; out of range it is the nearest representable number.
\<close>

definition strconv_ParseInt :: "string \<Rightarrow> int \<times> bool" where
  "strconv_ParseInt s =
     (let (neg, body) = (case s of
          c # t \<Rightarrow> if c = CHR ''-'' then (True, t) else if c = CHR ''+'' then (False, t) else (False, s)
        | [] \<Rightarrow> (False, []))
      in case parse_nat body of
           None \<Rightarrow> (0, False)
         | Some n \<Rightarrow>
             if neg then (if int n > 2 ^ 63 then (- (2 ^ 63), False) else (- int n, True))
             else (if int n \<ge> 2 ^ 63 then (2 ^ 63 - 1, False) else (int n, True)))"

definition strconv_Atoi :: "string \<Rightarrow> int \<times> bool" where
  "strconv_Atoi s = strconv_ParseInt s"

text \<open>\<^verbatim>\<open>strconv.ParseUint(s, 10, 16)\<close>: no sign is accepted.\<close>

definition strconv_ParseUint16 :: "string \<Rightarrow> int \<times> bool" where
  "strconv_ParseUint16 s =
     (case parse_nat s of
        None \<Rightarrow> (0, False)
      | Some n \<Rightarrow> if n \<ge> 2 ^ 16 then (2 ^ 16 - 1, False) else (int n, True))"

lemma ParseInt_Itoa_nat: "int n < 2 ^ 63 \<Longrightarrow> strconv_ParseInt (nat_Itoa n) = (int n, True)"
proof -
  assume n: "int n < 2 ^ 63"
  obtain c t where ct: "nat_Itoa n = c # t" by (cases "nat_Itoa n") auto
  have "char_digit c \<noteq> None" using Itoa_digits [of c n] ct by simp
  then have "c \<noteq> CHR ''-''" "c \<noteq> CHR ''+''" by (auto simp: char_digit_def Let_def)
  moreover have "parse_nat (c # t) = Some n" using parse_nat_Itoa [of n] ct by simp
  ultimately show ?thesis using n by (simp add: strconv_ParseInt_def ct)
qed

lemma ParseInt_Itoa: "in_int64 v \<Longrightarrow> strconv_ParseInt (strconv_Itoa v) = (v, True)"
proof (cases "v < 0")
  case True
  moreover assume "in_int64 v"
  ultimately show ?thesis by (auto simp: strconv_Itoa_def strconv_ParseInt_def in_int64_def)
next
  case False
  moreover assume "in_int64 v"
  ultimately show ?thesis
    using ParseInt_Itoa_nat [of "nat v"] by (auto simp: strconv_Itoa_def in_int64_def)
qed

section \<open>Hexadecimal\<close>

definition hex_digit :: "nat \<Rightarrow> char" where
  "hex_digit d = (if d < 10 then char_of (48 + d) else char_of (87 + d))"

definition hex_value :: "char \<Rightarrow> nat option" where
  "hex_value c =
     (let n = of_char c :: nat in
      if 48 \<le> n \<and> n \<le> 57 then Some (n - 48)
      else if 97 \<le> n \<and> n \<le> 102 then Some (n - 87)
      else if 65 \<le> n \<and> n \<le> 70 then Some (n - 55) else None)"

lemma hex_value_digit [simp]: "d < 16 \<Longrightarrow> hex_value (hex_digit d) = Some d"
  by (simp add: hex_value_def hex_digit_def Let_def)

text \<open>\<^verbatim>\<open>hex.EncodeToString\<close> and \<^verbatim>\<open>hex.DecodeString\<close> of the standard library.\<close>

fun hex_EncodeToString :: "bytes \<Rightarrow> string" where
  "hex_EncodeToString [] = []"
| "hex_EncodeToString (b # bs) =
     hex_digit (unat b div 16) # hex_digit (unat b mod 16) # hex_EncodeToString bs"

fun hex_DecodeString :: "string \<Rightarrow> bytes option" where
  "hex_DecodeString [] = Some []"
| "hex_DecodeString [c] = None"
| "hex_DecodeString (c # d # s) =
     (case (hex_value c, hex_value d, hex_DecodeString s) of
        (Some h, Some l, Some bs) \<Rightarrow> Some (word_of_nat (16 * h + l) # bs)
      | _ \<Rightarrow> None)"

lemma hex_Decode_Encode [simp]: "hex_DecodeString (hex_EncodeToString bs) = Some bs"
proof (induction bs)
  case Nil
  then show ?case by simp
next
  case (Cons b bs)
  have "unat b < 256" using unsigned_less [of b] by simp
  then have "unat b div 16 < 16" by simp
  then show ?case using Cons by simp
qed

lemma length_hex_Encode [simp, len_simps]: "length (hex_EncodeToString bs) = 2 * length bs"
  by (induction bs) auto

lemma length_hex_Decode: "hex_DecodeString s = Some bs \<Longrightarrow> length s = 2 * length bs"
  by (induction s arbitrary: bs rule: hex_DecodeString.induct) (auto split: option.splits)

end
