(* ===== verification/Swar.thy ===== *)
theory Swar
  imports GoStd
begin

text \<open>
  The word-at-a-time scan of \<^verbatim>\<open>event.go\<close>: \<^verbatim>\<open>hasSpecial\<close> tests eight bytes at once for the five bytes that
  the canonical serialization escapes, by the subtract-with-borrow trick.  \<open>hasSpecial_correct\<close> shows
  that the trick is exact: it fires on a word precisely when one of its bytes is special.
\<close>

unbundle bit_operations_syntax

definition match_byte :: "64 word \<Rightarrow> 64 word \<Rightarrow> 64 word" where
  "match_byte w v =
     (let x = w XOR (0x0101010101010101 * v)
      in (x - 0x0101010101010101) AND NOT x AND 0x8080808080808080)"

definition hasSpecial :: "64 word \<Rightarrow> bool" where
  "hasSpecial w \<longleftrightarrow>
     (match_byte w 0x09 OR match_byte w 0x0A OR match_byte w 0x0D OR match_byte w 0x22
       OR match_byte w 0x5C) \<noteq> 0"

text \<open>The eight bytes at a position, loaded as one word (the byte order plays no role in the test).\<close>

definition load64 :: "bytes \<Rightarrow> 64 word" where
  "load64 bs = word_of_nat (getLE bs)"

lemma bit_byte_split: "a < 256 \<Longrightarrow> bit (a + 256 * c) k \<longleftrightarrow> (if k < 8 then bit a k else bit c (k - 8))"
  for a c :: nat
proof -
  assume a: "a < 256"
  have t: "take_bit 8 (a + 256 * c) = a" and d: "drop_bit 8 (a + 256 * c) = c"
    using a by (simp_all add: take_bit_eq_mod drop_bit_eq_div)
  show ?thesis
  proof (cases "k < 8")
    case True
    then have "bit (take_bit 8 (a + 256 * c)) k \<longleftrightarrow> bit (a + 256 * c) k"
      by (simp add: bit_take_bit_iff)
    then show ?thesis using True t by simp
  next
    case False
    then have "bit (drop_bit 8 (a + 256 * c)) (k - 8) \<longleftrightarrow> bit (a + 256 * c) k"
      by (simp add: bit_drop_bit_eq)
    then show ?thesis using False d by simp
  qed
qed

lemma bit_getLE: "bit (getLE bs) k \<longleftrightarrow> k < 8 * length bs \<and> bit (bs ! (k div 8)) (k mod 8)"
proof (induction bs arbitrary: k)
  case Nil
  then show ?case by simp
next
  case (Cons b bs)
  have b: "unat b < 256" using unsigned_less [of b] by simp
  show ?case
  proof (cases "k < 8")
    case True
    then show ?thesis using bit_byte_split [OF b, of "getLE bs" k] by (simp add: bit_unsigned_iff)
  next
    case False
    then have "k div 8 = Suc ((k - 8) div 8)" "k mod 8 = (k - 8) mod 8"
      by (simp_all add: le_div_geq le_mod_geq)
    then show ?thesis using False bit_byte_split [OF b, of "getLE bs" k] Cons.IH [of "k - 8"]
      by auto
  qed
qed

lemma bit_load64: "length bs = 8 \<Longrightarrow> k < 64 \<Longrightarrow> bit (load64 bs) k \<longleftrightarrow> bit (bs ! (k div 8)) (k mod 8)"
  by (simp add: load64_def bit_of_nat_iff bit_getLE possible_bit_def)

fun sub_ones :: "bytes \<Rightarrow> bool \<Rightarrow> bytes" where
  "sub_ones [] br = []"
| "sub_ones (b # bs) br = (b - 1 - of_bool br) # sub_ones bs (unat b < 1 + of_bool br)"

lemma length_sub_ones [simp]: "length (sub_ones bs br) = length bs"
  by (induction bs br rule: sub_ones.induct) auto

lemma sub_byte:
  "int (unat (b - 1 - of_bool br :: byte)) =
     int (unat b) - 1 - of_bool br + 256 * of_bool (unat b < 1 + of_bool br)"
proof -
  have b: "unat b < 256" using unsigned_less [of b] by simp
  show ?thesis
  proof (cases br)
    case True
    have "b - 1 - of_bool br = b - 2" using True by simp
    then show ?thesis using b True by (auto simp: unat_sub_if')
  next
    case False
    then show ?thesis using b by (auto simp: unat_sub_if')
  qed
qed

lemma replicate8: "replicate 8 v = [v, v, v, v, v, v, v, v]"
  by (simp add: numeral_eq_Suc)

lemma nonzero_bit: "w \<noteq> 0 \<longleftrightarrow> (\<exists>k < 64. bit w k)" for w :: "64 word"
proof
  assume "w \<noteq> 0"
  then show "\<exists>k < 64. bit w k" using bit_word_eqI [of w 0] by auto
qed auto

lemma sub_ones_value:
  "\<exists>c. int (getLE (sub_ones bs br)) =
     int (getLE bs) - int (getLE (replicate (length bs) 1)) - of_bool br + 256 ^ length bs * c"
proof (induction bs br rule: sub_ones.induct)
  case (1 br)
  show ?case by (rule exI [of _ "of_bool br"]) simp
next
  case (2 b bs br)
  then obtain c where "int (getLE (sub_ones bs (unat b < 1 + of_bool br))) =
      int (getLE bs) - int (getLE (replicate (length bs) 1)) - of_bool (unat b < 1 + of_bool br)
      + 256 ^ length bs * c" by blast
  then show ?case
    by (intro exI [of _ c]) (simp only: sub_ones.simps getLE.simps of_nat_add of_nat_mult
        sub_byte length_Cons replicate_Suc, simp add: algebra_simps)
qed

lemma load64_sub: "length bs = 8 \<Longrightarrow> load64 bs - 0x0101010101010101 = load64 (sub_ones bs False)"
proof -
  assume n: "length bs = 8"
  obtain c where c: "int (getLE (sub_ones bs False)) =
      int (getLE bs) - int (getLE (replicate (length bs) 1)) - of_bool False + 256 ^ length bs * c"
    using sub_ones_value by blast
  have one: "int (getLE (replicate 8 1)) = 0x0101010101010101"
    by (simp add: replicate8)
  have "(of_int (int (getLE (sub_ones bs False))) :: 64 word)
      = of_int (int (getLE bs) - 0x0101010101010101 + 256 ^ 8 * c)"
    using c one by (simp add: n)
  also have "\<dots> = of_int (int (getLE bs)) - 0x0101010101010101 + of_int (256 ^ 8) * of_int c"
    by (simp only: of_int_add of_int_diff of_int_mult of_int_numeral)
  also have "(of_int (256 ^ 8) :: 64 word) = 0" by simp
  finally show ?thesis by (simp add: load64_def)
qed

lemma load64_xor:
  "length bs = 8 \<Longrightarrow> load64 bs XOR load64 (replicate 8 v) = load64 (map (\<lambda>b. b XOR v) bs)"
  by (rule bit_word_eqI) (simp add: bit_xor_iff bit_load64)

lemma bit7: "bit b 7 \<longleftrightarrow> 128 \<le> unat b" for b :: byte
proof -
  have b: "unat b < 256" using unsigned_less [of b] by simp
  have "bit b 7 \<longleftrightarrow> bit (unat b) 7" by (simp add: bit_unsigned_iff)
  also have "\<dots> \<longleftrightarrow> odd (unat b div 128)" by (simp add: bit_iff_odd)
  also have "\<dots> \<longleftrightarrow> 128 \<le> unat b"
  proof (cases "128 \<le> unat b")
    case True
    then have "unat b div 128 = 1" using b by simp
    then show ?thesis using True by simp
  next
    case False
    then show ?thesis by simp
  qed
  finally show ?thesis .
qed

lemma sub_ones_zero:
  "(\<exists>i < length bs. bit (sub_ones bs False ! i) 7 \<and> \<not> bit (bs ! i) 7) \<longleftrightarrow> 0 \<in> set bs"
proof (induction bs)
  case Nil
  then show ?case by simp
next
  case (Cons b bs)
  show ?case
  proof (cases "b = 0")
    case True
    have "bit (sub_ones (b # bs) False ! 0) 7 \<and> \<not> bit ((b # bs) ! 0) 7"
      using True unat_sub_if' [of "0 :: byte" 1] by (simp add: bit7)
    then show ?thesis using True by (metis length_greater_0_conv list.distinct(1) list.set_intros(1))
  next
    case False
    then have pos: "0 < unat b" by (simp add: unat_gt_0)
    then have "unat (b - 1) = unat b - 1" by (simp add: unat_minus_one False)
    then have no: "\<not> (bit (b - 1) 7 \<and> \<not> bit b 7)" by (auto simp: bit7)
    have "(\<exists>i < length (b # bs). bit (sub_ones (b # bs) False ! i) 7 \<and> \<not> bit ((b # bs) ! i) 7)
        \<longleftrightarrow> (\<exists>i < length bs. bit (sub_ones bs False ! i) 7 \<and> \<not> bit (bs ! i) 7)"
      using no pos by (simp add: Ex_less_Suc2) blast
    then show ?thesis using Cons False by simp
  qed
qed

lemma haszero:
  assumes n: "length bs = 8"
  shows "(load64 bs - 0x0101010101010101) AND NOT (load64 bs) AND 0x8080808080808080 \<noteq> 0 \<longleftrightarrow> 0 \<in> set bs"
proof -
  let ?x = "(load64 bs - 0x0101010101010101) AND NOT (load64 bs) AND 0x8080808080808080"
  have m: "(0x8080808080808080 :: 64 word) = load64 (replicate 8 0x80)"
    by (simp add: load64_def replicate8)
  have hi: "bit (0x80 :: byte) j \<longleftrightarrow> j = 7" if "j < 8" for j
  proof -
    have "j \<in> {0,1,2,3,4,5,6,7}" using that by auto
    then show ?thesis by auto
  qed
  have bits: "bit ?x k \<longleftrightarrow> bit (sub_ones bs False ! (k div 8)) (k mod 8)
      \<and> \<not> bit (bs ! (k div 8)) (k mod 8) \<and> k mod 8 = 7" if "k < 64" for k
    unfolding load64_sub [OF n] m
    using that n hi [of "k mod 8"] by (simp add: bit_and_iff bit_not_iff bit_load64 possible_bit_def)
  have "?x \<noteq> 0 \<longleftrightarrow> (\<exists>k < 64. bit ?x k)"
    by (rule nonzero_bit)
  also have "\<dots> \<longleftrightarrow> (\<exists>i < 8. bit (sub_ones bs False ! i) 7 \<and> \<not> bit (bs ! i) 7)"
  proof
    assume "\<exists>k < 64. bit ?x k"
    then obtain k where "k < 64" "bit ?x k" by blast
    then show "\<exists>i < 8. bit (sub_ones bs False ! i) 7 \<and> \<not> bit (bs ! i) 7"
      using bits [of k] by (intro exI [of _ "k div 8"]) auto
  next
    assume "\<exists>i < 8. bit (sub_ones bs False ! i) 7 \<and> \<not> bit (bs ! i) 7"
    then obtain i where "i < 8" "bit (sub_ones bs False ! i) 7" "\<not> bit (bs ! i) 7" by blast
    then show "\<exists>k < 64. bit ?x k" using bits [of "8 * i + 7"] by (intro exI [of _ "8 * i + 7"]) auto
  qed
  also have "\<dots> \<longleftrightarrow> 0 \<in> set bs" using sub_ones_zero [of bs] n by simp
  finally show ?thesis .
qed

lemma match_byte_correct:
  assumes n: "length bs = 8" and v: "0x0101010101010101 * w = load64 (replicate 8 v)"
  shows "match_byte (load64 bs) w \<noteq> 0 \<longleftrightarrow> v \<in> set bs"
proof -
  have "match_byte (load64 bs) w \<noteq> 0 \<longleftrightarrow> 0 \<in> set (map (\<lambda>b. b XOR v) bs)"
    using haszero [of "map (\<lambda>b. b XOR v) bs"] n by (simp add: match_byte_def Let_def v load64_xor)
  also have "\<dots> \<longleftrightarrow> v \<in> set bs"
  proof -
    have "b XOR v = 0 \<longleftrightarrow> b = v" for b :: byte
      by (metis xor_self_eq xor.assoc xor.left_neutral xor.right_neutral)
    then show ?thesis by auto
  qed
  finally show ?thesis .
qed

lemma hasSpecial_correct:
  assumes "length bs = 8"
  shows "hasSpecial (load64 bs) \<longleftrightarrow> (\<exists>b \<in> set bs. b \<in> {0x09, 0x0A, 0x0D, 0x22, 0x5C})"
proof -
  have or0: "a OR b \<noteq> 0 \<longleftrightarrow> a \<noteq> 0 \<or> b \<noteq> 0" for a b :: "64 word"
    unfolding nonzero_bit by (auto simp: bit_or_iff)
  have m: "match_byte (load64 bs) 0x09 \<noteq> 0 \<longleftrightarrow> 0x09 \<in> set bs"
    "match_byte (load64 bs) 0x0A \<noteq> 0 \<longleftrightarrow> 0x0A \<in> set bs"
    "match_byte (load64 bs) 0x0D \<noteq> 0 \<longleftrightarrow> 0x0D \<in> set bs"
    "match_byte (load64 bs) 0x22 \<noteq> 0 \<longleftrightarrow> 0x22 \<in> set bs"
    "match_byte (load64 bs) 0x5C \<noteq> 0 \<longleftrightarrow> 0x5C \<in> set bs"
    by (rule match_byte_correct [OF assms], simp add: load64_def replicate8)+
  show ?thesis unfolding hasSpecial_def or0 m by auto
qed

end
