(* ===== verification/Kinds.thy ===== *)
theory Kinds
  imports GoStd
begin

text \<open>
  \<^verbatim>\<open>kinds.go\<close>: the event kind number, the classes a kind falls in (regular, replaceable,
  ephemeral, addressable), the table of kind constants and the name a kind prints as.  The switch of
  \<^verbatim>\<open>Name\<close> is transcribed case by case, in order, in consecutive parts; each case shows the
  value of the constant it names (the constants are the tables at the end).
\<close>

text \<open>\<^verbatim>\<open>type Kind uint16\<close>\<close>

type_synonym Kind = "16 word"

definition IsRegular :: "Kind \<Rightarrow> bool" where
  "IsRegular kind \<longleftrightarrow> kind < 10000 \<and> kind \<noteq> 0 \<and> kind \<noteq> 3"

definition IsReplaceable :: "Kind \<Rightarrow> bool" where
  "IsReplaceable kind \<longleftrightarrow> kind = 0 \<or> kind = 3 \<or> (10000 \<le> kind \<and> kind < 20000)"

definition IsEphemeral :: "Kind \<Rightarrow> bool" where
  "IsEphemeral kind \<longleftrightarrow> 20000 \<le> kind \<and> kind < 30000"

definition IsAddressable :: "Kind \<Rightarrow> bool" where
  "IsAddressable kind \<longleftrightarrow> 30000 \<le> kind \<and> kind < 40000"

lemmas kind_class_defs = IsRegular_def IsReplaceable_def IsEphemeral_def IsAddressable_def

section \<open>The names\<close>

definition kind_name_1 :: "nat \<Rightarrow> string option" where
  "kind_name_1 kind =
     (if kind = 0 then Some ''ProfileMetadata''
      else if kind = 1 then Some ''TextNote''
      else if kind = 2 then Some ''RecommendServer''
      else if kind = 3 then Some ''FollowList''
      else if kind = 4 then Some ''EncryptedDirectMessage''
      else if kind = 5 then Some ''Deletion''
      else if kind = 6 then Some ''Repost''
      else if kind = 7 then Some ''Reaction''
      else if kind = 8 then Some ''BadgeAward''
      else if kind = 9 then Some ''SimpleGroupChatMessage''
      else if kind = 10 then Some ''SimpleGroupThreadedReply''
      else if kind = 11 then Some ''SimpleGroupThread''
      else if kind = 12 then Some ''SimpleGroupReply''
      else if kind = 13 then Some ''Seal''
      else if kind = 14 then Some ''DirectMessage''
      else if kind = 15 then Some ''FileMessage''
      else if kind = 16 then Some ''GenericRepost''
      else if kind = 17 then Some ''ReactionToWebsite''
      else if kind = 20 then Some ''Photo''
      else if kind = 21 then Some ''NormalVideoEvent''
      else if kind = 34236 then Some ''ShortVideoEvent''
      else if kind = 24 then Some ''PublicMessage''
      else if kind = 40 then Some ''ChannelCreation''
      else if kind = 41 then Some ''ChannelMetadata''
      else if kind = 42 then Some ''ChannelMessage''
      else if kind = 43 then Some ''ChannelHideMessage''
      else if kind = 44 then Some ''ChannelMuteUser''
      else if kind = 54 then Some ''PodcastEpisode''
      else if kind = 64 then Some ''Chess''
      else if kind = 818 then Some ''MergeRequests''
      else if kind = 1018 then Some ''PollResponse''
      else None)"

definition kind_name_2 :: "nat \<Rightarrow> string option" where
  "kind_name_2 kind =
     (if kind = 1021 then Some ''Bid''
      else if kind = 1022 then Some ''BidConfirmation''
      else if kind = 1040 then Some ''OpenTimestamps''
      else if kind = 1059 then Some ''GiftWrap''
      else if kind = 1063 then Some ''FileMetadata''
      else if kind = 1068 then Some ''Poll''
      else if kind = 1111 then Some ''Comment''
      else if kind = 1222 then Some ''VoiceMessage''
      else if kind = 1227 then Some ''Scroll''
      else if kind = 1244 then Some ''VoiceMessageComment''
      else if kind = 1311 then Some ''LiveChatMessage''
      else if kind = 1337 then Some ''CodeSnippet''
      else if kind = 1617 then Some ''Patch''
      else if kind = 1618 then Some ''GitPullRequest''
      else if kind = 1619 then Some ''GitPullRequestUpdate''
      else if kind = 1621 then Some ''Issue''
      else if kind = 1622 then Some ''Reply''
      else if kind = 1630 then Some ''StatusOpen''
      else if kind = 1631 then Some ''StatusApplied''
      else if kind = 1632 then Some ''StatusClosed''
      else if kind = 1633 then Some ''StatusDraft''
      else if kind = 1971 then Some ''ProblemTracker''
      else if kind = 1984 then Some ''Reporting''
      else if kind = 1985 then Some ''Label''
      else if kind = 1986 then Some ''RelayReviews''
      else if kind = 1987 then Some ''AIEmbeddings''
      else if kind = 2003 then Some ''Torrent''
      else if kind = 2004 then Some ''TorrentComment''
      else if kind = 2022 then Some ''CoinjoinPool''
      else if kind = 4454 then Some ''DecoupledKeyClientAnnouncement''
      else if kind = 4455 then Some ''DecoupledEncryptionKeyDistribution''
      else None)"

definition kind_name_3 :: "nat \<Rightarrow> string option" where
  "kind_name_3 kind =
     (if kind = 4550 then Some ''CommunityPostApproval''
      else if kind = 7000 then Some ''JobFeedback''
      else if kind = 7374 then Some ''ReservedCashuWalletTokens''
      else if kind = 7375 then Some ''CashuWalletTokens''
      else if kind = 7376 then Some ''CashuWalletHistory''
      else if kind = 7516 then Some ''GeocacheLog''
      else if kind = 7517 then Some ''GeocacheProofOfFind''
      else if kind = 9000 then Some ''SimpleGroupPutUser''
      else if kind = 9001 then Some ''SimpleGroupRemoveUser''
      else if kind = 9002 then Some ''SimpleGroupEditMetadata''
      else if kind = 9005 then Some ''SimpleGroupDeleteEvent''
      else if kind = 9007 then Some ''SimpleGroupCreateGroup''
      else if kind = 9008 then Some ''SimpleGroupDeleteGroup''
      else if kind = 9009 then Some ''SimpleGroupCreateInvite''
      else if kind = 9010 then Some ''SimpleGroupUpdatePinList''
      else if kind = 9021 then Some ''SimpleGroupJoinRequest''
      else if kind = 9022 then Some ''SimpleGroupLeaveRequest''
      else if kind = 9041 then Some ''ZapGoal''
      else if kind = 9321 then Some ''NutZap''
      else if kind = 9467 then Some ''TidalLogin''
      else if kind = 9734 then Some ''ZapRequest''
      else if kind = 9735 then Some ''Zap''
      else if kind = 9802 then Some ''Highlights''
      else if kind = 10000 then Some ''MuteList''
      else if kind = 10001 then Some ''PinList''
      else if kind = 10002 then Some ''RelayListMetadata''
      else if kind = 10003 then Some ''BookmarkList''
      else if kind = 10004 then Some ''CommunityList''
      else if kind = 10005 then Some ''PublicChatList''
      else if kind = 10006 then Some ''BlockedRelayList''
      else if kind = 10007 then Some ''SearchRelayList''
      else None)"

definition kind_name_4 :: "nat \<Rightarrow> string option" where
  "kind_name_4 kind =
     (if kind = 10009 then Some ''SimpleGroupList''
      else if kind = 10012 then Some ''FavoriteRelaysList''
      else if kind = 10013 then Some ''PrivateEventRelayList''
      else if kind = 10015 then Some ''InterestList''
      else if kind = 10019 then Some ''NutZapInfo''
      else if kind = 10020 then Some ''MediaFollows''
      else if kind = 10030 then Some ''EmojiList''
      else if kind = 10044 then Some ''DecoupledKeyAnnouncement''
      else if kind = 10050 then Some ''DMRelayList''
      else if kind = 10054 then Some ''FavoritePodcasts''
      else if kind = 10063 then Some ''UserServerList''
      else if kind = 10096 then Some ''FileStorageServerList''
      else if kind = 10101 then Some ''GoodWikiAuthorList''
      else if kind = 10102 then Some ''GoodWikiRelayList''
      else if kind = 10154 then Some ''PodcastMetadata''
      else if kind = 10164 then Some ''AuthoredPodcasts''
      else if kind = 10166 then Some ''RelayMonitorAnnouncement''
      else if kind = 10312 then Some ''RoomPresence''
      else if kind = 10317 then Some ''UserGraspList''
      else if kind = 10377 then Some ''ProxyAnnouncement''
      else if kind = 11111 then Some ''TransportMethodAnnouncement''
      else if kind = 13194 then Some ''NWCWalletInfo''
      else if kind = 15128 then Some ''NsiteRoot''
      else if kind = 17375 then Some ''CashuWalletEvent''
      else if kind = 21000 then Some ''LightningPubRPC''
      else if kind = 22242 then Some ''ClientAuthentication''
      else if kind = 23194 then Some ''NWCWalletRequest''
      else if kind = 23195 then Some ''NWCWalletResponse''
      else if kind = 24133 then Some ''NostrConnect''
      else if kind = 24242 then Some ''Blobs''
      else if kind = 27235 then Some ''HTTPAuth''
      else None)"

definition kind_name_5 :: "nat \<Rightarrow> string option" where
  "kind_name_5 kind =
     (if kind = 30000 then Some ''CategorizedPeopleList''
      else if kind = 30001 then Some ''CategorizedBookmarksList''
      else if kind = 30002 then Some ''RelaySets''
      else if kind = 30003 then Some ''BookmarkSets''
      else if kind = 30004 then Some ''CuratedSets''
      else if kind = 30005 then Some ''CuratedVideoSets''
      else if kind = 30007 then Some ''MuteSets''
      else if kind = 30008 then Some ''ProfileBadges''
      else if kind = 30009 then Some ''BadgeDefinition''
      else if kind = 30015 then Some ''InterestSets''
      else if kind = 30017 then Some ''StallDefinition''
      else if kind = 30018 then Some ''ProductDefinition''
      else if kind = 30019 then Some ''MarketplaceUI''
      else if kind = 30020 then Some ''ProductSoldAsAuction''
      else if kind = 30023 then Some ''Article''
      else if kind = 30024 then Some ''DraftArticle''
      else if kind = 30030 then Some ''EmojiSets''
      else if kind = 30040 then Some ''ModularArticleHeader''
      else if kind = 30041 then Some ''ModularArticleContent''
      else if kind = 30063 then Some ''ReleaseArtifactSets''
      else if kind = 30078 then Some ''ApplicationSpecificData''
      else if kind = 30166 then Some ''RelayDiscovery''
      else if kind = 30267 then Some ''AppCurationSet''
      else if kind = 30311 then Some ''LiveEvent''
      else if kind = 30312 then Some ''InteractiveRoom''
      else if kind = 30313 then Some ''ConferenceEvent''
      else if kind = 30315 then Some ''UserStatuses''
      else if kind = 30388 then Some ''SlideSet''
      else if kind = 30402 then Some ''ClassifiedListing''
      else if kind = 30403 then Some ''DraftClassifiedListing''
      else if kind = 30617 then Some ''RepositoryAnnouncement''
      else None)"

definition kind_name_6 :: "nat \<Rightarrow> string option" where
  "kind_name_6 kind =
     (if kind = 30618 then Some ''RepositoryState''
      else if kind = 30818 then Some ''WikiArticle''
      else if kind = 30819 then Some ''Redirects''
      else if kind = 31234 then Some ''DraftEvent''
      else if kind = 31388 then Some ''LinkSet''
      else if kind = 31890 then Some ''Feed''
      else if kind = 31922 then Some ''DateCalendarEvent''
      else if kind = 31923 then Some ''TimeCalendarEvent''
      else if kind = 31924 then Some ''Calendar''
      else if kind = 31925 then Some ''CalendarEventRSVP''
      else if kind = 31989 then Some ''HandlerRecommendation''
      else if kind = 31990 then Some ''HandlerInformation''
      else if kind = 32267 then Some ''SoftwareApplication''
      else if kind = 34128 then Some ''LegacyNsiteFile''
      else if kind = 34237 then Some ''VideoViewEvent''
      else if kind = 34550 then Some ''CommunityDefinition''
      else if kind = 35128 then Some ''NsiteNamed''
      else if kind = 37515 then Some ''GeocacheListing''
      else if kind = 37516 then Some ''GeocacheLogEntry''
      else if kind = 38172 then Some ''CashuMintAnnouncement''
      else if kind = 38173 then Some ''FedimintAnnouncement''
      else if kind = 38383 then Some ''PeerToPeerOrderEvents''
      else if kind = 39000 then Some ''SimpleGroupMetadata''
      else if kind = 39001 then Some ''SimpleGroupAdmins''
      else if kind = 39002 then Some ''SimpleGroupMembers''
      else if kind = 39003 then Some ''SimpleGroupRoles''
      else if kind = 39004 then Some ''SimpleGroupLiveKitParticipants''
      else if kind = 39005 then Some ''SimpleGroupPinnedEvents''
      else if kind = 39089 then Some ''StarterPacks''
      else if kind = 39092 then Some ''MediaStarterPacks''
      else if kind = 39701 then Some ''WebBookmarks''
      else None)"

definition kind_Name :: "Kind \<Rightarrow> string" where
  "kind_Name kind =
     (let k = unat kind in
      case kind_name_1 k of Some n \<Rightarrow> n | None \<Rightarrow>
      case kind_name_2 k of Some n \<Rightarrow> n | None \<Rightarrow>
      case kind_name_3 k of Some n \<Rightarrow> n | None \<Rightarrow>
      case kind_name_4 k of Some n \<Rightarrow> n | None \<Rightarrow>
      case kind_name_5 k of Some n \<Rightarrow> n | None \<Rightarrow>
      case kind_name_6 k of Some n \<Rightarrow> n | None \<Rightarrow> ''unknown'')"

definition kind_String :: "Kind \<Rightarrow> string" where
  "kind_String kind = ''kind::'' @ kind_Name kind @ ''<'' @ strconv_Itoa (int (unat kind)) @ ''>''"

section \<open>The constants\<close>

definition kind_constants_1 :: "(string \<times> nat) list" where
  "kind_constants_1 = [
    (''KindProfileMetadata'', 0), (''KindTextNote'', 1), (''KindRecommendServer'', 2),
     (''KindFollowList'', 3), (''KindEncryptedDirectMessage'', 4), (''KindDeletion'', 5),
     (''KindRepost'', 6), (''KindReaction'', 7), (''KindBadgeAward'', 8),
     (''KindSimpleGroupChatMessage'', 9), (''KindSimpleGroupThreadedReply'', 10),
     (''KindSimpleGroupThread'', 11), (''KindSimpleGroupReply'', 12), (''KindSeal'', 13),
     (''KindDirectMessage'', 14), (''KindGenericRepost'', 16), (''KindReactionToWebsite'', 17),
     (''KindChannelCreation'', 40), (''KindChannelMetadata'', 41), (''KindChannelMessage'', 42),
     (''KindChannelHideMessage'', 43), (''KindChannelMuteUser'', 44), (''KindChess'', 64),
     (''KindMergeRequests'', 818), (''KindComment'', 1111), (''KindBid'', 1021),
     (''KindBidConfirmation'', 1022), (''KindOpenTimestamps'', 1040), (''KindGiftWrap'', 1059),
     (''KindFileMetadata'', 1063), (''KindLiveChatMessage'', 1311), (''KindPatch'', 1617),
     (''KindIssue'', 1621), (''KindReply'', 1622), (''KindStatusOpen'', 1630), (''KindStatusApplied'', 1631),
     (''KindStatusClosed'', 1632), (''KindStatusDraft'', 1633), (''KindProblemTracker'', 1971),
     (''KindReporting'', 1984), (''KindLabel'', 1985), (''KindRelayReviews'', 1986),
     (''KindAIEmbeddings'', 1987), (''KindTorrent'', 2003), (''KindTorrentComment'', 2004),
     (''KindCoinjoinPool'', 2022), (''KindCommunityPostApproval'', 4550)]"

definition kind_constants_2 :: "(string \<times> nat) list" where
  "kind_constants_2 = [
    (''KindJobFeedback'', 7000), (''KindSimpleGroupPutUser'', 9000), (''KindSimpleGroupRemoveUser'', 9001),
     (''KindSimpleGroupEditMetadata'', 9002), (''KindSimpleGroupDeleteEvent'', 9005),
     (''KindSimpleGroupCreateGroup'', 9007), (''KindSimpleGroupDeleteGroup'', 9008),
     (''KindSimpleGroupCreateInvite'', 9009), (''KindSimpleGroupUpdatePinList'', 9010),
     (''KindSimpleGroupJoinRequest'', 9021), (''KindSimpleGroupLeaveRequest'', 9022),
     (''KindZapGoal'', 9041), (''KindNutZap'', 9321), (''KindTidalLogin'', 9467), (''KindZapRequest'', 9734),
     (''KindZap'', 9735), (''KindHighlights'', 9802), (''KindMuteList'', 10000), (''KindPinList'', 10001),
     (''KindRelayListMetadata'', 10002), (''KindBookmarkList'', 10003), (''KindCommunityList'', 10004),
     (''KindPublicChatList'', 10005), (''KindBlockedRelayList'', 10006), (''KindSearchRelayList'', 10007),
     (''KindSimpleGroupList'', 10009), (''KindInterestList'', 10015), (''KindNutZapInfo'', 10019),
     (''KindEmojiList'', 10030), (''KindDMRelayList'', 10050), (''KindUserServerList'', 10063),
     (''KindFileStorageServerList'', 10096), (''KindGoodWikiAuthorList'', 10101),
     (''KindGoodWikiRelayList'', 10102), (''KindNWCWalletInfo'', 13194), (''KindLightningPubRPC'', 21000),
     (''KindClientAuthentication'', 22242), (''KindNWCWalletRequest'', 23194),
     (''KindNWCWalletResponse'', 23195), (''KindNostrConnect'', 24133), (''KindBlobs'', 24242),
     (''KindHTTPAuth'', 27235), (''KindCategorizedPeopleList'', 30000),
     (''KindCategorizedBookmarksList'', 30001), (''KindRelaySets'', 30002), (''KindBookmarkSets'', 30003),
     (''KindCuratedSets'', 30004)]"

definition kind_constants_3 :: "(string \<times> nat) list" where
  "kind_constants_3 = [
    (''KindCuratedVideoSets'', 30005), (''KindMuteSets'', 30007), (''KindProfileBadges'', 30008),
     (''KindBadgeDefinition'', 30009), (''KindInterestSets'', 30015), (''KindStallDefinition'', 30017),
     (''KindProductDefinition'', 30018), (''KindMarketplaceUI'', 30019),
     (''KindProductSoldAsAuction'', 30020), (''KindArticle'', 30023), (''KindDraftArticle'', 30024),
     (''KindEmojiSets'', 30030), (''KindModularArticleHeader'', 30040),
     (''KindModularArticleContent'', 30041), (''KindReleaseArtifactSets'', 30063),
     (''KindApplicationSpecificData'', 30078), (''KindLiveEvent'', 30311), (''KindUserStatuses'', 30315),
     (''KindClassifiedListing'', 30402), (''KindDraftClassifiedListing'', 30403),
     (''KindRepositoryAnnouncement'', 30617), (''KindRepositoryState'', 30618),
     (''KindSimpleGroupMetadata'', 39000), (''KindSimpleGroupAdmins'', 39001),
     (''KindSimpleGroupMembers'', 39002), (''KindSimpleGroupRoles'', 39003),
     (''KindSimpleGroupLiveKitParticipants'', 39004), (''KindSimpleGroupPinnedEvents'', 39005),
     (''KindWikiArticle'', 30818), (''KindRedirects'', 30819), (''KindFeed'', 31890),
     (''KindDateCalendarEvent'', 31922), (''KindTimeCalendarEvent'', 31923), (''KindCalendar'', 31924),
     (''KindCalendarEventRSVP'', 31925), (''KindHandlerRecommendation'', 31989),
     (''KindHandlerInformation'', 31990), (''KindVideoEvent'', 34235), (''KindShortVideoEvent'', 34236),
     (''KindFileMessage'', 15), (''KindPhoto'', 20), (''KindNormalVideoEvent'', 21),
     (''KindPublicMessage'', 24), (''KindPodcastEpisode'', 54), (''KindCodeSnippet'', 1337),
     (''KindGitPullRequest'', 1618), (''KindGitPullRequestUpdate'', 1619)]"

definition kind_constants_4 :: "(string \<times> nat) list" where
  "kind_constants_4 = [
    (''KindPollResponse'', 1018), (''KindPoll'', 1068), (''KindVoiceMessage'', 1222), (''KindScroll'', 1227),
     (''KindVoiceMessageComment'', 1244), (''KindDecoupledKeyClientAnnouncement'', 4454),
     (''KindDecoupledEncryptionKeyDistribution'', 4455), (''KindReservedCashuWalletTokens'', 7374),
     (''KindCashuWalletTokens'', 7375), (''KindCashuWalletHistory'', 7376), (''KindGeocacheLog'', 7516),
     (''KindGeocacheProofOfFind'', 7517), (''KindFavoriteRelaysList'', 10012),
     (''KindPrivateEventRelayList'', 10013), (''KindMediaFollows'', 10020),
     (''KindDecoupledKeyAnnouncement'', 10044), (''KindFavoritePodcasts'', 10054),
     (''KindPodcastMetadata'', 10154), (''KindAuthoredPodcasts'', 10164),
     (''KindRelayMonitorAnnouncement'', 10166), (''KindRoomPresence'', 10312),
     (''KindUserGraspList'', 10317), (''KindProxyAnnouncement'', 10377),
     (''KindTransportMethodAnnouncement'', 11111), (''KindNsiteRoot'', 15128),
     (''KindCashuWalletEvent'', 17375), (''KindRelayDiscovery'', 30166), (''KindAppCurationSet'', 30267),
     (''KindInteractiveRoom'', 30312), (''KindConferenceEvent'', 30313), (''KindSlideSet'', 30388),
     (''KindDraftEvent'', 31234), (''KindLinkSet'', 31388), (''KindSoftwareApplication'', 32267),
     (''KindLegacyNsiteFile'', 34128), (''KindNsiteNamed'', 35128), (''KindGeocacheListing'', 37515),
     (''KindGeocacheLogEntry'', 37516), (''KindCashuMintAnnouncement'', 38172),
     (''KindFedimintAnnouncement'', 38173), (''KindPeerToPeerOrderEvents'', 38383),
     (''KindStarterPacks'', 39089), (''KindMediaStarterPacks'', 39092), (''KindWebBookmarks'', 39701),
     (''KindVideoViewEvent'', 34237), (''KindCommunityDefinition'', 34550)]"

definition kind_constants :: "(string \<times> nat) list" where
  "kind_constants = kind_constants_1 @ kind_constants_2 @ kind_constants_3 @ kind_constants_4"

section \<open>Facts\<close>

lemma kind_classes_disjoint:
  "\<not> (IsRegular k \<and> IsReplaceable k)" "\<not> (IsRegular k \<and> IsEphemeral k)"
  "\<not> (IsRegular k \<and> IsAddressable k)" "\<not> (IsReplaceable k \<and> IsEphemeral k)"
  "\<not> (IsReplaceable k \<and> IsAddressable k)" "\<not> (IsEphemeral k \<and> IsAddressable k)"
  unfolding kind_class_defs by unat_arith+

lemma kind_classes_cover:
  "k < 40000 \<Longrightarrow> IsRegular k \<or> IsReplaceable k \<or> IsEphemeral k \<or> IsAddressable k"
  unfolding kind_class_defs by unat_arith

lemma kind_above_unclassified:
  "40000 \<le> k \<Longrightarrow> \<not> IsRegular k \<and> \<not> IsReplaceable k \<and> \<not> IsEphemeral k \<and> \<not> IsAddressable k"
  unfolding kind_class_defs by unat_arith

lemmas kind_name_parts = kind_name_1_def kind_name_2_def kind_name_3_def kind_name_4_def kind_name_5_def kind_name_6_def

definition kind_name_ok :: "string \<times> nat \<Rightarrow> bool" where
  "kind_name_ok cv \<longleftrightarrow>
     fst cv = ''KindVideoEvent'' \<or> ''Kind'' @ kind_Name (word_of_nat (snd cv)) = fst cv"

lemma kind_name_ok_1: "list_all kind_name_ok kind_constants_1"
  by (simp add: kind_constants_1_def kind_name_ok_def kind_Name_def Let_def kind_name_parts)

lemma kind_name_ok_2: "list_all kind_name_ok kind_constants_2"
  by (simp add: kind_constants_2_def kind_name_ok_def kind_Name_def Let_def kind_name_parts)

lemma kind_name_ok_3: "list_all kind_name_ok kind_constants_3"
  by (simp add: kind_constants_3_def kind_name_ok_def kind_Name_def Let_def kind_name_parts)

lemma kind_name_ok_4: "list_all kind_name_ok kind_constants_4"
  by (simp add: kind_constants_4_def kind_name_ok_def kind_Name_def Let_def kind_name_parts)

section \<open>Properties\<close>

text \<open>every kind below 40000 belongs to exactly one of the four classes regular, replaceable, ephemeral
  and addressable, and every kind from 40000 on belongs to none of them.\<close>

theorem kind_class_unique:
  "length (filter id [IsRegular k, IsReplaceable k, IsEphemeral k, IsAddressable k]) = (if k < 40000 then 1 else 0)"
proof (cases "k < 40000")
  case True
  then show ?thesis using kind_classes_disjoint [of k] kind_classes_cover [of k] by auto
next
  case False
  then have "40000 \<le> k" by (rule leI)
  then show ?thesis using False kind_above_unclassified [of k] by simp
qed

end
