(* ===== verification/Ident.thy ===== *)
theory Ident
  imports Kinds
begin

text \<open>
  Identifiers: \<^verbatim>\<open>types.go\<close> (event ids), \<^verbatim>\<open>keys.go\<close> (public keys) and the hex helpers of
  \<^verbatim>\<open>utils.go\<close>.  Ids and keys are 32-byte arrays, read as byte lists; \<open>wf32\<close> is the array's length.

  The packages the repository imports and does not contain are the fields of \<open>ext\<close>: the hex
  codec \<^verbatim>\<open>github.com/templexxx/xhex\<close>, the public key check \<^verbatim>\<open>schnorr.ParsePubKey\<close> of btcec, the URL parser
  and the hash function.  The locale \<open>hex_codec\<close> is what the callers rely on in the codec.
\<close>

record ext =
  xhex_Encode :: "bytes \<Rightarrow> string"
  xhex_Decode :: "string \<Rightarrow> bytes option"
  ParsePubKey :: "bytes \<Rightarrow> bool"           \<comment> \<open>whether the error is nil\<close>
  url_Scheme :: "string \<Rightarrow> string option"  \<comment> \<open>\<^verbatim>\<open>url.Parse(u)\<close>, its scheme\<close>
  sha256_Sum :: "bytes \<Rightarrow> bytes"

locale hex_codec =
  fixes enc :: "bytes \<Rightarrow> string" and dec :: "string \<Rightarrow> bytes option"
  assumes dec_enc: "dec (enc bs) = Some bs"
    and len_enc: "length (enc bs) = 2 * length bs"
    and len_dec: "dec s = Some bs \<Longrightarrow> length s = 2 * length bs"
    and enc_digits: "c \<in> set (enc bs) \<Longrightarrow> of_char c \<in> {48..57} \<union> {97..102::nat}"
begin

lemma enc_inj: "enc a = enc b \<longleftrightarrow> a = b"
  by (metis dec_enc option.inject)

lemma enc_no_colon: "CHR '':'' \<notin> set (enc bs)"
  using enc_digits [of "CHR '':''" bs] by auto

end

lemma hex_digit_code: "d < 16 \<Longrightarrow> of_char (hex_digit d) \<in> {48..57} \<union> {97..102::nat}"
  by (auto simp: hex_digit_def)

lemma hex_Encode_digits: "c \<in> set (hex_EncodeToString bs) \<Longrightarrow> of_char c \<in> {48..57} \<union> {97..102::nat}"
proof (induction bs)
  case Nil
  then show ?case by simp
next
  case (Cons b bs)
  have "unat b < 256" using unsigned_less [of b] by simp
  then have "unat b div 16 < 16" by simp
  then show ?case using Cons hex_digit_code [of "unat b div 16"] hex_digit_code [of "unat b mod 16"]
    by auto
qed

interpretation std_hex: hex_codec hex_EncodeToString hex_DecodeString
  by unfold_locales (auto simp: length_hex_Decode dest: hex_Encode_digits)

abbreviation hex_ext :: "ext \<Rightarrow> bool" where
  "hex_ext x \<equiv> hex_codec (xhex_Encode x) (xhex_Decode x)"

text \<open>A concrete choice of the external packages, for evaluation: the standard library's hex codec.\<close>

definition std_ext :: ext where
  "std_ext = \<lparr>xhex_Encode = hex_EncodeToString, xhex_Decode = hex_DecodeString,
     ParsePubKey = (\<lambda>pk. pk \<noteq> replicate 32 0), url_Scheme = (\<lambda>u. if strings_HasPrefix u ''wss://'' then Some ''wss'' else None),
     sha256_Sum = (\<lambda>bs. take 32 (bs @ replicate 32 0))\<rparr>"

lemma hex_std_ext [simp]: "hex_ext std_ext"
  using std_hex.hex_codec_axioms by (simp add: std_ext_def)

lemma length_std_sha256 [simp]: "length (sha256_Sum std_ext b) = 32"
  by (simp add: std_ext_def)

lemma std_ParsePubKey [simp]: "ParsePubKey std_ext pk \<longleftrightarrow> pk \<noteq> replicate 32 0"
  by (simp add: std_ext_def)

section \<open>Ids and public keys\<close>

type_synonym ID = bytes
type_synonym PubKey = bytes

definition wf32 :: "bytes \<Rightarrow> bool" where
  "wf32 b \<longleftrightarrow> length b = 32"

definition ZeroID :: ID where
  "ZeroID = replicate 32 0"

definition ZeroPK :: PubKey where
  "ZeroPK = replicate 32 0"

datatype hex_error = ErrLength | ErrInvalidHex | ErrInvalidPubKey

definition HexEncodeToString :: "ext \<Rightarrow> bytes \<Rightarrow> string" where
  "HexEncodeToString x src = xhex_Encode x src"

definition HexDecodeString :: "ext \<Rightarrow> string \<Rightarrow> (hex_error, bytes) outcome" where
  "HexDecodeString x s =
     (if length s mod 2 \<noteq> 0 then Fail ErrLength
      else case xhex_Decode x s of None \<Rightarrow> Fail ErrInvalidHex | Some b \<Rightarrow> Ret b)"

text \<open>
  \<^verbatim>\<open>isLowerHex\<close> ranges over runes; a byte of a multi-byte or invalid rune is never in the
  accepted ranges, so the loop is the byte loop.
\<close>

definition isLowerHex :: "string \<Rightarrow> bool" where
  "isLowerHex thing \<longleftrightarrow>
     list_all (\<lambda>c. let n = of_char c :: nat in (n \<ge> 48 \<and> n \<le> 57) \<or> (n \<ge> 97 \<and> n \<le> 102)) thing"

definition IsValid32ByteHex :: "ext \<Rightarrow> string \<Rightarrow> bool" where
  "IsValid32ByteHex x thing \<longleftrightarrow>
     length thing = 64 \<and> isLowerHex thing \<and>
     (case HexDecodeString x thing of Ret _ \<Rightarrow> True | _ \<Rightarrow> False)"

definition IsValidRelayURL :: "ext \<Rightarrow> string \<Rightarrow> bool" where
  "IsValidRelayURL x u =
     (case url_Scheme x u of
        None \<Rightarrow> False
      | Some scheme \<Rightarrow> \<not> (scheme \<noteq> ''wss'' \<and> scheme \<noteq> ''ws''))"

definition IDFromHex :: "ext \<Rightarrow> string \<Rightarrow> (hex_error, ID) outcome" where
  "IDFromHex x idh =
     (if length idh \<noteq> 64 then Fail ErrLength
      else case xhex_Decode x idh of None \<Rightarrow> Fail ErrInvalidHex | Some b \<Rightarrow> Ret b)"

definition PubKeyFromHexCheap :: "ext \<Rightarrow> string \<Rightarrow> (hex_error, PubKey) outcome" where
  "PubKeyFromHexCheap x pkh =
     (if length pkh \<noteq> 64 then Fail ErrLength
      else case xhex_Decode x pkh of None \<Rightarrow> Fail ErrInvalidHex | Some pk \<Rightarrow> Ret pk)"

definition PubKeyFromHex :: "ext \<Rightarrow> string \<Rightarrow> (hex_error, PubKey) outcome" where
  "PubKeyFromHex x pkh =
     (if length pkh \<noteq> 64 then Fail ErrLength
      else case xhex_Decode x pkh of
             None \<Rightarrow> Fail ErrInvalidHex
           | Some pk \<Rightarrow> if \<not> ParsePubKey x pk then Fail ErrInvalidPubKey else Ret pk)"

definition ID_Hex :: "ext \<Rightarrow> ID \<Rightarrow> string" where
  "ID_Hex x i = HexEncodeToString x i"

definition PubKey_Hex :: "ext \<Rightarrow> PubKey \<Rightarrow> string" where
  "PubKey_Hex x pk = HexEncodeToString x pk"

definition ID_String :: "ext \<Rightarrow> ID \<Rightarrow> string" where
  "ID_String x i = ''id::'' @ ID_Hex x i"

definition PubKey_String :: "ext \<Rightarrow> PubKey \<Rightarrow> string" where
  "PubKey_String x pk = ''pk::'' @ PubKey_Hex x pk"

definition ID_MarshalJSON :: "ext \<Rightarrow> ID \<Rightarrow> string" where
  "ID_MarshalJSON x i = CHR 0x22 # xhex_Encode x i @ [CHR 0x22]"

definition ID_UnmarshalJSON :: "ext \<Rightarrow> string \<Rightarrow> (hex_error, ID) outcome" where
  "ID_UnmarshalJSON x buf =
     (if length buf \<noteq> 66 then Fail ErrLength
      else case xhex_Decode x (take 64 (drop 1 buf)) of None \<Rightarrow> Fail ErrInvalidHex | Some b \<Rightarrow> Ret b)"

definition PubKey_MarshalJSON :: "ext \<Rightarrow> PubKey \<Rightarrow> string" where
  "PubKey_MarshalJSON x pk = CHR 0x22 # xhex_Encode x pk @ [CHR 0x22]"

definition PubKey_UnmarshalJSON :: "ext \<Rightarrow> string \<Rightarrow> (hex_error, PubKey) outcome" where
  "PubKey_UnmarshalJSON x buf =
     (if length buf \<noteq> 66 then Fail ErrLength
      else case xhex_Decode x (take 64 (drop 1 buf)) of
             None \<Rightarrow> Fail ErrInvalidHex
           | Some pk \<Rightarrow> if \<not> ParsePubKey x pk then Fail ErrInvalidPubKey else Ret pk)"

definition ContainsID :: "ID list \<Rightarrow> ID \<Rightarrow> bool" where
  "ContainsID haystack needle \<longleftrightarrow> list_ex (\<lambda>cand. cand = needle) haystack"

definition ContainsPubKey :: "PubKey list \<Rightarrow> PubKey \<Rightarrow> bool" where
  "ContainsPubKey haystack needle \<longleftrightarrow> list_ex (\<lambda>cand. cand = needle) haystack"

text \<open>\<^verbatim>\<open>AppendUnique\<close>: each new element is compared with the list as it has grown so far.\<close>

fun AppendUnique :: "'a list \<Rightarrow> 'a list \<Rightarrow> 'a list" where
  "AppendUnique xs [] = xs"
| "AppendUnique xs (e # es) = (if e \<in> set xs then AppendUnique xs es else AppendUnique (xs @ [e]) es)"

section \<open>Facts\<close>

lemma wf32_Zero [simp]: "wf32 ZeroID" "wf32 ZeroPK"
  by (simp_all add: wf32_def ZeroID_def ZeroPK_def)

lemma hex_Ret:
  assumes "hex_ext x"
  shows IDFromHex_Ret: "IDFromHex x s = Ret i \<Longrightarrow> wf32 i \<and> xhex_Decode x s = Some i"
    and PubKeyFromHex_Ret: "PubKeyFromHex x s = Ret pk \<Longrightarrow>
      wf32 pk \<and> xhex_Decode x s = Some pk \<and> ParsePubKey x pk"
proof -
  note len_dec = hex_codec.len_dec [OF assms]
  show "IDFromHex x s = Ret i \<Longrightarrow> wf32 i \<and> xhex_Decode x s = Some i"
    by (auto simp: IDFromHex_def wf32_def dest: len_dec split: if_splits option.splits)
  show "PubKeyFromHex x s = Ret pk \<Longrightarrow> wf32 pk \<and> xhex_Decode x s = Some pk \<and> ParsePubKey x pk"
    by (auto simp: PubKeyFromHex_def wf32_def dest: len_dec split: if_splits option.splits)
qed

lemma never_Panic [simp]:
  "IDFromHex x s \<noteq> Panic" "PubKeyFromHex x s \<noteq> Panic" "HexDecodeString x s \<noteq> Panic"
  by (auto simp: IDFromHex_def PubKeyFromHex_def HexDecodeString_def split: option.splits)

lemma IDFromHex_Hex: "hex_ext x \<Longrightarrow> wf32 i \<Longrightarrow> IDFromHex x (ID_Hex x i) = Ret i"
  by (simp add: IDFromHex_def ID_Hex_def HexEncodeToString_def wf32_def hex_codec.len_enc hex_codec.dec_enc)

lemma PubKeyFromHex_Hex:
  "hex_ext x \<Longrightarrow> wf32 pk \<Longrightarrow> ParsePubKey x pk \<Longrightarrow> PubKeyFromHex x (PubKey_Hex x pk) = Ret pk"
  by (simp add: PubKeyFromHex_def PubKey_Hex_def HexEncodeToString_def wf32_def
      hex_codec.len_enc hex_codec.dec_enc)

lemma AppendUnique_set: "set (AppendUnique xs es) = set xs \<union> set es"
  by (induction xs es rule: AppendUnique.induct) auto

lemma AppendUnique_distinct: "distinct xs \<Longrightarrow> distinct (AppendUnique xs es)"
  by (induction xs es rule: AppendUnique.induct) auto

lemma AppendUnique_prefix: "\<exists>ys. AppendUnique xs es = xs @ ys"
  by (induction xs es rule: AppendUnique.induct) auto

end
