(* ===== verification/Tags.thy ===== *)
theory Tags
  imports Ident
begin

text \<open>
  \<^verbatim>\<open>tags.go\<close>: a tag is a list of strings, an event carries a list of tags.  The finders return the
  first (or last) tag of a key that carries a value; \<open>None\<close> is Go's \<^verbatim>\<open>nil\<close>.  Reading \<^verbatim>\<open>tag[0]\<close> and
  \<^verbatim>\<open>tag[1]\<close> stands behind the length check of each loop.
\<close>

type_synonym Tag = "string list"
type_synonym Tags = "string list list"

definition has_value :: "string \<Rightarrow> Tag \<Rightarrow> bool" where
  "has_value key v \<longleftrightarrow> length v \<ge> 2 \<and> v ! 0 = key"

fun GetD :: "Tags \<Rightarrow> string" where
  "GetD [] = ''''"
| "GetD (v # tags) = (if length v \<ge> 2 \<and> v ! 0 = ''d'' then v ! 1 else GetD tags)"

fun tags_Has :: "Tags \<Rightarrow> string \<Rightarrow> bool" where
  "tags_Has [] key = False"
| "tags_Has (v # tags) key = (if length v \<ge> 1 \<and> v ! 0 = key then True else tags_Has tags key)"

fun tags_Find :: "Tags \<Rightarrow> string \<Rightarrow> Tag option" where
  "tags_Find [] key = None"
| "tags_Find (v # tags) key = (if length v \<ge> 2 \<and> v ! 0 = key then Some v else tags_Find tags key)"

text \<open>\<^verbatim>\<open>FindAll\<close> yields lazily; a caller that consumes all of it sees this list.\<close>

definition tags_FindAll :: "Tags \<Rightarrow> string \<Rightarrow> Tag list" where
  "tags_FindAll tags key = filter (\<lambda>v. length v \<ge> 2 \<and> v ! 0 = key) tags"

fun FindWithValue :: "Tags \<Rightarrow> string \<Rightarrow> string \<Rightarrow> Tag option" where
  "FindWithValue [] key value = None"
| "FindWithValue (v # tags) key value =
     (if length v \<ge> 2 \<and> v ! 1 = value \<and> v ! 0 = key then Some v else FindWithValue tags key value)"

text \<open>The loops from the end, with the index the source counts down.\<close>

fun FindLast_from :: "Tags \<Rightarrow> string \<Rightarrow> nat \<Rightarrow> Tag option" where
  "FindLast_from tags key 0 = None"
| "FindLast_from tags key (Suc i) =
     (let v = tags ! i in
      if length v \<ge> 2 \<and> v ! 0 = key then Some v else FindLast_from tags key i)"

definition FindLast :: "Tags \<Rightarrow> string \<Rightarrow> Tag option" where
  "FindLast tags key = FindLast_from tags key (length tags)"

fun FindLastWithValue_from :: "Tags \<Rightarrow> string \<Rightarrow> string \<Rightarrow> nat \<Rightarrow> Tag option" where
  "FindLastWithValue_from tags key value 0 = None"
| "FindLastWithValue_from tags key value (Suc i) =
     (let v = tags ! i in
      if length v \<ge> 2 \<and> v ! 1 = value \<and> v ! 0 = key then Some v
      else FindLastWithValue_from tags key value i)"

definition FindLastWithValue :: "Tags \<Rightarrow> string \<Rightarrow> string \<Rightarrow> Tag option" where
  "FindLastWithValue tags key value = FindLastWithValue_from tags key value (length tags)"

fun ContainsAny :: "Tags \<Rightarrow> string \<Rightarrow> string list \<Rightarrow> bool" where
  "ContainsAny [] tagName values = False"
| "ContainsAny (tag # tags) tagName values =
     (if length tag < 2 then ContainsAny tags tagName values
      else if tag ! 0 \<noteq> tagName then ContainsAny tags tagName values
      else if tag ! 1 \<in> set values then True
      else ContainsAny tags tagName values)"

definition tags_Eq :: "Tags \<Rightarrow> Tags \<Rightarrow> bool" where
  "tags_Eq tags other \<longleftrightarrow>
     length tags = length other \<and> list_all (\<lambda>(tag, otherTag). tag = otherTag) (zip tags other)"

section \<open>Facts\<close>

lemma GetD_Find: "GetD tags = (case tags_Find tags ''d'' of None \<Rightarrow> '''' | Some v \<Rightarrow> v ! 1)"
  by (induction tags) auto

lemma tags_Find_FindAll:
  "tags_Find tags key = (case tags_FindAll tags key of [] \<Rightarrow> None | v # _ \<Rightarrow> Some v)"
  by (induction tags) (auto simp: tags_FindAll_def)

lemma tags_Find_Some: "tags_Find tags key = Some v \<Longrightarrow> v \<in> set tags \<and> 2 \<le> length v \<and> v ! 0 = key"
  by (induction tags) (auto split: if_splits)

lemma tags_Find_None: "tags_Find tags key = None \<longleftrightarrow> (\<forall>v \<in> set tags. \<not> (2 \<le> length v \<and> v ! 0 = key))"
  by (induction tags) auto

lemma FindLast_from_rev:
  "i \<le> length tags \<Longrightarrow> FindLast_from tags key i = tags_Find (rev (take i tags)) key"
  by (induction i) (auto simp: Let_def take_Suc_conv_app_nth)

lemma FindLast_rev: "FindLast tags key = tags_Find (rev tags) key"
  by (simp add: FindLast_def FindLast_from_rev)

lemma FindLastWithValue_from_rev:
  "i \<le> length tags \<Longrightarrow> FindLastWithValue_from tags key value i = FindWithValue (rev (take i tags)) key value"
  by (induction i) (auto simp: Let_def take_Suc_conv_app_nth)

lemma FindLastWithValue_rev: "FindLastWithValue tags key value = FindWithValue (rev tags) key value"
  by (simp add: FindLastWithValue_def FindLastWithValue_from_rev)

lemma ContainsAny_iff:
  "ContainsAny tags n vs \<longleftrightarrow> (\<exists>t \<in> set tags. 2 \<le> length t \<and> t ! 0 = n \<and> t ! 1 \<in> set vs)"
  by (induction tags) auto

lemma ContainsAny_FindAll: "ContainsAny tags n vs \<longleftrightarrow> (\<exists>t \<in> set (tags_FindAll tags n). t ! 1 \<in> set vs)"
  by (auto simp: ContainsAny_iff tags_FindAll_def)

lemma tags_Eq_iff [simp]: "tags_Eq a b \<longleftrightarrow> a = b"
  by (auto simp: tags_Eq_def list_all_length intro: nth_equalityI)

end
