(* ===== verification/Event.thy ===== *)
theory Event
  imports Tags Swar
begin

text \<open>
  \<^verbatim>\<open>event.go\<close>: the event record, its canonical serialization (the JSON array of NIP-01), the event
  id, and the comparison of events of \<^verbatim>\<open>utils.go\<close>.  The string escaper scans eight bytes at a time and
  copies unescaped stretches in one piece; \<open>appendJSONString_spec\<close> shows it equals escaping byte by
  byte, and \<open>writeJSONString_spec\<close> that the hashing variant feeds the hash the same bytes.  The last
  section shows the serialization is injective: the id commits to every field.
\<close>

record event =
  evID :: ID
  evPubKey :: PubKey
  evCreatedAt :: int
  evKind :: Kind
  evTags :: Tags
  evContent :: string
  evSig :: bytes

text \<open>What the Go types guarantee: array lengths and the width of the timestamp.\<close>

definition wf_event :: "event \<Rightarrow> bool" where
  "wf_event e \<longleftrightarrow> wf32 (evID e) \<and> wf32 (evPubKey e) \<and> in_int64 (evCreatedAt e) \<and> length (evSig e) = 64"

section \<open>Escaping\<close>

definition escTable :: "char \<Rightarrow> bool" where
  "escTable b \<longleftrightarrow> b \<in> {CHR 0x22, CHR 0x5C, CHR 0x0A, CHR 0x0D, CHR 0x09}"

definition escSeq :: "char \<Rightarrow> string" where
  "escSeq b =
     (if b = CHR 0x22 then [CHR 0x5C, CHR 0x22]
      else if b = CHR 0x5C then [CHR 0x5C, CHR 0x5C]
      else if b = CHR 0x0A then [CHR 0x5C, CHR ''n'']
      else if b = CHR 0x0D then [CHR 0x5C, CHR ''r'']
      else if b = CHR 0x09 then [CHR 0x5C, CHR ''t'']
      else [CHR 0x00, CHR 0x00])"

text \<open>One iteration of the byte loop at position \<open>i\<close>, on the output and the checkpoint \<open>start\<close>.\<close>

definition appendJSON_byte :: "string \<Rightarrow> nat \<Rightarrow> string \<times> nat \<Rightarrow> string \<times> nat" where
  "appendJSON_byte s i = (\<lambda>(dst, start).
     if escTable (s ! i) then (dst @ take (i - start) (drop start s) @ escSeq (s ! i), i + 1)
     else (dst, start))"

text \<open>The same iteration of \<^verbatim>\<open>writeJSONString\<close>: an empty stretch is not written.\<close>

definition writeJSON_byte :: "string \<Rightarrow> nat \<Rightarrow> string \<times> nat \<Rightarrow> string \<times> nat" where
  "writeJSON_byte s i = (\<lambda>(h, start).
     if escTable (s ! i) then
       (let h = (if i > start then h @ take (i - start) (drop start s) else h)
        in (h @ escSeq (s ! i), i + 1))
     else (h, start))"

fun json_bytes :: "(nat \<Rightarrow> string \<times> nat \<Rightarrow> string \<times> nat) \<Rightarrow> nat \<Rightarrow> nat \<Rightarrow> string \<times> nat \<Rightarrow> string \<times> nat" where
  "json_bytes f i 0 st = st"
| "json_bytes f i (Suc n) st = json_bytes f (i + 1) n (f i st)"

text \<open>The word loop: a clean window of eight bytes is skipped, a dirty one is scanned byte by byte.\<close>

function json_words ::
    "(nat \<Rightarrow> string \<times> nat \<Rightarrow> string \<times> nat) \<Rightarrow> string \<Rightarrow> nat \<Rightarrow> string \<times> nat \<Rightarrow> nat \<times> string \<times> nat" where
  "json_words f s i st =
     (if i + 8 \<le> length s then
        (if hasSpecial (load64 (bytes_of (take 8 (drop i s)))) then json_words f s (i + 8) (json_bytes f i 8 st)
         else json_words f s (i + 8) st)
      else (i, st))"
  by pat_completeness auto
termination
  by (relation "measure (\<lambda>(f, s, i, st). length s - i)") auto

declare json_words.simps [simp del]

definition appendJSONString :: "string \<Rightarrow> string \<Rightarrow> string" where
  "appendJSONString dst s =
     (let dst = dst @ [CHR 0x22]; n = length s in
      if n = 0 then dst @ [CHR 0x22]
      else
        let (i, st) = json_words (appendJSON_byte s) s 0 (dst, 0);
            (dst, start) = json_bytes (appendJSON_byte s) i (n - i) st
        in dst @ drop start s @ [CHR 0x22])"

definition writeJSONString :: "string \<Rightarrow> string \<Rightarrow> string" where
  "writeJSONString h s =
     (let h = h @ [CHR 0x22]; n = length s in
      if n = 0 then h @ [CHR 0x22]
      else
        let (i, st) = json_words (writeJSON_byte s) s 0 (h, 0);
            (h, start) = json_bytes (writeJSON_byte s) i (n - i) st;
            h = (if start < n then h @ drop start s else h)
        in h @ [CHR 0x22])"

text \<open>The reference: escape each byte by itself.\<close>

definition esc_char :: "char \<Rightarrow> string" where
  "esc_char c = (if escTable c then escSeq c else [c])"

definition escape :: "string \<Rightarrow> string" where
  "escape s = concat (map esc_char s)"

definition json_string :: "string \<Rightarrow> string" where
  "json_string s = CHR 0x22 # escape s @ [CHR 0x22]"

lemma escape_append: "escape (a @ b) = escape a @ escape b"
  by (simp add: escape_def)

lemma escape_clean: "(\<And>c. c \<in> set s \<Longrightarrow> \<not> escTable c) \<Longrightarrow> escape s = s"
  by (induction s) (auto simp: escape_def esc_char_def)

lemma write_byte_eq: "snd st \<le> i \<Longrightarrow> writeJSON_byte s i st = appendJSON_byte s i st"
  by (cases st) (auto simp: writeJSON_byte_def appendJSON_byte_def)

lemma char_special: "byte_of_char c \<in> {0x09, 0x0A, 0x0D, 0x22, 0x5C} \<longleftrightarrow> escTable c"
proof -
  have inj: "byte_of_char c = byte_of_char d \<longleftrightarrow> c = d" for d by (metis char_of_byte_of_char)
  have "byte_of_char (CHR 0x09) = 0x09" "byte_of_char (CHR 0x0A) = 0x0A" "byte_of_char (CHR 0x0D) = 0x0D"
    "byte_of_char (CHR 0x22) = 0x22" "byte_of_char (CHR 0x5C) = 0x5C"
    by (simp_all add: byte_of_char_def)
  then show ?thesis unfolding escTable_def using inj by (metis empty_iff insert_iff)
qed

lemma window_special:
  "length w = 8 \<Longrightarrow> hasSpecial (load64 (bytes_of w)) \<longleftrightarrow> (\<exists>c \<in> set w. escTable c)"
  using hasSpecial_correct [of "bytes_of w"] char_special by (auto simp: bytes_of_def)

text \<open>
  The loop invariant: what has been written, followed by the pending stretch, is the escaped form of
  what has been read.
\<close>

definition json_inv :: "string \<Rightarrow> string \<Rightarrow> nat \<Rightarrow> string \<times> nat \<Rightarrow> bool" where
  "json_inv d0 s i st \<longleftrightarrow> i \<le> length s \<and> snd st \<le> i \<and>
     fst st @ take (i - snd st) (drop (snd st) s) = d0 @ escape (take i s)"

lemma json_inv_byte:
  assumes inv: "json_inv d0 s i st" and i: "i < length s"
  shows "json_inv d0 s (Suc i) (appendJSON_byte s i st)"
proof (cases st)
  case (Pair dst start)
  have esc: "escape (take (Suc i) s) = escape (take i s) @ esc_char (s ! i)"
    using i by (simp add: take_Suc_conv_app_nth escape_append) (simp add: escape_def)
  have nth: "take (Suc i - start) (drop start s) = take (i - start) (drop start s) @ [s ! i]"
    if "start \<le> i"
    using that i by (simp add: Suc_diff_le take_Suc_conv_app_nth)
  show ?thesis
  proof (cases "escTable (s ! i)")
    case True
    then show ?thesis using inv i esc Pair by (simp add: json_inv_def appendJSON_byte_def esc_char_def)
  next
    case False
    have "dst @ take (Suc i - start) (drop start s) = (dst @ take (i - start) (drop start s)) @ [s ! i]"
      using nth inv Pair by (simp add: json_inv_def)
    then show ?thesis
      using inv False i Pair esc by (simp add: json_inv_def appendJSON_byte_def esc_char_def)
  qed
qed

lemma json_inv_bytes:
  "json_inv d0 s i st \<Longrightarrow> i + n \<le> length s \<Longrightarrow>
     json_inv d0 s (i + n) (json_bytes (appendJSON_byte s) i n st) \<and>
     json_bytes (writeJSON_byte s) i n st = json_bytes (appendJSON_byte s) i n st"
proof (induction n arbitrary: i st)
  case 0
  then show ?case by simp
next
  case (Suc n)
  have "json_inv d0 s (Suc i) (appendJSON_byte s i st)" using Suc.prems by (intro json_inv_byte) auto
  moreover have "writeJSON_byte s i st = appendJSON_byte s i st"
    using Suc.prems(1) by (simp add: json_inv_def write_byte_eq)
  ultimately show ?case using Suc.IH [of "Suc i"] Suc.prems(2) by simp
qed

lemma json_inv_skip:
  assumes inv: "json_inv d0 s i st" and i: "i + 8 \<le> length s"
    and clean: "\<not> hasSpecial (load64 (bytes_of (take 8 (drop i s))))"
  shows "json_inv d0 s (i + 8) st"
proof -
  let ?w = "take 8 (drop i s)"
  have "\<forall>c \<in> set ?w. \<not> escTable c" using window_special [of ?w] clean i by simp
  then have "escape ?w = ?w" by (intro escape_clean) auto
  moreover have "take (i + 8) s = take i s @ ?w" by (simp add: take_add)
  moreover have "take (i + 8 - snd st) (drop (snd st) s) = take (i - snd st) (drop (snd st) s) @ ?w"
    if "snd st \<le> i"
  proof -
    have "i + 8 - snd st = (i - snd st) + 8" using that by simp
    then show ?thesis using that by (simp only: take_add drop_drop) simp
  qed
  ultimately show ?thesis using inv i by (auto simp: json_inv_def escape_append)
qed

lemma json_inv_words:
  "json_inv d0 s i st \<Longrightarrow> json_words (appendJSON_byte s) s i st = (i', st') \<Longrightarrow>
     json_inv d0 s i' st' \<and> json_words (writeJSON_byte s) s i st = (i', st')"
proof (induction "appendJSON_byte s" s i st rule: json_words.induct)
  case (1 s i st)
  show ?case
  proof (cases "i + 8 \<le> length s")
    case False
    then show ?thesis using "1.prems"
      by (simp add: json_words.simps [of "appendJSON_byte s"] json_words.simps [of "writeJSON_byte s"])
  next
    case True
    note b = json_inv_bytes [OF "1.prems"(1) True]
    show ?thesis
    proof (cases "hasSpecial (load64 (bytes_of (take 8 (drop i s))))")
      case S: True
      then have "json_words (appendJSON_byte s) s (i + 8) (json_bytes (appendJSON_byte s) i 8 st) = (i', st')"
        using "1.prems"(2) True by (subst (asm) json_words.simps) simp
      then have "json_inv d0 s i' st' \<and>
          json_words (writeJSON_byte s) s (i + 8) (json_bytes (appendJSON_byte s) i 8 st) = (i', st')"
        using "1.hyps"(1) [OF True S] b by blast
      then show ?thesis using S True b by (subst json_words.simps) simp
    next
      case C: False
      then have "json_words (appendJSON_byte s) s (i + 8) st = (i', st')"
        using "1.prems"(2) True by (subst (asm) json_words.simps) simp
      then have "json_inv d0 s i' st' \<and> json_words (writeJSON_byte s) s (i + 8) st = (i', st')"
        using "1.hyps"(2) [OF True C] json_inv_skip [OF "1.prems"(1) True C] by blast
      then show ?thesis using C True by (subst json_words.simps) simp
    qed
  qed
qed

lemma json_string_specs:
  shows appendJSONString_spec: "appendJSONString dst s = dst @ json_string s"
    and writeJSONString_spec: "writeJSONString dst s = dst @ json_string s"
proof -
  define d0 where "d0 = dst @ [CHR 0x22]"
  obtain i st where w: "json_words (appendJSON_byte s) s 0 (d0, 0) = (i, st)"
    by (cases "json_words (appendJSON_byte s) s 0 (d0, 0)")
  have "json_inv d0 s 0 (d0, 0)" by (simp add: json_inv_def escape_def)
  note iw = json_inv_words [OF this w]
  then have "i \<le> length s" by (simp add: json_inv_def)
  obtain d start where b: "json_bytes (appendJSON_byte s) i (length s - i) st = (d, start)"
    by (cases "json_bytes (appendJSON_byte s) i (length s - i) st")
  note ib = json_inv_bytes [of d0 s i st "length s - i", unfolded b]
  have "json_inv d0 s (length s) (d, start)"
    "json_bytes (writeJSON_byte s) i (length s - i) st = (d, start)"
    using ib iw \<open>i \<le> length s\<close> by auto
  then have e: "d @ drop start s = d0 @ escape s" and
    wb: "json_bytes (writeJSON_byte s) i (length s - i) st = (d, start)"
    by (auto simp: json_inv_def)
  have out: "d @ drop start s @ [CHR 0x22] = dst @ json_string s"
    using e by (metis append.assoc append_Cons append_Nil d0_def json_string_def)
  have nil: "json_string [] = [CHR 0x22, CHR 0x22]" by (simp add: json_string_def escape_def)
  show "appendJSONString dst s = dst @ json_string s"
  proof (cases "s = []")
    case False
    then show ?thesis using out by (simp add: appendJSONString_def Let_def d0_def [symmetric] w b)
  qed (simp add: appendJSONString_def nil)
  show "writeJSONString dst s = dst @ json_string s"
  proof (cases "s = []")
    case False
    have "start < length s \<or> drop start s = []" by auto
    then show ?thesis
      using False out iw by (auto simp: writeJSONString_def Let_def d0_def [symmetric] wb)
  qed (simp add: writeJSONString_def nil)
qed

section \<open>Serialization and id\<close>

abbreviation quote :: string where
  "quote \<equiv> [CHR 0x22]"

fun append_items :: "nat \<Rightarrow> string list \<Rightarrow> string \<Rightarrow> string" where
  "append_items i [] dst = dst"
| "append_items i (s # tag) dst =
     (let dst = (if i > 0 then dst @ '','' else dst) in append_items (i + 1) tag (appendJSONString dst s))"

fun append_tags :: "nat \<Rightarrow> Tags \<Rightarrow> string \<Rightarrow> string" where
  "append_tags i [] dst = dst"
| "append_tags i (tag # tags) dst =
     (let dst = (if i > 0 then dst @ '','' else dst);
          dst = dst @ ''['';
          dst = append_items 0 tag dst;
          dst = dst @ '']''
      in append_tags (i + 1) tags dst)"

definition appendSerialized :: "ext \<Rightarrow> event \<Rightarrow> string \<Rightarrow> string" where
  "appendSerialized x evt dst =
     (let dst = dst @ ''[0,'' @ quote;
          dst = dst @ xhex_Encode x (evPubKey evt);
          dst = dst @ quote @ '','';
          dst = dst @ strconv_Itoa (evCreatedAt evt);
          dst = dst @ '','';
          dst = dst @ strconv_Itoa (int (unat (evKind evt)));
          dst = dst @ '','';
          dst = dst @ ''['';
          dst = append_tags 0 (evTags evt) dst;
          dst = dst @ ''],'';
          dst = appendJSONString dst (evContent evt)
      in dst @ '']'')"

definition Serialize :: "ext \<Rightarrow> event \<Rightarrow> string" where
  "Serialize x evt = appendSerialized x evt []"

text \<open>\<^verbatim>\<open>serializedHash\<close> writes the pieces to the hash instead; \<open>h\<close> is what the hash has been fed.\<close>

fun write_items :: "nat \<Rightarrow> string list \<Rightarrow> string \<Rightarrow> string" where
  "write_items j [] h = h"
| "write_items j (s # tag) h =
     (let h = (if j > 0 then h @ '','' else h) in write_items (j + 1) tag (writeJSONString h s))"

fun write_tags :: "nat \<Rightarrow> Tags \<Rightarrow> string \<Rightarrow> string" where
  "write_tags i [] h = h"
| "write_tags i (tag # tags) h =
     (let h = (if i > 0 then h @ '','' else h);
          h = h @ ''['';
          h = write_items 0 tag h;
          h = h @ '']''
      in write_tags (i + 1) tags h)"

definition serializedHash :: "ext \<Rightarrow> event \<Rightarrow> ID" where
  "serializedHash x evt =
     (let h = ''[0,'' @ quote;
          h = h @ xhex_Encode x (evPubKey evt);
          h = h @ quote @ '','';
          h = h @ strconv_Itoa (evCreatedAt evt);
          h = h @ '','';
          h = h @ strconv_Itoa (int (unat (evKind evt)));
          h = h @ '','';
          h = h @ ''['';
          h = write_tags 0 (evTags evt) h;
          h = h @ ''],'';
          h = writeJSONString h (evContent evt);
          h = h @ '']''
      in sha256_Sum x (bytes_of h))"

definition GetID :: "ext \<Rightarrow> event \<Rightarrow> ID" where
  "GetID x evt = serializedHash x evt"

definition SetID :: "ext \<Rightarrow> event \<Rightarrow> event" where
  "SetID x evt = evt\<lparr>evID := serializedHash x evt\<rparr>"

definition CheckID :: "ext \<Rightarrow> event \<Rightarrow> bool" where
  "CheckID x evt \<longleftrightarrow> GetID x evt = evID evt"

section \<open>Order\<close>

definition CompareEvent :: "event \<Rightarrow> event \<Rightarrow> int" where
  "CompareEvent a b =
     (if evCreatedAt a = evCreatedAt b then bytes_Compare (evID a) (evID b)
      else cmp_Compare (evCreatedAt a) (evCreatedAt b))"

definition CompareEventReverse :: "event \<Rightarrow> event \<Rightarrow> int" where
  "CompareEventReverse b a =
     (if evCreatedAt a = evCreatedAt b then bytes_Compare (evID a) (evID b)
      else cmp_Compare (evCreatedAt a) (evCreatedAt b))"

definition IsOlder :: "event \<Rightarrow> event \<Rightarrow> bool" where
  "IsOlder previous nxt \<longleftrightarrow>
     evCreatedAt previous < evCreatedAt nxt \<or>
     (evCreatedAt previous = evCreatedAt nxt \<and> bytes_Compare (evID previous) (evID nxt) = 1)"

interpretation event_cmp: go_comparator CompareEvent
proof
  show "CompareEvent b a = - CompareEvent a b" for a b
    by (auto simp: CompareEvent_def cmp_Compare_def bytes_Compare_anti [of "evID b"])
  show "CompareEvent a c \<le> 0" if "CompareEvent a b \<le> 0" "CompareEvent b c \<le> 0" for a b c
    using that bytes_cmp.cmp_trans [of "evID a" "evID b" "evID c"]
    by (auto simp: CompareEvent_def cmp_Compare_def split: if_splits)
qed

lemma CompareEventReverse_swap: "CompareEventReverse b a = CompareEvent a b"
  by (simp add: CompareEventReverse_def CompareEvent_def)

interpretation event_cmp_rev: go_comparator CompareEventReverse
proof
  show "CompareEventReverse b a = - CompareEventReverse a b" for a b
    unfolding CompareEventReverse_swap by (rule event_cmp.cmp_anti)
  show "CompareEventReverse a c \<le> 0" if "CompareEventReverse a b \<le> 0" "CompareEventReverse b c \<le> 0"
    for a b c
    using that event_cmp.cmp_trans [of c b a] unfolding CompareEventReverse_swap by simp
qed

text \<open>
  Which of two events survives a replacement: the newer one, and at the same second the one with the
  lower id.  On events of different ids exactly one is older, so replacement is never ambiguous.
\<close>

lemma IsOlder_asym: "IsOlder a b \<Longrightarrow> \<not> IsOlder b a"
  using bytes_Compare_anti [of "evID a" "evID b"] by (auto simp: IsOlder_def)

lemma IsOlder_total: "evID a \<noteq> evID b \<Longrightarrow> IsOlder a b \<or> IsOlder b a"
  using bytes_Compare_cases [of "evID a" "evID b"] bytes_Compare_anti [of "evID a" "evID b"]
  by (auto simp: IsOlder_def not_less le_less)

lemma IsOlder_trans: "IsOlder a b \<Longrightarrow> IsOlder b c \<Longrightarrow> IsOlder a c"
  using bytes_Compare_less_trans [of "evID c" "evID b" "evID a"]
    bytes_Compare_anti [of "evID a" "evID b"] bytes_Compare_anti [of "evID b" "evID c"]
    bytes_Compare_anti [of "evID a" "evID c"] bytes_Compare_less_1 [of "evID c" "evID a"]
  by (auto simp: IsOlder_def)

section \<open>The serialization as a closed form\<close>

fun json_rest :: "('a \<Rightarrow> string) \<Rightarrow> 'a list \<Rightarrow> string" where
  "json_rest f [] = '']''"
| "json_rest f (y # ys) = CHR '','' # f y @ json_rest f ys"

fun json_array :: "('a \<Rightarrow> string) \<Rightarrow> 'a list \<Rightarrow> string" where
  "json_array f [] = ''[]''"
| "json_array f (y # ys) = CHR ''['' # f y @ json_rest f ys"

lemma append_items_rest: "append_items (Suc i) tag dst @ '']'' = dst @ json_rest json_string tag"
  by (induction tag arbitrary: i dst) (simp_all add: Let_def appendJSONString_spec)

lemma append_items_array: "append_items 0 tag (dst @ ''['') @ '']'' = dst @ json_array json_string tag"
  by (cases tag) (simp_all add: Let_def appendJSONString_spec append_items_rest)

lemma append_tags_rest:
  "append_tags (Suc i) tags dst @ '']'' = dst @ json_rest (json_array json_string) tags"
proof (induction tags arbitrary: i dst)
  case Nil
  then show ?case by simp
next
  case (Cons tag tags)
  show ?case
    using append_items_array [of tag "dst @ '',''"] Cons by (simp add: Let_def)
qed

lemma append_tags_array:
  "append_tags 0 tags (dst @ ''['') @ '']'' = dst @ json_array (json_array json_string) tags"
proof (cases tags)
  case Nil
  then show ?thesis by simp
next
  case (Cons tag tags')
  then show ?thesis using append_items_array [of tag "dst @ ''[''"] append_tags_rest
    by (simp add: Let_def)
qed

lemma write_items_eq: "write_items i tag h = append_items i tag h"
  by (induction i tag h rule: write_items.induct)
    (simp_all add: Let_def appendJSONString_spec writeJSONString_spec)

lemma write_tags_eq: "write_tags i tags h = append_tags i tags h"
  by (induction i tags h rule: write_tags.induct) (simp_all add: Let_def write_items_eq)

lemma Serialize_closed:
  "Serialize x e =
     ''[0,'' @ quote @ xhex_Encode x (evPubKey e) @ quote @ '','' @ strconv_Itoa (evCreatedAt e)
     @ '','' @ strconv_Itoa (int (unat (evKind e))) @ '',''
     @ json_array (json_array json_string) (evTags e) @ '','' @ json_string (evContent e) @ '']''"
proof -
  have comma: "append_tags 0 tags (d @ ''['') @ ''],'' = d @ json_array (json_array json_string) tags @ '',''"
    for tags d
    using append_tags_array [of tags d] by (metis append.assoc append_Cons append_Nil)
  show ?thesis
    unfolding Serialize_def appendSerialized_def Let_def appendJSONString_spec comma by simp
qed

lemma serializedHash_Serialize: "serializedHash x e = sha256_Sum x (bytes_of (Serialize x e))"
  by (simp add: serializedHash_def Serialize_def appendSerialized_def Let_def write_tags_eq
      appendJSONString_spec writeJSONString_spec del: bytes_of_append)

section \<open>Injectivity\<close>

text \<open>A function is a prefix code when its output can be read off the front of any string.\<close>

definition prefix_code :: "('a \<Rightarrow> string) \<Rightarrow> bool" where
  "prefix_code f \<longleftrightarrow> (\<forall>a b r r'. f a @ r = f b @ r' \<longrightarrow> a = b \<and> r = r')"

lemma prefix_codeD: "prefix_code f \<Longrightarrow> f a @ r = f b @ r' \<Longrightarrow> a = b \<and> r = r'"
  by (auto simp: prefix_code_def)

lemma esc_char_code: "esc_char c @ r = esc_char d @ r' \<Longrightarrow> c = d \<and> r = r'"
  by (auto simp: esc_char_def escTable_def escSeq_def split: if_splits)

lemma esc_char_hd: "esc_char c = d # t \<Longrightarrow> d \<noteq> CHR 0x22"
  by (auto simp: esc_char_def escTable_def escSeq_def split: if_splits)

lemma esc_char_not_quote: "CHR 0x22 # t \<noteq> esc_char c" "esc_char c \<noteq> CHR 0x22 # t"
  using esc_char_hd [of c "CHR 0x22" t] by auto

lemma escape_code: "escape a @ quote @ r = escape b @ quote @ r' \<Longrightarrow> a = b \<and> r = r'"
proof (induction a arbitrary: b)
  case Nil
  have "esc_char c \<noteq> []" for c by (auto simp: esc_char_def escSeq_def)
  then show ?case using Nil
    by (cases b) (auto simp: escape_def Cons_eq_append_conv esc_char_not_quote)
next
  case (Cons c a)
  show ?case
  proof (cases b)
    case Nil
    have "esc_char c \<noteq> []" by (auto simp: esc_char_def escSeq_def)
    then show ?thesis using Nil Cons.prems
      by (auto simp: escape_def append_eq_Cons_conv esc_char_not_quote)
  next
    case (Cons d b')
    then have "esc_char c @ (escape a @ quote @ r) = esc_char d @ (escape b' @ quote @ r')"
      using Cons.prems by (simp add: escape_def)
    from esc_char_code [OF this] show ?thesis using Cons Cons.IH by auto
  qed
qed

lemma json_string_code: "prefix_code json_string"
  unfolding prefix_code_def
proof (intro allI impI)
  fix a b r r'
  assume "json_string a @ r = json_string b @ r'"
  then have "escape a @ quote @ r = escape b @ quote @ r'" by (simp add: json_string_def)
  then show "a = b \<and> r = r'" by (rule escape_code)
qed

lemma json_rest_code:
  assumes f: "prefix_code f"
  shows "json_rest f xs @ r = json_rest f ys @ r' \<Longrightarrow> xs = ys \<and> r = r'"
proof (induction xs arbitrary: ys)
  case Nil
  then show ?case by (cases ys) auto
next
  case (Cons a xs)
  then obtain b ys' where ys: "ys = b # ys'" by (cases ys) auto
  then have "f a @ (json_rest f xs @ r) = f b @ (json_rest f ys' @ r')" using Cons.prems by simp
  from prefix_codeD [OF f this] show ?case using Cons.IH ys by auto
qed

lemma json_array_code:
  assumes f: "prefix_code f" and hd: "\<And>a. \<exists>c t. f a = c # t \<and> c \<noteq> CHR '']''"
  shows "prefix_code (json_array f)"
  unfolding prefix_code_def
proof (intro allI impI)
  fix xs ys r r'
  assume eq: "json_array f xs @ r = json_array f ys @ r'"
  show "xs = ys \<and> r = r'"
  proof (cases xs)
    case Nil
    then show ?thesis using eq hd [of "hd ys"] by (cases ys) auto
  next
    case (Cons a xs')
    then obtain b ys' where ys: "ys = b # ys'" using eq hd [of a] by (cases ys) auto
    then have "f a @ (json_rest f xs' @ r) = f b @ (json_rest f ys' @ r')" using eq Cons by simp
    from prefix_codeD [OF f this] show ?thesis using json_rest_code [OF f] Cons ys by auto
  qed
qed

lemma json_tags_code: "prefix_code (json_array (json_array json_string))"
proof (rule json_array_code)
  show "prefix_code (json_array json_string)"
    by (rule json_array_code [OF json_string_code]) (auto simp: json_string_def)
  show "\<exists>c t. json_array json_string a = c # t \<and> c \<noteq> CHR '']''" for a :: Tag
    by (cases a) auto
qed

lemma split_at_comma:
  "CHR '','' \<notin> set a \<Longrightarrow> CHR '','' \<notin> set b \<Longrightarrow> a @ '','' @ r = b @ '','' @ r' \<Longrightarrow> a = b \<and> r = r'"
proof (induction a arbitrary: b)
  case Nil
  then show ?case by (cases b) auto
next
  case (Cons c a)
  then show ?case by (cases b) auto
qed

lemma Itoa_no_comma: "CHR '','' \<notin> set (strconv_Itoa v)"
  using Itoa_digits [of "CHR '',''"] by (auto simp: strconv_Itoa_def char_digit_def)

lemma Serialize_inj:
  assumes x: "hex_ext x" and wf: "wf_event e" "wf_event f" and eq: "Serialize x e = Serialize x f"
  shows "evPubKey e = evPubKey f \<and> evCreatedAt e = evCreatedAt f \<and> evKind e = evKind f
    \<and> evTags e = evTags f \<and> evContent e = evContent f"
proof -
  define rest where "rest g = json_array (json_array json_string) (evTags g) @ '','' @ json_string (evContent g) @ '']''" for g :: event
  have len: "length (xhex_Encode x (evPubKey e)) = length (xhex_Encode x (evPubKey f))"
    using wf by (simp add: hex_codec.len_enc [OF x] wf_event_def wf32_def)
  have eq': "xhex_Encode x (evPubKey e) @ quote @ '','' @ strconv_Itoa (evCreatedAt e) @ '','' @
      strconv_Itoa (int (unat (evKind e))) @ '','' @ rest e
    = xhex_Encode x (evPubKey f) @ quote @ '','' @ strconv_Itoa (evCreatedAt f) @ '','' @
      strconv_Itoa (int (unat (evKind f))) @ '','' @ rest f"
    using eq unfolding Serialize_closed rest_def by simp
  then have pk: "evPubKey e = evPubKey f"
    and eq2: "strconv_Itoa (evCreatedAt e) @ '','' @ strconv_Itoa (int (unat (evKind e))) @ '','' @ rest e
    = strconv_Itoa (evCreatedAt f) @ '','' @ strconv_Itoa (int (unat (evKind f))) @ '','' @ rest f"
    using len hex_codec.enc_inj [OF x] by auto
  note s1 = split_at_comma [OF Itoa_no_comma Itoa_no_comma eq2]
  then have ts: "evCreatedAt e = evCreatedAt f"
    using wf ParseInt_Itoa by (metis prod.inject wf_event_def)
  note s2 = split_at_comma [OF Itoa_no_comma Itoa_no_comma s1 [THEN conjunct2]]
  have k: "in_int64 (int (unat (evKind g)))" for g :: event
  proof -
    have "unat (evKind g) < 65536" using unsigned_less [of "evKind g"] by simp
    then show ?thesis by (intro in_int64_nat) simp
  qed
  from s2 have "int (unat (evKind e)) = int (unat (evKind f))"
    using ParseInt_Itoa [OF k] by (metis prod.inject)
  then have kind: "evKind e = evKind f" by (simp add: uint_nat [symmetric] word_uint_eq_iff)
  from s2 have r: "rest e = rest f" by simp
  note tc = prefix_codeD [OF json_tags_code r [unfolded rest_def]]
  then have tags: "evTags e = evTags f" and c: "json_string (evContent e) @ '']'' = json_string (evContent f) @ '']''"
    by auto
  have "evContent e = evContent f" using prefix_codeD [OF json_string_code c] by simp
  then show ?thesis using pk ts kind tags by simp
qed

section \<open>Properties\<close>

text \<open>An event for evaluation.\<close>

definition note1 :: event where
  "note1 = \<lparr>evID = replicate 32 1, evPubKey = replicate 32 2, evCreatedAt = 100, evKind = 1,
     evTags = [[''e'', ''x'']], evContent = ''hi'', evSig = replicate 64 0\<rparr>"

lemma wf_note1: "wf_event note1"
  by (simp add: wf_event_def wf32_def note1_def in_int64_def MaxInt64_def)

text \<open>C24: both JSON string writers, which skip clean windows of eight bytes with the word-at-a-time test,
  write the same as escaping the string byte by byte.\<close>

theorem json_writers_agree:
  "appendJSONString dst s = dst @ CHR 0x22 # concat (map esc_char s) @ [CHR 0x22] \<and>
   writeJSONString dst s = appendJSONString dst s"
  by (simp add: appendJSONString_spec writeJSONString_spec json_string_def escape_def)


text \<open>C17: the serialization is unambiguous, so two events with valid, equal ids agree in author, time, kind,
  tags and content, unless they exhibit a collision of the hash.\<close>

theorem id_commits_to_content:
  assumes "hex_ext x" "wf_event e" "wf_event f" "CheckID x e" "CheckID x f" "evID e = evID f"
  shows "(evPubKey e = evPubKey f \<and> evCreatedAt e = evCreatedAt f \<and> evKind e = evKind f
      \<and> evTags e = evTags f \<and> evContent e = evContent f) \<or>
    (Serialize x e \<noteq> Serialize x f \<and>
      sha256_Sum x (bytes_of (Serialize x e)) = sha256_Sum x (bytes_of (Serialize x f)))"
  using assms Serialize_inj [of x e f] by (auto simp: CheckID_def GetID_def serializedHash_Serialize)

theorem id_commits_to_content_witness:
  "evContent (SetID std_ext note1) = evContent (SetID std_ext (note1\<lparr>evSig := replicate 64 1\<rparr>))"
proof -
  let ?e = "SetID std_ext note1" and ?f = "SetID std_ext (note1\<lparr>evSig := replicate 64 1\<rparr>)"
  have wf: "wf_event ?e" "wf_event ?f"
    using wf_note1 by (simp_all add: wf_event_def SetID_def wf32_def serializedHash_Serialize)
  have eq: "Serialize std_ext ?e = Serialize std_ext note1" "Serialize std_ext ?f = Serialize std_ext note1"
    by (simp_all add: SetID_def Serialize_closed)
  have chk: "CheckID std_ext ?e" "CheckID std_ext ?f"
    by (simp_all add: CheckID_def GetID_def SetID_def serializedHash_Serialize Serialize_closed)
  have "evID ?e = evID ?f" by (simp add: SetID_def serializedHash_Serialize Serialize_closed)
  from id_commits_to_content [OF hex_std_ext wf chk this] show ?thesis using eq by simp
qed

end
