(* ===== verification/Filters.thy ===== *)
theory Filters
  imports Event
begin

text \<open>
  \<^verbatim>\<open>filter.go\<close> and the \<^verbatim>\<open>similar\<close> helpers of \<^verbatim>\<open>helpers.go\<close>.  A nil slice and an empty one
  mean different things to \<^verbatim>\<open>Matches\<close>, so the three list fields are options (\<open>None\<close> is nil).  A Go map
  is an association list with distinct keys in some iteration order; on reading, a nil map and an
  empty one behave alike.
\<close>

type_synonym TagMap = "(string \<times> string list) list"

record Filter =
  fIDs :: "ID list option"
  fKinds :: "Kind list option"
  fAuthors :: "PubKey list option"
  fTags :: TagMap
  fSince :: int
  fUntil :: int
  fLimit :: int
  fSearch :: string
  fLimitZero :: bool

definition empty_filter :: Filter where
  "empty_filter = \<lparr>fIDs = None, fKinds = None, fAuthors = None, fTags = [], fSince = 0, fUntil = 0,
     fLimit = 0, fSearch = '''', fLimitZero = False\<rparr>"

text \<open>\<^verbatim>\<open>m[k]\<close>, the zero value for an absent key; \<^verbatim>\<open>len\<close> of a possibly nil slice.\<close>

definition tagmap_get :: "TagMap \<Rightarrow> string \<Rightarrow> string list" where
  "tagmap_get m k = (case map_of m k of None \<Rightarrow> [] | Some v \<Rightarrow> v)"

definition opt_list :: "'a list option \<Rightarrow> 'a list" where
  "opt_list xs = (case xs of None \<Rightarrow> [] | Some ys \<Rightarrow> ys)"

lemma opt_list_simps [simp]: "opt_list None = []" "opt_list (Some ys) = ys"
  by (simp_all add: opt_list_def)

section \<open>Matching\<close>

definition MatchesIgnoringTimestampConstraints :: "Filter \<Rightarrow> event \<Rightarrow> bool" where
  "MatchesIgnoringTimestampConstraints ef event =
     (if (case fIDs ef of Some l \<Rightarrow> evID event \<notin> set l | None \<Rightarrow> False) then False
      else if (case fKinds ef of Some l \<Rightarrow> evKind event \<notin> set l | None \<Rightarrow> False) then False
      else if (case fAuthors ef of Some l \<Rightarrow> evPubKey event \<notin> set l | None \<Rightarrow> False) then False
      else list_all (\<lambda>(f, v). ContainsAny (evTags event) f v) (fTags ef))"

definition Matches :: "Filter \<Rightarrow> event \<Rightarrow> bool" where
  "Matches ef event =
     (if \<not> MatchesIgnoringTimestampConstraints ef event then False
      else if fSince ef \<noteq> 0 \<and> evCreatedAt event < fSince ef then False
      else if fUntil ef \<noteq> 0 \<and> evCreatedAt event > fUntil ef then False
      else True)"

lemma MatchesIgnoring_iff:
  "MatchesIgnoringTimestampConstraints f e \<longleftrightarrow>
     (\<forall>l. fIDs f = Some l \<longrightarrow> evID e \<in> set l) \<and>
     (\<forall>l. fKinds f = Some l \<longrightarrow> evKind e \<in> set l) \<and>
     (\<forall>l. fAuthors f = Some l \<longrightarrow> evPubKey e \<in> set l) \<and>
     (\<forall>(k, v) \<in> set (fTags f). ContainsAny (evTags e) k v)"
  by (auto simp: MatchesIgnoringTimestampConstraints_def list_all_iff split: option.splits)

lemma Matches_iff:
  "Matches f e \<longleftrightarrow> MatchesIgnoringTimestampConstraints f e \<and>
     (fSince f \<noteq> 0 \<longrightarrow> fSince f \<le> evCreatedAt e) \<and> (fUntil f \<noteq> 0 \<longrightarrow> evCreatedAt e \<le> fUntil f)"
  by (auto simp: Matches_def)

section \<open>Comparison of filters\<close>

text \<open>The three copies of the helper differ in the element type only.\<close>

definition similar :: "'a list \<Rightarrow> 'a list \<Rightarrow> bool" where
  "similar as bs \<longleftrightarrow> length as = length bs \<and> list_all (\<lambda>a. list_ex (\<lambda>b. b = a) bs) as"

definition similarID :: "ID list \<Rightarrow> ID list \<Rightarrow> bool" where
  "similarID as bs \<longleftrightarrow> length as = length bs \<and> list_all (\<lambda>a. list_ex (\<lambda>b. b = a) bs) as"

definition similarPublicKey :: "PubKey list \<Rightarrow> PubKey list \<Rightarrow> bool" where
  "similarPublicKey as bs \<longleftrightarrow> length as = length bs \<and> list_all (\<lambda>a. list_ex (\<lambda>b. b = a) bs) as"

definition FilterEqual :: "Filter \<Rightarrow> Filter \<Rightarrow> bool" where
  "FilterEqual a b =
     (if \<not> similar (opt_list (fKinds a)) (opt_list (fKinds b)) then False
      else if \<not> similarID (opt_list (fIDs a)) (opt_list (fIDs b)) then False
      else if \<not> similarPublicKey (opt_list (fAuthors a)) (opt_list (fAuthors b)) then False
      else if length (fTags a) \<noteq> length (fTags b) then False
      else if list_ex (\<lambda>(f, av). case map_of (fTags b) f of
                 None \<Rightarrow> True | Some bv \<Rightarrow> \<not> similar av bv) (fTags a) then False
      else if fSince a \<noteq> fSince b then False
      else if fUntil a \<noteq> fUntil b then False
      else if fSearch a \<noteq> fSearch b then False
      else if fLimitZero a \<noteq> fLimitZero b then False
      else True)"

text \<open>A deep copy: the nil slices stay nil, every element is copied.\<close>

definition Filter_Clone :: "Filter \<Rightarrow> Filter" where
  "Filter_Clone ef =
     empty_filter\<lparr>fKinds := map_option (map (\<lambda>k. k)) (fKinds ef), fLimit := fLimit ef,
       fSearch := fSearch ef, fLimitZero := fLimitZero ef, fSince := fSince ef, fUntil := fUntil ef,
       fIDs := map_option (map (\<lambda>src. src)) (fIDs ef),
       fAuthors := map_option (map (\<lambda>src. src)) (fAuthors ef),
       fTags := map (\<lambda>(k, v). (k, v)) (fTags ef)\<rparr>"

section \<open>The theoretical limit\<close>

definition GetTheoreticalLimit :: "Filter \<Rightarrow> int" where
  "GetTheoreticalLimit f =
     (case fIDs f of
        Some ids \<Rightarrow> int (length ids)
      | None \<Rightarrow>
         let rest = (if fLimit f > 0 then fLimit f else if fLimitZero f then 0 else MaxInt64) in
         (case (fAuthors f, fKinds f) of
            (Some authors, Some kinds) \<Rightarrow>
              if list_all IsReplaceable kinds then int (length authors) * int (length kinds)
              else if length (tagmap_get (fTags f) ''d'') > 0 \<and> list_all IsAddressable kinds
              then int (length authors) * int (length kinds) * int (length (tagmap_get (fTags f) ''d''))
              else rest
          | _ \<Rightarrow> rest))"

section \<open>Facts\<close>

lemma similar_iff: "similar as bs \<longleftrightarrow> length as = length bs \<and> set as \<subseteq> set bs"
  by (auto simp: similar_def list_all_iff list_ex_iff)

lemma similarID_similar: "similarID = similar" and similarPublicKey_similar: "similarPublicKey = similar"
  by (auto simp: fun_eq_iff similar_def similarID_def similarPublicKey_def)

lemma similar_distinct: "distinct as \<Longrightarrow> similar as bs \<Longrightarrow> set as = set bs"
proof -
  assume d: "distinct as" and s: "similar as bs"
  then have "card (set bs) \<le> card (set as)"
    using card_length [of bs] by (simp add: similar_iff distinct_card)
  then show ?thesis using s by (intro card_seteq) (auto simp: similar_iff)
qed

text \<open>Filters in which no list repeats an element, no slice is empty but non-nil, and the map has distinct keys.\<close>

definition tidy_opt :: "'a list option \<Rightarrow> bool" where
  "tidy_opt xs \<longleftrightarrow> (case xs of None \<Rightarrow> True | Some ys \<Rightarrow> ys \<noteq> [] \<and> distinct ys)"

definition tidy_filter :: "Filter \<Rightarrow> bool" where
  "tidy_filter f \<longleftrightarrow> tidy_opt (fIDs f) \<and> tidy_opt (fKinds f) \<and> tidy_opt (fAuthors f) \<and>
     distinct (map fst (fTags f)) \<and> (\<forall>(k, v) \<in> set (fTags f). distinct v)"

lemma tidy_similar:
  "tidy_opt a \<Longrightarrow> tidy_opt b \<Longrightarrow> similar (opt_list a) (opt_list b) \<Longrightarrow>
     (\<forall>l. a = Some l \<longrightarrow> y \<in> set l) \<longleftrightarrow> (\<forall>l. b = Some l \<longrightarrow> y \<in> set l)"
  using similar_distinct [of "opt_list a" "opt_list b"]
  by (cases a; cases b) (auto simp: tidy_opt_def similar_iff)

lemma FilterEqual_tags:
  assumes "FilterEqual a b" "tidy_filter a" "tidy_filter b"
  shows "(\<forall>(k, v) \<in> set (fTags a). ContainsAny ts k v) \<longleftrightarrow> (\<forall>(k, v) \<in> set (fTags b). ContainsAny ts k v)"
proof -
  have da: "distinct (map fst (fTags a))" and db: "distinct (map fst (fTags b))"
    using assms by (auto simp: tidy_filter_def)
  have len: "length (fTags a) = length (fTags b)"
    and sub: "\<And>k v. (k, v) \<in> set (fTags a) \<Longrightarrow> \<exists>w. map_of (fTags b) k = Some w \<and> similar v w"
    using assms(1) by (auto simp: FilterEqual_def list_ex_iff split: if_splits option.splits)
  have pair: "\<exists>w. (k, w) \<in> set (fTags b) \<and> set v = set w" if kv: "(k, v) \<in> set (fTags a)" for k v
  proof -
    obtain w where w: "map_of (fTags b) k = Some w" "similar v w" using sub [OF kv] by blast
    have "distinct v" using assms(2) kv by (auto simp: tidy_filter_def)
    then show ?thesis using similar_distinct w map_of_SomeD by metis
  qed
  have keys: "fst ` set (fTags a) = fst ` set (fTags b)"
  proof (rule card_seteq)
    show "fst ` set (fTags a) \<subseteq> fst ` set (fTags b)" using pair by force
    show "card (fst ` set (fTags b)) \<le> card (fst ` set (fTags a))"
      using da db len distinct_card [OF da] distinct_card [OF db] by simp
  qed simp
  have bwd: "\<exists>v. (k, v) \<in> set (fTags a) \<and> set v = set w" if kw: "(k, w) \<in> set (fTags b)" for k w
  proof -
    have "k \<in> fst ` set (fTags b)" using kw by force
    then obtain v where kv: "(k, v) \<in> set (fTags a)" unfolding keys [symmetric] by auto
    then obtain w' where "(k, w') \<in> set (fTags b)" "set v = set w'" using pair by blast
    then show ?thesis using kw db kv by (metis eq_key_imp_eq_value)
  qed
  have cong: "ContainsAny ts k v \<longleftrightarrow> ContainsAny ts k w" if "set v = set w" for k v w
    using that by (simp add: ContainsAny_iff)
  show ?thesis
  proof
    assume "\<forall>(k, v) \<in> set (fTags a). ContainsAny ts k v"
    then show "\<forall>(k, v) \<in> set (fTags b). ContainsAny ts k v" using bwd cong by blast
  next
    assume "\<forall>(k, v) \<in> set (fTags b). ContainsAny ts k v"
    then show "\<forall>(k, v) \<in> set (fTags a). ContainsAny ts k v" using pair cong by blast
  qed
qed

lemma FilterEqual_Matches_aux:
  assumes eq: "FilterEqual a b" and tidy: "tidy_filter a" "tidy_filter b"
  shows "Matches a e \<longleftrightarrow> Matches b e"
proof -
  have t: "tidy_opt (fIDs a)" "tidy_opt (fIDs b)" "tidy_opt (fKinds a)" "tidy_opt (fKinds b)"
    "tidy_opt (fAuthors a)" "tidy_opt (fAuthors b)"
    using tidy by (auto simp: tidy_filter_def)
  have s: "similar (opt_list (fKinds a)) (opt_list (fKinds b))" "similar (opt_list (fIDs a)) (opt_list (fIDs b))"
    "similar (opt_list (fAuthors a)) (opt_list (fAuthors b))" "fSince a = fSince b" "fUntil a = fUntil b"
    using eq by (auto simp: FilterEqual_def similarID_similar similarPublicKey_similar split: if_splits)
  show ?thesis
    unfolding Matches_iff MatchesIgnoring_iff
      tidy_similar [OF t(1,2) s(2)] tidy_similar [OF t(3,4) s(1)] tidy_similar [OF t(5,6) s(3)]
      FilterEqual_tags [OF eq tidy] s(4,5) by blast
qed

lemma Filter_Clone_id [simp]: "Filter_Clone f = f"
  by (simp add: Filter_Clone_def empty_filter_def option.map_ident)

section \<open>The theoretical limit bounds what a store can hold\<close>

text \<open>
  A well-kept store never holds two events of one id, two replaceable events of one author and kind,
  or two addressable events of one author, kind and \<^verbatim>\<open>d\<close> tag.
\<close>

definition event_slot :: "event \<Rightarrow> ID + PubKey \<times> Kind + PubKey \<times> Kind \<times> string" where
  "event_slot e =
     (if IsReplaceable (evKind e) then Inr (Inl (evPubKey e, evKind e))
      else if IsAddressable (evKind e) then Inr (Inr (evPubKey e, evKind e, GetD (evTags e)))
      else Inl (evID e))"

definition one_per_slot :: "event list \<Rightarrow> bool" where
  "one_per_slot es \<longleftrightarrow> distinct (map evID es) \<and> distinct (map event_slot es)"

lemma card_le_length_image:
  assumes "distinct (map f es)" "f ` set es \<subseteq> S" "finite S"
  shows "length es \<le> card S"
proof -
  have "length es = card (f ` set es)" using assms(1) by (metis distinct_card length_map set_map)
  then show ?thesis using assms(2,3) by (simp add: card_mono)
qed

lemma distinct_map_filter: "distinct (map f es) \<Longrightarrow> distinct (map f (filter P es))"
  by (induction es) auto

lemma TheoreticalLimit_bound:
  assumes slots: "one_per_slot es" and unlim: "fLimit f \<le> 0" "\<not> fLimitZero f"
    and small: "int (length es) \<le> MaxInt64"
    and oned: "\<And>e. e \<in> set es \<Longrightarrow> length (tags_FindAll (evTags e) ''d'') \<le> 1"
  shows "int (length (filter (Matches f) es)) \<le> GetTheoreticalLimit f"
proof -
  let ?m = "filter (Matches f) es"
  have dID: "distinct (map evID ?m)" and dSlot: "distinct (map event_slot ?m)"
    using slots by (auto simp: one_per_slot_def intro: distinct_map_filter)
  have m: "MatchesIgnoringTimestampConstraints f e \<and> e \<in> set es" if "e \<in> set ?m" for e
    using that by (simp add: Matches_iff)
  have rest: "int (length ?m) \<le> MaxInt64" using small length_filter_le [of "Matches f" es] by linarith
  show ?thesis
  proof (cases "fIDs f")
    case (Some ids)
    have "length ?m \<le> card (set ids)"
      by (rule card_le_length_image [OF dID]) (use m Some in \<open>auto simp: MatchesIgnoring_iff\<close>)
    then show ?thesis using Some card_length [of ids] by (simp add: GetTheoreticalLimit_def)
  next
    case None
    show ?thesis
    proof (cases "\<exists>authors kinds. fAuthors f = Some authors \<and> fKinds f = Some kinds")
      case False
      then show ?thesis using None rest unlim
        by (auto simp: GetTheoreticalLimit_def Let_def split: option.splits)
    next
      case True
      then obtain authors kinds where ak: "fAuthors f = Some authors" "fKinds f = Some kinds" by blast
      have mem: "evPubKey e \<in> set authors" "evKind e \<in> set kinds" if "e \<in> set ?m" for e
        using m [OF that] ak by (auto simp: MatchesIgnoring_iff)
      consider (rep) "list_all IsReplaceable kinds"
        | (addr) "\<not> list_all IsReplaceable kinds" "length (tagmap_get (fTags f) ''d'') > 0"
          "list_all IsAddressable kinds"
        | (other) "\<not> list_all IsReplaceable kinds"
          "\<not> (length (tagmap_get (fTags f) ''d'') > 0 \<and> list_all IsAddressable kinds)" by blast
      then show ?thesis
      proof cases
        case rep
        let ?S = "(\<lambda>p. Inr (Inl p) :: ID + PubKey \<times> Kind + PubKey \<times> Kind \<times> string) ` (set authors \<times> set kinds)"
        have "length ?m \<le> card ?S"
          by (rule card_le_length_image [OF dSlot]) (use mem rep in \<open>auto simp: event_slot_def list_all_iff\<close>)
        also have "\<dots> \<le> card (set authors \<times> set kinds)" by (rule card_image_le) simp
        also have "\<dots> \<le> length authors * length kinds"
          by (simp add: card_cartesian_product card_length mult_le_mono)
        finally show ?thesis using None ak rep by (simp add: GetTheoreticalLimit_def flip: of_nat_mult)
      next
        case addr
        let ?d = "tagmap_get (fTags f) ''d''"
        let ?T = "set authors \<times> set kinds \<times> set ?d"
        let ?S = "(\<lambda>p. Inr (Inr p) :: ID + PubKey \<times> Kind + PubKey \<times> Kind \<times> string) ` ?T"
        obtain ds where ds: "map_of (fTags f) ''d'' = Some ds" "?d = ds"
          using addr(2) by (auto simp: tagmap_get_def split: option.splits)
        have d: "GetD (evTags e) \<in> set ?d" if e: "e \<in> set ?m" for e
        proof -
          have "(''d'', ds) \<in> set (fTags f)" using ds(1) by (rule map_of_SomeD)
          then have "ContainsAny (evTags e) ''d'' ds" using m [OF e] by (auto simp: MatchesIgnoring_iff)
          then obtain t where t: "t \<in> set (tags_FindAll (evTags e) ''d'')" "t ! 1 \<in> set ds"
            by (auto simp: ContainsAny_FindAll)
          moreover have "length (tags_FindAll (evTags e) ''d'') \<le> 1" using oned m [OF e] by blast
          ultimately have "tags_FindAll (evTags e) ''d'' = [t]"
            by (cases "tags_FindAll (evTags e) ''d''") auto
          then show ?thesis using t ds(2) by (simp add: GetD_Find tags_Find_FindAll)
        qed
        have nr: "\<not> IsReplaceable (evKind e)" "IsAddressable (evKind e)" if "e \<in> set ?m" for e
          using mem(2) [OF that] addr(3) kind_classes_disjoint(5) by (auto simp: list_all_iff)
        have "length ?m \<le> card ?S"
          by (rule card_le_length_image [OF dSlot]) (use mem d nr in \<open>auto simp: event_slot_def\<close>)
        also have "\<dots> \<le> card ?T" by (rule card_image_le) simp
        also have "\<dots> \<le> length authors * (length kinds * length ?d)"
          by (simp add: card_cartesian_product card_length mult_le_mono)
        finally have "int (length ?m) \<le> int (length authors) * int (length kinds) * int (length ?d)"
          by (simp add: algebra_simps flip: of_nat_mult)
        then show ?thesis using None ak addr by (simp add: GetTheoreticalLimit_def)
      next
        case other
        then show ?thesis using None ak rest unlim by (auto simp: GetTheoreticalLimit_def Let_def)
      qed
    qed
  qed
qed

section \<open>Properties\<close>

text \<open>filters that the deduplication test of the library calls equal match the same events, provided their
  lists are non-empty and without duplicates.\<close>

theorem equal_filters_match_alike:
  assumes "FilterEqual a b" "tidy_filter a" "tidy_filter b"
  shows "Matches a e \<longleftrightarrow> Matches b e"
  by (rule FilterEqual_Matches_aux) (rule assms)+

theorem equal_filters_match_alike_witness:
  "Matches (empty_filter\<lparr>fKinds := Some [1, 7]\<rparr>) note1 \<longleftrightarrow> Matches (empty_filter\<lparr>fKinds := Some [7, 1]\<rparr>) note1"
  by (rule equal_filters_match_alike)
    (simp_all add: FilterEqual_def similar_def similarID_def similarPublicKey_def empty_filter_def
      tidy_filter_def tidy_opt_def tagmap_get_def)

text \<open>the theoretical limit of a filter bounds the number of stored events that match it, in a store that
  keeps one event per replaceable slot and whose events carry at most one d tag.\<close>

theorem theoretical_limit_bounds_matches:
  assumes "one_per_slot es" "fLimit f \<le> 0" "\<not> fLimitZero f" "int (length es) \<le> MaxInt64"
    "\<And>e. e \<in> set es \<Longrightarrow> length (tags_FindAll (evTags e) ''d'') \<le> 1"
  shows "int (length (filter (Matches f) es)) \<le> GetTheoreticalLimit f"
  by (rule TheoreticalLimit_bound) (use assms in auto)

theorem theoretical_limit_bounds_matches_witness:
  "int (length (filter (Matches (empty_filter\<lparr>fIDs := Some [evID note1]\<rparr>)) [note1]))
     \<le> GetTheoreticalLimit (empty_filter\<lparr>fIDs := Some [evID note1]\<rparr>)"
  by (rule theoretical_limit_bounds_matches)
    (simp_all add: one_per_slot_def empty_filter_def MaxInt64_def note1_def tags_FindAll_def)

end
