(* ===== verification/Pointers.thy ===== *)
theory Pointers
  imports Filters
begin

text \<open>
  \<^verbatim>\<open>pointers.go\<close>: references to profiles, events and addressable entities, read from tags and
  written back as tags, addresses or filters.  The interface \<^verbatim>\<open>Pointer\<close> is a datatype with one
  constructor per implementation, the external pointer of \<^verbatim>\<open>nip73/pointer.go\<close> included.  Indexing a
  tag past its end panics in Go and is \<open>Panic\<close> here.
\<close>

record ProfilePointer =
  pp_PublicKey :: PubKey
  pp_Relays :: "string list option"

record EventPointer =
  ep_ID :: ID
  ep_Relays :: "string list option"
  ep_Author :: PubKey
  ep_Kind :: Kind

record EntityPointer =
  np_PublicKey :: PubKey
  np_Kind :: Kind
  np_Identifier :: string
  np_Relays :: "string list option"

record ExternalPointer =
  xp_Thing :: string

datatype Pointer =
    PProfile ProfilePointer
  | PEvent EventPointer
  | PEntity EntityPointer
  | PExternal ExternalPointer

datatype pointer_error =
    PtrHex hex_error
  | PtrSplits
  | PtrKind

text \<open>The zero values of the structs, which accompany every error return.\<close>

definition zero_EventPointer :: EventPointer where
  "zero_EventPointer = \<lparr>ep_ID = ZeroID, ep_Relays = None, ep_Author = ZeroPK, ep_Kind = 0\<rparr>"

definition zero_EntityPointer :: EntityPointer where
  "zero_EntityPointer = \<lparr>np_PublicKey = ZeroPK, np_Kind = 0, np_Identifier = '''', np_Relays = None\<rparr>"

fun lift_hex :: "(hex_error, 'a) outcome \<Rightarrow> (pointer_error, 'a) outcome" where
  "lift_hex (Ret a) = Ret a"
| "lift_hex (Fail e) = Fail (PtrHex e)"
| "lift_hex Panic = Panic"

section \<open>Profile pointers\<close>

definition ProfilePointerFromTag :: "ext \<Rightarrow> Tag \<Rightarrow> (pointer_error, ProfilePointer) outcome" where
  "ProfilePointerFromTag x refTag =
     obind (or_panic (index_at refTag 1)) (\<lambda>v.
     obind (lift_hex (PubKeyFromHex x v)) (\<lambda>pk.
     let pointer = \<lparr>pp_PublicKey = pk, pp_Relays = None\<rparr> in
     Ret (if length refTag > 2 \<and> IsValidRelayURL x (refTag ! 2)
          then pointer\<lparr>pp_Relays := Some [refTag ! 2]\<rparr> else pointer)))"

definition ProfilePointer_AsTag :: "ext \<Rightarrow> ProfilePointer \<Rightarrow> Tag" where
  "ProfilePointer_AsTag x ep =
     (case opt_list (pp_Relays ep) of
        r # _ \<Rightarrow> [''p'', HexEncodeToString x (pp_PublicKey ep), r]
      | [] \<Rightarrow> [''p'', HexEncodeToString x (pp_PublicKey ep)])"

section \<open>Event pointers\<close>

definition EventPointerFromTag :: "ext \<Rightarrow> Tag \<Rightarrow> (pointer_error, EventPointer) outcome" where
  "EventPointerFromTag x refTag =
     obind (or_panic (index_at refTag 1)) (\<lambda>v.
     obind (lift_hex (IDFromHex x v)) (\<lambda>i.
     let pointer = \<lparr>ep_ID = i, ep_Relays = None, ep_Author = ZeroPK, ep_Kind = 0\<rparr> in
     Ret (if length refTag > 2 then
            (let pointer = (if IsValidRelayURL x (refTag ! 2)
                            then pointer\<lparr>ep_Relays := Some [refTag ! 2]\<rparr> else pointer)
             in if length refTag > 3 then
                  (case PubKeyFromHex x (refTag ! 3) of
                     Ret pk \<Rightarrow> pointer\<lparr>ep_Author := pk\<rparr>
                   | _ \<Rightarrow> pointer)
                else pointer)
          else pointer)))"

definition EventPointer_AsTag :: "ext \<Rightarrow> EventPointer \<Rightarrow> Tag" where
  "EventPointer_AsTag x ep =
     (case opt_list (ep_Relays ep) of
        r # _ \<Rightarrow>
          (if ep_Author ep \<noteq> ZeroPK
           then [''e'', HexEncodeToString x (ep_ID ep), r, HexEncodeToString x (ep_Author ep)]
           else [''e'', HexEncodeToString x (ep_ID ep), r])
      | [] \<Rightarrow> [''e'', HexEncodeToString x (ep_ID ep)])"

section \<open>Entity pointers\<close>

definition ParseAddrString :: "ext \<Rightarrow> string \<Rightarrow> (pointer_error, EntityPointer) outcome" where
  "ParseAddrString x addr =
     (case strings_SplitN addr (CHR '':'') 3 of
        [s0, s1, s2] \<Rightarrow>
          obind (lift_hex (PubKeyFromHex x s1)) (\<lambda>pk.
          let (kind, ok) = strconv_Atoi s0 in
          if \<not> ok \<or> kind > 65536 then Fail PtrKind
          else Ret \<lparr>np_PublicKey = pk, np_Kind = word_of_int kind, np_Identifier = s2, np_Relays = None\<rparr>)
      | _ \<Rightarrow> Fail PtrSplits)"

definition EntityPointerFromTag :: "ext \<Rightarrow> Tag \<Rightarrow> (pointer_error, EntityPointer) outcome" where
  "EntityPointerFromTag x refTag =
     obind (or_panic (index_at refTag 1)) (\<lambda>v.
     obind (ParseAddrString x v) (\<lambda>pointer.
     Ret (if length refTag > 2 \<and> IsValidRelayURL x (refTag ! 2)
          then pointer\<lparr>np_Relays := Some [refTag ! 2]\<rparr> else pointer)))"

definition EntityPointer_AsTagReference :: "ext \<Rightarrow> EntityPointer \<Rightarrow> string" where
  "EntityPointer_AsTagReference x ep =
     strconv_Itoa (int (unat (np_Kind ep))) @ '':'' @ PubKey_Hex x (np_PublicKey ep) @ '':'' @ np_Identifier ep"

definition EntityPointer_MatchesEvent :: "EntityPointer \<Rightarrow> event \<Rightarrow> bool" where
  "EntityPointer_MatchesEvent ep evt \<longleftrightarrow>
     np_PublicKey ep = evPubKey evt \<and> np_Kind ep = evKind evt \<and> GetD (evTags evt) = np_Identifier ep"

definition EntityPointer_AsFilter :: "EntityPointer \<Rightarrow> Filter" where
  "EntityPointer_AsFilter ep =
     (let f = empty_filter\<lparr>fKinds := Some [np_Kind ep], fAuthors := Some [np_PublicKey ep]\<rparr>
      in if IsAddressable (np_Kind ep) then f\<lparr>fTags := [(''d'', [np_Identifier ep])]\<rparr> else f)"

definition EntityPointer_AsTag :: "ext \<Rightarrow> EntityPointer \<Rightarrow> Tag" where
  "EntityPointer_AsTag x ep =
     (case opt_list (np_Relays ep) of
        r # _ \<Rightarrow> [''a'', EntityPointer_AsTagReference x ep, r]
      | [] \<Rightarrow> [''a'', EntityPointer_AsTagReference x ep])"

section \<open>External pointers\<close>

definition ExternalPointerFromTag :: "Tag \<Rightarrow> (pointer_error, ExternalPointer) outcome" where
  "ExternalPointerFromTag refTag =
     obind (or_panic (index_at refTag 1)) (\<lambda>v. Ret \<lparr>xp_Thing = v\<rparr>)"

section \<open>The interface\<close>

fun Pointer_MatchesEvent :: "Pointer \<Rightarrow> event \<Rightarrow> bool" where
  "Pointer_MatchesEvent (PProfile p) evt = False"
| "Pointer_MatchesEvent (PEvent p) evt = (evID evt = ep_ID p)"
| "Pointer_MatchesEvent (PEntity p) evt = EntityPointer_MatchesEvent p evt"
| "Pointer_MatchesEvent (PExternal p) evt = False"

fun Pointer_AsFilter :: "Pointer \<Rightarrow> Filter" where
  "Pointer_AsFilter (PProfile p) = empty_filter\<lparr>fAuthors := Some [pp_PublicKey p]\<rparr>"
| "Pointer_AsFilter (PEvent p) = empty_filter\<lparr>fIDs := Some [ep_ID p]\<rparr>"
| "Pointer_AsFilter (PEntity p) = EntityPointer_AsFilter p"
| "Pointer_AsFilter (PExternal p) = empty_filter"

fun Pointer_AsTagReference :: "ext \<Rightarrow> Pointer \<Rightarrow> string" where
  "Pointer_AsTagReference x (PProfile p) = HexEncodeToString x (pp_PublicKey p)"
| "Pointer_AsTagReference x (PEvent p) = HexEncodeToString x (ep_ID p)"
| "Pointer_AsTagReference x (PEntity p) = EntityPointer_AsTagReference x p"
| "Pointer_AsTagReference x (PExternal p) = xp_Thing p"

fun Pointer_AsTag :: "ext \<Rightarrow> Pointer \<Rightarrow> Tag" where
  "Pointer_AsTag x (PProfile p) = ProfilePointer_AsTag x p"
| "Pointer_AsTag x (PEvent p) = EventPointer_AsTag x p"
| "Pointer_AsTag x (PEntity p) = EntityPointer_AsTag x p"
| "Pointer_AsTag x (PExternal p) = [''i'', xp_Thing p]"

section \<open>Facts\<close>

lemma FromTag_no_panic:
  "2 \<le> length t \<Longrightarrow> EventPointerFromTag x t \<noteq> Panic"
  "2 \<le> length t \<Longrightarrow> EntityPointerFromTag x t \<noteq> Panic"
  "2 \<le> length t \<Longrightarrow> ProfilePointerFromTag x t \<noteq> Panic"
proof -
  have l: "lift_hex m = Panic \<longleftrightarrow> m = Panic" for m :: "(hex_error, 'a) outcome"
    by (cases m) auto
  have p: "ParseAddrString x v \<noteq> Panic" for v
    by (auto simp: ParseAddrString_def obind_Panic_iff l Let_def split: list.splits if_splits prod.splits)
  show "2 \<le> length t \<Longrightarrow> EventPointerFromTag x t \<noteq> Panic"
    "2 \<le> length t \<Longrightarrow> EntityPointerFromTag x t \<noteq> Panic"
    "2 \<le> length t \<Longrightarrow> ProfilePointerFromTag x t \<noteq> Panic"
    by (auto simp: EventPointerFromTag_def EntityPointerFromTag_def ProfilePointerFromTag_def
        obind_Panic_iff l p index_at_def Let_def)
qed

lemma lift_hex_Ret [simp]: "lift_hex m = Ret a \<longleftrightarrow> m = Ret a"
  by (cases m) auto

lemma Itoa_no_colon: "CHR '':'' \<notin> set (strconv_Itoa v)"
  using Itoa_digits [of "CHR '':''"] by (auto simp: strconv_Itoa_def char_digit_def)

lemma SplitN_3:
  "c \<notin> set a \<Longrightarrow> c \<notin> set b \<Longrightarrow> strings_SplitN (a @ [c] @ b @ [c] @ d) c 3 = [a, b, d]"
  using SplitN_step [of c a "b @ c # d" 1] SplitN_step [of c b d 0] by (simp add: numeral_3_eq_3)

lemma ParseAddrString_AsTagReference:
  assumes x: "hex_ext x" and wf: "wf32 (np_PublicKey ep)" "ParsePubKey x (np_PublicKey ep)"
  shows "ParseAddrString x (EntityPointer_AsTagReference x ep) = Ret (ep\<lparr>np_Relays := None\<rparr>)"
proof -
  have "CHR '':'' \<notin> set (PubKey_Hex x (np_PublicKey ep))"
    using hex_codec.enc_no_colon [OF x] by (simp add: PubKey_Hex_def HexEncodeToString_def)
  then have spl: "strings_SplitN (EntityPointer_AsTagReference x ep) (CHR '':'') 3
      = [strconv_Itoa (int (unat (np_Kind ep))), PubKey_Hex x (np_PublicKey ep), np_Identifier ep]"
    using SplitN_3 [OF Itoa_no_colon] by (simp add: EntityPointer_AsTagReference_def)
  have k: "unat (np_Kind ep) < 65536" using unsigned_less [of "np_Kind ep"] by simp
  have "strconv_Atoi (strconv_Itoa (int (unat (np_Kind ep)))) = (int (unat (np_Kind ep)), True)"
    unfolding strconv_Atoi_def by (rule ParseInt_Itoa) (use k in \<open>intro in_int64_nat, simp\<close>)
  moreover have "\<not> int (unat (np_Kind ep)) > 65536" using k by linarith
  ultimately show ?thesis
    using PubKeyFromHex_Hex [OF x wf] by (simp add: ParseAddrString_def spl)
qed

lemma EventPointer_AsTag_roundtrip:
  assumes x: "hex_ext x" and wf: "wf32 (ep_ID p)" "wf32 (ep_Author p)"
    and rel: "ep_Relays p = Some [r]" "IsValidRelayURL x r"
    and auth: "ep_Author p = ZeroPK \<or> ParsePubKey x (ep_Author p)"
  shows "EventPointerFromTag x (EventPointer_AsTag x p) = Ret (p\<lparr>ep_Kind := 0\<rparr>)"
  using rel auth IDFromHex_Hex [OF x wf(1)] PubKeyFromHex_Hex [OF x wf(2)]
  by (auto simp: EventPointerFromTag_def EventPointer_AsTag_def index_at_def ID_Hex_def PubKey_Hex_def
      Let_def numeral_2_eq_2 numeral_3_eq_3 split: outcome.splits)

lemma EntityPointer_matches_filter:
  assumes "EntityPointer_MatchesEvent p e" and d: "IsAddressable (np_Kind p) \<Longrightarrow> tags_Find (evTags e) ''d'' \<noteq> None"
  shows "Matches (EntityPointer_AsFilter p) e"
proof -
  have "ContainsAny (evTags e) ''d'' [np_Identifier p]" if a: "IsAddressable (np_Kind p)"
  proof -
    obtain v where v: "tags_Find (evTags e) ''d'' = Some v" using d [OF a] by blast
    then have "v ! 1 = np_Identifier p"
      using assms(1) by (simp add: EntityPointer_MatchesEvent_def GetD_Find)
    then show ?thesis using tags_Find_Some [OF v] by (auto simp: ContainsAny_iff)
  qed
  then show ?thesis
    using assms(1) by (auto simp: Matches_iff MatchesIgnoring_iff EntityPointer_AsFilter_def Let_def
        EntityPointer_MatchesEvent_def empty_filter_def)
qed

lemma EntityPointer_filter_matches:
  assumes "Matches (EntityPointer_AsFilter p) e" "IsAddressable (np_Kind p)"
    "length (tags_FindAll (evTags e) ''d'') \<le> 1"
  shows "EntityPointer_MatchesEvent p e"
proof -
  have "ContainsAny (evTags e) ''d'' [np_Identifier p]" "evKind e = np_Kind p" "evPubKey e = np_PublicKey p"
    using assms(1,2) by (auto simp: Matches_iff MatchesIgnoring_iff EntityPointer_AsFilter_def Let_def
        empty_filter_def)
  moreover then have "GetD (evTags e) = np_Identifier p"
    using assms(3) by (cases "tags_FindAll (evTags e) ''d''")
      (auto simp: ContainsAny_FindAll GetD_Find tags_Find_FindAll)
  ultimately show ?thesis by (simp add: EntityPointer_MatchesEvent_def)
qed

section \<open>Properties\<close>

text \<open>printing an address and parsing it again gives the same author, kind and identifier, also when
  the identifier contains colons.\<close>

theorem address_roundtrip:
  assumes "hex_ext x" "wf32 (np_PublicKey ep)" "ParsePubKey x (np_PublicKey ep)"
  shows "ParseAddrString x (EntityPointer_AsTagReference x ep) = Ret (ep\<lparr>np_Relays := None\<rparr>)"
  by (rule ParseAddrString_AsTagReference) (rule assms)+

theorem address_roundtrip_witness:
  "let ep = \<lparr>np_PublicKey = replicate 32 2, np_Kind = 30023, np_Identifier = ''a:b'', np_Relays = None\<rparr>
   in ParseAddrString std_ext (EntityPointer_AsTagReference std_ext ep) = Ret ep"
  using address_roundtrip [of std_ext "\<lparr>np_PublicKey = replicate 32 2, np_Kind = 30023, np_Identifier = ''a:b'', np_Relays = None\<rparr>"]
  by (simp add: wf32_def)

text \<open>a pointer parsed from a tag of at least two items never panics, whatever the tag says.\<close>

theorem pointers_from_tags_total:
  assumes "2 \<le> length t"
  shows "EventPointerFromTag x t \<noteq> Panic \<and> EntityPointerFromTag x t \<noteq> Panic \<and> ProfilePointerFromTag x t \<noteq> Panic"
  using FromTag_no_panic [OF assms] by blast

theorem pointers_from_tags_total_witness:
  "EventPointerFromTag std_ext [''e'', ''zz''] \<noteq> Panic"
  using pointers_from_tags_total [of "[''e'', ''zz'']" std_ext] by simp

text \<open>for addressable kinds, on events with at most one d tag, an entity pointer matches an
  event exactly when the filter made from it does.\<close>

theorem entity_pointer_filter_agree:
  assumes "IsAddressable (np_Kind p)" "length (tags_FindAll (evTags e) ''d'') = 1"
  shows "EntityPointer_MatchesEvent p e \<longleftrightarrow> Matches (EntityPointer_AsFilter p) e"
proof -
  have "tags_Find (evTags e) ''d'' \<noteq> None" using assms(2) by (auto simp: tags_Find_FindAll split: list.splits)
  then show ?thesis
    using EntityPointer_matches_filter [of p e] EntityPointer_filter_matches [of p e] assms by auto
qed

theorem entity_pointer_filter_agree_witness:
  "let p = \<lparr>np_PublicKey = replicate 32 2, np_Kind = 30023, np_Identifier = ''a'', np_Relays = None\<rparr>;
       e = note1\<lparr>evKind := 30023, evTags := [[''d'', ''b'']]\<rparr>
   in EntityPointer_MatchesEvent p e \<longleftrightarrow> Matches (EntityPointer_AsFilter p) e"
  unfolding Let_def
  by (rule entity_pointer_filter_agree) (simp_all add: IsAddressable_def tags_FindAll_def)

end
