(* ===== verification/Store.thy ===== *)
theory Store
  imports Filters
begin

text \<open>
  The persistence interface \<^verbatim>\<open>eventstore/store.go\<close> and its clients.  The Go interface is a record of
  operations over a state type; iterators are the list a caller sees that consumes all of them.  The
  locale \<open>event_store\<close> is the contract an implementation promises: queries return stored matching
  events and respect the limit, a save adds exactly the event, a delete removes exactly one event
  with the id.  The publisher and the reaction wrapper of \<^verbatim>\<open>eventstore/wrappers\<close> are clients, proved
  against the contract.
\<close>

datatype store_error = ErrDupEvent | ErrOther string

record 's Store =
  QueryEvents :: "'s \<Rightarrow> Filter \<Rightarrow> int \<Rightarrow> event list"
  DeleteEvent :: "'s \<Rightarrow> ID \<Rightarrow> store_error option \<times> 's"
  SaveEvent :: "'s \<Rightarrow> event \<Rightarrow> store_error option \<times> 's"
  ReplaceEvent :: "'s \<Rightarrow> event \<Rightarrow> (event list \<times> store_error option) \<times> 's"
  CountEvents :: "'s \<Rightarrow> Filter \<Rightarrow> int"

section \<open>The contract\<close>

locale event_source =
  fixes S :: "'s Store" and inv :: "'s \<Rightarrow> bool" and contents :: "'s \<Rightarrow> event list"
  assumes query_stored: "inv s \<Longrightarrow> e \<in> set (QueryEvents S s f n) \<Longrightarrow> e \<in> set (contents s)"
    and query_matches: "inv s \<Longrightarrow> e \<in> set (QueryEvents S s f n) \<Longrightarrow> Matches f e"
    and query_limit: "inv s \<Longrightarrow> 0 \<le> n \<Longrightarrow> int (length (QueryEvents S s f n)) \<le> n"
begin

lemma query_count:
  assumes "inv s" "distinct (QueryEvents S s f n)"
  shows "length (QueryEvents S s f n) \<le> length (filter (Matches f) (contents s))"
proof -
  have "set (QueryEvents S s f n) \<subseteq> set (filter (Matches f) (contents s))"
    using query_stored query_matches assms(1) by auto
  then have "card (set (QueryEvents S s f n)) \<le> card (set (filter (Matches f) (contents s)))"
    by (simp add: card_mono)
  also have "\<dots> \<le> length (filter (Matches f) (contents s))" by (rule card_length)
  finally show ?thesis using assms(2) by (simp add: distinct_card)
qed

end

locale event_store = event_source +
  assumes save_ok: "inv s \<Longrightarrow> SaveEvent S s e = (None, s') \<Longrightarrow>
      inv s' \<and> mset (contents s') = add_mset e (mset (contents s))"
    and save_dup: "inv s \<Longrightarrow> SaveEvent S s e = (Some err, s') \<Longrightarrow>
      s' = s \<and> err = ErrDupEvent \<and> (\<exists>e' \<in> set (contents s). evID e' = evID e)"
    and delete_ok: "inv s \<Longrightarrow> DeleteEvent S s i = (derr, s') \<Longrightarrow>
      derr = None \<and> inv s' \<and> mset (contents s') \<subseteq># mset (contents s) \<and>
      (distinct (map evID (contents s)) \<longrightarrow>
        mset (contents s') = filter_mset (\<lambda>e. evID e \<noteq> i) (mset (contents s)))"
begin

lemma save_inv: "inv s \<Longrightarrow> inv (snd (SaveEvent S s e))"
proof -
  assume "inv s"
  obtain err s' where "SaveEvent S s e = (err, s')" by (cases "SaveEvent S s e")
  then show ?thesis using save_ok [of s e s'] save_dup [of s e] \<open>inv s\<close> by (cases err) auto
qed

lemma save_present: "inv s \<Longrightarrow> \<exists>e' \<in> set (contents (snd (SaveEvent S s e))). evID e' = evID e"
proof -
  assume "inv s"
  obtain err s' where s: "SaveEvent S s e = (err, s')" by (cases "SaveEvent S s e")
  show ?thesis
  proof (cases err)
    case None
    then have "e \<in># mset (contents s')" using save_ok s \<open>inv s\<close> by simp
    then show ?thesis using s by auto
  next
    case (Some x)
    then show ?thesis using save_dup [of s e x s'] s \<open>inv s\<close> by auto
  qed
qed

lemma delete_inv: "inv s \<Longrightarrow> inv (snd (DeleteEvent S s i))"
  using delete_ok by (metis prod.collapse)

lemma delete_err: "inv s \<Longrightarrow> fst (DeleteEvent S s i) = None"
  using delete_ok by (metis prod.collapse)

end

section \<open>Publishing\<close>

datatype publish_error = PErrDup | PFailedSave store_error | PFailedReplace store_error

text \<open>\<^verbatim>\<open>StorePublisher.Publish\<close>: a duplicate is reported as it is, every other error is wrapped.\<close>

definition Publish :: "'s Store \<Rightarrow> 's \<Rightarrow> event \<Rightarrow> publish_error option \<times> 's" where
  "Publish S s evt =
     (if IsEphemeral (evKind evt) then (None, s)
      else if IsRegular (evKind evt) then
        (case SaveEvent S s evt of
           (None, s') \<Rightarrow> (None, s')
         | (Some ErrDupEvent, s') \<Rightarrow> (Some PErrDup, s')
         | (Some err, s') \<Rightarrow> (Some (PFailedSave err), s'))
      else
        (case ReplaceEvent S s evt of
           ((_, Some e), s') \<Rightarrow> (Some (PFailedReplace e), s')
         | ((_, None), s') \<Rightarrow> (None, s')))"

text \<open>\<^verbatim>\<open>DynamicPublisher.Publish\<close> differs in not wrapping the error of a replacement.\<close>

definition Dynamic_Publish :: "(unit \<Rightarrow> 's Store) \<Rightarrow> 's \<Rightarrow> event \<Rightarrow> (publish_error + store_error) option \<times> 's" where
  "Dynamic_Publish GetStore s evt =
     (if IsEphemeral (evKind evt) then (None, s)
      else if IsRegular (evKind evt) then
        (case SaveEvent (GetStore ()) s evt of
           (None, s') \<Rightarrow> (None, s')
         | (Some ErrDupEvent, s') \<Rightarrow> (Some (Inl PErrDup), s')
         | (Some err, s') \<Rightarrow> (Some (Inl (PFailedSave err)), s'))
      else
        (case ReplaceEvent (GetStore ()) s evt of
           ((_, e), s') \<Rightarrow> (map_option Inr e, s')))"

section \<open>Unique reactions\<close>

text \<open>
  \<^verbatim>\<open>UniqueReactionsWrapper.SaveEvent\<close>: before a reaction (kind 7) or a poll response (kind 1018) is
  saved, the events of the same kind and author that refer to the same event are deleted.
\<close>

fun delete_all :: "'s Store \<Rightarrow> event list \<Rightarrow> 's \<Rightarrow> store_error option \<times> 's" where
  "delete_all S [] s = (None, s)"
| "delete_all S (old # olds) s =
     (case DeleteEvent S s (evID old) of
        (Some e, s') \<Rightarrow> (Some e, s')
      | (None, s') \<Rightarrow> delete_all S olds s')"

definition reaction_filter :: "event \<Rightarrow> Tag \<Rightarrow> Filter" where
  "reaction_filter event ref =
     empty_filter\<lparr>fAuthors := Some [evPubKey event], fKinds := Some [evKind event], fTags := [(''e'', [ref ! 1])]\<rparr>"

definition UniqueReactions_SaveEvent :: "'s Store \<Rightarrow> 's \<Rightarrow> event \<Rightarrow> store_error option \<times> 's" where
  "UniqueReactions_SaveEvent S s event =
     (if evKind event = 7 \<or> evKind event = 1018 then
        (case tags_Find (evTags event) ''e'' of
           None \<Rightarrow> SaveEvent S s event
         | Some ref \<Rightarrow>
             (case delete_all S (QueryEvents S s (reaction_filter event ref) 1000) s of
                (Some e, s') \<Rightarrow> (Some (ErrOther ''failed to delete old event''), s')
              | (None, s') \<Rightarrow> SaveEvent S s' event))
      else SaveEvent S s event)"

context event_store
begin

lemma delete_all_inv:
  "inv s \<Longrightarrow> inv (snd (delete_all S olds s)) \<and> fst (delete_all S olds s) = None \<and>
     mset (contents (snd (delete_all S olds s))) \<subseteq># mset (contents s)"
proof (induction olds arbitrary: s)
  case Nil
  then show ?case by simp
next
  case (Cons old olds)
  obtain err s' where d: "DeleteEvent S s (evID old) = (err, s')" by (cases "DeleteEvent S s (evID old)")
  have "err = None" "inv s'" "mset (contents s') \<subseteq># mset (contents s)"
    using delete_ok [OF Cons.prems d] by auto
  then show ?case using Cons.IH [of s'] d by (auto intro: subset_mset.order_trans)
qed

lemma delete_all_contents:
  "inv s \<Longrightarrow> distinct (map evID (contents s)) \<Longrightarrow>
     mset (contents (snd (delete_all S olds s))) =
       filter_mset (\<lambda>e. evID e \<notin> evID ` set olds) (mset (contents s))"
proof (induction olds arbitrary: s)
  case Nil
  then show ?case by simp
next
  case (Cons old olds)
  obtain err s' where d: "DeleteEvent S s (evID old) = (err, s')" by (cases "DeleteEvent S s (evID old)")
  have s': "err = None" "inv s'" "mset (contents s') = filter_mset (\<lambda>e. evID e \<noteq> evID old) (mset (contents s))"
    using delete_ok [OF Cons.prems(1) d] Cons.prems(2) by auto
  have "mset (map evID (contents s')) \<subseteq># mset (map evID (contents s))"
    using s'(3) by (simp add: image_mset_subseteq_mono)
  then have "distinct (map evID (contents s'))"
    using Cons.prems(2) distinct_mset_subset by blast
  then show ?case using Cons.IH [of s'] s' d
    by (simp add: filter_filter_mset conj_commute)
qed

text \<open>After saving a reaction, no other stored event of that author and kind refers to the same event.\<close>

lemma unique_reactions:
  assumes "inv s" and ids: "distinct (map evID (contents s))"
    and k: "evKind e = 7 \<or> evKind e = 1018" and ref: "tags_Find (evTags e) ''e'' = Some ref"
    and all: "set (QueryEvents S s (reaction_filter e ref) 1000) = set (filter (Matches (reaction_filter e ref)) (contents s))"
    and res: "UniqueReactions_SaveEvent S s e = (None, s')"
  shows "inv s' \<and> e \<in> set (contents s') \<and>
    (\<forall>e' \<in> set (contents s'). e' = e \<or> \<not> (evPubKey e' = evPubKey e \<and> evKind e' = evKind e \<and>
       ContainsAny (evTags e') ''e'' [ref ! 1]))"
proof -
  let ?f = "reaction_filter e ref"
  let ?olds = "QueryEvents S s ?f 1000"
  obtain s1 where s1: "delete_all S ?olds s = (None, s1)"
    using delete_all_inv [OF assms(1), of ?olds] by (cases "delete_all S ?olds s") auto
  then have sv: "SaveEvent S s1 e = (None, s')"
    using res k ref by (auto simp: UniqueReactions_SaveEvent_def)
  have i1: "inv s1" using delete_all_inv [OF assms(1), of ?olds] s1 by simp
  have c1: "mset (contents s1) = filter_mset (\<lambda>e. evID e \<notin> evID ` set ?olds) (mset (contents s))"
    using delete_all_contents [OF assms(1) ids, of ?olds] s1 by simp
  have c': "inv s' \<and> mset (contents s') = add_mset e (mset (contents s1))" by (rule save_ok [OF i1 sv])
  have m: "Matches ?f e' \<longleftrightarrow> evPubKey e' = evPubKey e \<and> evKind e' = evKind e \<and>
      ContainsAny (evTags e') ''e'' [ref ! 1]" for e'
    by (auto simp: Matches_iff MatchesIgnoring_iff empty_filter_def reaction_filter_def)
  have "\<not> Matches ?f e'" if "e' \<in> set (contents s1)" for e'
  proof
    assume "Matches ?f e'"
    moreover have "e' \<in># filter_mset (\<lambda>e. evID e \<notin> evID ` set ?olds) (mset (contents s))"
      using that c1 by (metis set_mset_mset)
    ultimately show False using all by auto
  qed
  moreover have "set (contents s') = insert e (set (contents s1))"
    using c' by (metis set_mset_add_mset_insert set_mset_mset)
  ultimately show ?thesis using c' m by auto
qed

end

section \<open>The null store\<close>

definition NullStore :: "unit Store" where
  "NullStore = \<lparr>QueryEvents = (\<lambda>_ _ _. []), DeleteEvent = (\<lambda>s _. (None, s)), SaveEvent = (\<lambda>s _. (None, s)),
     ReplaceEvent = (\<lambda>s _. (([], None), s)), CountEvents = (\<lambda>_ _. 0)\<rparr>"

interpretation null: event_source NullStore "\<lambda>_. True" "\<lambda>_. []"
  by unfold_locales (auto simp: NullStore_def)

section \<open>Merging two result streams\<close>

text \<open>
  \<^verbatim>\<open>eventstore/combine.go\<close>.  Below a limit of 60 both inputs are collected and sorted; from 60 on
  they are merged by timestamp, and the wrapped \<^verbatim>\<open>yield\<close> stops after \<open>limit\<close> results (it hands
  out the event before it counts it).
\<close>

fun merge_both :: "event list \<Rightarrow> event list \<Rightarrow> event list" where
  "merge_both [] ys = ys"
| "merge_both xs [] = xs"
| "merge_both (x # xs) (y # ys) =
     (if evCreatedAt y > evCreatedAt x then y # merge_both (x # xs) ys else x # merge_both xs (y # ys))"

text \<open>The events handed out by a yield that answers false once \<open>count\<close> has reached the limit.\<close>

fun yield_limited :: "int \<Rightarrow> int \<Rightarrow> event list \<Rightarrow> event list" where
  "yield_limited limit cnt [] = []"
| "yield_limited limit cnt (e # es) =
     (if cnt + 1 \<ge> limit then [e] else e # yield_limited limit (cnt + 1) es)"

definition SortedMerge :: "event list \<Rightarrow> event list \<Rightarrow> int \<Rightarrow> event list" where
  "SortedMerge it1 it2 limit =
     (if limit < 60 then
        (let acc = slices_SortFunc CompareEventReverse (it1 @ it2)
         in take (nat (min limit (int (length acc)))) acc)
      else yield_limited limit 0 (merge_both it1 it2))"

lemma mset_merge_both [simp]: "mset (merge_both xs ys) = mset xs + mset ys"
  by (induction xs ys rule: merge_both.induct) auto

lemma set_merge_both [simp]: "set (merge_both xs ys) = set xs \<union> set ys"
  by (metis mset_merge_both set_mset_mset set_mset_union)

definition newest_first :: "event list \<Rightarrow> bool" where
  "newest_first es \<longleftrightarrow> sorted_wrt (\<lambda>a b. evCreatedAt b \<le> evCreatedAt a) es"

lemma newest_first_merge: "newest_first xs \<Longrightarrow> newest_first ys \<Longrightarrow> newest_first (merge_both xs ys)"
  unfolding newest_first_def by (induction xs ys rule: merge_both.induct) fastforce+

lemma yield_limited_take:
  "cnt < limit \<Longrightarrow> yield_limited limit cnt es = take (nat (limit - cnt)) es"
proof (induction limit cnt es rule: yield_limited.induct)
  case (2 limit cnt e es)
  have "nat (limit - cnt) = Suc (nat (limit - (cnt + 1)))" using "2.prems" by simp
  then show ?case using 2 by auto
qed simp

lemma newest_first_sort: "newest_first (slices_SortFunc CompareEventReverse es)"
proof -
  have "sorted_wrt (\<lambda>a b. CompareEventReverse a b \<le> 0) (slices_SortFunc CompareEventReverse es)"
    by (rule event_cmp_rev.sorted_SortFunc)
  then show ?thesis unfolding newest_first_def
    by (rule sorted_wrt_mono_rel [rotated])
      (auto simp: CompareEventReverse_def cmp_Compare_def split: if_splits)
qed

text \<open>
  On inputs that are newest first the result is a prefix of a merge of both, newest first, of the
  requested length; no event that is left out is newer than one that is returned.
\<close>

lemma SortedMerge_top:
  assumes srt: "newest_first xs" "newest_first ys" and n: "0 \<le> limit"
  obtains rest where "mset (SortedMerge xs ys limit @ rest) = mset xs + mset ys"
    "newest_first (SortedMerge xs ys limit @ rest)"
    "length (SortedMerge xs ys limit) = min (nat limit) (length xs + length ys)"
proof (cases "limit < 60")
  case True
  let ?acc = "slices_SortFunc CompareEventReverse (xs @ ys)"
  have k: "nat (min limit (int (length ?acc))) = min (nat limit) (length ?acc)" using n by auto
  have "SortedMerge xs ys limit = take (min (nat limit) (length ?acc)) ?acc"
    using True by (simp only: SortedMerge_def Let_def k if_True)
  then show ?thesis
    using that [of "drop (min (nat limit) (length ?acc)) ?acc"] newest_first_sort [of "xs @ ys"]
    by (simp add: mset_append [symmetric] del: mset_append)
next
  case False
  have "SortedMerge xs ys limit = take (nat limit) (merge_both xs ys)"
    using False yield_limited_take [of 0 limit] by (simp add: SortedMerge_def)
  moreover have "length (merge_both xs ys) = length xs + length ys"
    by (metis mset_merge_both size_mset size_union)
  ultimately show ?thesis
    using that [of "drop (nat limit) (merge_both xs ys)"] newest_first_merge [OF srt]
    by (simp add: mset_append [symmetric] min.commute del: mset_append)
qed

section \<open>Properties\<close>

text \<open>merging two newest-first result lists under a limit gives the newest events of both, in order:
  what is left out comes after everything that is returned, and the limit is used up.\<close>

theorem sorted_merge_newest:
  assumes "newest_first xs" "newest_first ys" "0 \<le> limit"
  shows "\<exists>rest. mset (SortedMerge xs ys limit @ rest) = mset xs + mset ys \<and>
    newest_first (SortedMerge xs ys limit @ rest) \<and>
    length (SortedMerge xs ys limit) = min (nat limit) (length xs + length ys)"
  using SortedMerge_top [OF assms] by metis

theorem sorted_merge_newest_witness:
  "length (SortedMerge [note1] [note1] 1) = 1 \<and>
   (\<exists>rest. mset (SortedMerge [note1] [note1] 1 @ rest) = {#note1, note1#})"
  using sorted_merge_newest [of "[note1]" "[note1]" 1] by (auto simp: newest_first_def)

end
