(* ===== verification/SliceStore.thy ===== *)
theory SliceStore
  imports Store
begin

text \<open>
  \<^verbatim>\<open>eventstore/slicestore/lib.go\<close>: the in-memory store, a slice kept newest first.  Its operations
  keep the slice strictly sorted (the invariant \<open>slice_inv\<close>), a query is the first \<open>n\<close> matching
  events, and the store is an instance of the contract \<open>event_store\<close>.  The lock is left out: each
  operation is one atomic step.
\<close>

section \<open>The code\<close>

definition eventTimestampComparator :: "event \<Rightarrow> int \<Rightarrow> int" where
  "eventTimestampComparator e t = cmp_Compare t (evCreatedAt e)"

definition eventComparator :: "event \<Rightarrow> event \<Rightarrow> int" where
  "eventComparator a b =
     (let v = cmp_Compare (evCreatedAt b) (evCreatedAt a)
      in if v = 0 then bytes_Compare (evID b) (evID a) else v)"

text \<open>The loop of the query: \<open>n\<close> is \<^verbatim>\<open>count\<close>; it stops when it equals the limit.\<close>

fun query_loop :: "Filter \<Rightarrow> int \<Rightarrow> int \<Rightarrow> event list \<Rightarrow> event list" where
  "query_loop f maxLimit n [] = []"
| "query_loop f maxLimit n (e # es) =
     (if n = maxLimit then []
      else if Matches f e then e # query_loop f maxLimit (n + 1) es
      else query_loop f maxLimit n es)"

definition slice_QueryEvents :: "event list \<Rightarrow> Filter \<Rightarrow> int \<Rightarrow> event list" where
  "slice_QueryEvents internal f maxLimit =
     (let tlimit = GetTheoreticalLimit f in
      if tlimit = 0 then []
      else
        (let maxLimit' = (if tlimit < maxLimit then tlimit else maxLimit);
             start = (if fUntil f \<noteq> 0
                then fst (slices_BinarySearchFunc internal (fUntil f) eventTimestampComparator) else 0);
             end' = (if fSince f \<noteq> 0
                then fst (slices_BinarySearchFunc internal (fSince f) eventTimestampComparator)
                else length internal)
         in if end' < start then []
            else query_loop f maxLimit' 0 (take (end' - start) (drop start internal))))"

fun slice_count :: "event list \<Rightarrow> Filter \<Rightarrow> int \<Rightarrow> int" where
  "slice_count [] f val = val"
| "slice_count (e # es) f val = slice_count es f (if Matches f e then val + 1 else val)"

definition slice_CountEvents :: "event list \<Rightarrow> Filter \<Rightarrow> int" where
  "slice_CountEvents internal f = slice_count internal f 0"

text \<open>
  \<^verbatim>\<open>save\<close> appends a dummy element, moves the tail one place with \<^verbatim>\<open>copy\<close> (which behaves as if the
  source were read first) and overwrites the gap.
\<close>

definition slice_save :: "event list \<Rightarrow> event \<Rightarrow> store_error option \<times> event list" where
  "slice_save internal evt =
     (let (idx, found) = slices_BinarySearchFunc internal evt eventComparator in
      if found then (Some ErrDupEvent, internal)
      else
        (let internal1 = internal @ [evt];
             internal2 = copy_at internal1 (idx + 1) (drop idx internal1)
         in (None, internal2[idx := evt])))"

fun find_id :: "event list \<Rightarrow> ID \<Rightarrow> nat \<Rightarrow> nat option" where
  "find_id [] i n = None"
| "find_id (e # es) i n = (if evID e = i then Some n else find_id es i (n + 1))"

definition slice_delete :: "event list \<Rightarrow> ID \<Rightarrow> store_error option \<times> event list" where
  "slice_delete internal i =
     (case find_id internal i 0 of
        None \<Rightarrow> (None, internal)
      | Some idx \<Rightarrow> (None, take (length internal - 1) (copy_at internal idx (drop (idx + 1) internal))))"

text \<open>
  The loop of \<^verbatim>\<open>ReplaceEvent\<close> deletes while it consumes the query; the query's limit is 1, so it
  never looks at the slice again after the first deletion.
\<close>

fun replace_loop :: "event list \<Rightarrow> event \<Rightarrow> event list \<Rightarrow> event list \<Rightarrow> bool
    \<Rightarrow> event list \<times> event list \<times> bool \<times> store_error option" where
  "replace_loop [] evt internal deleted shouldStore = (internal, deleted, shouldStore, None)"
| "replace_loop (previous # ps) evt internal deleted shouldStore =
     (if IsOlder previous evt then
        (case slice_delete internal (evID previous) of
           (Some err, internal') \<Rightarrow> (internal', deleted, shouldStore, Some (ErrOther ''failed to delete event for replacing''))
         | (None, internal') \<Rightarrow> replace_loop ps evt internal' (deleted @ [previous]) shouldStore)
      else replace_loop ps evt internal deleted False)"

definition replace_filter :: "event \<Rightarrow> Filter" where
  "replace_filter evt =
     (let f = empty_filter\<lparr>fLimit := 1, fKinds := Some [evKind evt], fAuthors := Some [evPubKey evt]\<rparr>
      in if IsAddressable (evKind evt) then f\<lparr>fTags := [(''d'', [GetD (evTags evt)])]\<rparr> else f)"

definition slice_ReplaceEvent :: "event list \<Rightarrow> event \<Rightarrow> (event list \<times> store_error option) \<times> event list" where
  "slice_ReplaceEvent internal evt =
     (case replace_loop (slice_QueryEvents internal (replace_filter evt) 1) evt internal [] True of
        (internal', deleted, shouldStore, Some err) \<Rightarrow> (([], Some err), internal')
      | (internal', deleted, shouldStore, None) \<Rightarrow>
          if shouldStore then
            (case slice_save internal' evt of
               (Some ErrDupEvent, internal'') \<Rightarrow> ((deleted, None), internal'')
             | (Some err, internal'') \<Rightarrow> (([], Some (ErrOther ''failed to save'')), internal'')
             | (None, internal'') \<Rightarrow> ((deleted, None), internal''))
          else ((deleted, None), internal'))"

definition SliceStore :: "event list Store" where
  "SliceStore = \<lparr>QueryEvents = slice_QueryEvents, DeleteEvent = slice_delete, SaveEvent = slice_save,
     ReplaceEvent = slice_ReplaceEvent, CountEvents = slice_CountEvents\<rparr>"

section \<open>The invariant\<close>

definition slice_inv :: "event list \<Rightarrow> bool" where
  "slice_inv es \<longleftrightarrow> sorted_wrt (\<lambda>a b. eventComparator a b < 0) es"

lemma eventComparator_eq: "eventComparator = CompareEventReverse"
  by (auto simp: fun_eq_iff eventComparator_def CompareEventReverse_def Let_def cmp_Compare_def
      bytes_cmp.cmp_self dest: bytes_cmp.cmp_0)

lemma slice_inv_le: "slice_inv es \<Longrightarrow> sorted_wrt (\<lambda>a b. CompareEventReverse a b \<le> 0) es"
  unfolding slice_inv_def eventComparator_eq by (erule sorted_wrt_mono_rel [rotated]) auto

lemma slice_inv_newest: "slice_inv es \<Longrightarrow> newest_first es"
  unfolding slice_inv_def newest_first_def
  by (erule sorted_wrt_mono_rel [rotated])
    (auto simp: eventComparator_def cmp_Compare_def split: if_splits)

lemma eventComparator_0: "eventComparator a b = 0 \<longleftrightarrow> evCreatedAt a = evCreatedAt b \<and> evID a = evID b"
  by (auto simp: eventComparator_def cmp_Compare_def bytes_cmp.cmp_self dest: bytes_cmp.cmp_0)

section \<open>Saving and deleting\<close>

lemma copy_shift:
  assumes "i \<le> length xs"
  shows "(copy_at (xs @ [e]) (i + 1) (drop i (xs @ [e])))[i := e] = take i xs @ e # drop i xs"
proof -
  have "copy_at (xs @ [e]) (i + 1) (drop i (xs @ [e]))
      = take (i + 1) (xs @ [e]) @ take (length xs - i) (drop i (xs @ [e]))"
    using assms by (simp add: copy_at_def Let_def)
  also have "take (length xs - i) (drop i (xs @ [e])) = drop i xs" using assms by simp
  finally have c: "copy_at (xs @ [e]) (i + 1) (drop i (xs @ [e])) = take (i + 1) (xs @ [e]) @ drop i xs" .
  obtain x where "take (i + 1) (xs @ [e]) = take i xs @ [x]"
    using assms by (metis Suc_eq_plus1 length_append_singleton less_Suc_eq_le take_Suc_conv_app_nth take_append
        diff_is_0_eq take0 append_Nil2)
  then show ?thesis using assms c by (simp add: list_update_append)
qed

lemma save_fresh:
  assumes inv: "slice_inv es" and new: "\<not> (\<exists>x \<in> set es. eventComparator x e = 0)"
  obtains a b where "slice_save es e = (None, a @ e # b)" "es = a @ b" "slice_inv (a @ e # b)"
proof -
  define i where "i = fst (slices_BinarySearchFunc es e eventComparator)"
  note s = event_cmp_rev.search_sorted [OF slice_inv_le [OF inv] i_def [unfolded eventComparator_eq]]
  have "\<not> snd (slices_BinarySearchFunc es e eventComparator)"
    using new event_cmp_rev.search_found_iff [OF slice_inv_le [OF inv]] by (simp add: eventComparator_eq)
  then have sv: "slice_save es e = (None, take i es @ e # drop i es)"
    using copy_shift [OF s(1), of e] by (simp add: slice_save_def split_beta i_def Let_def)
  have lo: "eventComparator x e < 0" if "x \<in> set (take i es)" for x
    using that by (simp add: s(2) eventComparator_eq)
  have hi: "eventComparator e x < 0" if "x \<in> set (drop i es)" for x
  proof -
    have "x \<in> set es" "\<not> eventComparator x e < 0" using that by (simp_all add: s(3) eventComparator_eq)
    then have "eventComparator x e > 0" using new by force
    then show ?thesis using event_cmp_rev.cmp_anti [of e x] by (simp add: eventComparator_eq)
  qed
  have "slice_inv (take i es @ e # drop i es)"
    unfolding slice_inv_def by (rule sorted_wrt_insert_mid) (use inv lo hi in \<open>auto simp: slice_inv_def\<close>)
  then show ?thesis using that [OF sv] by simp
qed

lemma save_found:
  assumes inv: "slice_inv es" and x: "x \<in> set es" "eventComparator x e = 0"
  shows "slice_save es e = (Some ErrDupEvent, es)"
proof -
  have "snd (slices_BinarySearchFunc es e eventComparator)"
    using x event_cmp_rev.search_found_iff [OF slice_inv_le [OF inv]] by (auto simp: eventComparator_eq)
  then show ?thesis by (auto simp: slice_save_def split_beta)
qed

lemma find_id_Some:
  "find_id es i n = Some m \<Longrightarrow>
     \<exists>a e b. es = a @ e # b \<and> m = n + length a \<and> evID e = i \<and> i \<notin> evID ` set a"
proof (induction es i n rule: find_id.induct)
  case (2 e es i n)
  show ?case
  proof (cases "evID e = i")
    case True
    then show ?thesis using 2 by (intro exI [of _ "[]"]) auto
  next
    case False
    then obtain a e' b where "es = a @ e' # b" "m = n + 1 + length a" "evID e' = i" "i \<notin> evID ` set a"
      using 2 by auto
    then show ?thesis using False by (intro exI [of _ "e # a"] exI [of _ e'] exI [of _ b]) auto
  qed
qed simp

lemma find_id_None: "find_id es i n = None \<longleftrightarrow> i \<notin> evID ` set es"
  by (induction es i n rule: find_id.induct) auto

lemma slice_delete_None: "i \<notin> evID ` set es \<Longrightarrow> slice_delete es i = (None, es)"
  using find_id_None [of es i 0] by (simp add: slice_delete_def)

lemma slice_delete_found:
  assumes "i \<in> evID ` set es"
  obtains a e b where "es = a @ e # b" "evID e = i" "i \<notin> evID ` set a" "slice_delete es i = (None, a @ b)"
proof -
  obtain m where m: "find_id es i 0 = Some m" using assms find_id_None [of es i 0] by fastforce
  from find_id_Some [OF m] obtain a e b where
    es: "es = a @ e # b" "m = length a" "evID e = i" "i \<notin> evID ` set a" by auto
  have "copy_at es m (drop (m + 1) es) = a @ b @ drop (length b) (e # b)"
    using es by (simp add: copy_at_def Let_def)
  then show ?thesis using that [OF es(1,3,4)] es m by (simp add: slice_delete_def)
qed

section \<open>Queries\<close>

lemma query_loop_take: "n \<le> m \<Longrightarrow> query_loop f m n es = take (nat (m - n)) (filter (Matches f) es)"
proof (induction es arbitrary: n)
  case Nil
  then show ?case by simp
next
  case (Cons e es)
  show ?case
  proof (cases "n = m")
    case True
    then show ?thesis by simp
  next
    case False
    then have "nat (m - n) = Suc (nat (m - (n + 1)))" using Cons.prems by simp
    then show ?thesis using False Cons by simp
  qed
qed

text \<open>The events a query returns: the matching ones that are strictly newer than \<^verbatim>\<open>Since\<close>.\<close>

definition slice_selects :: "Filter \<Rightarrow> event \<Rightarrow> bool" where
  "slice_selects f e \<longleftrightarrow> Matches f e \<and> (fSince f \<noteq> 0 \<longrightarrow> fSince f < evCreatedAt e)"

lemma newest_first_search:
  assumes "newest_first es" "i = fst (slices_BinarySearchFunc es t eventTimestampComparator)"
  shows "i \<le> length es" "\<forall>e \<in> set (take i es). t < evCreatedAt e" "\<forall>e \<in> set (drop i es). evCreatedAt e \<le> t"
proof -
  have less: "eventTimestampComparator e t < 0 \<longleftrightarrow> t < evCreatedAt e" for e
    by (simp add: eventTimestampComparator_def cmp_Compare_def)
  have mono: "eventTimestampComparator (es ! a) t < 0"
    if "a < b" "b < length es" "eventTimestampComparator (es ! b) t < 0" for a b
    using sorted_wrt_nth_less [OF assms(1) [unfolded newest_first_def] that(1,2)] that(3) by (simp add: less)
  show "i \<le> length es" "\<forall>e \<in> set (take i es). t < evCreatedAt e" "\<forall>e \<in> set (drop i es). evCreatedAt e \<le> t"
    using BinarySearchFunc_split(1,2,3) [OF mono assms(2)] by (auto simp: less not_less)
qed

lemma query_range:
  assumes nf: "newest_first es"
    and s: "s = (if fUntil f \<noteq> 0 then fst (slices_BinarySearchFunc es (fUntil f) eventTimestampComparator) else 0)"
    and e: "e = (if fSince f \<noteq> 0 then fst (slices_BinarySearchFunc es (fSince f) eventTimestampComparator)
      else length es)"
  shows "s \<le> e \<Longrightarrow> filter (Matches f) (take (e - s) (drop s es)) = filter (slice_selects f) es"
    and "\<not> s \<le> e \<Longrightarrow> filter (slice_selects f) es = []"
proof -
  note us = newest_first_search [OF nf refl, of "fUntil f"]
  note si = newest_first_search [OF nf refl, of "fSince f"]
  have el: "e \<le> length es" using si(1) by (simp add: e)
  have A: "\<not> slice_selects f x" if "x \<in> set (take s es)" for x
  proof (cases "fUntil f = 0")
    case True
    then show ?thesis using that by (simp add: s)
  next
    case False
    then have "fUntil f < evCreatedAt x" using that us(2) by (simp add: s)
    then show ?thesis using False by (auto simp: slice_selects_def Matches_iff)
  qed
  have B: "\<not> slice_selects f x" if "x \<in> set (drop e es)" for x
  proof (cases "fSince f = 0")
    case True
    then show ?thesis using that by (simp add: e)
  next
    case False
    then have "evCreatedAt x \<le> fSince f" using that si(3) by (simp add: e)
    then show ?thesis using False by (auto simp: slice_selects_def)
  qed
  have C: "slice_selects f x = Matches f x" if "x \<in> set (take e es)" for x
    using that si(2) by (auto simp: slice_selects_def e split: if_splits)
  show "filter (Matches f) (take (e - s) (drop s es)) = filter (slice_selects f) es" if "s \<le> e"
  proof -
    have "es = take s es @ take (e - s) (drop s es) @ drop e es"
      by (metis append_take_drop_id drop_take le_add_diff_inverse take_add that append.assoc)
    then have "filter (slice_selects f) es = filter (slice_selects f) (take s es) @
        filter (slice_selects f) (take (e - s) (drop s es)) @ filter (slice_selects f) (drop e es)"
      by (metis filter_append)
    moreover have "filter (slice_selects f) (take s es) = []" "filter (slice_selects f) (drop e es) = []"
      using A B by (auto simp: filter_empty_conv)
    moreover have "filter (slice_selects f) (take (e - s) (drop s es)) = filter (Matches f) (take (e - s) (drop s es))"
    proof (rule filter_cong)
      fix x
      assume "x \<in> set (take (e - s) (drop s es))"
      then have "x \<in> set (take e es)" by (metis drop_take in_set_dropD)
      then show "slice_selects f x = Matches f x" by (rule C)
    qed simp
    ultimately show ?thesis by simp
  qed
  show "filter (slice_selects f) es = []" if "\<not> s \<le> e"
  proof -
    have "set es \<subseteq> set (take s es) \<union> set (drop e es)"
      using that by (metis Un_mono append_take_drop_id nat_le_linear order_refl set_append set_drop_subset_set_drop)
    then show ?thesis using A B by (auto simp: filter_empty_conv)
  qed
qed

lemma Theoretical_nonneg: "0 \<le> GetTheoreticalLimit f"
  by (auto simp: GetTheoreticalLimit_def Let_def MaxInt64_def split: option.splits)

lemma slice_query_eq:
  assumes nf: "newest_first es" and n: "0 \<le> n"
  shows "slice_QueryEvents es f n =
    take (nat (min n (GetTheoreticalLimit f))) (filter (slice_selects f) es)"
proof (cases "GetTheoreticalLimit f = 0")
  case True
  then show ?thesis by (simp add: slice_QueryEvents_def min_def n)
next
  case False
  define s where "s = (if fUntil f \<noteq> 0
    then fst (slices_BinarySearchFunc es (fUntil f) eventTimestampComparator) else 0)"
  define e where "e = (if fSince f \<noteq> 0
    then fst (slices_BinarySearchFunc es (fSince f) eventTimestampComparator) else length es)"
  define m where "m = (if GetTheoreticalLimit f < n then GetTheoreticalLimit f else n)"
  have m: "m = min n (GetTheoreticalLimit f)" "0 \<le> m" using n Theoretical_nonneg [of f] by (auto simp: m_def)
  have "slice_QueryEvents es f n = (if e < s then [] else query_loop f m 0 (take (e - s) (drop s es)))"
    using False by (simp add: slice_QueryEvents_def Let_def s_def e_def m_def)
  then show ?thesis
    using query_range [OF nf s_def e_def] query_loop_take [OF m(2)] m(1) by (simp add: not_le)
qed

lemma slice_count_eq: "slice_count es f v = v + int (length (filter (Matches f) es))"
  by (induction es arbitrary: v) auto

section \<open>The contract\<close>

lemma filter_other_id: "i \<notin> evID ` set es \<Longrightarrow> filter (\<lambda>e. evID e \<noteq> i) es = es"
  by (induction es) auto

lemma slice_save_cases:
  assumes inv: "slice_inv es" and sv: "slice_save es e = (err, es')"
  shows "err = None \<Longrightarrow> slice_inv es' \<and> mset es' = add_mset e (mset es)"
    and "err \<noteq> None \<Longrightarrow> err = Some ErrDupEvent \<and> es' = es \<and>
      (\<exists>e' \<in> set es. evID e' = evID e \<and> evCreatedAt e' = evCreatedAt e)"
proof -
  have "(err = None \<longrightarrow> slice_inv es' \<and> mset es' = add_mset e (mset es)) \<and>
    (err \<noteq> None \<longrightarrow> err = Some ErrDupEvent \<and> es' = es \<and>
      (\<exists>e' \<in> set es. evID e' = evID e \<and> evCreatedAt e' = evCreatedAt e))"
  proof (cases "\<exists>x \<in> set es. eventComparator x e = 0")
    case True
    then obtain x where x: "x \<in> set es" "eventComparator x e = 0" by blast
    then show ?thesis using save_found [OF inv x] sv eventComparator_0 [of x e] by auto
  next
    case False
    obtain a b where "slice_save es e = (None, a @ e # b)" "es = a @ b" "slice_inv (a @ e # b)"
      using save_fresh [OF inv False] .
    then show ?thesis using sv by auto
  qed
  then show "err = None \<Longrightarrow> slice_inv es' \<and> mset es' = add_mset e (mset es)"
    and "err \<noteq> None \<Longrightarrow> err = Some ErrDupEvent \<and> es' = es \<and>
      (\<exists>e' \<in> set es. evID e' = evID e \<and> evCreatedAt e' = evCreatedAt e)" by blast+
qed

lemma slice_delete_cases:
  assumes inv: "slice_inv es" and d: "slice_delete es i = (err, es')"
  shows "err = None \<and> slice_inv es' \<and> mset es' \<subseteq># mset es \<and>
    (distinct (map evID es) \<longrightarrow> es' = filter (\<lambda>e. evID e \<noteq> i) es)"
proof (cases "i \<in> evID ` set es")
  case False
  then have "err = None" "es' = es" using d slice_delete_None by auto
  then show ?thesis using inv False by (auto intro!: filter_True [symmetric])
next
  case True
  then obtain a e b where e: "es = a @ e # b" "evID e = i" "i \<notin> evID ` set a" "slice_delete es i = (None, a @ b)"
    by (rule slice_delete_found)
  have "distinct (map evID es) \<longrightarrow> a @ b = filter (\<lambda>e. evID e \<noteq> i) es"
    using e filter_other_id [of i a] filter_other_id [of i b] by auto
  moreover have "slice_inv (a @ b)"
    using inv e(1) sorted_wrt_remove_mid [of _ a e b] by (simp add: slice_inv_def)
  moreover have "mset (a @ b) \<subseteq># mset es"
  proof -
    have "mset es = mset (a @ b) + {#e#}" unfolding e(1) by simp
    then show ?thesis by simp
  qed
  moreover have "es' = a @ b" "err = None" using d e(4) by simp_all
  ultimately show ?thesis by simp
qed

interpretation slice: event_store SliceStore slice_inv "\<lambda>es. es"
proof unfold_locales
  fix s s' e f and n :: int and err derr and i
  show "e \<in> set (QueryEvents SliceStore s f n) \<Longrightarrow> e \<in> set s" if "slice_inv s"
  proof -
    have *: "e \<in> set (query_loop f m k xs) \<Longrightarrow> e \<in> set xs" for m k xs
      by (induction f m k xs rule: query_loop.induct) (auto split: if_splits)
    assume "e \<in> set (QueryEvents SliceStore s f n)"
    then show ?thesis
      by (auto simp: SliceStore_def slice_QueryEvents_def Let_def split: if_splits
          dest!: * in_set_takeD in_set_dropD)
  qed
  show "e \<in> set (QueryEvents SliceStore s f n) \<Longrightarrow> Matches f e" if "slice_inv s"
  proof -
    have *: "e \<in> set (query_loop f m k xs) \<Longrightarrow> Matches f e" for m k xs
      by (induction f m k xs rule: query_loop.induct) (auto split: if_splits)
    assume "e \<in> set (QueryEvents SliceStore s f n)"
    then show ?thesis
      by (auto simp: SliceStore_def slice_QueryEvents_def Let_def split: if_splits dest!: *)
  qed
  show "int (length (QueryEvents SliceStore s f n)) \<le> n" if "slice_inv s" "0 \<le> n"
    using slice_query_eq [OF slice_inv_newest [OF that(1)] that(2), of f] that(2) by (simp add: SliceStore_def)
  show "slice_inv s' \<and> mset s' = add_mset e (mset s)"
    if "slice_inv s" "SaveEvent SliceStore s e = (None, s')"
    using slice_save_cases(1) [OF that(1)] that(2) by (simp add: SliceStore_def)
  show "s' = s \<and> err = ErrDupEvent \<and> (\<exists>e' \<in> set s. evID e' = evID e)"
    if "slice_inv s" "SaveEvent SliceStore s e = (Some err, s')"
    using slice_save_cases(2) [OF that(1)] that(2) by (fastforce simp: SliceStore_def)
  show "derr = None \<and> slice_inv s' \<and> mset s' \<subseteq># mset s \<and>
      (distinct (map evID s) \<longrightarrow> mset s' = filter_mset (\<lambda>e. evID e \<noteq> i) (mset s))"
    if "slice_inv s" "DeleteEvent SliceStore s i = (derr, s')"
    using slice_delete_cases [OF that(1), of i derr s'] that(2) by (simp add: SliceStore_def mset_filter)
qed

section \<open>Replacing\<close>

text \<open>
  \<^verbatim>\<open>ReplaceEvent\<close> keeps the newest event of a slot: when at most one stored event competes with
  the new one, the loser of the two is gone, the winner is stored, and nothing else changes.
\<close>

lemma replace_limit: "GetTheoreticalLimit (replace_filter e) = 1"
proof -
  have "IsAddressable (evKind e) \<Longrightarrow> \<not> IsReplaceable (evKind e)" using kind_classes_disjoint(5) by blast
  then show ?thesis
    by (auto simp: replace_filter_def GetTheoreticalLimit_def Let_def empty_filter_def tagmap_get_def)
qed

lemma replace_selects: "slice_selects (replace_filter e) = Matches (replace_filter e)"
  by (auto simp: fun_eq_iff slice_selects_def replace_filter_def empty_filter_def Let_def)

lemma Matches_replace_filter:
  "Matches (replace_filter e) x \<longleftrightarrow> evKind x = evKind e \<and> evPubKey x = evPubKey e \<and>
     (IsAddressable (evKind e) \<longrightarrow> ContainsAny (evTags x) ''d'' [GetD (evTags e)])"
  by (auto simp: Matches_iff MatchesIgnoring_iff replace_filter_def empty_filter_def Let_def)

lemma replace_query:
  "slice_inv es \<Longrightarrow> slice_QueryEvents es (replace_filter e) 1 = take 1 (filter (Matches (replace_filter e)) es)"
  using slice_query_eq [OF slice_inv_newest, of es 1 "replace_filter e"]
  by (simp add: replace_limit replace_selects)

text \<open>What is left and what is reported, by the event that was found.\<close>

lemma replace_cases:
  assumes inv: "slice_inv es" and ids: "distinct (map evID es)" and new: "evID e \<notin> evID ` set es"
  shows "filter (Matches (replace_filter e)) es = [] \<Longrightarrow>
      \<exists>es'. slice_ReplaceEvent es e = (([], None), es') \<and> slice_inv es' \<and> mset es' = add_mset e (mset es)"
    and "filter (Matches (replace_filter e)) es = p # ps \<Longrightarrow> IsOlder p e \<Longrightarrow>
      \<exists>es'. slice_ReplaceEvent es e = (([p], None), es') \<and> slice_inv es' \<and>
        mset es' = add_mset e (mset (filter (\<lambda>x. x \<noteq> p) es))"
    and "filter (Matches (replace_filter e)) es = p # ps \<Longrightarrow> \<not> IsOlder p e \<Longrightarrow>
      slice_ReplaceEvent es e = (([], None), es)"
proof -
  note q = replace_query [OF inv, of e]
  have save: "\<exists>es''. slice_save xs e = (None, es'') \<and> slice_inv es'' \<and> mset es'' = add_mset e (mset xs)"
    if xs: "slice_inv xs" "set xs \<subseteq> set es" for xs
  proof (cases "slice_save xs e")
    case (Pair err xs')
    have "err = None" using slice_save_cases(2) [OF xs(1) Pair] new xs(2) by (metis image_eqI subsetD)
    then show ?thesis using slice_save_cases(1) [OF xs(1) Pair] Pair by simp
  qed
  show "\<exists>es'. slice_ReplaceEvent es e = (([], None), es') \<and> slice_inv es' \<and> mset es' = add_mset e (mset es)"
    if "filter (Matches (replace_filter e)) es = []"
    using save [OF inv] that q by (auto simp: slice_ReplaceEvent_def)
  show "slice_ReplaceEvent es e = (([], None), es)"
    if "filter (Matches (replace_filter e)) es = p # ps" "\<not> IsOlder p e"
    using that q by (simp add: slice_ReplaceEvent_def)
  show "\<exists>es'. slice_ReplaceEvent es e = (([p], None), es') \<and> slice_inv es' \<and>
      mset es' = add_mset e (mset (filter (\<lambda>x. x \<noteq> p) es))"
    if p: "filter (Matches (replace_filter e)) es = p # ps" "IsOlder p e"
  proof -
    have mem: "p \<in> set es" by (metis filter_is_subset list.set_intros(1) p(1) subsetD)
    obtain err xs where d: "slice_delete es (evID p) = (err, xs)" by (cases "slice_delete es (evID p)")
    have "filter (\<lambda>x. evID x \<noteq> evID p) es = filter (\<lambda>x. x \<noteq> p) es"
      using ids mem by (intro filter_cong) (auto simp: distinct_map inj_on_def)
    then have xs: "err = None" "slice_inv xs" "xs = filter (\<lambda>x. x \<noteq> p) es"
      using slice_delete_cases [OF inv d] ids by auto
    then obtain es'' where es'': "slice_save xs e = (None, es'')" "slice_inv es''" "mset es'' = add_mset e (mset xs)"
      using save [of xs] by auto
    have "slice_ReplaceEvent es e = (([p], None), es'')"
      using p q d xs(1) es''(1) by (simp add: slice_ReplaceEvent_def)
    then show ?thesis using es'' xs by simp
  qed
qed

section \<open>Properties\<close>

text \<open>C25: a query of the in-memory store returns the newest matching events, newest first, cut at the smaller of
  the caller's limit and the filter's own limit; events at exactly the since bound are left out.\<close>

theorem slice_query_newest:
  assumes "slice_inv es" "0 \<le> n"
  shows "QueryEvents SliceStore es f n =
    take (nat (min n (GetTheoreticalLimit f)))
      (filter (\<lambda>e. Matches f e \<and> (fSince f \<noteq> 0 \<longrightarrow> fSince f < evCreatedAt e)) es)"
  using slice_query_eq [OF slice_inv_newest [OF assms(1)] assms(2), of f] unfolding slice_selects_def [abs_def]
  by (simp add: SliceStore_def)

theorem slice_query_newest_witness:
  "QueryEvents SliceStore [note1] (empty_filter\<lparr>fSince := 100\<rparr>) 10 = [] \<and>
   QueryEvents SliceStore [note1] (empty_filter\<lparr>fSince := 99\<rparr>) 10 = [note1]"
  using slice_query_newest [of "[note1]" 10 "empty_filter\<lparr>fSince := 100\<rparr>"]
    slice_query_newest [of "[note1]" 10 "empty_filter\<lparr>fSince := 99\<rparr>"]
  by (simp add: slice_inv_def empty_filter_def note1_def Matches_iff MatchesIgnoring_iff GetTheoreticalLimit_def
      tagmap_get_def Let_def MaxInt64_def)

text \<open>C20: replacing an event keeps the winner of its slot: stored when nothing competes, swapped in when the
  first competitor is older, dropped when it is not; nothing else in the store changes.\<close>

theorem slice_replace_winner:
  assumes "slice_inv es" "distinct (map evID es)" "evID e \<notin> evID ` set es"
  shows "case filter (Matches (replace_filter e)) es of
      [] \<Rightarrow> \<exists>es'. slice_ReplaceEvent es e = (([], None), es') \<and> slice_inv es' \<and> mset es' = add_mset e (mset es)
    | p # _ \<Rightarrow>
        if IsOlder p e
        then \<exists>es'. slice_ReplaceEvent es e = (([p], None), es') \<and> slice_inv es' \<and>
          mset es' = add_mset e (mset (filter (\<lambda>x. x \<noteq> p) es))
        else slice_ReplaceEvent es e = (([], None), es)"
  using replace_cases [OF assms] by (auto split: list.split)

theorem slice_replace_winner_witness:
  "let old = note1\<lparr>evKind := 10002\<rparr>; new = old\<lparr>evID := replicate 32 9, evCreatedAt := 200\<rparr>
   in \<exists>es'. slice_ReplaceEvent [old] new = (([old], None), es') \<and> mset es' = {#new#}"
  using slice_replace_winner [of "[note1\<lparr>evKind := 10002\<rparr>]" "note1\<lparr>evKind := 10002, evID := replicate 32 9, evCreatedAt := 200\<rparr>"]
  by (auto simp: slice_inv_def note1_def Matches_replace_filter IsAddressable_def IsOlder_def Let_def)

lemma slice_reactions_found:
  assumes "slice_inv es" "evKind e = 7 \<or> evKind e = 1018" "length es \<le> 1000"
  shows "set (slice_QueryEvents es (reaction_filter e ref) 1000) = set (filter (Matches (reaction_filter e ref)) es)"
proof -
  let ?f = "reaction_filter e ref"
  have "GetTheoreticalLimit ?f = MaxInt64" "slice_selects ?f = Matches ?f"
    using assms(2) by (auto simp: reaction_filter_def GetTheoreticalLimit_def empty_filter_def Let_def tagmap_get_def
        IsReplaceable_def slice_selects_def fun_eq_iff)
  then have "slice_QueryEvents es ?f 1000 = take (nat (min 1000 MaxInt64)) (filter (Matches ?f) es)"
    using slice_query_eq [OF slice_inv_newest [OF assms(1)], of 1000 ?f] by simp
  moreover have "length (filter (Matches ?f) es) \<le> 1000" using assms(3) length_filter_le le_trans by blast
  ultimately show ?thesis by (simp add: MaxInt64_def)
qed

text \<open>in an in-memory store of at most 1000 events, a reaction or poll response saved through the
  wrapper is afterwards the only one of its author and kind that refers to its event.\<close>

theorem slice_unique_reactions:
  assumes "slice_inv es" "distinct (map evID es)" "evKind e = 7 \<or> evKind e = 1018" "length es \<le> 1000"
    "tags_Find (evTags e) ''e'' = Some ref" "UniqueReactions_SaveEvent SliceStore es e = (None, es')"
  shows "slice_inv es' \<and> e \<in> set es' \<and>
    (\<forall>e' \<in> set es'. e' = e \<or> \<not> (evPubKey e' = evPubKey e \<and> evKind e' = evKind e \<and>
       ContainsAny (evTags e') ''e'' [ref ! 1]))"
  by (rule slice.unique_reactions)
    (use assms slice_reactions_found [OF assms(1,3,4)] in \<open>auto simp: SliceStore_def\<close>)

theorem slice_unique_reactions_witness:
  "\<exists>es'. UniqueReactions_SaveEvent SliceStore [note1\<lparr>evKind := 7\<rparr>]
      (note1\<lparr>evKind := 7, evID := replicate 32 9, evCreatedAt := 200\<rparr>) = (None, es') \<and>
    note1\<lparr>evKind := 7, evID := replicate 32 9, evCreatedAt := 200\<rparr> \<in> set es' \<and> note1\<lparr>evKind := 7\<rparr> \<notin> set es'"
proof -
  let ?old = "note1\<lparr>evKind := 7\<rparr>" and ?new = "note1\<lparr>evKind := 7, evID := replicate 32 9, evCreatedAt := 200\<rparr>"
  have ev: "UniqueReactions_SaveEvent SliceStore [?old] ?new = (None, [?new])" by code_simp
  have "slice_inv [?old]" by (simp add: slice_inv_def)
  moreover have "tags_Find (evTags ?new) ''e'' = Some [''e'', ''x'']" by (simp add: note1_def)
  ultimately show ?thesis
    using slice_unique_reactions [of "[?old]" ?new "[''e'', ''x'']" "[?new]"] ev by (auto simp: note1_def)
qed

end
