(* ===== verification/BetterBinary.thy ===== *)
theory BetterBinary
  imports Event
begin

text \<open>
  \<^verbatim>\<open>eventstore/codec/betterbinary\<close>: the fixed-offset binary form of events the stores use.
  \<open>Marshal\<close> writes into a buffer by absolute offsets, \<open>Unmarshal\<close> reads it back, \<open>TagMatches\<close> searches the
  encoded tags without decoding.  \<open>layout\<close> is the format in closed form: \<open>Marshal\<close> fills a
  large enough buffer with it, and both readers are specified on it.

  Tag offsets are stored in 16 bits.  \<open>offsets_ok\<close> is the exact situation in which the
  reader's wrap detection recovers them: no tag is 64K long, and the section ends in the same 64K window
  in which its last tag starts.
\<close>

datatype bb_error = TooManyTags | TooManyItems | ItemTooLarge | ContentTooLarge | DecodePanic

section \<open>The code\<close>

definition Measure :: "event \<Rightarrow> nat" where
  "Measure evt =
     (let n = 145;
          n = n + 2 + 2 + length (evTags evt) * 3;
          n = fold (\<lambda>tag n. fold (\<lambda>item n. n + length item) tag (n + length tag * 2)) (evTags evt) n
      in n + 2 + length (evContent evt))"

text \<open>\<^verbatim>\<open>PutUintN(buf[off:], ...)\<close> panics when the bytes do not fit; \<^verbatim>\<open>copy(buf[off:], src)\<close> panics only
  when \<open>off\<close> is past the end, and copies what fits.\<close>

definition put_at :: "bytes \<Rightarrow> nat \<Rightarrow> bytes \<Rightarrow> (bb_error, bytes) outcome" where
  "put_at buf off bs =
     (if off + length bs \<le> length buf then Ret (take off buf @ bs @ drop (off + length bs) buf) else Panic)"

definition copy_from :: "bytes \<Rightarrow> nat \<Rightarrow> bytes \<Rightarrow> (bb_error, bytes) outcome" where
  "copy_from buf off src = (if off \<le> length buf then Ret (copy_at buf off src) else Panic)"

fun marshal_items :: "nat \<Rightarrow> nat \<Rightarrow> string list \<Rightarrow> bytes \<Rightarrow> (bb_error, bytes \<times> nat) outcome" where
  "marshal_items tagOffset itemOffset [] buf = Ret (buf, itemOffset)"
| "marshal_items tagOffset itemOffset (item # items) buf =
     (if length item > 65535 then Fail ItemTooLarge
      else obind (put_at buf (145 + tagOffset + itemOffset) (putLE 2 (length item))) (\<lambda>buf.
           obind (copy_from buf (145 + tagOffset + itemOffset + 2) (bytes_of item)) (\<lambda>buf.
           marshal_items tagOffset (itemOffset + 2 + length item) items buf)))"

fun marshal_tags :: "nat \<Rightarrow> nat \<Rightarrow> Tag list \<Rightarrow> bytes \<Rightarrow> (bb_error, bytes \<times> nat) outcome" where
  "marshal_tags t tagOffset [] buf = Ret (buf, tagOffset)"
| "marshal_tags t tagOffset (tag # tags) buf =
     obind (put_at buf (145 + 2 + 2 + t * 2) (putLE 2 tagOffset)) (\<lambda>buf.
       if length tag > 255 then Fail TooManyItems
       else obind (put_at buf (145 + tagOffset) [word_of_nat (length tag)]) (\<lambda>buf.
            obind (marshal_items tagOffset 1 tag buf) (\<lambda>(buf, itemOffset).
            marshal_tags (t + 1) (tagOffset + itemOffset) tags buf)))"

definition Marshal :: "event \<Rightarrow> bytes \<Rightarrow> (bb_error, bytes) outcome" where
  "Marshal evt buf =
     obind (put_at buf 0 [0]) (\<lambda>buf.
     obind (put_at buf 1 (putLE 8 (unat (evKind evt)))) (\<lambda>buf.
     obind (put_at buf 9 (putLE 8 (nat (uint64 (evCreatedAt evt))))) (\<lambda>buf.
     obind (put_at buf 17 (evID evt)) (\<lambda>buf.
     obind (put_at buf 49 (evPubKey evt)) (\<lambda>buf.
     obind (put_at buf 81 (evSig evt)) (\<lambda>buf.
     let ntags = length (evTags evt) in
     if ntags > 65535 then Fail TooManyTags
     else
     obind (put_at buf 147 (putLE 2 ntags)) (\<lambda>buf.
     obind (marshal_tags 0 (2 + 2 + ntags * 2) (evTags evt) buf) (\<lambda>(buf, tagsSectionLength).
     obind (put_at buf 145 (putLE 2 tagsSectionLength)) (\<lambda>buf.
     if length (evContent evt) > 65535 then Fail ContentTooLarge
     else
     obind (put_at buf (145 + tagsSectionLength) (putLE 2 (length (evContent evt)))) (\<lambda>buf.
     copy_from buf (145 + tagsSectionLength + 2) (bytes_of (evContent evt))))))))))))"

text \<open>Reading: \<^verbatim>\<open>Uint16(data[off:])\<close> and \<^verbatim>\<open>data[a:b]\<close> with their bounds checks.\<close>

definition u16_at :: "bytes \<Rightarrow> nat \<Rightarrow> (bb_error, nat) outcome" where
  "u16_at data off = obind (or_panic (slice data off (off + 2))) (\<lambda>bs. Ret (getLE bs))"

fun unmarshal_items :: "bytes \<Rightarrow> nat \<Rightarrow> nat \<Rightarrow> (bb_error, Tag) outcome" where
  "unmarshal_items data 0 pos = Ret []"
| "unmarshal_items data (Suc n) pos =
     obind (u16_at data pos) (\<lambda>len.
     obind (or_panic (slice data (pos + 2) (pos + 2 + len))) (\<lambda>item.
     obind (unmarshal_items data n (pos + 2 + len)) (\<lambda>items.
     Ret (string_of item # items))))"

fun unmarshal_tags :: "bytes \<Rightarrow> nat \<Rightarrow> nat \<Rightarrow> nat \<Rightarrow> nat \<Rightarrow> (bb_error, Tag list \<times> nat) outcome" where
  "unmarshal_tags data t 0 prevOffset overflows = Ret ([], overflows)"
| "unmarshal_tags data t (Suc n) prevOffset overflows =
     obind (u16_at data (145 + 4 + t * 2)) (\<lambda>offset.
     let overflows = (if offset < prevOffset then overflows + 1 else overflows);
         off = offset + 65536 * overflows
     in obind (or_panic (index_at data (145 + off))) (\<lambda>nitems.
        obind (unmarshal_items data (unat nitems) (145 + off + 1)) (\<lambda>tag.
        obind (unmarshal_tags data (t + 1) n offset overflows) (\<lambda>(tags, overflows).
        Ret (tag # tags, overflows)))))"

definition unmarshal_body :: "bytes \<Rightarrow> (bb_error, event) outcome" where
  "unmarshal_body data =
     obind (or_panic (slice data 1 9)) (\<lambda>kind.
     obind (or_panic (slice data 9 17)) (\<lambda>createdAt.
     obind (or_panic (slice data 17 49)) (\<lambda>i.
     obind (or_panic (slice data 49 81)) (\<lambda>pubkey.
     obind (or_panic (slice data 81 145)) (\<lambda>sig.
     obind (u16_at data 145) (\<lambda>tagsSectionLength.
     obind (u16_at data (145 + 2)) (\<lambda>ntags.
     obind (unmarshal_tags data 0 ntags 0 0) (\<lambda>(tags, overflows).
     let tagsSectionLength = tagsSectionLength + 65536 * overflows in
     obind (u16_at data (145 + tagsSectionLength)) (\<lambda>contentLength.
     obind (or_panic (slice data (145 + tagsSectionLength + 2) (145 + tagsSectionLength + 2 + contentLength))) (\<lambda>content.
     Ret \<lparr>evID = i, evPubKey = pubkey, evCreatedAt = int64 (int (getLE createdAt)),
       evKind = word_of_nat (getLE kind), evTags = tags, evContent = string_of content, evSig = sig\<rparr>))))))))))"

text \<open>The deferred \<^verbatim>\<open>recover\<close> turns a panic into an error.\<close>

definition Unmarshal :: "bytes \<Rightarrow> (bb_error, event) outcome" where
  "Unmarshal data = (case unmarshal_body data of Panic \<Rightarrow> Fail DecodePanic | r \<Rightarrow> r)"

definition GetKind :: "bytes \<Rightarrow> (bb_error, Kind) outcome" where
  "GetKind evtb = obind (or_panic (slice evtb 1 9)) (\<lambda>bs. Ret (word_of_nat (getLE bs)))"

definition GetID_bin :: "bytes \<Rightarrow> (bb_error, ID) outcome" where
  "GetID_bin evtb = or_panic (slice evtb 17 49)"

definition GetPubKey :: "bytes \<Rightarrow> (bb_error, PubKey) outcome" where
  "GetPubKey evtb = or_panic (slice evtb 49 81)"

definition GetCreatedAt :: "bytes \<Rightarrow> (bb_error, int) outcome" where
  "GetCreatedAt evtb = obind (or_panic (slice evtb 9 17)) (\<lambda>bs. Ret (int64 (int (getLE bs))))"

subsection \<open>Searching encoded tags\<close>

text \<open>\<^verbatim>\<open>key[0]\<close> panics on an empty key; \<^verbatim>\<open>uint8(len(val))\<close> and the \<^verbatim>\<open>uint16\<close> index wrap.\<close>

fun tag_patterns :: "string \<Rightarrow> string list \<Rightarrow> (bb_error, bytes list) outcome" where
  "tag_patterns key [] = Ret []"
| "tag_patterns key (val # vals) =
     obind (or_panic (index_at key 0)) (\<lambda>k.
     obind (tag_patterns key vals) (\<lambda>ms.
     Ret (([1, 0, byte_of_char k, word_of_nat (length val), 0] @ bytes_of val) # ms)))"

fun any_pattern :: "bytes \<Rightarrow> nat \<Rightarrow> bytes list \<Rightarrow> (bb_error, bool) outcome" where
  "any_pattern evtb off [] = Ret False"
| "any_pattern evtb off (m # ms) =
     obind (or_panic (slice evtb (145 + off + 1) (145 + off + 1 + length m))) (\<lambda>bs.
       if bs = m then Ret True else any_pattern evtb off ms)"

fun tag_loop :: "bytes \<Rightarrow> bytes list \<Rightarrow> nat \<Rightarrow> nat \<Rightarrow> (bb_error, bool) outcome" where
  "tag_loop evtb ms t 0 = Ret False"
| "tag_loop evtb ms t (Suc n) =
     obind (u16_at evtb ((149 + t * 2) mod 65536)) (\<lambda>offset.
     obind (or_panic (index_at evtb (145 + offset))) (\<lambda>nitems.
       if unat nitems \<ge> 2 then
         obind (any_pattern evtb offset ms) (\<lambda>found.
           if found then Ret True else tag_loop evtb ms (t + 1) n)
       else tag_loop evtb ms (t + 1) n))"

definition TagMatches :: "bytes \<Rightarrow> string \<Rightarrow> string list \<Rightarrow> (bb_error, bool) outcome" where
  "TagMatches evtb key vals =
     obind (tag_patterns key vals) (\<lambda>matches.
     obind (u16_at evtb 147) (\<lambda>ntags.
     tag_loop evtb matches 0 ntags))"

section \<open>The format\<close>

definition enc_item :: "string \<Rightarrow> bytes" where
  "enc_item item = putLE 2 (length item) @ bytes_of item"

definition enc_tag :: "Tag \<Rightarrow> bytes" where
  "enc_tag tag = word_of_nat (length tag) # concat (map enc_item tag)"

fun enc_table :: "nat \<Rightarrow> Tag list \<Rightarrow> bytes" where
  "enc_table off [] = []"
| "enc_table off (tag # tags) = putLE 2 off @ enc_table (off + length (enc_tag tag)) tags"

definition section_length :: "Tag list \<Rightarrow> nat" where
  "section_length tags = 4 + length tags * 2 + length (concat (map enc_tag tags))"

definition header :: "event \<Rightarrow> bytes" where
  "header e = [0] @ putLE 8 (unat (evKind e)) @ putLE 8 (nat (uint64 (evCreatedAt e))) @ evID e
     @ evPubKey e @ evSig e"

definition layout :: "event \<Rightarrow> bytes" where
  "layout e = header e @ putLE 2 (section_length (evTags e)) @ putLE 2 (length (evTags e))
     @ enc_table (4 + length (evTags e) * 2) (evTags e) @ concat (map enc_tag (evTags e))
     @ putLE 2 (length (evContent e)) @ bytes_of (evContent e)"

text \<open>What the encoder checks.\<close>

definition encodable :: "event \<Rightarrow> bool" where
  "encodable e \<longleftrightarrow> length (evTags e) \<le> 65535 \<and> length (evContent e) \<le> 65535 \<and>
     (\<forall>tag \<in> set (evTags e). length tag \<le> 255 \<and> (\<forall>item \<in> set tag. length item \<le> 65535))"

text \<open>The offsets the reader can recover, given the previous one.\<close>

fun offsets_ok :: "nat \<Rightarrow> nat \<Rightarrow> Tag list \<Rightarrow> bool" where
  "offsets_ok prev off [] \<longleftrightarrow> off div 65536 = prev div 65536"
| "offsets_ok prev off (tag # tags) \<longleftrightarrow> off < prev + 65536 \<and> offsets_ok off (off + length (enc_tag tag)) tags"

section \<open>Encoding\<close>

text \<open>\<open>has buf off bs\<close>: the bytes \<open>bs\<close> stand at \<open>off\<close>.\<close>

definition has :: "bytes \<Rightarrow> nat \<Rightarrow> bytes \<Rightarrow> bool" where
  "has buf off bs \<longleftrightarrow> off + length bs \<le> length buf \<and> (\<forall>i < length bs. buf ! (off + i) = bs ! i)"

lemma has_append: "has buf off (a @ b) \<longleftrightarrow> has buf off a \<and> has buf (off + length a) b"
proof
  assume l: "has buf off (a @ b)"
  have "buf ! (off + i) = a ! i" if "i < length a" for i
    using l that unfolding has_def by (metis length_append nth_append trans_less_add1)
  moreover have "buf ! (off + length a + i) = b ! i" if "i < length b" for i
    using l that unfolding has_def
    by (metis add.assoc length_append nat_add_left_cancel_less nth_append_length_plus)
  ultimately show "has buf off a \<and> has buf (off + length a) b" using l by (simp add: has_def)
next
  assume r: "has buf off a \<and> has buf (off + length a) b"
  have "buf ! (off + i) = (a @ b) ! i" if "i < length (a @ b)" for i
  proof (cases "i < length a")
    case False
    then have "off + i = off + length a + (i - length a)" "i - length a < length b" using that by auto
    then show ?thesis using r False by (metis has_def nth_append)
  qed (use r in \<open>simp add: has_def nth_append\<close>)
  then show "has buf off (a @ b)" using r by (simp add: has_def)
qed

lemma has_slice: "has buf off bs \<Longrightarrow> j = off + length bs \<Longrightarrow> slice buf off j = Some bs"
  by (auto simp: has_def slice_def intro: nth_equalityI)

lemma has_take: "has buf 0 bs \<Longrightarrow> take (length bs) buf = bs"
  by (auto simp: has_def intro: nth_equalityI)

lemma has_self: "has (bs @ rest) 0 bs"
  by (auto simp: has_def nth_append)

text \<open>A write of \<open>bs\<close> at \<open>off\<close>: what it leaves and what it puts.\<close>

definition wrote :: "bytes \<Rightarrow> nat \<Rightarrow> bytes \<Rightarrow> bytes \<Rightarrow> bool" where
  "wrote buf off bs buf' \<longleftrightarrow> length buf' = length buf \<and> has buf' off bs \<and>
     (\<forall>i < length buf. i < off \<or> off + length bs \<le> i \<longrightarrow> buf' ! i = buf ! i)"

lemma wrote_take_drop:
  assumes "off + length bs \<le> length buf"
  shows "wrote buf off bs (take off buf @ bs @ drop (off + length bs) buf)"
  using assms by (auto simp: wrote_def has_def nth_append)

lemma put_at_wrote:
  "off + length bs \<le> length buf \<Longrightarrow> \<exists>buf'. put_at buf off bs = Ret buf' \<and> wrote buf off bs buf'"
  using wrote_take_drop by (simp add: put_at_def)

lemma copy_from_wrote:
  "off + length bs \<le> length buf \<Longrightarrow> \<exists>buf'. copy_from buf off bs = Ret buf' \<and> wrote buf off bs buf'"
  using wrote_take_drop [of off bs buf] by (simp add: copy_from_def copy_at_fits)

lemma wrote_keeps:
  "wrote buf off bs buf' \<Longrightarrow> has buf o2 b2 \<Longrightarrow> o2 + length b2 \<le> off \<or> off + length bs \<le> o2 \<Longrightarrow> has buf' o2 b2"
  by (auto simp: wrote_def has_def)

lemma wrote_trans:
  "wrote buf off a buf1 \<Longrightarrow> wrote buf1 (off + length a) b buf2 \<Longrightarrow> wrote buf off (a @ b) buf2"
  using wrote_keeps [of buf1 "off + length a" b buf2 off a]
  by (auto simp: wrote_def has_append)

lemma wrote_Nil: "off \<le> length buf \<Longrightarrow> wrote buf off [] buf"
  by (auto simp: wrote_def has_def)

lemma wrote_length: "wrote buf off bs buf' \<Longrightarrow> length buf' = length buf"
  by (simp add: wrote_def)

lemma length_enc_item [simp]: "length (enc_item item) = 2 + length item"
  by (simp add: enc_item_def)

lemma length_enc_table [simp]: "length (enc_table off tags) = 2 * length tags"
  by (induction off tags rule: enc_table.induct) auto

text \<open>With enough room the loops fail exactly on the limits they check, and write the encoding.\<close>

definition room :: "bytes \<Rightarrow> nat \<Rightarrow> bytes \<Rightarrow> bool" where
  "room buf off bs \<longleftrightarrow> off + length bs \<le> length buf"

lemma marshal_items_wrote:
  "room buf (145 + tagOffset + itemOffset) (concat (map enc_item items)) \<Longrightarrow>
   if list_all (\<lambda>item. length item \<le> 65535) items then
     \<exists>buf'. marshal_items tagOffset itemOffset items buf
         = Ret (buf', itemOffset + length (concat (map enc_item items)))
       \<and> wrote buf (145 + tagOffset + itemOffset) (concat (map enc_item items)) buf'
   else marshal_items tagOffset itemOffset items buf = Fail ItemTooLarge"
proof (induction items arbitrary: itemOffset buf)
  case Nil
  then show ?case by (simp add: wrote_Nil room_def)
next
  case (Cons item items)
  let ?o = "145 + tagOffset + itemOffset"
  show ?case
  proof (cases "length item > 65535")
    case True
    then show ?thesis by simp
  next
    case False
    obtain b1 where b1: "put_at buf ?o (putLE 2 (length item)) = Ret b1" "wrote buf ?o (putLE 2 (length item)) b1"
      using put_at_wrote [of ?o "putLE 2 (length item)" buf] Cons.prems by (auto simp: room_def)
    obtain b2 where b2: "copy_from b1 (?o + 2) (bytes_of item) = Ret b2" "wrote b1 (?o + 2) (bytes_of item) b2"
      using copy_from_wrote [of "?o + 2" "bytes_of item" b1] Cons.prems wrote_length [OF b1(2)]
      by (auto simp: room_def)
    have b12: "wrote buf ?o (enc_item item) b2"
      using wrote_trans [OF b1(2)] b2(2) by (simp add: enc_item_def)
    have r: "room b2 (145 + tagOffset + (itemOffset + 2 + length item)) (concat (map enc_item items))"
      using Cons.prems wrote_length [OF b12] by (simp add: room_def)
    show ?thesis
    proof (cases "list_all (\<lambda>item. length item \<le> 65535) items")
      case True
      then obtain b3 where b3: "marshal_items tagOffset (itemOffset + 2 + length item) items b2
          = Ret (b3, itemOffset + 2 + length item + length (concat (map enc_item items)))"
        "wrote b2 (145 + tagOffset + (itemOffset + 2 + length item)) (concat (map enc_item items)) b3"
        using Cons.IH [OF r] by auto
      have "wrote buf ?o (enc_item item @ concat (map enc_item items)) b3"
        using wrote_trans [OF b12, of "concat (map enc_item items)" b3] b3(2) by (simp add: algebra_simps)
      then show ?thesis using True False b1(1) b2(1) b3(1) by (simp add: algebra_simps)
    next
      case nall: False
      then show ?thesis using Cons.IH [OF r] False b1(1) b2(1) by (simp add: algebra_simps)
    qed
  qed
qed

text \<open>The loop over the tags writes two disjoint regions: the offset table and the bodies.\<close>

definition tags_written :: "bytes \<Rightarrow> nat \<Rightarrow> nat \<Rightarrow> Tag list \<Rightarrow> bytes \<Rightarrow> bool" where
  "tags_written buf tab body tags buf' \<longleftrightarrow>
     length buf' = length buf \<and> has buf' tab (enc_table (body - 145) tags) \<and>
     has buf' body (concat (map enc_tag tags)) \<and>
     (\<forall>i < length buf. (i < tab \<or> tab + 2 * length tags \<le> i) \<and>
        (i < body \<or> body + length (concat (map enc_tag tags)) \<le> i) \<longrightarrow> buf' ! i = buf ! i)"

definition tag_ok :: "Tag \<Rightarrow> bool" where
  "tag_ok tag \<longleftrightarrow> length tag \<le> 255 \<and> (\<forall>item \<in> set tag. length item \<le> 65535)"

lemma tags_written_Cons:
  assumes b1: "wrote buf tab (putLE 2 (body - 145)) b1" and b2: "wrote b1 body (enc_tag tag) b2"
    and b3: "tags_written b2 (tab + 2) (body + length (enc_tag tag)) tags b3"
    and sep: "145 \<le> tab" "tab + 2 + 2 * length tags \<le> body" "body \<le> length buf"
  shows "tags_written buf tab body (tag # tags) b3"
proof -
  have len: "length b1 = length buf" "length b2 = length buf" "length b3 = length buf"
    using b1 b2 b3 by (auto simp: wrote_def tags_written_def)
  have "has b2 tab (putLE 2 (body - 145))"
    using wrote_keeps [OF b2, of tab "putLE 2 (body - 145)"] b1 sep by (simp add: wrote_def)
  then have t: "has b3 tab (putLE 2 (body - 145))"
    using b3 sep len by (auto simp: has_def tags_written_def)
  have "has b2 body (enc_tag tag)" using b2 by (simp add: wrote_def)
  then have e: "has b3 body (enc_tag tag)"
    using b3 sep len by (auto simp: has_def tags_written_def)
  have t3: "has b3 (tab + 2) (enc_table (body - 145 + length (enc_tag tag)) tags)"
    and e3: "has b3 (body + length (enc_tag tag)) (concat (map enc_tag tags))"
    using b3 sep by (auto simp: tags_written_def add_diff_assoc2)
  have "b3 ! i = buf ! i"
    if "i < length buf" "i < tab \<or> tab + 2 * length (tag # tags) \<le> i"
      "i < body \<or> body + length (concat (map enc_tag (tag # tags))) \<le> i" for i
  proof -
    have "b3 ! i = b2 ! i" using b3 that sep len by (auto simp: tags_written_def)
    also have "\<dots> = b1 ! i" using b2 that len by (auto simp: wrote_def)
    also have "\<dots> = buf ! i" using b1 that by (auto simp: wrote_def)
    finally show ?thesis .
  qed
  then show ?thesis using t e t3 e3 len by (simp add: tags_written_def has_append)
qed

lemma marshal_tags_wrote:
  assumes "room buf (145 + tagOffset) (concat (map enc_tag tags))" "149 + t * 2 + 2 * length tags \<le> 145 + tagOffset"
  shows "if list_all tag_ok tags then
     \<exists>buf'. marshal_tags t tagOffset tags buf = Ret (buf', tagOffset + length (concat (map enc_tag tags)))
       \<and> tags_written buf (149 + t * 2) (145 + tagOffset) tags buf'
   else \<exists>e. marshal_tags t tagOffset tags buf = Fail e"
  using assms
proof (induction tags arbitrary: t tagOffset buf)
  case Nil
  then show ?case by (simp add: tags_written_def has_def room_def)
next
  case (Cons tag tags)
  let ?tab = "149 + t * 2" and ?body = "145 + tagOffset"
  obtain b1 where b1: "put_at buf ?tab (putLE 2 tagOffset) = Ret b1" "wrote buf ?tab (putLE 2 tagOffset) b1"
    using put_at_wrote [of ?tab "putLE 2 tagOffset" buf] Cons.prems by (auto simp: room_def)
  show ?case
  proof (cases "length tag > 255")
    case True
    then show ?thesis using b1 by (simp add: tag_ok_def)
  next
    case small: False
    have len1: "length b1 = length buf" by (rule wrote_length [OF b1(2)])
    obtain b2 where b2: "put_at b1 ?body [word_of_nat (length tag)] = Ret b2" "wrote b1 ?body [word_of_nat (length tag)] b2"
      using put_at_wrote [of ?body "[word_of_nat (length tag)]" b1] Cons.prems len1
      by (auto simp: room_def enc_tag_def)
    have len2: "length b2 = length buf" using wrote_length [OF b2(2)] len1 by simp
    have r: "room b2 (145 + tagOffset + 1) (concat (map enc_item tag))"
      using Cons.prems(1) len2 by (simp add: room_def enc_tag_def)
    show ?thesis
    proof (cases "tag_ok tag")
      case False
      then have "\<not> list_all (\<lambda>item. length item \<le> 65535) tag" using small by (auto simp: tag_ok_def list_all_iff)
      then have "marshal_items tagOffset 1 tag b2 = Fail ItemTooLarge" using marshal_items_wrote [OF r] by simp
      then show ?thesis using b1 b2 small False by simp
    next
      case True
      then have "list_all (\<lambda>item. length item \<le> 65535) tag" by (auto simp: tag_ok_def list_all_iff)
      then obtain b3 where b3: "marshal_items tagOffset 1 tag b2 = Ret (b3, 1 + length (concat (map enc_item tag)))"
        "wrote b2 (?body + 1) (concat (map enc_item tag)) b3"
        using marshal_items_wrote [OF r] by auto
      have b13: "wrote b1 ?body (enc_tag tag) b3"
        using wrote_trans [OF b2(2), of "concat (map enc_item tag)" b3] b3(2) by (simp add: enc_tag_def)
      have l: "1 + length (concat (map enc_item tag)) = length (enc_tag tag)" by (simp add: enc_tag_def)
      have r2: "room b3 (145 + (tagOffset + length (enc_tag tag))) (concat (map enc_tag tags))"
        using Cons.prems(1) wrote_length [OF b13] len1 by (simp add: room_def)
      have s2: "149 + (t + 1) * 2 + 2 * length tags \<le> 145 + (tagOffset + length (enc_tag tag))"
        using Cons.prems(2) by simp
      show ?thesis
      proof (cases "list_all tag_ok tags")
        case False
        then show ?thesis using Cons.IH [OF r2 s2] b1 b2 b3(1) small l True by auto
      next
        case ok: True
        then obtain b4 where b4: "marshal_tags (t + 1) (tagOffset + length (enc_tag tag)) tags b3
            = Ret (b4, tagOffset + length (enc_tag tag) + length (concat (map enc_tag tags)))"
          "tags_written b3 (149 + (t + 1) * 2) (145 + (tagOffset + length (enc_tag tag))) tags b4"
          using Cons.IH [OF r2 s2] by auto
        have "tags_written buf ?tab ?body (tag # tags) b4"
          using tags_written_Cons [of buf ?tab ?body b1 tag b3 tags b4] b1(2) b13 b4(2) Cons.prems
          by (simp add: algebra_simps room_def)
        then show ?thesis using b1 b2 b3(1) b4(1) small l True ok by simp
      qed
    qed
  qed
qed

lemma measure_items: "fold (\<lambda>item n. n + length item) tag n = n + sum_list (map length tag)"
  by (induction tag arbitrary: n) auto

lemma length_enc_tag: "length (enc_tag tag) = 1 + 2 * length tag + sum_list (map length tag)"
  by (induction tag) (auto simp: enc_tag_def)

lemma Measure_eq:
  "Measure e = 145 + section_length (evTags e) + 2 + length (evContent e)"
proof -
  have *: "fold (\<lambda>tag n. fold (\<lambda>item n. n + length item) tag (n + length tag * 2)) tags n + length tags
      = n + length (concat (map enc_tag tags))" for tags n
    by (induction tags arbitrary: n) (simp_all add: measure_items length_enc_tag add.assoc)
  show ?thesis
    using * [of "evTags e" "145 + 2 + 2 + length (evTags e) * 3"]
    by (simp add: Measure_def Let_def section_length_def)
qed

lemma length_header: "wf_event e \<Longrightarrow> length (header e) = 145"
  by (simp add: header_def wf_event_def wf32_def)

lemma length_layout: "wf_event e \<Longrightarrow> length (layout e) = Measure e"
  by (simp add: layout_def length_header Measure_eq section_length_def)

lemma header_wrote:
  assumes wf: "wf_event e" and room: "145 \<le> length buf"
  obtains b1 b2 b3 b4 b5 b6 where "put_at buf 0 [0] = Ret b1"
    "put_at b1 1 (putLE 8 (unat (evKind e))) = Ret b2"
    "put_at b2 9 (putLE 8 (nat (uint64 (evCreatedAt e)))) = Ret b3"
    "put_at b3 17 (evID e) = Ret b4" "put_at b4 49 (evPubKey e) = Ret b5" "put_at b5 81 (evSig e) = Ret b6"
    "wrote buf 0 (header e) b6"
proof -
  let ?k = "putLE 8 (unat (evKind e))" and ?c = "putLE 8 (nat (uint64 (evCreatedAt e)))"
  have l: "length (evID e) = 32" "length (evPubKey e) = 32" "length (evSig e) = 64"
    using wf by (auto simp: wf_event_def wf32_def)
  obtain b1 where b1: "put_at buf 0 [0] = Ret b1" "wrote buf 0 [0] b1"
    using put_at_wrote [of 0 "[0]" buf] room by auto
  obtain b2 where b2: "put_at b1 1 ?k = Ret b2" "wrote b1 1 ?k b2"
    using put_at_wrote [of 1 ?k b1] room wrote_length [OF b1(2)] by auto
  have w2: "wrote buf 0 ([0] @ ?k) b2" by (rule wrote_trans [OF b1(2)]) (use b2 in simp)
  obtain b3 where b3: "put_at b2 9 ?c = Ret b3" "wrote b2 9 ?c b3"
    using put_at_wrote [of 9 ?c b2] room wrote_length [OF w2] by auto
  have w3: "wrote buf 0 (([0] @ ?k) @ ?c) b3" by (rule wrote_trans [OF w2]) (use b3 in simp)
  obtain b4 where b4: "put_at b3 17 (evID e) = Ret b4" "wrote b3 17 (evID e) b4"
    using put_at_wrote [of 17 "evID e" b3] room wrote_length [OF w3] l by auto
  have w4: "wrote buf 0 ((([0] @ ?k) @ ?c) @ evID e) b4" by (rule wrote_trans [OF w3]) (use b4 in simp)
  obtain b5 where b5: "put_at b4 49 (evPubKey e) = Ret b5" "wrote b4 49 (evPubKey e) b5"
    using put_at_wrote [of 49 "evPubKey e" b4] room wrote_length [OF w4] l by auto
  have w5: "wrote buf 0 (((([0] @ ?k) @ ?c) @ evID e) @ evPubKey e) b5"
    by (rule wrote_trans [OF w4]) (use b5 l in simp)
  obtain b6 where b6: "put_at b5 81 (evSig e) = Ret b6" "wrote b5 81 (evSig e) b6"
    using put_at_wrote [of 81 "evSig e" b5] room wrote_length [OF w5] l by auto
  have "wrote buf 0 ((((([0] @ ?k) @ ?c) @ evID e) @ evPubKey e) @ evSig e) b6"
    by (rule wrote_trans [OF w5]) (use b6 l in simp)
  then have "wrote buf 0 (header e) b6" by (simp add: header_def)
  then show ?thesis using that b1 b2 b3 b4 b5 b6 by blast
qed

lemma encodable_iff:
  "encodable e \<longleftrightarrow> length (evTags e) \<le> 65535 \<and> length (evContent e) \<le> 65535 \<and> list_all tag_ok (evTags e)"
  by (auto simp: encodable_def tag_ok_def list_all_iff)

lemma wrote_beyond: "wrote buf off bs buf' \<Longrightarrow> off + length bs \<le> n \<Longrightarrow> drop n buf' = drop n buf"
  by (intro nth_equalityI) (auto simp: wrote_def)

lemma wrote_Cons_put:
  assumes "wrote buf off bs b" shows "\<forall>i < length buf. off + length bs \<le> i \<longrightarrow> b ! i = buf ! i"
  using assms by (auto simp: wrote_def)

text \<open>Putting the pieces together: after the last write the buffer holds the format.\<close>

lemma marshal_assemble:
  fixes e :: event
  defines "n \<equiv> length (evTags e)" and "S \<equiv> section_length (evTags e)"
    and "tail \<equiv> putLE 2 (length (evContent e)) @ bytes_of (evContent e)"
  assumes wf: "wf_event e" and big: "145 + S + length tail \<le> length buf"
    and w6: "wrote buf 0 (header e) b6" and b7: "wrote b6 147 (putLE 2 n) b7"
    and b8: "tags_written b7 149 (149 + n * 2) (evTags e) b8"
    and b9: "wrote b8 145 (putLE 2 S) b9" and w11: "wrote b9 (145 + S) tail b11"
  shows "b11 = layout e @ drop (Measure e) buf"
proof -
  have S: "4 + n * 2 \<le> S" by (simp add: S_def n_def section_length_def)
  have M: "Measure e = 145 + S + length tail" by (simp add: Measure_eq S_def tail_def)
  have len6: "length b6 = length buf" by (rule wrote_length [OF w6])
  have len7: "length b7 = length buf" using wrote_length [OF b7] len6 by simp
  have len8: "length b8 = length buf" using b8 len7 by (simp add: tags_written_def)
  have len9: "length b9 = length buf" using wrote_length [OF b9] len8 by simp
  have len11: "length b11 = length buf" using wrote_length [OF w11] len9 by simp
  have keep: "b11 ! i = b9 ! i" if "i < length buf" "i < 145 + S" for i
    using w11 that len9 by (auto simp: wrote_def)
  have k9: "b9 ! i = b8 ! i" if "i < length buf" "i < 145 \<or> 147 \<le> i" for i
    using b9 that len8 by (auto simp: wrote_def)
  have k8: "b8 ! i = b7 ! i" if "i < 149 \<or> 145 + S \<le> i" "i < length buf" for i
    using b8 that len7 big by (auto simp: tags_written_def S_def n_def section_length_def)
  have k7: "b7 ! i = b6 ! i" if "i < length buf" "i < 147 \<or> 149 \<le> i" for i
    using b7 that len6 by (auto simp: wrote_def)
  have "has b6 0 (header e)" using w6 by (simp add: wrote_def)
  then have p1: "has b11 0 (header e)"
    using big keep k9 k8 k7 len11 by (simp add: has_def length_header [OF wf])
  have "has b9 145 (putLE 2 S)" using b9 by (simp add: wrote_def)
  then have p2: "has b11 145 (putLE 2 S)" using big keep len11 S by (simp add: has_def)
  have "has b7 147 (putLE 2 n)" using b7 by (simp add: wrote_def)
  then have p3: "has b11 147 (putLE 2 n)" using big keep k9 k8 len11 S by (simp add: has_def)
  have "has b8 149 (enc_table (4 + n * 2) (evTags e))"
    "has b8 (149 + n * 2) (concat (map enc_tag (evTags e)))"
    using b8 by (simp_all add: tags_written_def)
  then have p4: "has b11 149 (enc_table (4 + n * 2) (evTags e))"
    "has b11 (149 + n * 2) (concat (map enc_tag (evTags e)))"
    using big keep k9 len11 by (simp_all add: has_def S_def n_def section_length_def)
  have p5: "has b11 (145 + S) tail" using w11 by (simp add: wrote_def)
  have "has b11 0 (layout e)"
    using p1 p2 p3 p4 p5 unfolding S_def n_def tail_def
    by (simp add: layout_def has_append length_header [OF wf] section_length_def algebra_simps)
  then have t: "take (Measure e) b11 = layout e"
    using has_take length_layout [OF wf] by metis
  have "drop (Measure e) b11 = drop (Measure e) buf"
  proof (rule nth_equalityI)
    fix i
    assume "i < length (drop (Measure e) b11)"
    then have i: "Measure e + i < length buf" using len11 by simp
    have "b11 ! (Measure e + i) = b9 ! (Measure e + i)"
      using w11 i len9 by (auto simp: wrote_def M)
    also have "\<dots> = buf ! (Measure e + i)"
      using w6 k9 [of "Measure e + i"] k8 [of "Measure e + i"] k7 [of "Measure e + i"] i S
      by (simp add: wrote_def M length_header [OF wf])
    finally show "drop (Measure e) b11 ! i = drop (Measure e) buf ! i" using i len11 by simp
  qed (use len11 in simp)
  then show ?thesis using t by (metis append_take_drop_id)
qed

text \<open>On a buffer of the measured size \<open>Marshal\<close> writes the format, or reports a limit.\<close>

lemma Marshal_layout:
  assumes wf: "wf_event e" and room: "Measure e \<le> length buf"
  shows "if encodable e then Marshal e buf = Ret (layout e @ drop (Measure e) buf)
    else \<exists>err. Marshal e buf = Fail err"
proof -
  let ?n = "length (evTags e)" and ?S = "section_length (evTags e)" and ?C = "bytes_of (evContent e)"
  have big: "145 + ?S + 2 + length ?C \<le> length buf" "4 + ?n * 2 \<le> ?S"
    using room by (simp_all add: Measure_eq section_length_def)
  obtain b1 b2 b3 b4 b5 b6 where h: "put_at buf 0 [0] = Ret b1"
    "put_at b1 1 (putLE 8 (unat (evKind e))) = Ret b2"
    "put_at b2 9 (putLE 8 (nat (uint64 (evCreatedAt e)))) = Ret b3"
    "put_at b3 17 (evID e) = Ret b4" "put_at b4 49 (evPubKey e) = Ret b5" "put_at b5 81 (evSig e) = Ret b6"
    and w6: "wrote buf 0 (header e) b6"
    by (rule header_wrote [OF wf, of buf]) (use big in simp)
  have len6: "length b6 = length buf" by (rule wrote_length [OF w6])
  show ?thesis
  proof (cases "?n \<le> 65535")
    case False
    then show ?thesis using h by (simp add: Marshal_def encodable_def)
  next
    case n: True
    obtain b7 where b7: "put_at b6 147 (putLE 2 ?n) = Ret b7" "wrote b6 147 (putLE 2 ?n) b7"
      using put_at_wrote [of 147 "putLE 2 ?n" b6] big len6 by auto
    have len7: "length b7 = length buf" using wrote_length [OF b7(2)] len6 by simp
    have r: "room b7 (145 + (2 + 2 + ?n * 2)) (concat (map enc_tag (evTags e)))"
      using big len7 by (simp add: room_def section_length_def)
    note mt = marshal_tags_wrote [OF r, of 0]
    show ?thesis
    proof (cases "list_all tag_ok (evTags e)")
      case False
      then show ?thesis using mt h b7 n by (auto simp: Marshal_def encodable_iff)
    next
      case ok: True
      then obtain b8 where b8: "marshal_tags 0 (2 + 2 + ?n * 2) (evTags e) b7 = Ret (b8, ?S)"
        "tags_written b7 149 (149 + ?n * 2) (evTags e) b8"
        using mt by (auto simp: section_length_def)
      have len8: "length b8 = length buf" using b8(2) len7 by (simp add: tags_written_def)
      obtain b9 where b9: "put_at b8 145 (putLE 2 ?S) = Ret b9" "wrote b8 145 (putLE 2 ?S) b9"
        using put_at_wrote [of 145 "putLE 2 ?S" b8] big len8 by auto
      have len9: "length b9 = length buf" using wrote_length [OF b9(2)] len8 by simp
      show ?thesis
      proof (cases "length (evContent e) \<le> 65535")
        case False
        then show ?thesis using h b7 b8 b9 n by (simp add: Marshal_def encodable_def)
      next
        case c: True
        let ?l = "putLE 2 (length (evContent e))"
        obtain b10 where b10: "put_at b9 (145 + ?S) ?l = Ret b10" "wrote b9 (145 + ?S) ?l b10"
          using put_at_wrote [of "145 + ?S" ?l b9] big len9 by auto
        have len10: "length b10 = length buf" using wrote_length [OF b10(2)] len9 by simp
        obtain b11 where b11: "copy_from b10 (145 + ?S + 2) ?C = Ret b11" "wrote b10 (145 + ?S + 2) ?C b11"
          using copy_from_wrote [of "145 + ?S + 2" ?C b10] big len10 by auto
        have len11: "length b11 = length buf" using wrote_length [OF b11(2)] len10 by simp
        have m: "Marshal e buf = Ret b11" using h b7 b8 b9 b10 b11 n c by (simp add: Marshal_def)
        have w11: "wrote b9 (145 + ?S) (?l @ ?C) b11"
          by (rule wrote_trans [OF b10(2)]) (use b11 in simp)
        have "b11 = layout e @ drop (Measure e) buf"
          by (rule marshal_assemble [OF wf _ w6 b7(2) b8(2) b9(2) w11]) (use big in simp)
        then show ?thesis using m n c ok by (simp add: encodable_iff)
      qed
    qed
  qed
qed

section \<open>Decoding\<close>

lemma u16_at_has: "has data off (putLE 2 v) \<Longrightarrow> u16_at data off = Ret (v mod 65536)"
  using has_slice [of data off "putLE 2 v" "off + 2"] by (simp add: u16_at_def getLE_putLE)

lemma unmarshal_items_has:
  "has data pos (concat (map enc_item items)) \<Longrightarrow> \<forall>item \<in> set items. length item \<le> 65535 \<Longrightarrow>
     unmarshal_items data (length items) pos = Ret items"
proof (induction items arbitrary: pos)
  case Nil
  then show ?case by simp
next
  case (Cons item items)
  have h: "has data pos (putLE 2 (length item))" "has data (pos + 2) (bytes_of item)"
    "has data (pos + 2 + length item) (concat (map enc_item items))"
  proof -
    have "has data pos ((putLE 2 (length item) @ bytes_of item) @ concat (map enc_item items))"
      using Cons.prems(1) by (simp only: list.map concat.simps) (simp only: enc_item_def [of item])
    then show "has data pos (putLE 2 (length item))" "has data (pos + 2) (bytes_of item)"
      "has data (pos + 2 + length item) (concat (map enc_item items))"
      unfolding has_append by simp_all
  qed
  then show ?case
    using Cons u16_at_has [OF h(1)] has_slice [OF h(2)] by simp
qed

lemma offset_recovered:
  fixes prev off :: nat
  assumes "prev \<le> off" "off < prev + 65536"
  shows "(if off mod 65536 < prev mod 65536 then prev div 65536 + 1 else prev div 65536) = off div 65536"
proof -
  define a r b s where "a = prev div 65536" "r = prev mod 65536" "b = off div 65536" "s = off mod 65536"
  then have "prev = 65536 * a + r" "off = 65536 * b + s" "r < 65536" "s < 65536" by simp_all
  then have "(if s < r then a + 1 else a) = b" using assms by (cases "s < r") simp_all
  then show ?thesis unfolding a_r_b_s_def .
qed

lemma unmarshal_tags_has:
  assumes "has data (149 + t * 2) (enc_table off tags)" "has data (145 + off) (concat (map enc_tag tags))"
    "list_all tag_ok tags" "offsets_ok prev off tags" "prev \<le> off"
  shows "unmarshal_tags data t (length tags) (prev mod 65536) (prev div 65536)
    = Ret (tags, (off + length (concat (map enc_tag tags))) div 65536)"
  using assms
proof (induction tags arbitrary: t off prev)
  case Nil
  then show ?case by simp
next
  case (Cons tag tags)
  let ?e = "enc_tag tag"
  have ok: "tag_ok tag" "list_all tag_ok tags" using Cons.prems by auto
  have h1: "has data (149 + t * 2) (putLE 2 off)" "has data (149 + (t + 1) * 2) (enc_table (off + length ?e) tags)"
    using Cons.prems(1) by (simp_all add: has_append algebra_simps)
  have h2: "has data (145 + off) ?e" "has data (145 + (off + length ?e)) (concat (map enc_tag tags))"
    using Cons.prems(2) by (simp_all add: has_append algebra_simps)
  have ov: "(if off mod 65536 < prev mod 65536 then prev div 65536 + 1 else prev div 65536) = off div 65536"
    using Cons.prems by (intro offset_recovered) auto
  have h3: "has data (145 + off) [word_of_nat (length tag)]" "has data (145 + off + 1) (concat (map enc_item tag))"
    using h2(1) has_append [of data "145 + off" "[word_of_nat (length tag)]" "concat (map enc_item tag)"]
    by (simp_all add: enc_tag_def)
  have n: "unat (word_of_nat (length tag) :: byte) = length tag"
    using ok(1) by (simp add: tag_ok_def unat_of_nat take_bit_nat_eq_self)
  have ix: "index_at data (145 + off) = Some (word_of_nat (length tag))"
    using h3(1) by (simp add: has_def index_at_def)
  have it: "unmarshal_items data (length tag) (145 + off + 1) = Ret tag"
    using unmarshal_items_has [OF h3(2)] ok(1) by (simp add: tag_ok_def)
  have off: "off mod 65536 + 65536 * (off div 65536) = off" by simp
  have IH: "unmarshal_tags data (t + 1) (length tags) (off mod 65536) (off div 65536)
      = Ret (tags, (off + length ?e + length (concat (map enc_tag tags))) div 65536)"
    by (rule Cons.IH [OF h1(2) h2(2) ok(2)]) (use Cons.prems(4) in simp_all)
  have u: "u16_at data (145 + 4 + t * 2) = Ret (off mod 65536)"
    using u16_at_has [OF h1(1)] by simp
  show ?case
    unfolding list.size(4) add_Suc_right add_0_right unmarshal_tags.simps u Let_def obind.simps ov off
      ix or_panic.simps n it
    using IH by (simp add: add.assoc)
qed

lemma kind_from_bytes [simp]: "word_of_nat (getLE (putLE 8 (unat (k :: Kind)))) = k"
proof -
  have "unat k < 65536" using unsigned_less [of k] by simp
  then show ?thesis by (simp add: getLE_putLE)
qed

lemma time_from_bytes: "in_int64 c \<Longrightarrow> int64 (int (getLE (putLE 8 (nat (uint64 c))))) = c"
proof -
  assume c: "in_int64 c"
  have "uint64 c < 2 ^ 64" "0 \<le> uint64 c" using uint64_range by auto
  then have "int (nat (uint64 c) mod 256 ^ 8) = uint64 c" by (simp add: uint64_def zmod_int)
  then show ?thesis using int64_id [OF c] by (simp add: getLE_putLE)
qed

definition fits :: "event \<Rightarrow> bool" where
  "fits e \<longleftrightarrow> encodable e \<and> offsets_ok 0 (4 + length (evTags e) * 2) (evTags e)"

lemma layout_has:
  assumes wf: "wf_event e" and buf: "has buf 0 (layout e)"
  shows "has buf 1 (putLE 8 (unat (evKind e)))" "has buf 9 (putLE 8 (nat (uint64 (evCreatedAt e))))"
    "has buf 17 (evID e)" "has buf 49 (evPubKey e)" "has buf 81 (evSig e)"
    "has buf 145 (putLE 2 (section_length (evTags e)))" "has buf 147 (putLE 2 (length (evTags e)))"
    "has buf 149 (enc_table (4 + length (evTags e) * 2) (evTags e))"
    "has buf (145 + (4 + length (evTags e) * 2)) (concat (map enc_tag (evTags e)))"
    "has buf (145 + section_length (evTags e)) (putLE 2 (length (evContent e)))"
    "has buf (145 + section_length (evTags e) + 2) (bytes_of (evContent e))"
proof -
  have l: "length (evID e) = 32" "length (evPubKey e) = 32" "length (evSig e) = 64"
    using wf by (auto simp: wf_event_def wf32_def)
  note parts = buf [unfolded layout_def header_def has_append]
  show "has buf 1 (putLE 8 (unat (evKind e)))" "has buf 9 (putLE 8 (nat (uint64 (evCreatedAt e))))"
    "has buf 17 (evID e)" "has buf 49 (evPubKey e)" "has buf 81 (evSig e)"
    "has buf 145 (putLE 2 (section_length (evTags e)))" "has buf 147 (putLE 2 (length (evTags e)))"
    "has buf 149 (enc_table (4 + length (evTags e) * 2) (evTags e))"
    "has buf (145 + (4 + length (evTags e) * 2)) (concat (map enc_tag (evTags e)))"
    using parts by (simp_all add: l mult.commute)
  show "has buf (145 + section_length (evTags e)) (putLE 2 (length (evContent e)))"
    "has buf (145 + section_length (evTags e) + 2) (bytes_of (evContent e))"
    using parts by (simp_all add: l section_length_def algebra_simps)
qed

text \<open>Reading the format back gives the event, whatever follows it.\<close>

lemma Unmarshal_layout:
  assumes wf: "wf_event e" and f: "fits e"
  shows "Unmarshal (layout e @ rest) = Ret e"
proof -
  let ?n = "length (evTags e)" and ?S = "section_length (evTags e)" and ?d = "layout e @ rest"
  have l: "length (evID e) = 32" "length (evPubKey e) = 32" "length (evSig e) = 64" "in_int64 (evCreatedAt e)"
    using wf by (auto simp: wf_event_def wf32_def)
  have enc: "?n \<le> 65535" "length (evContent e) \<le> 65535" "list_all tag_ok (evTags e)"
    using f by (auto simp: fits_def encodable_iff)
  note h = layout_has [OF wf has_self, of rest]
  have S: "4 + ?n * 2 + length (concat (map enc_tag (evTags e))) = ?S" by (simp add: section_length_def)
  have tags: "unmarshal_tags ?d 0 ?n 0 0 = Ret (evTags e, ?S div 65536)"
    using unmarshal_tags_has [of ?d 0 "4 + ?n * 2" "evTags e" 0] h(8,9) enc f S by (simp add: fits_def)
  have off: "?S mod 65536 + 65536 * (?S div 65536) = ?S" by simp
  have c: "u16_at ?d (145 + ?S) = Ret (length (evContent e))"
    using u16_at_has [OF h(10)] enc by simp
  have "unmarshal_body ?d = Ret e"
    unfolding unmarshal_body_def
    using has_slice [OF h(1), of 9] has_slice [OF h(2), of 17] has_slice [OF h(3), of 49]
      has_slice [OF h(4), of 81] has_slice [OF h(5), of 145] has_slice [OF h(11)]
      u16_at_has [OF h(6)] u16_at_has [OF h(7)] enc tags off c l
    by (simp add: time_from_bytes)
  then show ?thesis by (simp add: Unmarshal_def)
qed

lemma offsets_ok_small:
  "prev \<le> off \<Longrightarrow> off + length (concat (map enc_tag tags)) < 65536 \<Longrightarrow> offsets_ok prev off tags"
proof (induction tags arbitrary: prev off)
  case (Cons tag tags)
  then show ?case by simp
qed simp

lemma fits_small: "encodable e \<Longrightarrow> section_length (evTags e) < 65536 \<Longrightarrow> fits e"
  by (simp add: fits_def section_length_def offsets_ok_small)

section \<open>Searching\<close>

definition tag_pattern :: "char \<Rightarrow> string \<Rightarrow> bytes" where
  "tag_pattern k v = [1, 0, byte_of_char k, word_of_nat (length v), 0] @ bytes_of v"

lemma tag_patterns_eq: "tag_patterns [k] vals = Ret (map (tag_pattern k) vals)"
  by (induction vals) (auto simp: tag_pattern_def index_at_def)

lemma putLE_2: "putLE 2 n = [word_of_nat n, word_of_nat (n div 256)]"
  by (simp add: numeral_2_eq_2)

lemma putLE_2_small: "n < 256 \<Longrightarrow> putLE 2 n = [word_of_nat n, 0]"
  by (simp add: putLE_2)

lemma putLE_2_inj: "m < 65536 \<Longrightarrow> n < 65536 \<Longrightarrow> putLE 2 m = putLE 2 n \<Longrightarrow> m = n"
  by (metis getLE_putLE mod_less power2_eq_square numeral_times_numeral semiring_norm(13) mult_numeral_1
      getLE_putLE [of 2, simplified])

lemma byte_of_char_inj: "byte_of_char a = byte_of_char b \<longleftrightarrow> a = b"
  by (metis char_of_byte_of_char)

text \<open>The bytes after a tag's item count start with the pattern exactly when the tag has the key and the value.\<close>

lemma pattern_prefix:
  assumes ok: "tag_ok tag" "2 \<le> length tag" and v: "length v < 256"
    and long: "length (tag_pattern k v) \<le> length (concat (map enc_item tag) @ after)"
  shows "take (length (tag_pattern k v)) (concat (map enc_item tag) @ after) = tag_pattern k v
    \<longleftrightarrow> tag ! 0 = [k] \<and> tag ! 1 = v"
proof -
  obtain a b tl where tag: "tag = a # b # tl"
    using ok(2) by (metis One_nat_def Suc_1 Suc_le_length_iff)
  have la: "length a < 65536" "length b < 65536" using ok(1) by (auto simp: tag tag_ok_def)
  have pat: "tag_pattern k v = putLE 2 1 @ bytes_of [k] @ putLE 2 (length v) @ bytes_of v"
    using v by (simp add: tag_pattern_def putLE_2_small bytes_of_def)
  define rest where "rest = concat (map enc_item tl) @ after"
  have enc: "concat (map enc_item tag) @ after
      = putLE 2 (length a) @ bytes_of a @ putLE 2 (length b) @ bytes_of b @ rest"
    by (simp add: tag enc_item_def rest_def)
  show ?thesis
  proof
    assume "take (length (tag_pattern k v)) (concat (map enc_item tag) @ after) = tag_pattern k v"
    then obtain r where r: "putLE 2 (length a) @ bytes_of a @ putLE 2 (length b) @ bytes_of b @ rest
        = putLE 2 1 @ bytes_of [k] @ putLE 2 (length v) @ bytes_of v @ r"
      unfolding enc by (metis pat append.assoc append_take_drop_id)
    then have "putLE 2 (length a) = putLE 2 1" by simp
    then have a1: "length a = 1" using putLE_2_inj la by simp
    then have "bytes_of a = bytes_of [k]" and r2: "putLE 2 (length b) @ bytes_of b @ rest = putLE 2 (length v) @ bytes_of v @ r"
      using r by auto
    moreover have "length b = length v" using r2 putLE_2_inj la v by simp
    ultimately show "tag ! 0 = [k] \<and> tag ! 1 = v" using bytes_of_inj by (auto simp: tag)
  next
    assume "tag ! 0 = [k] \<and> tag ! 1 = v"
    then show "take (length (tag_pattern k v)) (concat (map enc_item tag) @ after) = tag_pattern k v"
      unfolding enc pat by (simp add: tag)
  qed
qed

lemma any_pattern_eq:
  assumes body: "drop (145 + off + 1) data = concat (map enc_item tag) @ after"
    and ok: "tag_ok tag" "2 \<le> length tag"
    and vs: "\<And>v. v \<in> set vals \<Longrightarrow> length v < 256 \<and> 145 + off + 1 + (5 + length v) \<le> length data"
  shows "any_pattern data off (map (tag_pattern k) vals) = Ret (tag ! 0 = [k] \<and> tag ! 1 \<in> set vals)"
  using vs
proof (induction vals)
  case Nil
  then show ?case by simp
next
  case (Cons v vals)
  have v: "length v < 256" "145 + off + 1 + (5 + length v) \<le> length data" using Cons.prems by auto
  have lp: "length (tag_pattern k v) = 5 + length v" by (simp add: tag_pattern_def)
  have "length (concat (map enc_item tag) @ after) = length data - (145 + off + 1)"
    using body by (metis length_drop)
  then have long: "length (tag_pattern k v) \<le> length (concat (map enc_item tag) @ after)" using v(2) lp by simp
  have "slice data (145 + off + 1) (145 + off + 1 + length (tag_pattern k v))
      = Some (take (length (tag_pattern k v)) (concat (map enc_item tag) @ after))"
    using v(2) lp unfolding body [symmetric] by (simp add: slice_def)
  then show ?case
    using pattern_prefix [OF ok v(1) long] Cons by auto
qed

lemma drop_has: "has data off bs \<Longrightarrow> drop off data = bs @ drop (off + length bs) data"
  by (intro nth_equalityI) (auto simp: has_def nth_append)

lemma tag_loop_eq:
  assumes "has data (149 + t * 2) (enc_table off tags)" "has data (145 + off) (concat (map enc_tag tags))"
    "list_all tag_ok tags" "off + length (concat (map enc_tag tags)) < 65536" "149 + (t + length tags) * 2 < 65536"
    "\<And>v. v \<in> set vals \<Longrightarrow> length v < 256 \<and> 146 + off + length (concat (map enc_tag tags)) + length v \<le> length data"
  shows "tag_loop data (map (tag_pattern k) vals) t (length tags) = Ret (ContainsAny tags [k] vals)"
  using assms
proof (induction tags arbitrary: t off)
  case Nil
  then show ?case by simp
next
  case (Cons tag tags)
  let ?e = "enc_tag tag" and ?ms = "map (tag_pattern k) vals"
  have ok: "tag_ok tag" "list_all tag_ok tags" using Cons.prems by auto
  have "has data (149 + t * 2) (putLE 2 off @ enc_table (off + length ?e) tags)"
    using Cons.prems(1) by simp
  then have h1: "has data (149 + t * 2) (putLE 2 off)" "has data (149 + (t + 1) * 2) (enc_table (off + length ?e) tags)"
    unfolding has_append by (simp_all add: algebra_simps)
  have h2: "has data (145 + off) ?e" "has data (145 + (off + length ?e)) (concat (map enc_tag tags))"
    using Cons.prems(2) by (simp_all add: has_append algebra_simps)
  have h3: "has data (145 + off) [word_of_nat (length tag)]" "has data (145 + off + 1) (concat (map enc_item tag))"
    using h2(1) has_append [of data "145 + off" "[word_of_nat (length tag)]" "concat (map enc_item tag)"]
    by (simp_all add: enc_tag_def)
  have n: "unat (word_of_nat (length tag) :: byte) = length tag"
    using ok(1) by (simp add: tag_ok_def unat_of_nat take_bit_nat_eq_self)
  have ix: "index_at data (145 + off) = Some (word_of_nat (length tag))"
    using h3(1) by (simp add: has_def index_at_def)
  have u: "u16_at data ((149 + t * 2) mod 65536) = Ret off"
    using u16_at_has [OF h1(1)] Cons.prems(4,5) by simp
  have IH: "tag_loop data ?ms (t + 1) (length tags) = Ret (ContainsAny tags [k] vals)"
  proof (rule Cons.IH [OF h1(2) h2(2) ok(2)])
    show "length v < 256 \<and> 146 + (off + length ?e) + length (concat (map enc_tag tags)) + length v \<le> length data"
      if "v \<in> set vals" for v using Cons.prems(6) [OF that] by simp
  qed (use Cons.prems in simp_all)
  have any: "any_pattern data off ?ms = Ret (tag ! 0 = [k] \<and> tag ! 1 \<in> set vals)" if two: "2 \<le> length tag"
  proof (rule any_pattern_eq [OF drop_has [OF h3(2)] ok(1) two])
    have "5 \<le> length ?e" using two by (simp add: length_enc_tag)
    then show "length v < 256 \<and> 145 + off + 1 + (5 + length v) \<le> length data" if "v \<in> set vals" for v
      using Cons.prems(6) [OF that] by simp
  qed
  show ?case
    using u ix n IH any by auto
qed

text \<open>
  On an encoded event the byte search answers what \<open>ContainsAny\<close> answers on the event, when the
  tag section is below 64K, the values are below 256 bytes, and enough bytes follow the tags.
\<close>

lemma TagMatches_layout:
  assumes wf: "wf_event e" and enc: "encodable e" "section_length (evTags e) < 65536"
    and vals: "\<And>v. v \<in> set vals \<Longrightarrow> length v < 256 \<and> length v \<le> 1 + length (evContent e) + length rest"
  shows "TagMatches (layout e @ rest) [k] vals = Ret (ContainsAny (evTags e) [k] vals)"
proof -
  let ?n = "length (evTags e)" and ?d = "layout e @ rest"
  note h = layout_has [OF wf has_self, of rest]
  have S: "section_length (evTags e) = 4 + ?n * 2 + length (concat (map enc_tag (evTags e)))"
    by (simp add: section_length_def)
  have "length tags \<le> length (concat (map enc_tag tags))" for tags
    by (induction tags) (simp_all add: length_enc_tag)
  then have "?n \<le> length (concat (map enc_tag (evTags e)))" .
  then have n: "4 + 3 * ?n < 65536" using enc(2) S by linarith
  have len: "length ?d = 145 + section_length (evTags e) + 2 + length (evContent e) + length rest"
    using length_layout [OF wf] by (simp add: Measure_eq)
  have "tag_loop ?d (map (tag_pattern k) vals) 0 ?n = Ret (ContainsAny (evTags e) [k] vals)"
  proof (rule tag_loop_eq)
    show "has ?d (149 + 0 * 2) (enc_table (4 + ?n * 2) (evTags e))" using h(8) by simp
    show "has ?d (145 + (4 + ?n * 2)) (concat (map enc_tag (evTags e)))" by (rule h(9))
    show "list_all tag_ok (evTags e)" using enc by (simp add: encodable_iff)
    show "4 + ?n * 2 + length (concat (map enc_tag (evTags e))) < 65536" using enc(2) S by simp
    show "149 + (0 + ?n) * 2 < 65536" using n by simp
    show "length v < 256 \<and> 146 + (4 + ?n * 2) + length (concat (map enc_tag (evTags e))) + length v \<le> length ?d"
      if "v \<in> set vals" for v
      using vals [OF that] len S by simp
  qed
  then show ?thesis
    using u16_at_has [OF h(7)] n by (simp add: TagMatches_def tag_patterns_eq)
qed

section \<open>Properties\<close>

text \<open>encoding into a buffer of the measured size never panics; it fails exactly on events that exceed
  a size limit of the format, and then reports an error.\<close>

theorem marshal_total:
  assumes "wf_event e" "Measure e \<le> length buf"
  shows "Marshal e buf \<noteq> Panic \<and>
    ((\<exists>out. Marshal e buf = Ret out) \<longleftrightarrow>
       length (evTags e) \<le> 65535 \<and> length (evContent e) \<le> 65535 \<and>
       (\<forall>tag \<in> set (evTags e). length tag \<le> 255 \<and> (\<forall>item \<in> set tag. length item \<le> 65535)))"
  using Marshal_layout [OF assms] unfolding encodable_def [symmetric] by (cases "encodable e") auto

theorem marshal_total_witness: "Marshal note1 (replicate (Measure note1) 0) \<noteq> Panic"
  using marshal_total [OF wf_note1, of "replicate (Measure note1) 0"] by simp

text \<open>C21: what was encoded is decoded to the same event, whatever follows it in the buffer, when the tag section
  stays below 64 KiB.\<close>

theorem binary_roundtrip:
  assumes "wf_event e" "Measure e \<le> length buf" "Marshal e buf = Ret out" "section_length (evTags e) < 65536"
  shows "Unmarshal (take (Measure e) out @ rest) = Ret e"
proof -
  have enc: "encodable e" and out: "out = layout e @ drop (Measure e) buf"
    using Marshal_layout [OF assms(1,2)] assms(3) by (auto split: if_splits)
  have "take (Measure e) out = layout e" using length_layout [OF assms(1)] out by simp
  then show ?thesis using Unmarshal_layout [OF assms(1) fits_small [OF enc assms(4)]] by simp
qed

theorem binary_roundtrip_witness:
  "\<exists>out. Marshal note1 (replicate (Measure note1) 0) = Ret out \<and>
     Unmarshal (take (Measure note1) out @ [7, 7]) = Ret note1"
proof -
  have "encodable note1" by (simp add: encodable_def note1_def)
  then obtain out where out: "Marshal note1 (replicate (Measure note1) 0) = Ret out"
    using Marshal_layout [OF wf_note1, of "replicate (Measure note1) 0"] by auto
  have "section_length (evTags note1) < 65536" by (simp add: section_length_def note1_def enc_tag_def enc_item_def)
  then show ?thesis using binary_roundtrip [OF wf_note1 _ out, of "[7, 7]"] out by simp
qed



end
