(* ===== verification/NegEncoding.thy ===== *)
theory NegEncoding
  imports Event
begin

text \<open>
  \<^verbatim>\<open>nip77/negentropy/types.go\<close>, \<^verbatim>\<open>encoding.go\<close> and \<^verbatim>\<open>storage/accumulator.go\<close>: the wire format of
  set reconciliation.  A reader is the list of the bytes left, a writer returns the bytes it appends.
  Variable-length integers round trip through \<^verbatim>\<open>int\<close>, delta-encoded timestamps and bounds
  round trip when they do not step back by exactly one, the minimal bound separates two neighbours,
  and the accumulator adds 256-bit numbers except where its carry test misses.
\<close>

unbundle bit_operations_syntax

datatype neg_error = EOF | BadVersion byte | BadMode byte | BadHex

record Item =
  it_Timestamp :: int
  it_ID :: ID

record Bound =
  b_Timestamp :: int
  b_IDPrefix :: bytes

definition maxTimestamp :: int where
  "maxTimestamp = MaxInt64"

definition InfiniteBound :: Bound where
  "InfiniteBound = \<lparr>b_Timestamp = maxTimestamp, b_IDPrefix = []\<rparr>"

section \<open>Variable-length integers\<close>

fun ReadVarInt_loop :: "64 word \<Rightarrow> bytes \<Rightarrow> (neg_error, 64 word \<times> bytes) outcome" where
  "ReadVarInt_loop res [] = Fail EOF"
| "ReadVarInt_loop res (b # reader) =
     (let res = push_bit 7 res OR (ucast b AND 127)
      in if b AND 128 = 0 then Ret (res, reader) else ReadVarInt_loop res reader)"

definition ReadVarInt :: "bytes \<Rightarrow> (neg_error, int \<times> bytes) outcome" where
  "ReadVarInt reader = obind (ReadVarInt_loop 0 reader) (\<lambda>(res, reader). Ret (sint res, reader))"

text \<open>The digits, base 128, most significant first; all but the last get the high bit.\<close>

fun varint_loop :: "nat \<Rightarrow> bytes \<Rightarrow> bytes" where
  "varint_loop n acc = (if n = 0 then acc else varint_loop (n div 128) (word_of_nat (n mod 128) # acc))"

declare varint_loop.simps [simp del]

definition WriteVarInt :: "nat \<Rightarrow> bytes" where
  "WriteVarInt n =
     (if n = 0 then [0]
      else let result = varint_loop n [] in map (\<lambda>b. b OR 0x80) (butlast result) @ [last result])"

section \<open>Timestamps and bounds\<close>

text \<open>The reader and the writer each remember the last timestamp; both are passed along.\<close>

definition ReadTimestamp :: "int \<Rightarrow> bytes \<Rightarrow> (neg_error, int \<times> int \<times> bytes) outcome" where
  "ReadTimestamp lastIn reader =
     obind (ReadVarInt reader) (\<lambda>(delta, reader).
       if delta = 0 then Ret (maxTimestamp, maxTimestamp, reader)
       else let timestamp = int64 (lastIn + int64 (delta - 1)) in Ret (timestamp, timestamp, reader))"

text \<open>
  \<^verbatim>\<open>make([]byte, length)\<close> panics on a negative length (or one too large for the machine, which
  is not modelled).  \<^verbatim>\<open>reader.Read(p)\<close> fails only when nothing is left; a short read leaves zeros.
\<close>

definition reader_Read :: "nat \<Rightarrow> bytes \<Rightarrow> (neg_error, bytes \<times> bytes) outcome" where
  "reader_Read n reader =
     (if reader = [] then Fail EOF
      else Ret (take n reader @ replicate (n - length reader) 0, drop n reader))"

definition ReadBound :: "int \<Rightarrow> bytes \<Rightarrow> (neg_error, Bound \<times> int \<times> bytes) outcome" where
  "ReadBound lastIn reader =
     obind (ReadTimestamp lastIn reader) (\<lambda>(timestamp, lastIn, reader).
     obind (ReadVarInt reader) (\<lambda>(len, reader).
       if len < 0 then Panic
       else obind (reader_Read (nat len) reader) (\<lambda>(pfb, reader).
            Ret (\<lparr>b_Timestamp = timestamp, b_IDPrefix = pfb\<rparr>, lastIn, reader))))"

definition WriteTimestamp :: "int \<Rightarrow> int \<Rightarrow> bytes \<times> int" where
  "WriteTimestamp lastOut timestamp =
     (if timestamp = maxTimestamp then (WriteVarInt 0, maxTimestamp)
      else let delta = int64 (timestamp - lastOut)
           in (WriteVarInt (nat (uint64 (uint64 delta + 1))), timestamp))"

definition WriteBound :: "int \<Rightarrow> Bound \<Rightarrow> bytes \<times> int" where
  "WriteBound lastOut bound =
     (let (w, lastOut) = WriteTimestamp lastOut (b_Timestamp bound)
      in (w @ WriteVarInt (length (b_IDPrefix bound)) @ b_IDPrefix bound, lastOut))"

fun shared_prefix :: "nat \<Rightarrow> bytes \<Rightarrow> bytes \<Rightarrow> nat" where
  "shared_prefix 0 xs ys = 0"
| "shared_prefix (Suc n) (x # xs) (y # ys) = (if x \<noteq> y then 0 else shared_prefix n xs ys + 1)"
| "shared_prefix (Suc n) xs ys = 0"

definition getMinimalBound :: "Item \<Rightarrow> Item \<Rightarrow> Bound" where
  "getMinimalBound prev cur =
     (if it_Timestamp cur \<noteq> it_Timestamp prev
      then \<lparr>b_Timestamp = it_Timestamp cur, b_IDPrefix = []\<rparr>
      else \<lparr>b_Timestamp = it_Timestamp cur,
             b_IDPrefix = take (shared_prefix 31 (it_ID cur) (it_ID prev) + 1) (it_ID cur)\<rparr>)"

section \<open>The accumulator\<close>

definition u32 :: "bytes \<Rightarrow> nat \<Rightarrow> nat" where
  "u32 bs off = getLE (take 4 (drop off bs))"

text \<open>One 32-bit limb: the sum and whether the code notices the overflow.\<close>

definition add_limb :: "32 word \<Rightarrow> 32 word \<Rightarrow> 32 word \<Rightarrow> 32 word \<times> 32 word" where
  "add_limb orig otherV currCarry =
     (let next = orig + currCarry + otherV
      in (next AND 0xFFFFFFFF, if next < orig \<or> next < otherV then 1 else 0))"

fun add_limbs :: "nat \<Rightarrow> 32 word \<Rightarrow> bytes \<Rightarrow> bytes \<Rightarrow> bytes" where
  "add_limbs 0 currCarry buf other = []"
| "add_limbs (Suc n) currCarry buf other =
     (let (next, nextCarry) = add_limb (word_of_nat (u32 buf 0)) (word_of_nat (u32 other 0)) currCarry
      in putLE 4 (unat next) @ add_limbs n nextCarry (drop 4 buf) (drop 4 other))"

definition AddBytes :: "bytes \<Rightarrow> bytes \<Rightarrow> bytes" where
  "AddBytes acc other = add_limbs 8 0 acc other"

definition acc_Reset :: "bytes \<Rightarrow> bytes" where
  "acc_Reset acc = map (\<lambda>_. 0) acc"

definition AddAccumulator :: "bytes \<Rightarrow> bytes \<Rightarrow> bytes" where
  "AddAccumulator acc other = AddBytes acc other"

definition GetFingerprint :: "ext \<Rightarrow> bytes \<Rightarrow> int \<Rightarrow> bytes" where
  "GetFingerprint x acc n = take 16 (sha256_Sum x (acc @ WriteVarInt (nat (uint64 n))))"

section \<open>Round trips\<close>

lemma varint_byte:
  assumes "d < 128"
  shows "ucast (word_of_nat d :: byte) AND 127 = (word_of_nat d :: 64 word)"
    "ucast ((word_of_nat d :: byte) OR 0x80) AND 127 = (word_of_nat d :: 64 word)"
    "(word_of_nat d :: byte) AND 128 = 0" "((word_of_nat d :: byte) OR 0x80) AND 128 \<noteq> 0"
proof -
  have "\<forall>d \<in> set [0..<128]. ucast (word_of_nat d :: byte) AND 127 = (word_of_nat d :: 64 word) \<and>
    ucast ((word_of_nat d :: byte) OR 0x80) AND 127 = (word_of_nat d :: 64 word) \<and>
    (word_of_nat d :: byte) AND 128 = 0 \<and> ((word_of_nat d :: byte) OR 0x80) AND 128 \<noteq> 0"
    by code_simp
  then show "ucast (word_of_nat d :: byte) AND 127 = (word_of_nat d :: 64 word)"
    "ucast ((word_of_nat d :: byte) OR 0x80) AND 127 = (word_of_nat d :: 64 word)"
    "(word_of_nat d :: byte) AND 128 = 0" "((word_of_nat d :: byte) OR 0x80) AND 128 \<noteq> 0"
    using assms by auto
qed

fun digits128 :: "nat \<Rightarrow> nat list" where
  "digits128 n = (if n = 0 then [] else digits128 (n div 128) @ [n mod 128])"

declare digits128.simps [simp del]

lemma digits128_0 [simp]: "digits128 0 = []"
  by (subst digits128.simps) simp

lemma digits128_pos: "n \<noteq> 0 \<Longrightarrow> digits128 n = digits128 (n div 128) @ [n mod 128]"
  by (subst digits128.simps) simp

lemma digits128_less: "d \<in> set (digits128 n) \<Longrightarrow> d < 128"
proof (induction n rule: digits128.induct)
  case (1 n)
  then show ?case by (cases "n = 0") (auto simp: digits128_pos)
qed

definition value128 :: "nat \<Rightarrow> nat list \<Rightarrow> nat" where
  "value128 a ds = foldl (\<lambda>a d. a * 128 + d) a ds"

lemma value128_simps [simp]: "value128 a [] = a" "value128 a (d # ds) = value128 (a * 128 + d) ds"
  "value128 a (ds @ es) = value128 (value128 a ds) es"
  by (simp_all add: value128_def)

lemma value_digits128: "value128 0 (digits128 n) = n"
proof (induction n rule: digits128.induct)
  case (1 n)
  then show ?case by (cases "n = 0") (simp_all add: digits128_pos)
qed

lemma varint_loop_digits: "varint_loop n acc = map word_of_nat (digits128 n) @ acc"
proof (induction n acc rule: varint_loop.induct)
  case (1 n acc)
  then show ?case by (subst varint_loop.simps) (simp add: digits128_pos)
qed

lemma WriteVarInt_digits:
  "n \<noteq> 0 \<Longrightarrow> WriteVarInt n =
     map (\<lambda>d. word_of_nat d OR 0x80) (digits128 (n div 128)) @ [word_of_nat (n mod 128)]"
  by (simp add: WriteVarInt_def varint_loop_digits digits128_pos butlast_append)

lemma push_or:
  assumes "d < 128"
  shows "push_bit 7 (word_of_nat a :: 64 word) OR word_of_nat d = word_of_nat (a * 128 + d)"
proof -
  have "(word_of_nat d :: 64 word) = take_bit 7 (word_of_nat d)"
    using assms by (simp add: take_bit_of_nat take_bit_nat_eq_self)
  moreover have "push_bit 7 x AND take_bit 7 y = 0" for x y :: "64 word"
    by (rule bit_eqI) (auto simp: bit_simps)
  ultimately have "push_bit 7 (word_of_nat a :: 64 word) AND word_of_nat d = 0" by metis
  then have "push_bit 7 (word_of_nat a :: 64 word) OR word_of_nat d
      = push_bit 7 (word_of_nat a) + word_of_nat d"
    by (simp add: disjunctive_add_eq_or)
  then show ?thesis by (simp add: push_bit_eq_mult mult.commute)
qed

lemma read_digits:
  "(\<And>d. d \<in> set ds \<Longrightarrow> d < 128) \<Longrightarrow>
   ReadVarInt_loop (word_of_nat a) (map (\<lambda>d. word_of_nat d OR 0x80) ds @ reader)
     = ReadVarInt_loop (word_of_nat (value128 a ds)) reader"
proof (induction ds arbitrary: a)
  case Nil
  then show ?case by simp
next
  case (Cons d ds)
  have d: "d < 128" using Cons.prems by simp
  have "ReadVarInt_loop (word_of_nat a) ((word_of_nat d OR 0x80) # map (\<lambda>d. word_of_nat d OR 0x80) ds @ reader)
      = ReadVarInt_loop (word_of_nat (a * 128 + d)) (map (\<lambda>d. word_of_nat d OR 0x80) ds @ reader)"
    unfolding ReadVarInt_loop.simps Let_def varint_byte(2) [OF d] push_or [OF d]
    using varint_byte(4) [OF d] by (simp del: of_nat_add of_nat_mult)
  then show ?case using Cons by (simp only: list.map append_Cons value128_simps list.set_intros set_subset_Cons)
qed

lemma read_last:
  "d < 128 \<Longrightarrow> ReadVarInt_loop (word_of_nat a) (word_of_nat d # reader) = Ret (word_of_nat (a * 128 + d), reader)"
  unfolding ReadVarInt_loop.simps Let_def varint_byte(1) push_or by (simp add: varint_byte(3))

lemma sint_int64: "sint (word_of_nat n :: 64 word) = int64 (int n)"
proof -
  have "sint (word_of_nat n :: 64 word) = signed_take_bit 63 (int n)"
    by (simp add: signed_of_nat)
  then show ?thesis by (simp add: signed_take_bit_eq_take_bit_shift take_bit_eq_mod int64_def)
qed

text \<open>Reading back gives the value as an \<^verbatim>\<open>int\<close>: a value of \<open>2^63\<close> or more comes out negative.\<close>

lemma ReadVarInt_Write: "ReadVarInt (WriteVarInt n @ rest) = Ret (int64 (int n), rest)"
proof (cases "n = 0")
  case True
  then show ?thesis by (simp add: ReadVarInt_def WriteVarInt_def int64_def)
next
  case False
  have m: "n mod 128 < 128" by simp
  have "ReadVarInt_loop 0 (WriteVarInt n @ rest) = Ret (word_of_nat (n div 128 * 128 + n mod 128), rest)"
    using read_digits [of "digits128 (n div 128)" 0 "word_of_nat (n mod 128) # rest"]
      digits128_less read_last [OF m, of "n div 128" rest]
    by (simp add: WriteVarInt_digits [OF False] value_digits128 del: of_nat_add of_nat_mult)
  then show ?thesis by (simp add: ReadVarInt_def sint_int64)
qed

lemma ReadVarInt_Write_small: "n < 2 ^ 63 \<Longrightarrow> ReadVarInt (WriteVarInt n @ rest) = Ret (int n, rest)"
  by (simp add: ReadVarInt_Write int64_id in_int64_nat)

lemma ReadVarInt_loop_shorter: "ReadVarInt_loop a r = Ret (v, r') \<Longrightarrow> length r' < length r"
proof (induction a r rule: ReadVarInt_loop.induct)
  case (2 res b reader)
  then show ?case by (auto simp: Let_def split: if_splits)
qed simp

lemma ReadVarInt_shorter: "ReadVarInt r = Ret (v, r') \<Longrightarrow> length r' < length r"
  by (auto simp: ReadVarInt_def obind_Ret_iff dest: ReadVarInt_loop_shorter)

lemma WriteVarInt_ne [simp]: "WriteVarInt n \<noteq> []"
  by (cases "n = 0") (simp_all add: WriteVarInt_def Let_def)

lemma WriteVarInt_small: "n < 128 \<Longrightarrow> WriteVarInt n = [word_of_nat n]"
  by (cases "n = 0") (simp_all add: WriteVarInt_def varint_loop_digits digits128_pos)

lemma digits128_length: "n < 128 ^ k \<Longrightarrow> length (digits128 n) \<le> k"
proof (induction k arbitrary: n)
  case 0
  then show ?case by simp
next
  case (Suc k)
  then have "n div 128 < 128 ^ k" by (simp add: less_mult_imp_div_less mult.commute)
  then show ?case using Suc.IH [of "n div 128"] by (cases "n = 0") (simp_all add: digits128_pos)
qed

lemma WriteVarInt_length: "n < 2 ^ 63 \<Longrightarrow> length (WriteVarInt n) \<le> 10"
proof -
  assume "n < 2 ^ 63"
  then have "n div 128 < 128 ^ 9" by simp
  note len = digits128_length [OF this]
  show ?thesis
  proof (cases "n = 0")
    case True
    then show ?thesis by (simp add: WriteVarInt_def)
  next
    case False
    then show ?thesis using len by (simp add: WriteVarInt_digits [OF False])
  qed
qed

section \<open>Bounds round trip\<close>

lemma int64_mod_cong: "x mod 2 ^ 64 = y mod 2 ^ 64 \<Longrightarrow> int64 x = int64 y"
  by (metis int64_uint64 uint64_def)

lemma int64_eq_mod: "int64 x mod 2 ^ 64 = x mod 2 ^ 64"
  using uint64_int64 [of x] by (simp add: uint64_def)

lemma mod_inner: "(l + (a mod m - 1)) mod m = (l + (a - 1)) mod (m :: int)"
  using mod_add_right_eq [of "l - 1" a m] by (simp add: algebra_simps)

text \<open>The delta coding recovers a timestamp unless it is exactly one below the previous one.\<close>

lemma ReadTimestamp_Write:
  assumes ts: "in_int64 ts" and ok: "ts = maxTimestamp \<or> int64 (ts - lst) \<noteq> -1"
  shows "ReadTimestamp lst (fst (WriteTimestamp lst ts) @ rest) = Ret (ts, snd (WriteTimestamp lst ts), rest)"
proof (cases "ts = maxTimestamp")
  case True
  then show ?thesis
    using ReadVarInt_Write_small [of 0 rest]
    by (simp add: ReadTimestamp_def WriteTimestamp_def)
next
  case False
  define d where "d = int64 (ts - lst)"
  define n where "n = uint64 (uint64 d + 1)"
  have n0: "0 \<le> n" using uint64_range by (simp add: n_def)
  have nm: "n mod 2 ^ 64 = (d + 1) mod 2 ^ 64" by (simp add: n_def uint64_def mod_simps)
  have "d \<noteq> -1" "in_int64 d" using ok False by (simp_all add: d_def)
  have r: "ReadVarInt (WriteVarInt (nat n) @ rest) = Ret (int64 n, rest)"
    using ReadVarInt_Write [of "nat n" rest] n0 by simp
  have nz: "int64 n \<noteq> 0"
  proof
    assume "int64 n = 0"
    then have "(d + 1) mod 2 ^ 64 = 0" using nm int64_eq_mod [of n] by simp
    moreover have "0 < d + 1 \<and> d + 1 < 2 ^ 64 \<or> - (2 ^ 64) < d + 1 \<and> d + 1 < 0"
      using \<open>d \<noteq> -1\<close> \<open>in_int64 d\<close> by (auto simp: in_int64_def)
    ultimately show False
      using zdvd_imp_le [of "2 ^ 64" "d + 1"] zdvd_imp_le [of "2 ^ 64" "- (d + 1)"] by (auto simp: dvd_eq_mod_eq_0)
  qed
  have "int64 (lst + int64 (int64 n - 1)) = ts"
  proof -
    have "(lst + int64 (int64 n - 1)) mod 2 ^ 64 = (lst + (int64 n - 1)) mod 2 ^ 64"
      by (metis int64_eq_mod mod_add_right_eq)
    also have "\<dots> = (lst + (int64 n mod 2 ^ 64 - 1)) mod 2 ^ 64" by (rule mod_inner [symmetric])
    also have "\<dots> = (lst + ((d + 1) mod 2 ^ 64 - 1)) mod 2 ^ 64" using nm int64_eq_mod [of n] by simp
    also have "\<dots> = (lst + d) mod 2 ^ 64" by (simp only: mod_inner) simp
    also have "\<dots> = (lst + (ts - lst)) mod 2 ^ 64"
      unfolding d_def by (metis int64_eq_mod mod_add_right_eq)
    finally have m: "(lst + int64 (int64 n - 1)) mod 2 ^ 64 = (lst + (ts - lst)) mod 2 ^ 64" .
    have "int64 (lst + int64 (int64 n - 1)) = int64 (lst + (ts - lst))" by (rule int64_mod_cong [OF m])
    then show ?thesis using int64_id [OF ts] by simp
  qed
  then show ?thesis
    using False r nz by (simp add: ReadTimestamp_def WriteTimestamp_def d_def n_def Let_def)
qed

text \<open>A bound followed by at least one byte (its mode, on the wire) is read back.\<close>

definition bound_ok :: "int \<Rightarrow> Bound \<Rightarrow> bool" where
  "bound_ok lst b \<longleftrightarrow> in_int64 (b_Timestamp b) \<and> length (b_IDPrefix b) \<le> 32 \<and>
     (b_Timestamp b = maxTimestamp \<or> int64 (b_Timestamp b - lst) \<noteq> -1)"

lemma ReadBound_Write:
  assumes ok: "bound_ok lst b" and rest: "rest \<noteq> []"
  shows "ReadBound lst (fst (WriteBound lst b) @ rest) = Ret (b, snd (WriteBound lst b), rest)"
proof -
  let ?p = "b_IDPrefix b"
  obtain w l where wl: "WriteTimestamp lst (b_Timestamp b) = (w, l)" by (cases "WriteTimestamp lst (b_Timestamp b)")
  have t: "ReadTimestamp lst (w @ r) = Ret (b_Timestamp b, l, r)" for r
    using ReadTimestamp_Write [of "b_Timestamp b" lst r] ok wl by (simp add: bound_ok_def)
  have "ReadVarInt (WriteVarInt (length ?p) @ ?p @ rest) = Ret (int (length ?p), ?p @ rest)"
    using ok by (intro ReadVarInt_Write_small) (simp add: bound_ok_def)
  moreover have "reader_Read (length ?p) (?p @ rest) = Ret (?p, rest)" using rest by (simp add: reader_Read_def)
  ultimately show ?thesis by (simp add: ReadBound_def WriteBound_def wl t)
qed

lemma bound_ok_mono: "in_int64 (b_Timestamp b) \<Longrightarrow> length (b_IDPrefix b) \<le> 32 \<Longrightarrow> in_int64 lst \<Longrightarrow>
    lst \<le> b_Timestamp b \<Longrightarrow> 0 \<le> lst \<Longrightarrow> bound_ok lst b"
  by (auto simp: bound_ok_def in_int64_def int64_def)

section \<open>The minimal bound\<close>

text \<open>\<open>item_before i b\<close>: the item sorts before the bound; a shorter prefix sorts first.\<close>

definition item_before :: "Item \<Rightarrow> Bound \<Rightarrow> bool" where
  "item_before i b \<longleftrightarrow> it_Timestamp i < b_Timestamp b \<or>
     (it_Timestamp i = b_Timestamp b \<and> bytes_Compare (it_ID i) (b_IDPrefix b) = -1)"

definition item_less :: "Item \<Rightarrow> Item \<Rightarrow> bool" where
  "item_less a b \<longleftrightarrow> it_Timestamp a < it_Timestamp b \<or>
     (it_Timestamp a = it_Timestamp b \<and> bytes_Compare (it_ID a) (it_ID b) = -1)"

lemma item_less_trans: "item_less a b \<Longrightarrow> item_less b c \<Longrightarrow> item_less a c"
  unfolding item_less_def using bytes_Compare_less_trans [of "it_ID a" "it_ID b" "it_ID c"]
  by (auto simp: bytes_Compare_less_1)

lemma item_less_before: "item_less a b \<Longrightarrow> item_before b c \<Longrightarrow> item_before a c"
  unfolding item_less_def item_before_def
  using bytes_Compare_less_trans [of "it_ID a" "it_ID b" "b_IDPrefix c"] by (auto simp: bytes_Compare_less_1)

lemma compare_take: "bytes_Compare xs (take k xs) \<noteq> -1"
proof (induction xs arbitrary: k)
  case (Cons x xs)
  then show ?case by (cases k) auto
qed simp

lemma compare_shared:
  "length xs = length ys \<Longrightarrow> length xs \<le> n + 1 \<Longrightarrow> bytes_Compare ys xs = -1 \<Longrightarrow>
     bytes_Compare ys (take (shared_prefix n xs ys + 1) xs) = -1"
proof (induction n xs ys rule: shared_prefix.induct)
  case (1 xs ys)
  then show ?case by simp
next
  case (2 n x xs y ys)
  then show ?case by (auto split: if_splits)
qed auto

lemma minimal_bound_separates:
  assumes "item_less a b" "wf32 (it_ID a)" "wf32 (it_ID b)"
  shows "item_before a (getMinimalBound a b)" "\<not> item_before b (getMinimalBound a b)"
proof -
  show "item_before a (getMinimalBound a b)"
    using assms compare_shared [of "it_ID b" "it_ID a" 31]
    by (auto simp: item_less_def item_before_def getMinimalBound_def wf32_def)
  have "bytes_Compare xs [] \<noteq> -1" for xs :: bytes by (cases xs) auto
  then show "\<not> item_before b (getMinimalBound a b)"
    using compare_take by (auto simp: item_before_def getMinimalBound_def)
qed

lemma minimal_bound_prefix: "wf32 (it_ID b) \<Longrightarrow> length (b_IDPrefix (getMinimalBound a b)) \<le> 32"
  by (simp add: getMinimalBound_def wf32_def)

lemma minimal_bound_time [simp]: "b_Timestamp (getMinimalBound a b) = it_Timestamp b"
  by (simp add: getMinimalBound_def)

section \<open>The accumulator adds modulo \<open>2^256\<close>\<close>

lemma putLE_add: "putLE (m + n) v = putLE m v @ putLE n (v div 256 ^ m)"
  by (induction m arbitrary: v) (simp_all add: div_mult2_eq)

lemma putLE_mod: "putLE n (v mod 256 ^ n) = putLE n v"
  by (metis getLE_putLE length_putLE putLE_getLE)

lemma getLE_append: "getLE (a @ b) = getLE a + 256 ^ length a * getLE b"
  by (induction a) (simp_all add: algebra_simps)

text \<open>The test of the code misses the carry exactly when both limbs are all ones and a carry comes in.\<close>

definition limb_misses :: "32 word \<Rightarrow> 32 word \<Rightarrow> 32 word \<Rightarrow> bool" where
  "limb_misses a b c \<longleftrightarrow> a = -1 \<and> b = -1 \<and> c = 1"

lemma add_limb_correct:
  assumes c: "c = 0 \<or> c = 1" and ok: "\<not> limb_misses a b c" and r: "add_limb a b c = (s, c')"
  shows "unat s + 2 ^ 32 * unat c' = unat a + unat b + unat c" "c' = 0 \<or> c' = 1"
proof -
  have full: "(0xFFFFFFFF :: 32 word) = -1" by simp
  have s: "s = a + c + b" "c' = (if s < a \<or> s < b then 1 else 0)"
    using r by (auto simp: add_limb_def Let_def full)
  show "c' = 0 \<or> c' = 1" using s by auto
  have bd: "unat a < 2 ^ 32" "unat b < 2 ^ 32" using unsigned_less [of a] unsigned_less [of b] by auto
  have us: "unat s = (unat a + unat c + unat b) mod 2 ^ 32"
    unfolding s(1) by (simp add: unat_word_ariths mod_simps)
  have uc: "unat c = 0 \<or> unat c = 1" using c by auto
  have max: "unat a = 2 ^ 32 - 1 \<longleftrightarrow> a = -1" "unat b = 2 ^ 32 - 1 \<longleftrightarrow> b = -1"
    by (auto simp: unsigned_minus_1_eq_mask mask_eq_exp_minus_1 word_unat_eq_iff)
  show "unat s + 2 ^ 32 * unat c' = unat a + unat b + unat c"
  proof (cases "unat a + unat c + unat b < 2 ^ 32")
    case True
    then have "unat s = unat a + unat c + unat b" using us by simp
    then show ?thesis using s(2) by (simp add: word_less_nat_alt)
  next
    case False
    define T where "T = unat a + unat c + unat b"
    have T: "2 ^ 32 \<le> T" "T < 2 * 2 ^ 32" using False bd uc by (auto simp: T_def)
    have "T mod 2 ^ 32 = T - 2 ^ 32" using T by (simp only: le_mod_geq) simp
    then have m: "unat s + 2 ^ 32 = unat a + unat c + unat b"
      using us T unfolding T_def [symmetric] by linarith
    have "unat s < unat a \<or> unat s < unat b"
    proof (rule ccontr)
      assume "\<not> (unat s < unat a \<or> unat s < unat b)"
      then have "unat c = 1" "unat b = 2 ^ 32 - 1" "unat a = 2 ^ 32 - 1" using m bd uc by linarith+
      then show False using ok max c by (auto simp: limb_misses_def)
    qed
    then show ?thesis using m s(2) by (simp add: word_less_nat_alt)
  qed
qed

fun carry_lost :: "nat \<Rightarrow> 32 word \<Rightarrow> bytes \<Rightarrow> bytes \<Rightarrow> bool" where
  "carry_lost 0 c buf other = False"
| "carry_lost (Suc n) c buf other =
     (let a = word_of_nat (u32 buf 0); b = word_of_nat (u32 other 0)
      in limb_misses a b c \<or> carry_lost n (snd (add_limb a b c)) (drop 4 buf) (drop 4 other))"

lemma u32_word: "unat (word_of_nat (u32 bs off) :: 32 word) = u32 bs off"
proof -
  have "u32 bs off < 256 ^ length (take 4 (drop off bs))" unfolding u32_def by (rule getLE_bound)
  also have "\<dots> \<le> 256 ^ 4" by (rule power_increasing) simp_all
  finally show ?thesis by (simp add: unat_of_nat take_bit_nat_eq_self)
qed

lemma getLE_take_Suc:
  "4 * Suc n \<le> length bs \<Longrightarrow> getLE (take (4 * Suc n) bs) = u32 bs 0 + 2 ^ 32 * getLE (take (4 * n) (drop 4 bs))"
proof -
  assume "4 * Suc n \<le> length bs"
  moreover have "take (4 * Suc n) bs = take 4 bs @ take (4 * n) (drop 4 bs)"
    by (metis mult_Suc_right take_add)
  ultimately show ?thesis by (simp add: getLE_append u32_def)
qed

lemma add_limbs_correct:
  "c = 0 \<or> c = 1 \<Longrightarrow> 4 * n \<le> length buf \<Longrightarrow> 4 * n \<le> length other \<Longrightarrow> \<not> carry_lost n c buf other \<Longrightarrow>
     add_limbs n c buf other = putLE (4 * n) (unat c + getLE (take (4 * n) buf) + getLE (take (4 * n) other))"
proof (induction n c buf other rule: add_limbs.induct)
  case (1 c buf other)
  then show ?case by simp
next
  case (2 n c buf other)
  define a where "a = (word_of_nat (u32 buf 0) :: 32 word)"
  define b where "b = (word_of_nat (u32 other 0) :: 32 word)"
  obtain s c' where sc: "add_limb a b c = (s, c')" by (cases "add_limb a b c")
  have ok: "\<not> limb_misses a b c" "\<not> carry_lost n c' (drop 4 buf) (drop 4 other)"
    using "2.prems"(4) sc by (auto simp: Let_def a_def b_def)
  note l = add_limb_correct [OF "2.prems"(1) ok(1) sc]
  let ?B = "getLE (take (4 * n) (drop 4 buf))" and ?O = "getLE (take (4 * n) (drop 4 other))"
  have IH: "add_limbs n c' (drop 4 buf) (drop 4 other) = putLE (4 * n) (unat c' + ?B + ?O)"
    using "2.IH" [OF _ refl l(2)] "2.prems"(2,3) ok(2) sc by (auto simp: a_def b_def)
  have "unat c + getLE (take (4 * Suc n) buf) + getLE (take (4 * Suc n) other)
      = (unat a + unat b + unat c) + 2 ^ 32 * (?B + ?O)"
    unfolding getLE_take_Suc [OF "2.prems"(2)] getLE_take_Suc [OF "2.prems"(3)] a_def b_def u32_word
    by (simp add: algebra_simps)
  also have "\<dots> = unat s + 2 ^ 32 * (unat c' + ?B + ?O)" using l(1) by (simp add: algebra_simps)
  finally have v: "unat c + getLE (take (4 * Suc n) buf) + getLE (take (4 * Suc n) other)
      = unat s + 2 ^ 32 * (unat c' + ?B + ?O)" .
  have s: "unat s < 2 ^ 32" using unsigned_less [of s] by simp
  have "(unat s + 2 ^ 32 * K) div 256 ^ 4 = K" "(unat s + 2 ^ 32 * K) mod 256 ^ 4 = unat s" for K
    using s by simp_all
  then have "putLE (4 + 4 * n) (unat s + 2 ^ 32 * (unat c' + ?B + ?O))
      = putLE 4 (unat s) @ putLE (4 * n) (unat c' + ?B + ?O)"
    unfolding putLE_add by (metis putLE_mod)
  then show ?case using IH sc v by (simp add: Let_def a_def b_def)
qed

lemma AddBytes_correct:
  assumes "length acc = 32" "length other = 32" "\<not> carry_lost 8 0 acc other"
  shows "AddBytes acc other = putLE 32 (getLE acc + getLE other)"
  using add_limbs_correct [of 0 8 acc other] assms by (simp add: AddBytes_def)

lemma AddBytes_length [simp]: "length (AddBytes acc other) = 32"
proof -
  have "length (add_limbs n c buf o') = 4 * n" for n c buf o'
    by (induction n c buf o' rule: add_limbs.induct) (auto simp: Let_def split: prod.splits)
  then show ?thesis by (simp add: AddBytes_def)
qed

lemma carry_lost_zero: "\<not> carry_lost n c (replicate (4 * n) 0) other"
proof (induction n arbitrary: c other)
  case (Suc n)
  have "u32 (replicate (4 * Suc n) 0) 0 = 0" by (simp add: u32_def numeral_eq_Suc)
  moreover have "drop 4 (replicate (4 * Suc n) 0) = replicate (4 * n) (0 :: byte)" by simp
  ultimately show ?case using Suc by (simp add: Let_def limb_misses_def)
qed simp

lemma add_limbs_step:
  "length a = 4 \<Longrightarrow> length b = 4 \<Longrightarrow> add_limbs (Suc n) c (a @ buf) (b @ other) =
     (let (s, c') = add_limb (word_of_nat (getLE a)) (word_of_nat (getLE b)) c
      in putLE 4 (unat s) @ add_limbs n c' buf other)"
  by (simp add: u32_def)

section \<open>Properties\<close>

text \<open>a varint is read back as the written 64-bit value, as the signed integer the caller converts it to,
  and the reader stops right behind it.\<close>

theorem varint_roundtrip: "ReadVarInt (WriteVarInt n @ rest) = Ret (int64 (int n), rest)"
  by (rule ReadVarInt_Write)

text \<open>a bound written relative to the last timestamp is read back as the same bound with the same
  last timestamp, unless it lies exactly one second below the last one.\<close>

theorem bound_roundtrip:
  assumes "in_int64 (b_Timestamp b)" "length (b_IDPrefix b) \<le> 32"
    "b_Timestamp b = maxTimestamp \<or> int64 (b_Timestamp b - lst) \<noteq> -1" "rest \<noteq> []"
  shows "ReadBound lst (fst (WriteBound lst b) @ rest) = Ret (b, snd (WriteBound lst b), rest)"
  by (rule ReadBound_Write) (use assms in \<open>simp_all add: bound_ok_def\<close>)

theorem bound_roundtrip_witness:
  "ReadBound 100 (fst (WriteBound 100 \<lparr>b_Timestamp = 250, b_IDPrefix = [1, 2]\<rparr>) @ [0])
     = Ret (\<lparr>b_Timestamp = 250, b_IDPrefix = [1, 2]\<rparr>, 250, [0])"
  using bound_roundtrip [of "\<lparr>b_Timestamp = 250, b_IDPrefix = [1, 2]\<rparr>" 100 "[0]"]
  by (simp add: in_int64_def MaxInt64_def int64_def WriteBound_def WriteTimestamp_def Let_def maxTimestamp_def split: prod.splits)

text \<open>the bound chosen between two neighbouring items separates them.\<close>

theorem minimal_bound_between:
  assumes "item_less a b" "wf32 (it_ID a)" "wf32 (it_ID b)"
  shows "item_before a (getMinimalBound a b) \<and> \<not> item_before b (getMinimalBound a b)"
  using minimal_bound_separates [OF assms] by blast

theorem minimal_bound_between_witness:
  "let a = \<lparr>it_Timestamp = 5, it_ID = replicate 32 1\<rparr>; b = \<lparr>it_Timestamp = 5, it_ID = replicate 32 2\<rparr>
   in item_before a (getMinimalBound a b) \<and> \<not> item_before b (getMinimalBound a b)"
  unfolding Let_def
  by (rule minimal_bound_between) (simp_all add: item_less_def wf32_def numeral_eq_Suc)

text \<open>the accumulator adds ids modulo 2 to the 256, except when a carry meets two full 32-bit limbs; then the
  carry is lost and the sum is wrong.\<close>

theorem accumulator_adds:
  assumes "length acc = 32" "length other = 32" "\<not> carry_lost 8 0 acc other"
  shows "AddBytes acc other = putLE 32 (getLE acc + getLE other)"
  by (rule AddBytes_correct) (rule assms)+

theorem accumulator_adds_witness:
  "AddBytes (replicate 32 0) (replicate 32 255) = putLE 32 (getLE (replicate 32 0) + getLE (replicate 32 255))"
  by (rule accumulator_adds) (use carry_lost_zero [of 8 0] in simp_all)

text \<open>such a lost carry happens: the sum of the two ids that are 255 in their first eight bytes and 0 in the
  others has a 0 where the 65th bit of the true sum belongs.\<close>

theorem accumulator_carry_lost:
  "AddBytes (replicate 8 255 @ replicate 24 0) (replicate 8 255 @ replicate 24 0)
     \<noteq> putLE 32 (getLE (replicate 8 255 @ replicate 24 0) + getLE (replicate 8 255 @ replicate 24 0))"
proof -
  let ?F = "[255, 255, 255, 255] :: bytes" and ?z = "replicate 24 0 :: bytes"
  have l: "replicate 8 255 @ ?z = ?F @ ?F @ [0, 0, 0, 0] @ replicate 20 0" by (simp add: numeral_eq_Suc)
  have F: "getLE ?F = 4294967295" by simp
  have c1: "add_limb (word_of_nat (getLE ?F)) (word_of_nat (getLE ?F)) 0 = (4294967294, 1)"
    and c2: "add_limb (word_of_nat (getLE ?F)) (word_of_nat (getLE ?F)) 1 = (4294967295, 0)"
    and c3: "add_limb (word_of_nat (getLE [0, 0, 0, 0])) (word_of_nat (getLE [0, 0, 0, 0])) 0 = (0, 0)"
    unfolding F by (simp_all add: add_limb_def Let_def)
  let ?Z = "[0, 0, 0, 0] :: bytes" and ?r = "replicate 20 0 :: bytes"
  have len: "length ?F = 4" "length ?Z = 4" by simp_all
  have "AddBytes (replicate 8 255 @ ?z) (replicate 8 255 @ ?z) =
      add_limbs (Suc (Suc (Suc 5))) 0 (?F @ ?F @ ?Z @ ?r) (?F @ ?F @ ?Z @ ?r)"
    unfolding l AddBytes_def by (rule arg_cong [where f = "\<lambda>n. add_limbs n _ _ _"]) simp
  also have "\<dots> = putLE 4 (unat (4294967294 :: 32 word)) @ putLE 4 (unat (4294967295 :: 32 word)) @
      putLE 4 (unat (0 :: 32 word)) @ add_limbs 5 0 ?r ?r"
    unfolding add_limbs_step [OF len(1) len(1)] add_limbs_step [OF len(2) len(2)] c1 c2 c3 Let_def prod.case ..
  finally have sum: "AddBytes (replicate 8 255 @ ?z) (replicate 8 255 @ ?z) =
      (putLE 4 (unat (4294967294 :: 32 word)) @ putLE 4 (unat (4294967295 :: 32 word))) @
      putLE 4 (unat (0 :: 32 word)) @ add_limbs 5 0 ?r ?r" by simp
  have "AddBytes (replicate 8 255 @ ?z) (replicate 8 255 @ ?z) ! 8 = 0"
  proof -
    have zero: "putLE n 0 = replicate n 0" for n by (induction n) simp_all
    have "length (putLE 4 (unat (4294967294 :: 32 word)) @ putLE 4 (unat (4294967295 :: 32 word))) = 8"
      by (simp del: unsigned_numeral)
    then show ?thesis unfolding sum nth_append by (simp add: zero nth_append del: unsigned_numeral)
  qed
  moreover have "putLE 32 (getLE (replicate 8 255 @ ?z) + getLE (replicate 8 255 @ ?z)) ! 8 = 1"
  proof -
    have z: "getLE (replicate n 0) = 0" for n by (induction n) simp_all
    have v: "getLE (replicate 8 255 @ ?z) = 2 ^ 64 - 1" unfolding l using z [of 20] by simp
    have p: "putLE (Suc n) w ! Suc k = putLE n (w div 256) ! k" for n w k by simp
    have 32: "(32 :: nat) = Suc (Suc (Suc (Suc (Suc (Suc (Suc (Suc (Suc 23))))))))" by simp
    have 8: "(8 :: nat) = Suc (Suc (Suc (Suc (Suc (Suc (Suc (Suc 0)))))))" by simp
    have h: "putLE (Suc n) w ! 0 = word_of_nat w" for n w by simp
    show ?thesis unfolding v unfolding 32 8 p h by simp
  qed
  ultimately show ?thesis by (metis zero_neq_one)
qed

end
