(* ===== verification/NegStorage.thy ===== *)
theory NegStorage
  imports NegEncoding
begin

text \<open>
  The storage side of set reconciliation: the interface \<^verbatim>\<open>negentropy.Storage\<close> as a record of
  operations, the contract the protocol relies on (locale \<open>neg_storage\<close>), and the two
  implementations \<^verbatim>\<open>storage/vector\<close> and \<^verbatim>\<open>storage/empty\<close>, which are shown to meet it.
  \<^verbatim>\<open>Range\<close> and \<^verbatim>\<open>FindLowerBound\<close> index the slice; the protocol calls them with bounds in
  range only, and the contract speaks of such calls.
\<close>

record nstorage =
  st_Size :: nat
  st_Range :: "nat \<Rightarrow> nat \<Rightarrow> (nat \<times> Item) list"
  st_FindLowerBound :: "nat \<Rightarrow> nat \<Rightarrow> Bound \<Rightarrow> nat"
  st_GetBound :: "nat \<Rightarrow> Bound"
  st_Fingerprint :: "nat \<Rightarrow> nat \<Rightarrow> bytes"

section \<open>The contract\<close>

text \<open>The items between two indices.\<close>

definition between :: "'a list \<Rightarrow> nat \<Rightarrow> nat \<Rightarrow> 'a list" where
  "between xs b e = take (e - b) (drop b xs)"

definition item_ok :: "Item \<Rightarrow> bool" where
  "item_ok i \<longleftrightarrow> wf32 (it_ID i) \<and> 0 \<le> it_Timestamp i \<and> it_Timestamp i < maxTimestamp"

locale neg_storage =
  fixes st :: nstorage and items :: "Item list" and fp :: "ID list \<Rightarrow> bytes"
  assumes size: "st_Size st = length items"
    and range: "b \<le> e \<Longrightarrow> e \<le> length items \<Longrightarrow> st_Range st b e = zip [b..<e] (between items b e)"
    and lower: "b \<le> e \<Longrightarrow> e \<le> length items \<Longrightarrow>
      b \<le> st_FindLowerBound st b e v \<and> st_FindLowerBound st b e v \<le> e \<and>
      (\<forall>i. b \<le> i \<and> i < st_FindLowerBound st b e v \<longrightarrow> item_before (items ! i) v) \<and>
      (\<forall>i. st_FindLowerBound st b e v \<le> i \<and> i < e \<longrightarrow> \<not> item_before (items ! i) v)"
    and fingerprint: "b \<le> e \<Longrightarrow> e \<le> length items \<Longrightarrow>
      st_Fingerprint st b e = fp (map it_ID (between items b e))"
    and sorted: "sorted_wrt item_less items"
    and items_ok: "list_all item_ok items"
begin

lemma nth_less: "i < j \<Longrightarrow> j < length items \<Longrightarrow> item_less (items ! i) (items ! j)"
  using sorted sorted_wrt_nth_less by blast

lemma nth_ok: "i < length items \<Longrightarrow> item_ok (items ! i)"
  using items_ok by (simp add: list_all_length)

text \<open>The lower bound of the whole rest is the number of items before the bound.\<close>

lemma lower_all:
  assumes "b \<le> length items" "\<And>i. i < b \<Longrightarrow> item_before (items ! i) v"
  shows "st_FindLowerBound st b (length items) v = length (filter (\<lambda>i. item_before i v) items)"
proof -
  let ?k = "st_FindLowerBound st b (length items) v"
  have k: "b \<le> ?k" "?k \<le> length items" "\<forall>i. b \<le> i \<and> i < ?k \<longrightarrow> item_before (items ! i) v"
    "\<forall>i. ?k \<le> i \<and> i < length items \<longrightarrow> \<not> item_before (items ! i) v"
    using lower [OF assms(1) order_refl, of v] by auto
  have t: "\<forall>x \<in> set (take ?k items). item_before x v"
    using k assms by (auto simp: in_set_conv_nth) (metis not_le)
  have d: "\<forall>x \<in> set (drop ?k items). \<not> item_before x v"
    using k by (auto simp: in_set_conv_nth)
  have "filter (\<lambda>i. item_before i v) (take ?k items @ drop ?k items) = take ?k items"
    unfolding filter_append using t d by (simp add: filter_empty_conv)
  then show ?thesis using k(2) by simp
qed

text \<open>The minimal bound of two neighbours is found between them.\<close>

lemma lower_minimal:
  assumes "b \<le> i" "0 < i" "i < length items"
  shows "st_FindLowerBound st b (length items) (getMinimalBound (items ! (i - 1)) (items ! i)) = i"
proof -
  let ?v = "getMinimalBound (items ! (i - 1)) (items ! i)"
  let ?k = "st_FindLowerBound st b (length items) ?v"
  have less: "item_less (items ! (i - 1)) (items ! i)" using nth_less [of "i - 1" i] assms by simp
  have ok: "wf32 (it_ID (items ! (i - 1)))" "wf32 (it_ID (items ! i))"
    using nth_ok assms by (auto simp: item_ok_def)
  note sep = minimal_bound_separates [OF less ok]
  have b: "b \<le> length items" using assms by simp
  note k = lower [OF b order_refl, of ?v]
  have "i \<le> ?k"
  proof (rule ccontr)
    assume "\<not> i \<le> ?k"
    then have "?k \<le> i - 1" "i - 1 < length items" using assms by auto
    then show False using k sep(1) by blast
  qed
  moreover have "?k \<le> i"
  proof (rule ccontr)
    assume "\<not> ?k \<le> i"
    then show False using k sep(2) assms by (metis not_le)
  qed
  ultimately show ?thesis by simp
qed

lemma lower_infinite: "b \<le> length items \<Longrightarrow> st_FindLowerBound st b (length items) InfiniteBound = length items"
proof (rule ccontr)
  let ?k = "st_FindLowerBound st b (length items) InfiniteBound"
  assume b: "b \<le> length items" and "?k \<noteq> length items"
  note k = lower [OF b order_refl, of InfiniteBound]
  then have "?k < length items" using \<open>?k \<noteq> length items\<close> by auto
  then have "\<not> item_before (items ! ?k) InfiniteBound" "item_ok (items ! ?k)" using k nth_ok by auto
  then show False by (simp add: item_before_def InfiniteBound_def item_ok_def)
qed

lemma range_items: "b \<le> e \<Longrightarrow> e \<le> length items \<Longrightarrow> map snd (st_Range st b e) = between items b e"
  by (simp add: range between_def)

end

section \<open>The vector\<close>

record Vector =
  v_items :: "Item list"
  v_sealed :: bool

definition itemCompare :: "Item \<Rightarrow> Item \<Rightarrow> int" where
  "itemCompare a b =
     (if it_Timestamp a = it_Timestamp b then bytes_Compare (it_ID a) (it_ID b)
      else cmp_Compare (it_Timestamp a) (it_Timestamp b))"

definition searchItemWithBound :: "Item list \<Rightarrow> Bound \<Rightarrow> nat" where
  "searchItemWithBound items bound =
     bsearch (\<lambda>h. it_Timestamp (items ! h) < b_Timestamp bound \<or>
        (it_Timestamp (items ! h) = b_Timestamp bound \<and>
         bytes_Compare (it_ID (items ! h)) (b_IDPrefix bound) = -1)) 0 (length items)"

definition vector_New :: Vector where
  "vector_New = \<lparr>v_items = [], v_sealed = False\<rparr>"

definition vector_Insert :: "int \<Rightarrow> ID \<Rightarrow> Vector \<Rightarrow> Vector" where
  "vector_Insert createdAt i v = v\<lparr>v_items := v_items v @ [\<lparr>it_Timestamp = createdAt, it_ID = i\<rparr>]\<rparr>"

definition vector_Seal :: "Vector \<Rightarrow> (neg_error, Vector) outcome" where
  "vector_Seal v =
     (if v_sealed v then Panic
      else Ret (v\<lparr>v_sealed := True, v_items := slices_SortFunc itemCompare (v_items v)\<rparr>))"

definition vector_GetBound :: "Vector \<Rightarrow> nat \<Rightarrow> Bound" where
  "vector_GetBound v idx =
     (if idx < length (v_items v)
      then \<lparr>b_Timestamp = it_Timestamp (v_items v ! idx), b_IDPrefix = it_ID (v_items v ! idx)\<rparr>
      else InfiniteBound)"

definition vector_Range :: "Vector \<Rightarrow> nat \<Rightarrow> nat \<Rightarrow> (nat \<times> Item) list" where
  "vector_Range v lo hi = map (\<lambda>i. (i, v_items v ! i)) [lo..<hi]"

definition vector_FindLowerBound :: "Vector \<Rightarrow> nat \<Rightarrow> nat \<Rightarrow> Bound \<Rightarrow> nat" where
  "vector_FindLowerBound v lo hi bound =
     lo + searchItemWithBound (between (v_items v) lo hi) bound"

definition vector_Fingerprint :: "ext \<Rightarrow> Vector \<Rightarrow> nat \<Rightarrow> nat \<Rightarrow> bytes" where
  "vector_Fingerprint x v lo hi =
     GetFingerprint x
       (fold (\<lambda>(_, item) acc. AddBytes acc (it_ID item)) (vector_Range v lo hi) (replicate 32 0))
       (int hi - int lo)"

definition vector_storage :: "ext \<Rightarrow> Vector \<Rightarrow> nstorage" where
  "vector_storage x v = \<lparr>st_Size = length (v_items v), st_Range = vector_Range v,
     st_FindLowerBound = vector_FindLowerBound v, st_GetBound = vector_GetBound v,
     st_Fingerprint = vector_Fingerprint x v\<rparr>"

definition empty_storage :: "ext \<Rightarrow> nstorage" where
  "empty_storage x = \<lparr>st_Size = 0, st_Range = (\<lambda>_ _. []), st_FindLowerBound = (\<lambda>lo _ _. lo),
     st_GetBound = (\<lambda>_. InfiniteBound),
     st_Fingerprint = (\<lambda>lo hi. GetFingerprint x (replicate 32 0) (int hi - int lo))\<rparr>"

section \<open>The implementations meet the contract\<close>

text \<open>The fingerprint both implementations compute: the hash of the sum of the ids and their number.\<close>

definition ids_fingerprint :: "ext \<Rightarrow> ID list \<Rightarrow> bytes" where
  "ids_fingerprint x ids =
     GetFingerprint x (fold (\<lambda>i acc. AddBytes acc i) ids (replicate 32 0)) (int (length ids))"

interpretation item_cmp: go_total itemCompare
proof
  show "itemCompare b a = - itemCompare a b" for a b
    by (auto simp: itemCompare_def cmp_Compare_def intro: bytes_Compare_anti)
  show "itemCompare a c \<le> 0" if "itemCompare a b \<le> 0" "itemCompare b c \<le> 0" for a b c
    using that bytes_cmp.cmp_trans [of "it_ID a" "it_ID b" "it_ID c"]
    by (auto simp: itemCompare_def cmp_Compare_def split: if_splits)
  show "a = b" if "itemCompare a b = 0" for a b
    using that by (auto simp: itemCompare_def cmp_Compare_def split: if_splits)
qed

lemma itemCompare_less: "itemCompare a b < 0 \<longleftrightarrow> item_less a b"
  by (auto simp: itemCompare_def item_less_def cmp_Compare_def bytes_Compare_less_1)

text \<open>Sealing a vector of distinct items gives the one strictly increasing arrangement of them.\<close>

lemma sealed_sorted:
  assumes "vector_Seal v = Ret w" "distinct (v_items v)"
  shows "sorted_wrt item_less (v_items w)" "set (v_items w) = set (v_items v)"
proof -
  have w: "v_items w = slices_SortFunc itemCompare (v_items v)"
    using assms by (auto simp: vector_Seal_def split: if_splits)
  show "set (v_items w) = set (v_items v)" by (simp add: w)
  have "distinct (v_items w)"
    using assms(2) w mset_SortFunc [of itemCompare "v_items v"] mset_eq_imp_distinct_iff by metis
  moreover have "sorted_wrt (\<lambda>a b. itemCompare a b \<le> 0) (v_items w)"
    unfolding w by (rule item_cmp.sorted_SortFunc)
  ultimately have "sorted_wrt (\<lambda>a b. itemCompare a b < 0) (v_items w)"
    using item_cmp.cmp_0 unfolding sorted_wrt_iff_nth_less
    by (metis distinct_conv_nth less_le nat_neq_iff order.strict_trans)
  then show "sorted_wrt item_less (v_items w)" by (simp add: itemCompare_less)
qed

lemma sealed_order_irrelevant:
  assumes "vector_Seal v = Ret w" "vector_Seal v' = Ret w'" "mset (v_items v) = mset (v_items v')"
  shows "v_items w = v_items w'"
  using assms item_cmp.sort_unique [of "slices_SortFunc itemCompare (v_items v)" "v_items v'"]
    item_cmp.sorted_SortFunc [of "v_items v"]
  by (auto simp: vector_Seal_def split: if_splits)

lemma map_nth_between: "e \<le> length xs \<Longrightarrow> map (\<lambda>i. (i, xs ! i)) [b..<e] = zip [b..<e] (between xs b e)"
  by (rule nth_equalityI) (auto simp: between_def)

lemma length_between [simp]: "length (between xs b e) = min (length xs - b) (e - b)"
  by (simp add: between_def)

lemma vector_neg_storage:
  assumes srt: "sorted_wrt item_less (v_items v)" and ok: "list_all item_ok (v_items v)"
  shows "neg_storage (vector_storage x v) (v_items v) (ids_fingerprint x)"
proof
  fix b e :: nat and bd :: Bound
  assume be: "b \<le> e" "e \<le> length (v_items v)"
  let ?xs = "between (v_items v) b e"
  let ?p = "\<lambda>h. item_before (?xs ! h) bd"
  define k where "k = bsearch ?p 0 (length ?xs)"
  have mono: "?p a" if "a < c" "c < length ?xs" "?p c" for a c
  proof -
    have "item_less (?xs ! a) (?xs ! c)"
      using that be sorted_wrt_nth_less [OF srt, of "b + a" "b + c"] by (simp add: between_def)
    then show ?thesis using that(3) by (rule item_less_before)
  qed
  have f: "st_FindLowerBound (vector_storage x v) b e bd = b + k"
    by (simp add: vector_storage_def vector_FindLowerBound_def searchItemWithBound_def k_def item_before_def)
  have kb: "k \<le> length ?xs" using bsearch_bounds [of 0 "length ?xs" ?p] by (simp add: k_def)
  have kc: "(\<forall>h. 0 \<le> h \<and> h < k \<longrightarrow> ?p h) \<and> (\<forall>h. k \<le> h \<and> h < length ?xs \<longrightarrow> \<not> ?p h)"
    unfolding k_def by (rule bsearch_correct) (use mono in auto)
  have nth: "v_items v ! i = ?xs ! (i - b)" if "b \<le> i" "i < e" for i
    using that be by (simp add: between_def)
  show "b \<le> st_FindLowerBound (vector_storage x v) b e bd \<and> st_FindLowerBound (vector_storage x v) b e bd \<le> e \<and>
    (\<forall>i. b \<le> i \<and> i < st_FindLowerBound (vector_storage x v) b e bd \<longrightarrow> item_before (v_items v ! i) bd) \<and>
    (\<forall>i. st_FindLowerBound (vector_storage x v) b e bd \<le> i \<and> i < e \<longrightarrow> \<not> item_before (v_items v ! i) bd)"
    unfolding f
  proof (intro conjI allI impI)
    show "item_before (v_items v ! i) bd" if "b \<le> i \<and> i < b + k" for i
    proof -
      have "i - b < k" "i < e" using that kb be by auto
      then show ?thesis using kc nth [of i] that by simp
    qed
    show "\<not> item_before (v_items v ! i) bd" if "b + k \<le> i \<and> i < e" for i
    proof -
      have "k \<le> i - b" "i - b < length ?xs" using that be by auto
      then show ?thesis using kc nth [of i] that by auto
    qed
  qed (use kb be in auto)
  show "st_Range (vector_storage x v) b e = zip [b..<e] (between (v_items v) b e)"
    using be by (simp add: vector_storage_def vector_Range_def map_nth_between)
  have "fold (\<lambda>(_, item) acc. AddBytes acc (it_ID item)) (zip [b..<e] ?xs) a = fold (\<lambda>i acc. AddBytes acc i) (map it_ID ?xs) a" for a
  proof -
    have "fold (\<lambda>(_, item) acc. AddBytes acc (it_ID item)) ps a = fold (\<lambda>i acc. AddBytes acc i) (map it_ID (map snd ps)) a"
      for ps :: "(nat \<times> Item) list" by (induction ps arbitrary: a) auto
    moreover have "map snd (zip [b..<e] ?xs) = ?xs" using be by simp
    ultimately show ?thesis by metis
  qed
  then show "st_Fingerprint (vector_storage x v) b e = ids_fingerprint x (map it_ID (between (v_items v) b e))"
    using be by (simp add: vector_storage_def vector_Fingerprint_def vector_Range_def map_nth_between
        ids_fingerprint_def of_nat_diff)
qed (use srt ok in \<open>simp_all add: vector_storage_def\<close>)

interpretation empty: neg_storage "empty_storage x" "[]" "ids_fingerprint x"
  by unfold_locales (auto simp: empty_storage_def ids_fingerprint_def between_def)

text \<open>A vector as a caller builds it: valid items inserted one by one, each once, then sealed.\<close>

definition loaded_vector :: "Item list \<Rightarrow> Vector" where
  "loaded_vector its =
     (case vector_Seal (fold (\<lambda>i. vector_Insert (it_Timestamp i) (it_ID i)) (remdups (filter item_ok its)) vector_New) of
        Ret v \<Rightarrow> v | _ \<Rightarrow> vector_New)"

lemma inserted_items:
  "v_items (fold (\<lambda>i. vector_Insert (it_Timestamp i) (it_ID i)) its v) = v_items v @ its"
  "v_sealed (fold (\<lambda>i. vector_Insert (it_Timestamp i) (it_ID i)) its v) = v_sealed v"
  by (induction its arbitrary: v) (simp_all add: vector_Insert_def)

lemma loaded_vector_sealed:
  "vector_Seal (fold (\<lambda>i. vector_Insert (it_Timestamp i) (it_ID i)) (remdups (filter item_ok its)) vector_New)
     = Ret (loaded_vector its)"
  by (simp add: loaded_vector_def vector_Seal_def inserted_items vector_New_def)

lemma loaded_vector_items:
  "sorted_wrt item_less (v_items (loaded_vector its))" "set (v_items (loaded_vector its)) = {i \<in> set its. item_ok i}"
  using sealed_sorted [OF loaded_vector_sealed [of its]] by (auto simp: inserted_items vector_New_def)

interpretation vector: neg_storage "vector_storage x (loaded_vector its)" "v_items (loaded_vector its)" "ids_fingerprint x"
  by (rule vector_neg_storage) (use loaded_vector_items [of its] in \<open>auto simp: list_all_iff\<close>)

section \<open>Properties\<close>

text \<open>the order in which events are inserted into a vector does not matter: once sealed, vectors with the
  same items are the same, so both sides number the items alike.\<close>

theorem sealed_vector_canonical:
  assumes "vector_Seal v = Ret w" "vector_Seal v' = Ret w'" "mset (v_items v) = mset (v_items v')"
  shows "w = w'"
proof -
  have "v_sealed w" "v_sealed w'" using assms(1,2) by (auto simp: vector_Seal_def split: if_splits)
  then show ?thesis using sealed_order_irrelevant [OF assms] by simp
qed

theorem sealed_vector_canonical_witness:
  "vector_Seal (vector_Insert 2 [7] (vector_Insert 1 [9] vector_New)) =
   vector_Seal (vector_Insert 1 [9] (vector_Insert 2 [7] vector_New))"
proof -
  obtain w w' where w: "vector_Seal (vector_Insert 2 [7] (vector_Insert 1 [9] vector_New)) = Ret w"
    "vector_Seal (vector_Insert 1 [9] (vector_Insert 2 [7] vector_New)) = Ret w'"
    by (auto simp: vector_Seal_def vector_Insert_def vector_New_def)
  then show ?thesis
    using sealed_vector_canonical [OF w] by (simp add: vector_Insert_def vector_New_def add_mset_commute)
qed

text \<open>C32: a sealed vector of valid distinct items, as the code uses it, meets the contract of a negentropy
  storage: ranges, lower bounds and fingerprints speak of its sorted items.\<close>

theorem vector_refines_storage:
  assumes "vector_Seal v = Ret w" "distinct (v_items v)" "list_all item_ok (v_items v)"
  shows "neg_storage (vector_storage x w) (v_items w) (ids_fingerprint x) \<and> set (v_items w) = set (v_items v)"
  using sealed_sorted [OF assms(1,2)] assms(3) vector_neg_storage [of w x] by (simp add: list_all_iff)

theorem vector_refines_storage_witness:
  "\<exists>w. vector_Seal (vector_Insert 2 (replicate 32 7) (vector_Insert 1 (replicate 32 9) vector_New)) = Ret w \<and>
     neg_storage (vector_storage std_ext w) (v_items w) (ids_fingerprint std_ext)"
proof -
  obtain w where w: "vector_Seal (vector_Insert 2 (replicate 32 7) (vector_Insert 1 (replicate 32 9) vector_New)) = Ret w"
    by (auto simp: vector_Seal_def vector_Insert_def vector_New_def)
  then show ?thesis
    using vector_refines_storage [OF w, of std_ext]
    by (auto simp: vector_Insert_def vector_New_def item_ok_def wf32_def maxTimestamp_def MaxInt64_def)
qed

end
