(* ===== verification/Negentropy.thy ===== *)
theory Negentropy
  imports NegStorage
begin

text \<open>
  \<^verbatim>\<open>nip77/negentropy/negentropy.go\<close>: the reconciliation protocol over a storage.  The two
  channels are the lists of ids sent on them; \<^verbatim>\<open>theirItems\<close>, a Go map, is the list of its keys in
  order of insertion (the order in which Go would deliver the ids is unspecified, and the properties
  speak of the set).  An error result drops what was sent before it.

  The message loop is a recursive function; it terminates because every round consumes a byte.  The last
  sections show one exchange in full: a client with fewer than 32 items learns exactly
  the difference of the two sets, and two equal sets are recognised in one round trip.
\<close>

datatype mode = SkipMode | FingerprintMode | IdListMode | UnknownMode byte

definition Mode :: "int \<Rightarrow> mode" where
  "Mode v =
     (let b = word_of_int v :: byte in
      if b = 0 then SkipMode else if b = 1 then FingerprintMode else if b = 2 then IdListMode
      else UnknownMode b)"

definition ProtocolVersion :: byte where
  "ProtocolVersion = 0x61"

definition buckets :: nat where
  "buckets = 16"

record Negentropy =
  ng_storage :: nstorage
  ng_initialized :: bool
  ng_frameSizeLimit :: int
  ng_isClient :: bool
  ng_lastIn :: int
  ng_lastOut :: int
  ng_wantHaves :: bool     \<comment> \<open>\<^verbatim>\<open>n.Haves != nil\<close>\<close>
  ng_wantHaveNots :: bool
  ng_Haves :: "ID list"
  ng_HaveNots :: "ID list"
  ng_closed :: bool

definition New :: "nstorage \<Rightarrow> int \<Rightarrow> bool \<Rightarrow> bool \<Rightarrow> (neg_error, Negentropy) outcome" where
  "New storage frameSizeLimit up down =
     (let mk = (\<lambda>l. \<lparr>ng_storage = storage, ng_initialized = False, ng_frameSizeLimit = l, ng_isClient = False,
         ng_lastIn = 0, ng_lastOut = 0, ng_wantHaves = up, ng_wantHaveNots = down, ng_Haves = [],
         ng_HaveNots = [], ng_closed = False\<rparr>)
      in if frameSizeLimit = 0 then Ret (mk MaxInt64)
         else if frameSizeLimit < 4096 then Panic else Ret (mk frameSizeLimit))"

section \<open>Splitting a range\<close>

definition zero_item :: Item where
  "zero_item = \<lparr>it_Timestamp = 0, it_ID = replicate 32 0\<rparr>"

text \<open>The two items around an index, picked out of the range by a loop.\<close>

definition border_items :: "nstorage \<Rightarrow> nat \<Rightarrow> Item \<times> Item" where
  "border_items st i =
     fold (\<lambda>(index, item) (p, c). if index = i - 1 then (item, c) else (p, item))
       (st_Range st (i - 1) (i + 1)) (zero_item, zero_item)"

fun split_buckets :: "nstorage \<Rightarrow> nat \<Rightarrow> Bound \<Rightarrow> nat \<Rightarrow> nat \<Rightarrow> nat \<Rightarrow> nat \<Rightarrow> nat \<Rightarrow> int \<Rightarrow> bytes \<times> int" where
  "split_buckets st upper upperBound perBucket extra i 0 cur lastOut = ([], lastOut)"
| "split_buckets st upper upperBound perBucket extra i (Suc left) cur lastOut =
     (let bucketSize = (if i < extra then perBucket + 1 else perBucket);
          ourFingerprint = st_Fingerprint st cur (cur + bucketSize);
          cur = cur + bucketSize;
          nextBound = (if cur = upper then upperBound
            else let (prevItem, curItem) = border_items st cur in getMinimalBound prevItem curItem);
          (w, lastOut) = WriteBound lastOut nextBound;
          (rest, lastOut) = split_buckets st upper upperBound perBucket extra (i + 1) left cur lastOut
      in (w @ [1] @ ourFingerprint @ rest, lastOut))"

definition SplitRange :: "nstorage \<Rightarrow> nat \<Rightarrow> nat \<Rightarrow> Bound \<Rightarrow> int \<Rightarrow> bytes \<times> int" where
  "SplitRange st lower upper upperBound lastOut =
     (let numElems = upper - lower in
      if numElems < buckets * 2 then
        (let (w, lastOut) = WriteBound lastOut upperBound
         in (w @ [2] @ WriteVarInt numElems @ concat (map (\<lambda>(_, item). it_ID item) (st_Range st lower upper)), lastOut))
      else split_buckets st upper upperBound (numElems div buckets) (numElems mod buckets) 0 buckets lower lastOut)"

definition Start :: "ext \<Rightarrow> Negentropy \<Rightarrow> string \<times> Negentropy" where
  "Start x n =
     (let n = n\<lparr>ng_initialized := True, ng_isClient := True\<rparr>;
          (w, lastOut) = SplitRange (ng_storage n) 0 (st_Size (ng_storage n)) InfiniteBound (ng_lastOut n)
      in (HexEncodeToString x (ProtocolVersion # w), n\<lparr>ng_lastOut := lastOut\<rparr>))"

section \<open>Reconciling\<close>

text \<open>The state of the message loop.\<close>

record rstate =
  r_reader :: bytes
  r_full :: bytes
  r_prevBound :: Bound
  r_prevIndex :: nat
  r_skipping :: bool
  r_neg :: Negentropy

text \<open>\<^verbatim>\<open>finishSkip\<close> ends a run of skipped ranges; it returns what it appends.\<close>

definition finishSkip :: "bool \<Rightarrow> Bound \<Rightarrow> int \<Rightarrow> bytes \<times> int" where
  "finishSkip skipping prevBound lastOut =
     (if skipping then let (w, lastOut) = WriteBound lastOut prevBound in (w @ [0], lastOut) else ([], lastOut))"

fun read_ids :: "nat \<Rightarrow> bytes \<Rightarrow> ID list \<Rightarrow> (neg_error, ID list \<times> bytes) outcome" where
  "read_ids 0 reader theirs = Ret (theirs, reader)"
| "read_ids (Suc k) reader theirs =
     obind (reader_Read 32 reader) (\<lambda>(i, reader).
       read_ids k reader (if i \<in> set theirs then theirs else theirs @ [i]))"

text \<open>What we have: a common id is taken off their list, another one is reported.\<close>

fun compare_ids :: "Item list \<Rightarrow> ID list \<Rightarrow> ID list \<Rightarrow> ID list \<times> ID list" where
  "compare_ids [] theirs ours = (theirs, ours)"
| "compare_ids (item # its) theirs ours =
     (if it_ID item \<in> set theirs then compare_ids its (removeAll (it_ID item) theirs) ours
      else compare_ids its theirs (ours @ [it_ID item]))"

text \<open>The server's own ids, until the frame is full.\<close>

fun respond_ids :: "int \<Rightarrow> nat \<Rightarrow> (nat \<times> Item) list \<Rightarrow> bytes \<Rightarrow> nat \<Rightarrow> Bound \<Rightarrow> nat
    \<Rightarrow> bytes \<times> nat \<times> Bound \<times> nat" where
  "respond_ids limit fullLen [] responseIds responses endBound upper = (responseIds, responses, endBound, upper)"
| "respond_ids limit fullLen ((index, item) # rest) responseIds responses endBound upper =
     (if limit - 200 < int (fullLen + length responseIds)
      then (responseIds, responses, \<lparr>b_Timestamp = it_Timestamp item, b_IDPrefix = it_ID item\<rparr>, index)
      else respond_ids limit fullLen rest (responseIds @ it_ID item) (responses + 1) endBound upper)"

text \<open>
  The payload of a range.  A result is the new upper index, whether ranges are being skipped, the full
  and the partial output, and the state.
\<close>

type_synonym handled = "nat \<times> bool \<times> bytes \<times> bytes \<times> Negentropy"

definition handle_fingerprint :: "rstate \<Rightarrow> Bound \<Rightarrow> nat \<Rightarrow> nat \<Rightarrow> bytes \<Rightarrow> handled" where
  "handle_fingerprint s curBound lower upper theirFingerprint =
     (let n = r_neg s; st = ng_storage n in
      if theirFingerprint = st_Fingerprint st lower upper then (upper, True, r_full s, [], n)
      else
        (let (w, lastOut) = finishSkip (r_skipping s) (r_prevBound s) (ng_lastOut n);
             (w', lastOut) = SplitRange st lower upper curBound lastOut
         in (upper, False, r_full s, w @ w', n\<lparr>ng_lastOut := lastOut\<rparr>)))"

definition handle_ids :: "rstate \<Rightarrow> Bound \<Rightarrow> nat \<Rightarrow> nat \<Rightarrow> ID list \<Rightarrow> handled" where
  "handle_ids s curBound lower upper theirItems =
     (let n = r_neg s; st = ng_storage n;
          (theirItems, ours) = compare_ids (map snd (st_Range st lower upper)) theirItems [];
          n = (if ng_wantHaves n \<and> ng_isClient n then n\<lparr>ng_Haves := ng_Haves n @ ours\<rparr> else n)
      in if ng_isClient n \<and> ng_wantHaveNots n
         then (upper, True, r_full s, [], n\<lparr>ng_HaveNots := ng_HaveNots n @ theirItems\<rparr>)
         else
           (let (w, lastOut) = finishSkip (r_skipping s) (r_prevBound s) (ng_lastOut n);
                (responseIds, responses, endBound, upper) =
                  respond_ids (ng_frameSizeLimit n) (length (r_full s)) (st_Range st lower upper) [] 0 curBound upper;
                (w', lastOut) = WriteBound lastOut endBound
            in (upper, False, r_full s @ w @ w' @ [2] @ WriteVarInt responses @ responseIds, [],
                 n\<lparr>ng_lastOut := lastOut\<rparr>)))"

definition handle_mode :: "rstate \<Rightarrow> Bound \<Rightarrow> mode \<Rightarrow> nat \<Rightarrow> nat \<Rightarrow> bytes
    \<Rightarrow> (neg_error, handled \<times> bytes) outcome" where
  "handle_mode s curBound m lower upper reader =
     (case m of
        SkipMode \<Rightarrow> Ret ((upper, True, r_full s, [], r_neg s), reader)
      | FingerprintMode \<Rightarrow>
          obind (reader_Read 16 reader) (\<lambda>(theirFingerprint, reader).
            Ret (handle_fingerprint s curBound lower upper theirFingerprint, reader))
      | IdListMode \<Rightarrow>
          obind (ReadVarInt reader) (\<lambda>(numIds, reader).
          obind (read_ids (nat numIds) reader []) (\<lambda>(theirItems, reader).
            Ret (handle_ids s curBound lower upper theirItems, reader)))
      | UnknownMode b \<Rightarrow> Fail (BadMode b))"

datatype step = Continue rstate | Stop rstate

text \<open>The end of a round: when the frame is full, a fingerprint of the rest closes the message.\<close>

definition end_round :: "rstate \<Rightarrow> Bound \<Rightarrow> handled \<Rightarrow> bytes \<Rightarrow> step" where
  "end_round s curBound = (\<lambda>(upper, skipping, full, partial, n) reader.
     if ng_frameSizeLimit n - 200 < int (length full + length partial) then
       (let (w, lastOut) = WriteBound (ng_lastOut n) InfiniteBound;
            remaining = st_Fingerprint (ng_storage n) upper (st_Size (ng_storage n))
        in Stop (s\<lparr>r_full := full @ w @ [1] @ remaining, r_neg := n\<lparr>ng_lastOut := lastOut\<rparr>, r_reader := reader\<rparr>))
     else
       Continue (s\<lparr>r_full := full @ partial, r_prevIndex := upper, r_prevBound := curBound,
         r_skipping := skipping, r_neg := n, r_reader := reader\<rparr>))"

definition reconcile_step :: "rstate \<Rightarrow> (neg_error, step) outcome" where
  "reconcile_step s =
     obind (ReadBound (ng_lastIn (r_neg s)) (r_reader s)) (\<lambda>(curBound, lastIn, reader).
     obind (ReadVarInt reader) (\<lambda>(modeVal, reader).
     let s = s\<lparr>r_neg := (r_neg s)\<lparr>ng_lastIn := lastIn\<rparr>\<rparr>;
         st = ng_storage (r_neg s);
         lower = r_prevIndex s;
         upper = st_FindLowerBound st (r_prevIndex s) (st_Size st) curBound
     in obind (handle_mode s curBound (Mode modeVal) lower upper reader)
          (\<lambda>(handled, reader). Ret (end_round s curBound handled reader))))"

lemma reader_Read_shorter: "reader_Read k r = Ret (v, r') \<Longrightarrow> length r' \<le> length r"
  by (auto simp: reader_Read_def split: if_splits)

lemma read_ids_shorter: "read_ids k r ts = Ret (v, r') \<Longrightarrow> length r' \<le> length r"
proof (induction k r ts rule: read_ids.induct)
  case (2 k reader theirs)
  then show ?case by (fastforce simp: obind_Ret_iff dest: reader_Read_shorter)
qed simp

lemma ReadBound_shorter: "ReadBound l r = Ret (b, l', r') \<Longrightarrow> length r' < length r"
proof -
  assume "ReadBound l r = Ret (b, l', r')"
  then obtain ts l1 r1 len r2 p where r: "ReadTimestamp l r = Ret (ts, l1, r1)" "ReadVarInt r1 = Ret (len, r2)"
    "reader_Read (nat len) r2 = Ret (p, r')"
    by (auto simp: ReadBound_def obind_Ret_iff split: if_splits)
  have "length r1 < length r"
    using r(1) ReadVarInt_shorter by (auto simp: ReadTimestamp_def obind_Ret_iff Let_def split: if_splits)
  then show ?thesis using ReadVarInt_shorter [OF r(2)] reader_Read_shorter [OF r(3)] by simp
qed

lemma handle_mode_shorter: "handle_mode s b m lo hi r = Ret (h, r') \<Longrightarrow> length r' \<le> length r"
proof (cases m)
  case IdListMode
  moreover assume "handle_mode s b m lo hi r = Ret (h, r')"
  ultimately obtain k r1 ts where "ReadVarInt r = Ret (k, r1)" "read_ids (nat k) r1 [] = Ret (ts, r')"
    by (auto simp: handle_mode_def obind_Ret_iff)
  then show ?thesis using ReadVarInt_shorter read_ids_shorter by fastforce
qed (auto simp: handle_mode_def obind_Ret_iff dest: reader_Read_shorter)

lemma step_shorter: "reconcile_step s = Ret (Continue s') \<Longrightarrow> length (r_reader s') < length (r_reader s)"
proof -
  assume "reconcile_step s = Ret (Continue s')"
  then obtain b l r1 m r2 h r3 s1 lo hi where
    r: "ReadBound (ng_lastIn (r_neg s)) (r_reader s) = Ret (b, l, r1)" "ReadVarInt r1 = Ret (m, r2)"
    "handle_mode s1 b (Mode m) lo hi r2 = Ret (h, r3)" "r_reader s' = r3"
    by (auto simp: reconcile_step_def end_round_def obind_Ret_iff Let_def split: if_splits prod.splits)
  then show ?thesis
    using ReadBound_shorter [OF r(1)] ReadVarInt_shorter [OF r(2)] handle_mode_shorter [OF r(3)] by simp
qed

function reconcile_loop :: "rstate \<Rightarrow> (neg_error, rstate) outcome" where
  "reconcile_loop s =
     (if r_reader s = [] then Ret s
      else case reconcile_step s of
             Fail e \<Rightarrow> Fail e
           | Panic \<Rightarrow> Panic
           | Ret (Stop s') \<Rightarrow> Ret s'
           | Ret (Continue s') \<Rightarrow> reconcile_loop s')"
  by pat_completeness auto
termination
  by (relation "measure (\<lambda>s. length (r_reader s))") (auto dest: step_shorter)

declare reconcile_loop.simps [simp del]

definition reconcileAux :: "Negentropy \<Rightarrow> bytes \<Rightarrow> (neg_error, bytes \<times> Negentropy) outcome" where
  "reconcileAux n reader =
     (let n = n\<lparr>ng_lastIn := 0, ng_lastOut := 0\<rparr>; fullOutput = [ProtocolVersion] in
      case reader of
        [] \<Rightarrow> Fail EOF
      | pv # reader \<Rightarrow>
          if pv \<noteq> ProtocolVersion then
            (if ng_isClient n then Fail (BadVersion pv) else Ret (fullOutput, n))
          else
            obind (reconcile_loop \<lparr>r_reader = reader, r_full = fullOutput,
                r_prevBound = \<lparr>b_Timestamp = 0, b_IDPrefix = []\<rparr>, r_prevIndex = 0, r_skipping = False, r_neg = n\<rparr>)
              (\<lambda>s. Ret (r_full s, r_neg s)))"

definition Reconcile :: "ext \<Rightarrow> Negentropy \<Rightarrow> string \<Rightarrow> (neg_error, string \<times> Negentropy) outcome" where
  "Reconcile x n msg =
     (case hex_DecodeString msg of
        None \<Rightarrow> Fail BadHex
      | Some msgb \<Rightarrow>
          obind (reconcileAux (n\<lparr>ng_initialized := True\<rparr>) msgb) (\<lambda>(output, n).
            if length output = 1 \<and> ng_isClient n then Ret ('''', n\<lparr>ng_closed := True\<rparr>)
            else Ret (HexEncodeToString x output, n)))"

section \<open>Exchanging id lists\<close>

definition ids_ok :: "ID list \<Rightarrow> bool" where
  "ids_ok ids \<longleftrightarrow> list_all wf32 ids \<and> distinct ids \<and> length ids < 2 ^ 63"

text \<open>The message that carries one id list for the whole range.\<close>

definition idlist_msg :: "ID list \<Rightarrow> bytes" where
  "idlist_msg ids = ProtocolVersion # [0, 0, 2] @ WriteVarInt (length ids) @ concat ids"

lemma WriteBound_infinite: "WriteBound lastOut InfiniteBound = ([0, 0], maxTimestamp)"
  by (simp add: WriteBound_def WriteTimestamp_def InfiniteBound_def WriteVarInt_def)

lemma ReadBound_infinite: "ReadBound l (0 # 0 # b # r) = Ret (InfiniteBound, maxTimestamp, b # r)"
proof -
  have "bound_ok l InfiniteBound"
    by (simp add: bound_ok_def InfiniteBound_def maxTimestamp_def MaxInt64_def in_int64_def)
  from ReadBound_Write [OF this, of "b # r"] show ?thesis by (simp add: WriteBound_infinite)
qed

lemma read_ids_concat:
  "list_all wf32 ids \<Longrightarrow> distinct (ts @ ids) \<Longrightarrow> read_ids (length ids) (concat ids @ rest) ts = Ret (ts @ ids, rest)"
proof (induction ids arbitrary: ts)
  case Nil
  then show ?case by simp
next
  case (Cons i ids)
  have i: "length i = 32" using Cons.prems by (simp add: wf32_def)
  have "reader_Read 32 (i @ concat ids @ rest) = Ret (i, concat ids @ rest)"
    using i by (auto simp: reader_Read_def)
  then show ?case using Cons by simp
qed

lemma compare_ids_eq:
  "distinct (map it_ID its) \<Longrightarrow> compare_ids its theirs ours =
     (filter (\<lambda>i. i \<notin> it_ID ` set its) theirs, ours @ filter (\<lambda>i. i \<notin> set theirs) (map it_ID its))"
proof (induction its arbitrary: theirs ours)
  case Nil
  then show ?case by simp
next
  case (Cons a its)
  have "filter (\<lambda>i. i \<notin> set (removeAll (it_ID a) theirs)) (map it_ID its) = filter (\<lambda>i. i \<notin> set theirs) (map it_ID its)"
    using Cons.prems by (intro filter_cong) (auto simp: image_iff)
  moreover have "filter (\<lambda>i. i \<notin> it_ID ` set its) (removeAll (it_ID a) theirs)
      = filter (\<lambda>i. i \<notin> it_ID ` set (a # its)) theirs"
    by (induction theirs) (auto simp: image_iff)
  moreover have "it_ID a \<notin> set theirs \<Longrightarrow>
      filter (\<lambda>i. i \<notin> it_ID ` set its) theirs = filter (\<lambda>i. i \<notin> it_ID ` set (a # its)) theirs"
    by (intro filter_cong) auto
  ultimately show ?case using Cons by simp
qed

text \<open>While the frame has room the server answers with all its ids.\<close>

lemma respond_ids_all:
  "\<forall>p \<in> set ps. wf32 (it_ID (snd p)) \<Longrightarrow>
   int (fullLen + length acc + 32 * length ps) \<le> limit - 200 \<Longrightarrow>
   respond_ids limit fullLen ps acc k eb u = (acc @ concat (map it_ID (map snd ps)), k + length ps, eb, u)"
proof (induction ps arbitrary: acc k)
  case Nil
  then show ?case by simp
next
  case (Cons p ps)
  then show ?case by (cases p) (simp add: wf32_def algebra_simps)
qed

lemma Mode_simps: "Mode 0 = SkipMode" "Mode 1 = FingerprintMode" "Mode 2 = IdListMode"
  by (simp_all add: Mode_def)

lemma ReadVarInt_byte: "b AND 128 = 0 \<Longrightarrow> ReadVarInt (b # r) = Ret (sint (ucast b AND 127 :: 64 word), r)"
  by (simp add: ReadVarInt_def)

lemma ReadVarInt_mode: "ReadVarInt (0 # r) = Ret (0, r)" "ReadVarInt (1 # r) = Ret (1, r)" "ReadVarInt (2 # r) = Ret (2, r)"
  using ReadVarInt_Write_small [of 0 r] ReadVarInt_Write_small [of 1 r] ReadVarInt_Write_small [of 2 r]
  by (simp_all add: WriteVarInt_small)

context neg_storage
begin

lemma border: "0 < i \<Longrightarrow> i < length items \<Longrightarrow> border_items st i = (items ! (i - 1), items ! i)"
proof -
  assume i: "0 < i" "i < length items"
  then have "[i - 1..<i + 1] = [i - 1, i]" by (simp add: upt_conv_Cons)
  moreover have "between items (i - 1) (i + 1) = [items ! (i - 1), items ! i]"
    using i by (simp add: between_def take_Suc_conv_app_nth numeral_2_eq_2)
  ultimately have "st_Range st (i - 1) (i + 1) = [(i - 1, items ! (i - 1)), (i, items ! i)]"
    using i range [of "i - 1" "i + 1"] by simp
  then show ?thesis using i by (simp add: border_items_def)
qed

lemma between_all [simp]: "between items 0 (length items) = items"
  by (simp add: between_def)

lemma range_ids: "concat (map (\<lambda>(_, item). it_ID item) (st_Range st 0 (length items))) = concat (map it_ID items)"
proof -
  have "map (\<lambda>(_, item). it_ID item) (st_Range st 0 (length items)) = map it_ID (map snd (st_Range st 0 (length items)))"
    by auto
  then show ?thesis using range_items [of 0 "length items"] by (simp only: between_all order_refl le0)
qed

lemma start_small: "length items < 32 \<Longrightarrow>
    ProtocolVersion # fst (SplitRange st 0 (st_Size st) InfiniteBound lastOut) = idlist_msg (map it_ID items)"
  using range_ids by (simp add: SplitRange_def size buckets_def WriteBound_infinite Let_def idlist_msg_def)

text \<open>What a party does with the whole range as an id list.\<close>

lemma handle_ids_all:
  assumes n: "ng_storage (r_neg s) = st" and d: "distinct (map it_ID items)"
    and room: "int (length (r_full s) + 32 * length items) \<le> ng_frameSizeLimit (r_neg s) - 200"
    and ns: "\<not> r_skipping s"
  shows "ng_isClient (r_neg s) \<Longrightarrow> ng_wantHaves (r_neg s) \<Longrightarrow> ng_wantHaveNots (r_neg s) \<Longrightarrow>
      handle_ids s InfiniteBound 0 (length items) theirs =
        (length items, True, r_full s, [],
         (r_neg s)\<lparr>ng_Haves := ng_Haves (r_neg s) @ filter (\<lambda>i. i \<notin> set theirs) (map it_ID items),
           ng_HaveNots := ng_HaveNots (r_neg s) @ filter (\<lambda>i. i \<notin> it_ID ` set items) theirs\<rparr>)"
    and "\<not> ng_isClient (r_neg s) \<Longrightarrow>
      handle_ids s InfiniteBound 0 (length items) theirs =
        (length items, False, r_full s @ tl (idlist_msg (map it_ID items)), [], (r_neg s)\<lparr>ng_lastOut := maxTimestamp\<rparr>)"
proof -
  have c: "compare_ids (map snd (st_Range st 0 (length items))) theirs [] =
      (filter (\<lambda>i. i \<notin> it_ID ` set items) theirs, filter (\<lambda>i. i \<notin> set theirs) (map it_ID items))"
    using compare_ids_eq [OF d, of theirs "[]"] range_items [of 0 "length items"] by simp
  show "handle_ids s InfiniteBound 0 (length items) theirs =
        (length items, True, r_full s, [],
         (r_neg s)\<lparr>ng_Haves := ng_Haves (r_neg s) @ filter (\<lambda>i. i \<notin> set theirs) (map it_ID items),
           ng_HaveNots := ng_HaveNots (r_neg s) @ filter (\<lambda>i. i \<notin> it_ID ` set items) theirs\<rparr>)"
    if "ng_isClient (r_neg s)" "ng_wantHaves (r_neg s)" "ng_wantHaveNots (r_neg s)"
    using that by (simp add: handle_ids_def Let_def n c)
  have ok: "\<forall>p \<in> set (st_Range st 0 (length items)). wf32 (it_ID (snd p))"
    using items_ok by (auto simp: range list_all_iff item_ok_def dest: set_zip_rightD)
  have r: "respond_ids (ng_frameSizeLimit (r_neg s)) (length (r_full s)) (st_Range st 0 (length items)) [] 0 InfiniteBound (length items)
      = (concat (map it_ID items), length items, InfiniteBound, length items)"
    using respond_ids_all [OF ok, of "length (r_full s)" "[]"] room range_items [of 0 "length items"]
    by (simp add: range del: map_map)
  show "handle_ids s InfiniteBound 0 (length items) theirs =
        (length items, False, r_full s @ tl (idlist_msg (map it_ID items)), [], (r_neg s)\<lparr>ng_lastOut := maxTimestamp\<rparr>)"
    if "\<not> ng_isClient (r_neg s)"
    using that ns by (simp add: handle_ids_def Let_def n c r finishSkip_def WriteBound_infinite idlist_msg_def)
qed

lemma step_idlist:
  assumes s: "r_reader s = tl (idlist_msg theirs)" "r_prevIndex s = 0" "ng_storage (r_neg s) = st"
    and ids: "ids_ok theirs"
  shows "reconcile_step s =
    (let s1 = s\<lparr>r_neg := (r_neg s)\<lparr>ng_lastIn := maxTimestamp\<rparr>\<rparr>
     in Ret (end_round s1 InfiniteBound (handle_ids s1 InfiniteBound 0 (length items) theirs) []))"
proof -
  have b: "ReadBound (ng_lastIn (r_neg s)) (r_reader s)
      = Ret (InfiniteBound, maxTimestamp, 2 # WriteVarInt (length theirs) @ concat theirs)"
    using s(1) ReadBound_infinite by (simp add: idlist_msg_def)
  have l: "ReadVarInt (WriteVarInt (length theirs) @ concat theirs) = Ret (int (length theirs), concat theirs)"
    using ids by (intro ReadVarInt_Write_small) (simp add: ids_ok_def)
  have i: "read_ids (length theirs) (concat theirs) [] = Ret (theirs, [])"
    using read_ids_concat [of theirs "[]" "[]"] ids by (simp add: ids_ok_def)
  show ?thesis
    using s(2,3) lower_infinite [of 0]
    by (simp add: reconcile_step_def b ReadVarInt_mode Mode_simps handle_mode_def l i size Let_def split_beta)
qed

lemma reconcile_idlist:
  assumes n: "ng_storage n = st" "int (32 * length items) + 300 \<le> ng_frameSizeLimit n"
    and d: "distinct (map it_ID items)" "length items < 2 ^ 63" and ids: "ids_ok theirs"
  shows "ng_isClient n \<Longrightarrow> ng_wantHaves n \<Longrightarrow> ng_wantHaveNots n \<Longrightarrow>
      \<exists>n'. reconcileAux n (idlist_msg theirs) = Ret ([ProtocolVersion], n') \<and>
        ng_Haves n' = ng_Haves n @ filter (\<lambda>i. i \<notin> set theirs) (map it_ID items) \<and>
        ng_HaveNots n' = ng_HaveNots n @ filter (\<lambda>i. i \<notin> it_ID ` set items) theirs \<and>
        ng_isClient n'"
    and "\<not> ng_isClient n \<Longrightarrow>
      \<exists>n'. reconcileAux n (idlist_msg theirs) = Ret (idlist_msg (map it_ID items), n') \<and> \<not> ng_isClient n'"
proof -
  define s where "s = \<lparr>r_reader = tl (idlist_msg theirs), r_full = [ProtocolVersion],
    r_prevBound = \<lparr>b_Timestamp = 0, b_IDPrefix = []\<rparr>, r_prevIndex = 0, r_skipping = False,
    r_neg = n\<lparr>ng_lastIn := 0, ng_lastOut := 0\<rparr>\<rparr>"
  define s1 where "s1 = s\<lparr>r_neg := (r_neg s)\<lparr>ng_lastIn := maxTimestamp\<rparr>\<rparr>"
  have aux: "reconcileAux n (idlist_msg theirs) = obind (reconcile_loop s) (\<lambda>s. Ret (r_full s, r_neg s))"
    by (simp add: reconcileAux_def idlist_msg_def s_def Let_def)
  have ne: "r_reader s \<noteq> []" by (simp add: s_def idlist_msg_def)
  have stp: "reconcile_step s = Ret (end_round s1 InfiniteBound (handle_ids s1 InfiniteBound 0 (length items) theirs) [])"
    using step_idlist [of s theirs] n(1) ids by (simp only: s_def s1_def Let_def) (simp add: Let_def)
  have h1: "ng_storage (r_neg s1) = st" "\<not> r_skipping s1" "r_full s1 = [ProtocolVersion]"
    "int (length (r_full s1) + 32 * length items) \<le> ng_frameSizeLimit (r_neg s1) - 200"
    using n by (simp_all add: s1_def s_def)
  note h = handle_ids_all [OF h1(1) d(1) h1(4,2)]
  have loop: "reconcile_loop s = Ret s'" if "reconcile_step s = Ret (Continue s')" "r_reader s' = []" for s'
    using that ne by (subst reconcile_loop.simps) (simp add: reconcile_loop.simps [of s'])
  show "\<exists>n'. reconcileAux n (idlist_msg theirs) = Ret ([ProtocolVersion], n') \<and>
        ng_Haves n' = ng_Haves n @ filter (\<lambda>i. i \<notin> set theirs) (map it_ID items) \<and>
        ng_HaveNots n' = ng_HaveNots n @ filter (\<lambda>i. i \<notin> it_ID ` set items) theirs \<and> ng_isClient n'"
    if "ng_isClient n" "ng_wantHaves n" "ng_wantHaveNots n"
    using h(1) [of theirs] that n h1(3) stp loop by (simp add: aux s1_def s_def end_round_def)
  have "length (idlist_msg (map it_ID items)) \<le> 14 + 32 * length items"
  proof -
    have "length (concat (map it_ID items)) = 32 * length items"
      using items_ok by (induction items) (auto simp: item_ok_def wf32_def)
    then show ?thesis using WriteVarInt_length [OF d(2)] by (simp add: idlist_msg_def)
  qed
  then have fit: "\<not> ng_frameSizeLimit n - 200 < int (length (idlist_msg (map it_ID items)))" using n(2) by simp
  show "\<exists>n'. reconcileAux n (idlist_msg theirs) = Ret (idlist_msg (map it_ID items), n') \<and> \<not> ng_isClient n'"
    if "\<not> ng_isClient n"
  proof -
    have "ProtocolVersion # tl (idlist_msg (map it_ID items)) = idlist_msg (map it_ID items)"
      by (simp add: idlist_msg_def)
    then show ?thesis
      using h(2) [of theirs] that fit h1(3) stp loop by (simp add: aux s1_def s_def end_round_def)
  qed
qed

end

section \<open>Equal sets\<close>

definition bucket_size :: "nat \<Rightarrow> nat \<Rightarrow> nat \<Rightarrow> nat" where
  "bucket_size perBucket extra i = (if i < extra then perBucket + 1 else perBucket)"

lemma bucket_sizes: "sum_list (map (bucket_size p e) [0..<k]) = k * p + min e k"
  by (induction k) (auto simp: bucket_size_def)

lemma item_before_time: "item_less a b \<Longrightarrow> it_Timestamp a \<le> it_Timestamp b"
  by (auto simp: item_less_def)

context neg_storage
begin

lemma time_mono: "i \<le> j \<Longrightarrow> j < length items \<Longrightarrow> it_Timestamp (items ! i) \<le> it_Timestamp (items ! j)"
  using nth_less [of i j] by (cases "i = j") (auto dest: item_before_time)

text \<open>The bound of a bucket that ends at \<open>c\<close>, its encoding and where a party finds it.\<close>

definition bucket_bound :: "nat \<Rightarrow> Bound" where
  "bucket_bound c = (if c = length items then InfiniteBound else getMinimalBound (items ! (c - 1)) (items ! c))"

lemma bucket_bound_ok:
  assumes "0 < c" "c \<le> length items" "0 \<le> lo" "in_int64 lo" "c < length items \<longrightarrow> lo \<le> it_Timestamp (items ! c)"
  shows "bound_ok lo (bucket_bound c)"
proof (cases "c = length items")
  case True
  then show ?thesis
    by (simp add: bucket_bound_def bound_ok_def InfiniteBound_def maxTimestamp_def MaxInt64_def in_int64_def)
next
  case False
  then have c: "c < length items" using assms by simp
  then have ok: "item_ok (items ! c)" by (rule nth_ok)
  show ?thesis unfolding bucket_bound_def using False
    by (simp, intro bound_ok_mono)
      (use assms c ok minimal_bound_prefix in \<open>auto simp: item_ok_def in_int64_def maxTimestamp_def MaxInt64_def\<close>)
qed

lemma bucket_bound_found:
  "b \<le> c \<Longrightarrow> 0 < c \<Longrightarrow> c \<le> length items \<Longrightarrow> st_FindLowerBound st b (length items) (bucket_bound c) = c"
  using lower_infinite lower_minimal by (auto simp: bucket_bound_def)

lemma bucket_bound_out:
  "snd (WriteBound lo (bucket_bound c)) = b_Timestamp (bucket_bound c)"
  by (auto simp: WriteBound_def WriteTimestamp_def Let_def split_beta)

lemma split_buckets_Suc:
  assumes "0 < cur + bucket_size p e i" "cur + bucket_size p e i \<le> length items"
  shows "split_buckets st (length items) InfiniteBound p e i (Suc left) cur lo =
    (let c = cur + bucket_size p e i;
         (rest, lo') = split_buckets st (length items) InfiniteBound p e (i + 1) left c (b_Timestamp (bucket_bound c))
     in (fst (WriteBound lo (bucket_bound c)) @ [1] @ fp (map it_ID (between items cur c)) @ rest, lo'))"
proof -
  have b: "bucket_size p e i = (if i < e then p + 1 else p)" by (simp add: bucket_size_def)
  show ?thesis
    using assms border [of "cur + bucket_size p e i"] fingerprint [of cur "cur + bucket_size p e i"]
      bucket_bound_out [of lo "cur + bucket_size p e i"]
    unfolding split_buckets.simps b [symmetric] Let_def by (auto simp: bucket_bound_def split_beta)
qed

text \<open>A party with the same items skips every bucket of the other one's fingerprints.\<close>

lemma skip_buckets:
  assumes st': "neg_storage st' items fp" and fp16: "\<And>ids. length (fp ids) = 16" and p: "0 < p"
  shows "cur + sum_list (map (bucket_size p e) [i..<i + left]) = length items \<Longrightarrow>
    r_reader s = fst (split_buckets st' (length items) InfiniteBound p e i left cur lo) \<Longrightarrow>
    r_prevIndex s = cur \<Longrightarrow> ng_lastIn (r_neg s) = lo \<Longrightarrow> ng_storage (r_neg s) = st \<Longrightarrow>
    0 \<le> lo \<Longrightarrow> in_int64 lo \<Longrightarrow> cur < length items \<longrightarrow> lo \<le> it_Timestamp (items ! cur) \<Longrightarrow>
    int (length (r_full s)) \<le> ng_frameSizeLimit (r_neg s) - 200 \<Longrightarrow>
    \<exists>s' l. reconcile_loop s = Ret s' \<and> r_full s' = r_full s \<and> r_neg s' = (r_neg s)\<lparr>ng_lastIn := l\<rparr>"
proof (induction left arbitrary: i cur lo s)
  case 0
  then have "reconcile_loop s = Ret s" by (subst reconcile_loop.simps) simp
  moreover have "r_neg s = (r_neg s)\<lparr>ng_lastIn := ng_lastIn (r_neg s)\<rparr>" by simp
  ultimately show ?case by blast
next
  case (Suc left)
  define c where "c = cur + bucket_size p e i"
  have bs: "0 < bucket_size p e i" using p by (simp add: bucket_size_def)
  have split_sum: "[i..<i + Suc left] = i # [i + 1..<i + 1 + left]" by (simp add: upt_conv_Cons)
  have tot: "c + sum_list (map (bucket_size p e) [i + 1..<i + 1 + left]) = length items"
    using Suc.prems(1) unfolding split_sum by (simp add: c_def)
  have c: "0 < c" "c \<le> length items" "cur \<le> c" using bs tot by (auto simp: c_def)
  let ?B = "bucket_bound c" and ?f = "fp (map it_ID (between items cur c))"
  obtain rest lo' where rest: "split_buckets st' (length items) InfiniteBound p e (i + 1) left c (b_Timestamp ?B) = (rest, lo')"
    by (cases "split_buckets st' (length items) InfiniteBound p e (i + 1) left c (b_Timestamp ?B)")
  have rd: "r_reader s = fst (WriteBound lo ?B) @ [1] @ ?f @ rest"
    using Suc.prems(2) neg_storage.split_buckets_Suc [OF st', of cur p e i left lo] c rest
    by (simp add: c_def [symmetric] neg_storage.bucket_bound_def [OF st'] bucket_bound_def)
  have lo: "c < length items \<longrightarrow> lo \<le> it_Timestamp (items ! c)"
    using Suc.prems(8) time_mono [OF c(3)] c by (auto intro: order_trans)
  have ok: "bound_ok lo ?B" by (rule bucket_bound_ok [OF c(1,2) Suc.prems(6,7) lo])
  have rb: "ReadBound (ng_lastIn (r_neg s)) (r_reader s) = Ret (?B, b_Timestamp ?B, 1 # ?f @ rest)"
    using ReadBound_Write [OF ok, of "[1] @ ?f @ rest"] rd Suc.prems(4) by (simp add: bucket_bound_out)
  have "?f \<noteq> []" using fp16 [of "map it_ID (between items cur c)"] by auto
  then have rf: "reader_Read 16 (?f @ rest) = Ret (?f, rest)" using fp16 by (simp add: reader_Read_def)
  define s1 where "s1 = s\<lparr>r_neg := (r_neg s)\<lparr>ng_lastIn := b_Timestamp ?B\<rparr>, r_prevIndex := c,
    r_prevBound := ?B, r_skipping := True, r_reader := rest\<rparr>"
  have stp: "reconcile_step s = Ret (Continue s1)"
    using Suc.prems(3,5,9) bucket_bound_found [OF c(3,1,2)] fingerprint [OF c(3,2)]
    by (simp add: reconcile_step_def rb ReadVarInt_mode Mode_simps handle_mode_def rf size handle_fingerprint_def
        end_round_def s1_def)
  have "\<exists>s' l. reconcile_loop s1 = Ret s' \<and> r_full s' = r_full s1 \<and> r_neg s' = (r_neg s1)\<lparr>ng_lastIn := l\<rparr>"
  proof (rule Suc.IH [OF tot])
    have tb: "b_Timestamp ?B = (if c = length items then maxTimestamp else it_Timestamp (items ! c))"
      by (simp add: bucket_bound_def InfiniteBound_def)
    show "0 \<le> b_Timestamp ?B" "in_int64 (b_Timestamp ?B)"
      "c < length items \<longrightarrow> b_Timestamp ?B \<le> it_Timestamp (items ! c)"
      using tb nth_ok [of c] c by (auto simp: maxTimestamp_def MaxInt64_def in_int64_def item_ok_def)
  qed (use Suc.prems rest in \<open>simp_all add: s1_def\<close>)
  moreover have "reconcile_loop s = reconcile_loop s1"
    using rd stp by (subst reconcile_loop.simps) simp
  ultimately show ?case by (auto simp: s1_def)
qed

text \<open>Fingerprints of the same items are answered with the version byte alone.\<close>

lemma reconcile_equal:
  assumes st': "neg_storage st' items fp" and fp16: "\<And>ids. length (fp ids) = 16" and big: "32 \<le> length items"
    and n: "ng_storage n = st" "4096 \<le> ng_frameSizeLimit n"
  shows "\<exists>n'. reconcileAux n (ProtocolVersion # fst (SplitRange st' 0 (length items) InfiniteBound 0)) = Ret ([ProtocolVersion], n')
    \<and> ng_Haves n' = ng_Haves n \<and> ng_HaveNots n' = ng_HaveNots n \<and> ng_isClient n' = ng_isClient n"
proof -
  let ?p = "length items div 16" and ?e = "length items mod 16"
  define s where "s = \<lparr>r_reader = fst (SplitRange st' 0 (length items) InfiniteBound 0), r_full = [ProtocolVersion],
    r_prevBound = \<lparr>b_Timestamp = 0, b_IDPrefix = []\<rparr>, r_prevIndex = 0, r_skipping = False,
    r_neg = n\<lparr>ng_lastIn := 0, ng_lastOut := 0\<rparr>\<rparr>"
  have p: "0 < ?p" using big by (simp add: div_greater_zero_iff)
  have tot: "0 + sum_list (map (bucket_size ?p ?e) [0..<0 + 16]) = length items"
    using bucket_sizes [of ?p ?e 16] by (simp add: min_def)
  have "\<exists>s' l. reconcile_loop s = Ret s' \<and> r_full s' = r_full s \<and> r_neg s' = (r_neg s)\<lparr>ng_lastIn := l\<rparr>"
  proof (rule skip_buckets [OF st' fp16 p tot])
    show "r_reader s = fst (split_buckets st' (length items) InfiniteBound ?p ?e 0 16 0 0)"
      using big by (simp add: s_def SplitRange_def buckets_def Let_def)
    show "0 < length items \<longrightarrow> 0 \<le> it_Timestamp (items ! 0)" using nth_ok [of 0] by (simp add: item_ok_def)
  qed (use n in \<open>simp_all add: s_def in_int64_def\<close>)
  then show ?thesis by (auto simp: reconcileAux_def s_def Let_def)
qed

end

section \<open>Whole exchanges\<close>

lemma hex_round: "xhex_Encode x = hex_EncodeToString \<Longrightarrow> hex_DecodeString (HexEncodeToString x bs) = Some bs"
  by (simp add: HexEncodeToString_def)

lemma items_ids_ok: "list_all item_ok its \<Longrightarrow> distinct (map it_ID its) \<Longrightarrow> length its < 2 ^ 63 \<Longrightarrow> ids_ok (map it_ID its)"
  by (auto simp: ids_ok_def list_all_iff item_ok_def)

lemma exchange_small:
  assumes x: "xhex_Encode x = hex_EncodeToString"
    and A: "neg_storage stA its_A fpA" "length its_A < 32" "distinct (map it_ID its_A)"
    and B: "neg_storage stB its_B fpB" "length its_B < 2 ^ 56" "distinct (map it_ID its_B)"
    and new: "New stA 0 True True = Ret client" "New stB 0 False False = Ret server"
    and start: "Start x client = (m1, client1)"
  shows "\<exists>m2 server' client2. Reconcile x server m1 = Ret (m2, server') \<and>
    Reconcile x client1 m2 = Ret ('''', client2) \<and> ng_closed client2 \<and>
    ng_Haves client2 = filter (\<lambda>i. i \<notin> it_ID ` set its_B) (map it_ID its_A) \<and>
    ng_HaveNots client2 = filter (\<lambda>i. i \<notin> it_ID ` set its_A) (map it_ID its_B)"
proof -
  let ?a = "map it_ID its_A" and ?b = "map it_ID its_B"
  have c: "ng_storage client = stA" "ng_lastOut client = 0" "ng_wantHaves client" "ng_wantHaveNots client"
    "ng_frameSizeLimit client = MaxInt64" "ng_Haves client = []" "ng_HaveNots client = []"
    using new(1) by (auto simp: New_def Let_def)
  have s: "ng_storage server = stB" "\<not> ng_isClient server" "ng_frameSizeLimit server = MaxInt64"
    using new(2) by (auto simp: New_def Let_def)
  have ok: "ids_ok ?a" "ids_ok ?b"
    using A B neg_storage.items_ok by (auto intro!: items_ids_ok)
  have m1: "hex_DecodeString m1 = Some (idlist_msg ?a)"
    using start neg_storage.start_small [OF A(1,2)] hex_round [OF x] by (auto simp: Start_def Let_def c split_beta)
  have c1: "ng_storage client1 = stA" "ng_isClient client1" "ng_wantHaves client1" "ng_wantHaveNots client1"
    "ng_frameSizeLimit client1 = MaxInt64" "ng_Haves client1 = []" "ng_HaveNots client1 = []"
    using start by (auto simp: Start_def Let_def c split_beta)
  obtain s' where s': "reconcileAux (server\<lparr>ng_initialized := True\<rparr>) (idlist_msg ?a) = Ret (idlist_msg ?b, s')" "\<not> ng_isClient s'"
    using neg_storage.reconcile_idlist(2) [OF B(1), of "server\<lparr>ng_initialized := True\<rparr>" ?a] B s ok
    by (auto simp: MaxInt64_def)
  have m2: "Reconcile x server m1 = Ret (HexEncodeToString x (idlist_msg ?b), s')"
    using m1 s' by (simp add: Reconcile_def)
  obtain n' where n': "reconcileAux (client1\<lparr>ng_initialized := True\<rparr>) (idlist_msg ?b) = Ret ([ProtocolVersion], n')"
    "ng_Haves n' = filter (\<lambda>i. i \<notin> set ?b) ?a" "ng_HaveNots n' = filter (\<lambda>i. i \<notin> it_ID ` set its_A) ?b" "ng_isClient n'"
    using neg_storage.reconcile_idlist(1) [OF A(1), of "client1\<lparr>ng_initialized := True\<rparr>" ?b] A c1 ok
    by (auto simp: MaxInt64_def)
  have "Reconcile x client1 (HexEncodeToString x (idlist_msg ?b)) = Ret ('''', n'\<lparr>ng_closed := True\<rparr>)"
    using n' by (simp add: Reconcile_def hex_round [OF x])
  then show ?thesis using m2 n' by simp
qed

lemma exchange_equal:
  assumes x: "xhex_Encode x = hex_EncodeToString"
    and A: "neg_storage stA its fp" and B: "neg_storage stB its fp" and big: "32 \<le> length its"
    and fp16: "\<And>ids. length (fp ids) = 16"
    and new: "New stA la True True = Ret client" "New stB lb False False = Ret server"
    and start: "Start x client = (m1, client1)"
  shows "\<exists>m2 server' client2. Reconcile x server m1 = Ret (m2, server') \<and>
    Reconcile x client1 m2 = Ret ('''', client2) \<and> ng_closed client2 \<and>
    ng_Haves client2 = [] \<and> ng_HaveNots client2 = []"
proof -
  have c: "ng_storage client = stA" "ng_lastOut client = 0" "ng_Haves client = []" "ng_HaveNots client = []"
    using new(1) by (auto simp: New_def Let_def split: if_splits)
  have s: "ng_storage server = stB" "\<not> ng_isClient server" "4096 \<le> ng_frameSizeLimit server"
    using new(2) by (auto simp: New_def Let_def MaxInt64_def split: if_splits)
  have m1: "hex_DecodeString m1 = Some (ProtocolVersion # fst (SplitRange stA 0 (length its) InfiniteBound 0))"
    using start hex_round [OF x] by (auto simp: Start_def Let_def c split_beta neg_storage.size [OF A])
  have c1: "ng_isClient client1" "ng_Haves client1 = []" "ng_HaveNots client1 = []"
    using start by (auto simp: Start_def Let_def c split_beta)
  obtain s' where s': "reconcileAux (server\<lparr>ng_initialized := True\<rparr>)
      (ProtocolVersion # fst (SplitRange stA 0 (length its) InfiniteBound 0)) = Ret ([ProtocolVersion], s')" "\<not> ng_isClient s'"
    using neg_storage.reconcile_equal [OF B A fp16 big, of "server\<lparr>ng_initialized := True\<rparr>"] s by auto
  have m2: "Reconcile x server m1 = Ret (HexEncodeToString x [ProtocolVersion], s')"
    using m1 s' by (simp add: Reconcile_def)
  have "reconcileAux (client1\<lparr>ng_initialized := True\<rparr>) [ProtocolVersion]
      = Ret ([ProtocolVersion], client1\<lparr>ng_initialized := True, ng_lastIn := 0, ng_lastOut := 0\<rparr>)"
    by (simp add: reconcileAux_def Let_def reconcile_loop.simps)
  then have "Reconcile x client1 (HexEncodeToString x [ProtocolVersion])
      = Ret ('''', client1\<lparr>ng_initialized := True, ng_lastIn := 0, ng_lastOut := 0, ng_closed := True\<rparr>)"
    using c1 by (simp add: Reconcile_def hex_round [OF x])
  then show ?thesis using m2 c1 by simp
qed

text \<open>A declared prefix length of \<open>2^63\<close> or more is read as a negative \<^verbatim>\<open>int\<close>, and allocating it panics.\<close>

lemma negative_length_panics:
  assumes "2 ^ 63 \<le> k" "k < 2 ^ 64"
  shows "reconcileAux n (ProtocolVersion # 1 # WriteVarInt k @ rest) = Panic"
proof -
  have "(int k + 2 ^ 63) mod 2 ^ 64 = ((int k - 2 ^ 63) + 2 ^ 64) mod 2 ^ 64" by (simp add: add.commute)
  also have "\<dots> = (int k - 2 ^ 63) mod 2 ^ 64" by (rule mod_add_self2)
  also have "\<dots> = int k - 2 ^ 63" using assms by (intro mod_pos_pos_trivial) auto
  finally have "int64 (int k) < 0" using assms(2) by (simp add: int64_def)
  then have "ReadVarInt (WriteVarInt k @ rest) = Ret (int64 (int k), rest) \<and> int64 (int k) < 0"
    by (simp add: ReadVarInt_Write)
  then have "ReadBound 0 (1 # WriteVarInt k @ rest) = Panic"
    by (simp add: ReadBound_def ReadTimestamp_def ReadVarInt_mode Let_def)
  then show ?thesis
    by (simp add: reconcileAux_def Let_def reconcile_loop.simps reconcile_step_def)
qed

section \<open>Properties\<close>

text \<open>The storages of the examples.\<close>

definition example_items :: "Item list" where
  "example_items = map (\<lambda>i. \<lparr>it_Timestamp = int i, it_ID = replicate 32 (word_of_nat i)\<rparr>) [0..<40]"



text \<open>C22: a client with at least 32 items and a server with the same items recognise in one round trip that
  nothing is missing, by fingerprints alone.\<close>

theorem sync_recognises_equal:
  assumes "xhex_Encode x = hex_EncodeToString"
    "neg_storage stA its fp" "neg_storage stB its fp" "32 \<le> length its"
    "\<And>ids. length (fp ids) = 16"
    "New stA la True True = Ret client" "New stB lb False False = Ret server" "Start x client = (m1, client1)"
  shows "\<exists>m2 server' client2. Reconcile x server m1 = Ret (m2, server') \<and>
    Reconcile x client1 m2 = Ret ('''', client2) \<and> ng_closed client2 \<and>
    ng_Haves client2 = [] \<and> ng_HaveNots client2 = []"
  by (rule exchange_equal) (use assms in auto)

theorem sync_recognises_equal_witness:
  "\<exists>client server m1 client1 m2 server' client2.
     New (vector_storage std_ext (loaded_vector example_items)) 0 True True = Ret client \<and>
     New (vector_storage std_ext (loaded_vector example_items)) 0 False False = Ret server \<and>
     Start std_ext client = (m1, client1) \<and> Reconcile std_ext server m1 = Ret (m2, server') \<and>
     Reconcile std_ext client1 m2 = Ret ('''', client2) \<and> ng_Haves client2 = [] \<and> ng_HaveNots client2 = []"
proof -
  let ?st = "vector_storage std_ext (loaded_vector example_items)"
  have st: "neg_storage ?st (v_items (loaded_vector example_items)) (ids_fingerprint std_ext)"
    by (rule vector.neg_storage_axioms)
  have x: "xhex_Encode std_ext = hex_EncodeToString" by (simp add: std_ext_def)
  have fp: "length (ids_fingerprint std_ext ids) = 16" for ids
    by (simp add: ids_fingerprint_def GetFingerprint_def)
  have "set (v_items (loaded_vector example_items)) = set example_items"
    unfolding loaded_vector_items(2)
    by (auto simp: example_items_def item_ok_def wf32_def maxTimestamp_def MaxInt64_def)
  moreover have "card (set example_items) = 40"
  proof -
    have "inj_on (\<lambda>i. \<lparr>it_Timestamp = int i, it_ID = replicate 32 (word_of_nat i)\<rparr>) {0..<40}"
      by (rule inj_onI) simp
    then show ?thesis using card_image by (fastforce simp: example_items_def)
  qed
  ultimately have "40 \<le> length (v_items (loaded_vector example_items))"
    using card_length [of "v_items (loaded_vector example_items)"] by simp
  then have big: "32 \<le> length (v_items (loaded_vector example_items))" by simp
  obtain client where c: "New ?st 0 True True = Ret client" by (auto simp: New_def)
  obtain server where s: "New ?st 0 False False = Ret server" by (auto simp: New_def)
  obtain m1 client1 where start: "Start std_ext client = (m1, client1)" by (cases "Start std_ext client")
  show ?thesis using sync_recognises_equal [OF x st st big fp c s start] c s start by blast
qed

text \<open>the message loop is total, and a peer can crash the process: an id list bound with a length of 2 to the
  63 or more, which the reader takes for a negative number, panics when the buffer for it is allocated.\<close>

theorem negative_bound_length_panics:
  assumes "2 ^ 63 \<le> k" "k < 2 ^ 64"
  shows "reconcileAux n (ProtocolVersion # 1 # WriteVarInt k @ rest) = Panic"
  by (rule negative_length_panics) (rule assms)+

theorem negative_bound_length_panics_witness:
  "\<exists>server. New (empty_storage std_ext) 0 False False = Ret server \<and>
     reconcileAux server (ProtocolVersion # 1 # WriteVarInt (2 ^ 63) @ []) = Panic"
proof -
  obtain server where "New (empty_storage std_ext) 0 False False = Ret server" by (auto simp: New_def)
  then show ?thesis using negative_bound_length_panics [of "2 ^ 63" server "[]"] by simp
qed

end
