(* ===== verification/Listener.thy ===== *)
theory Listener
  imports Filters
begin

text \<open>
  \<^verbatim>\<open>relay/listener.go\<close>: the dispatcher that indexes live subscriptions by author and by kind, and
  the relay's table of clients.  The containers \<^verbatim>\<open>fiatjaf.com/lib/set\<close> and \<^verbatim>\<open>xsync.MapOf\<close> are not
  part of the repository: they are the operation records \<open>set_ops\<close> and \<open>map_ops\<close>, and the locale
  \<open>containers\<close> states what they are documented to do.

  The invariant says that the two indexes and the fallback set hold exactly the subscriptions they should;
  the main result is that an event reaches exactly the live subscriptions whose filter (ids aside) it
  matches.  \<open>tidy_sub\<close> is the side condition the removal needs: it stops at the second
  occurrence of a repeated author or kind.
\<close>

section \<open>The containers\<close>

record 's set_ops =
  set_New :: 's
  set_Add :: "int \<Rightarrow> 's \<Rightarrow> 's"
  set_Remove :: "int \<Rightarrow> 's \<Rightarrow> 's"
  set_Has :: "'s \<Rightarrow> int \<Rightarrow> bool"
  set_Len :: "'s \<Rightarrow> nat"
  set_Slice :: "'s \<Rightarrow> int list"

record ('m, 'v) map_ops =
  map_New :: 'm
  map_Store :: "int \<Rightarrow> 'v \<Rightarrow> 'm \<Rightarrow> 'm"
  map_Load :: "'m \<Rightarrow> int \<Rightarrow> 'v option"
  map_Delete :: "int \<Rightarrow> 'm \<Rightarrow> 'm"
  map_Range :: "'m \<Rightarrow> (int \<times> 'v) list"

locale containers =
  fixes S :: "'s set_ops" and M :: "('m, 'v) map_ops"
  assumes slice_new: "set (set_Slice S (set_New S)) = {}"
    and slice_add: "set (set_Slice S (set_Add S x s)) = insert x (set (set_Slice S s))"
    and slice_remove: "set (set_Slice S (set_Remove S x s)) = set (set_Slice S s) - {x}"
    and has: "set_Has S s x \<longleftrightarrow> x \<in> set (set_Slice S s)"
    and slice_distinct: "distinct (set_Slice S s)"
    and len: "set_Len S s = length (set_Slice S s)"
    and load_new: "map_Load M (map_New M) k = None"
    and load_store: "map_Load M (map_Store M k v m) k' = (if k' = k then Some v else map_Load M m k')"
    and load_delete: "map_Load M (map_Delete M k m) k' = (if k' = k then None else map_Load M m k')"
    and range_load: "(k, v) \<in> set (map_Range M m) \<longleftrightarrow> map_Load M m k = Some v"
begin

lemma len_0: "set_Len S s = 0 \<longleftrightarrow> \<not> (\<exists>x. x \<in> set (set_Slice S s))"
  by (auto simp: len)

end

section \<open>The dispatcher\<close>

type_synonym ws = nat

record subscription =
  sub_id :: string
  sub_filter :: Filter
  sub_ws :: "ws option"  \<comment> \<open>a nil pointer in the zero value\<close>

record ('s, 'm) dispatcher =
  d_serial :: int
  d_subscriptions :: 'm
  d_byAuthor :: "PubKey \<rightharpoonup> 's"
  d_byKind :: "Kind \<rightharpoonup> 's"
  d_fallback :: 's

definition newDispatcher :: "'s set_ops \<Rightarrow> ('m, subscription) map_ops \<Rightarrow> ('s, 'm) dispatcher" where
  "newDispatcher S M = \<lparr>d_serial = 0, d_subscriptions = map_New M, d_byAuthor = Map.empty,
     d_byKind = Map.empty, d_fallback = set_New S\<rparr>"

text \<open>One key of an index: its set is created when it is missing; it is dropped when it gets empty.\<close>

definition index_add :: "'s set_ops \<Rightarrow> int \<Rightarrow> 'k \<Rightarrow> ('k \<rightharpoonup> 's) \<Rightarrow> ('k \<rightharpoonup> 's)" where
  "index_add S ssid k m =
     (let s = (case m k of Some s \<Rightarrow> s | None \<Rightarrow> set_New S) in m(k \<mapsto> set_Add S ssid s))"

definition index_remove :: "'s set_ops \<Rightarrow> int \<Rightarrow> 'k \<Rightarrow> ('k \<rightharpoonup> 's) \<Rightarrow> ('k \<rightharpoonup> 's) option" where
  "index_remove S ssid k m =
     (case m k of
        None \<Rightarrow> None
      | Some s \<Rightarrow>
          let s = set_Remove S ssid s
          in Some (if set_Len S s = 0 then m(k := None) else m(k \<mapsto> s)))"

text \<open>The removal loop over one filter field; \<open>False\<close> is the early return of the source.\<close>

fun index_remove_all :: "'s set_ops \<Rightarrow> int \<Rightarrow> 'k list \<Rightarrow> ('k \<rightharpoonup> 's) \<Rightarrow> ('k \<rightharpoonup> 's) \<times> bool" where
  "index_remove_all S ssid [] m = (m, True)"
| "index_remove_all S ssid (k # ks) m =
     (case index_remove S ssid k m of
        None \<Rightarrow> (m, False)
      | Some m' \<Rightarrow> index_remove_all S ssid ks m')"

definition addSubscription :: "'s set_ops \<Rightarrow> ('m, subscription) map_ops \<Rightarrow> subscription
    \<Rightarrow> ('s, 'm) dispatcher \<Rightarrow> ('s, 'm) dispatcher \<times> int" where
  "addSubscription S M sub d =
     (let ssid = d_serial d + 1;
          d = d\<lparr>d_serial := ssid, d_subscriptions := map_Store M ssid sub (d_subscriptions d)\<rparr>;
          d = (case fAuthors (sub_filter sub) of
                 None \<Rightarrow> d
               | Some as \<Rightarrow> d\<lparr>d_byAuthor := fold (index_add S ssid) as (d_byAuthor d)\<rparr>);
          d = (case fKinds (sub_filter sub) of
                 None \<Rightarrow> d
               | Some ks \<Rightarrow> d\<lparr>d_byKind := fold (index_add S ssid) ks (d_byKind d)\<rparr>);
          indexed = (fAuthors (sub_filter sub) \<noteq> None \<or> fKinds (sub_filter sub) \<noteq> None);
          d = (if \<not> indexed then d\<lparr>d_fallback := set_Add S ssid (d_fallback d)\<rparr> else d)
      in (d, ssid))"

definition removeSubscription :: "'s set_ops \<Rightarrow> ('m, subscription) map_ops \<Rightarrow> int
    \<Rightarrow> ('s, 'm) dispatcher \<Rightarrow> ('s, 'm) dispatcher" where
  "removeSubscription S M ssid d =
     (case map_Load M (d_subscriptions d) ssid of
        None \<Rightarrow> d
      | Some sub \<Rightarrow>
          (let d = d\<lparr>d_subscriptions := map_Delete M ssid (d_subscriptions d)\<rparr>;
               authors = fAuthors (sub_filter sub); kinds = fKinds (sub_filter sub);
               (byAuthor, ok) = index_remove_all S ssid (opt_list authors) (d_byAuthor d);
               d = d\<lparr>d_byAuthor := byAuthor\<rparr>
           in if \<not> ok then d
              else
                (let (byKind, ok) = index_remove_all S ssid (opt_list kinds) (d_byKind d);
                     d = d\<lparr>d_byKind := byKind\<rparr>
                 in if \<not> ok then d
                    else if authors = None \<and> kinds = None then d\<lparr>d_fallback := set_Remove S ssid (d_fallback d)\<rparr>
                    else d)))"

definition filterMatchesTimestampConstraintsAndTags :: "Filter \<Rightarrow> event \<Rightarrow> bool" where
  "filterMatchesTimestampConstraintsAndTags f e =
     (if fSince f \<noteq> 0 \<and> evCreatedAt e < fSince f then False
      else if fUntil f \<noteq> 0 \<and> evCreatedAt e > fUntil f then False
      else list_all (\<lambda>(k, v). ContainsAny (evTags e) k v) (fTags f))"

definition zero_subscription :: subscription where
  "zero_subscription = \<lparr>sub_id = '''', sub_filter = empty_filter, sub_ws = None\<rparr>"

text \<open>\<^verbatim>\<open>sub, _ := d.subscriptions.Load(ssid)\<close>.\<close>

definition load_sub :: "('m, subscription) map_ops \<Rightarrow> ('s, 'm) dispatcher \<Rightarrow> int \<Rightarrow> subscription" where
  "load_sub M d ssid = (case map_Load M (d_subscriptions d) ssid of Some sub \<Rightarrow> sub | None \<Rightarrow> zero_subscription)"

text \<open>The ids visited and not skipped, in order; the iterator yields the subscriptions they stand for.\<close>

definition candidate_ssids :: "'s set_ops \<Rightarrow> ('m, subscription) map_ops \<Rightarrow> ('s, 'm) dispatcher \<Rightarrow> event \<Rightarrow> int list" where
  "candidate_ssids S M d event =
     (let f = (\<lambda>ssid. sub_filter (load_sub M d ssid));
          matches = (\<lambda>ssid. filterMatchesTimestampConstraintsAndTags (f ssid) event);
          indexed = (case (d_byAuthor d (evPubKey event), d_byKind d (evKind event)) of
             (Some authorSubs, Some kindSubs) \<Rightarrow>
               filter (\<lambda>ssid. (set_Has S kindSubs ssid \<or> fKinds (f ssid) = None) \<and> matches ssid) (set_Slice S authorSubs) @
               filter (\<lambda>ssid. fAuthors (f ssid) = None \<and> matches ssid) (set_Slice S kindSubs)
           | (Some authorSubs, None) \<Rightarrow>
               filter (\<lambda>ssid. fKinds (f ssid) = None \<and> matches ssid) (set_Slice S authorSubs)
           | (None, Some kindSubs) \<Rightarrow>
               filter (\<lambda>ssid. fAuthors (f ssid) = None \<and> matches ssid) (set_Slice S kindSubs)
           | (None, None) \<Rightarrow> [])
      in indexed @ filter matches (set_Slice S (d_fallback d)))"

definition candidates :: "'s set_ops \<Rightarrow> ('m, subscription) map_ops \<Rightarrow> ('s, 'm) dispatcher \<Rightarrow> event \<Rightarrow> subscription list" where
  "candidates S M d event = map (load_sub M d) (candidate_ssids S M d event)"

section \<open>Clients\<close>

record listenerSpec =
  ls_ssid :: int
  ls_sid :: string

record ('s, 'm) relay_state =
  rl_dispatcher :: "('s, 'm) dispatcher"
  rl_clients :: "ws \<rightharpoonup> listenerSpec list"

definition GetListeningFilters :: "('m, subscription) map_ops \<Rightarrow> ('s, 'm) relay_state \<Rightarrow> Filter list" where
  "GetListeningFilters M rl = map (\<lambda>(_, sub). sub_filter sub) (map_Range M (d_subscriptions (rl_dispatcher rl)))"

definition addListener :: "'s set_ops \<Rightarrow> ('m, subscription) map_ops \<Rightarrow> ws \<Rightarrow> string \<Rightarrow> Filter
    \<Rightarrow> ('s, 'm) relay_state \<Rightarrow> ('s, 'm) relay_state" where
  "addListener S M w i f rl =
     (case rl_clients rl w of
        None \<Rightarrow> rl
      | Some specs \<Rightarrow>
          (let (d, ssid) = addSubscription S M \<lparr>sub_id = i, sub_filter = f, sub_ws = Some w\<rparr> (rl_dispatcher rl)
           in rl\<lparr>rl_dispatcher := d, rl_clients := (rl_clients rl)(w \<mapsto> specs @ [\<lparr>ls_ssid = ssid, ls_sid = i\<rparr>])\<rparr>))"

fun remove_specs :: "'s set_ops \<Rightarrow> ('m, subscription) map_ops \<Rightarrow> string \<Rightarrow> listenerSpec list
    \<Rightarrow> ('s, 'm) dispatcher \<Rightarrow> listenerSpec list \<Rightarrow> ('s, 'm) dispatcher \<times> listenerSpec list" where
  "remove_specs S M i [] d kept = (d, kept)"
| "remove_specs S M i (spec # specs) d kept =
     (if ls_sid spec = i then remove_specs S M i specs (removeSubscription S M (ls_ssid spec) d) kept
      else remove_specs S M i specs d (kept @ [spec]))"

definition removeListenerId :: "'s set_ops \<Rightarrow> ('m, subscription) map_ops \<Rightarrow> ws \<Rightarrow> string
    \<Rightarrow> ('s, 'm) relay_state \<Rightarrow> ('s, 'm) relay_state" where
  "removeListenerId S M w i rl =
     (case rl_clients rl w of
        None \<Rightarrow> rl
      | Some specs \<Rightarrow>
          (let (d, kept) = remove_specs S M i specs (rl_dispatcher rl) []
           in rl\<lparr>rl_dispatcher := d, rl_clients := (rl_clients rl)(w \<mapsto> kept)\<rparr>))"

definition removeClientAndListeners :: "'s set_ops \<Rightarrow> ('m, subscription) map_ops \<Rightarrow> ws
    \<Rightarrow> ('s, 'm) relay_state \<Rightarrow> ('s, 'm) relay_state" where
  "removeClientAndListeners S M w rl =
     (let rl = (case rl_clients rl w of
          None \<Rightarrow> rl
        | Some specs \<Rightarrow>
            rl\<lparr>rl_dispatcher := fold (\<lambda>spec. removeSubscription S M (ls_ssid spec)) specs (rl_dispatcher rl)\<rparr>)
      in rl\<lparr>rl_clients := (rl_clients rl)(w := None)\<rparr>)"

text \<open>\<^verbatim>\<open>rl.clients[ws] = make([]listenerSpec, 0, 2)\<close> when a websocket is opened.\<close>

definition openClient :: "ws \<Rightarrow> ('s, 'm) relay_state \<Rightarrow> ('s, 'm) relay_state" where
  "openClient w rl = rl\<lparr>rl_clients := (rl_clients rl)(w \<mapsto> [])\<rparr>"

text \<open>
  What is written to whom, and how many listeners were notified.  \<open>PreventBroadcast\<close> is the
  optional hook of the relay.
\<close>

fun notify_loop :: "(ws option \<Rightarrow> Filter \<Rightarrow> event \<Rightarrow> bool) option \<Rightarrow> bool \<Rightarrow> event \<Rightarrow> subscription list \<Rightarrow> nat
    \<Rightarrow> (ws option \<times> string \<times> event) list \<times> nat" where
  "notify_loop prevent skipPrevent event [] n = ([], n)"
| "notify_loop prevent skipPrevent event (sub # subs) n =
     (if \<not> skipPrevent \<and> (case prevent of None \<Rightarrow> False | Some p \<Rightarrow> p (sub_ws sub) (sub_filter sub) event)
      then notify_loop prevent skipPrevent event subs n
      else let (out, n) = notify_loop prevent skipPrevent event subs (n + 1)
           in ((sub_ws sub, sub_id sub, event) # out, n))"

definition notifyListeners :: "'s set_ops \<Rightarrow> ('m, subscription) map_ops
    \<Rightarrow> (ws option \<Rightarrow> Filter \<Rightarrow> event \<Rightarrow> bool) option \<Rightarrow> ('s, 'm) relay_state \<Rightarrow> event \<Rightarrow> bool
    \<Rightarrow> (ws option \<times> string \<times> event) list \<times> nat" where
  "notifyListeners S M prevent rl event skipPrevent =
     notify_loop prevent skipPrevent event (candidates S M (rl_dispatcher rl) event) 0"

definition BroadcastEvent :: "'s set_ops \<Rightarrow> ('m, subscription) map_ops
    \<Rightarrow> (ws option \<Rightarrow> Filter \<Rightarrow> event \<Rightarrow> bool) option \<Rightarrow> ('s, 'm) relay_state \<Rightarrow> event
    \<Rightarrow> (ws option \<times> string \<times> event) list \<times> nat" where
  "BroadcastEvent S M prevent rl evt = notifyListeners S M prevent rl evt False"

definition ForceBroadcastEvent :: "'s set_ops \<Rightarrow> ('m, subscription) map_ops
    \<Rightarrow> (ws option \<Rightarrow> Filter \<Rightarrow> event \<Rightarrow> bool) option \<Rightarrow> ('s, 'm) relay_state \<Rightarrow> event
    \<Rightarrow> (ws option \<times> string \<times> event) list \<times> nat" where
  "ForceBroadcastEvent S M prevent rl evt = notifyListeners S M prevent rl evt True"

section \<open>The indexes\<close>

lemma in_opt_list: "x \<in> set (opt_list l) \<longleftrightarrow> (\<exists>xs. l = Some xs \<and> x \<in> set xs)"
  by (cases l) auto

definition tidy_sub :: "subscription \<Rightarrow> bool" where
  "tidy_sub sub \<longleftrightarrow> distinct (opt_list (fAuthors (sub_filter sub))) \<and> distinct (opt_list (fKinds (sub_filter sub)))"

context containers
begin

definition idx :: "('k \<rightharpoonup> 's) \<Rightarrow> 'k \<Rightarrow> int set" where
  "idx m k = (case m k of None \<Rightarrow> {} | Some s \<Rightarrow> set (set_Slice S s))"

definition no_empty :: "('k \<rightharpoonup> 's) \<Rightarrow> bool" where
  "no_empty m \<longleftrightarrow> (\<forall>k s. m k = Some s \<longrightarrow> (\<exists>x. x \<in> set (set_Slice S s)))"

lemma index_add: "idx (index_add S x k m) k' = (if k' = k then insert x (idx m k') else idx m k')"
  "no_empty m \<Longrightarrow> no_empty (index_add S x k m)"
  by (auto simp: idx_def index_add_def no_empty_def slice_add slice_new split: option.splits)

lemma index_add_all:
  "idx (fold (index_add S x) ks m) k' = (if k' \<in> set ks then insert x (idx m k') else idx m k')"
  "no_empty m \<Longrightarrow> no_empty (fold (index_add S x) ks m)"
  by (induction ks arbitrary: m) (auto simp: index_add)

lemma index_remove:
  "x \<in> idx m k \<Longrightarrow> \<exists>m'. index_remove S x k m = Some m' \<and>
     (\<forall>k'. idx m' k' = (if k' = k then idx m k' - {x} else idx m k')) \<and> (no_empty m \<longrightarrow> no_empty m')"
proof -
  assume "x \<in> idx m k"
  then obtain s where s: "m k = Some s" by (auto simp: idx_def split: option.splits)
  let ?s' = "set_Remove S x s"
  have e: "set (set_Slice S ?s') = set (set_Slice S s) - {x}" by (rule slice_remove)
  show ?thesis
  proof (cases "set_Len S ?s' = 0")
    case True
    then have "set (set_Slice S s) - {x} = {}" unfolding e [symmetric] by (simp add: len)
    then show ?thesis using s True by (auto simp: idx_def index_remove_def no_empty_def)
  next
    case False
    then have "\<exists>y. y \<in> set (set_Slice S ?s')" by (simp only: len_0 not_not)
    then show ?thesis using s False e by (auto simp: idx_def index_remove_def no_empty_def Let_def)
  qed
qed

lemma index_remove_all:
  "distinct ks \<Longrightarrow> \<forall>k \<in> set ks. x \<in> idx m k \<Longrightarrow> \<exists>m'. index_remove_all S x ks m = (m', True) \<and>
     (\<forall>k'. idx m' k' = (if k' \<in> set ks then idx m k' - {x} else idx m k')) \<and> (no_empty m \<longrightarrow> no_empty m')"
proof (induction ks arbitrary: m)
  case Nil
  then show ?case by simp
next
  case (Cons k ks)
  obtain m1 where m1: "index_remove S x k m = Some m1"
    "\<forall>k'. idx m1 k' = (if k' = k then idx m k' - {x} else idx m k')" "no_empty m \<longrightarrow> no_empty m1"
    using index_remove [of x m k] Cons.prems by auto
  then have "\<forall>k' \<in> set ks. x \<in> idx m1 k'" using Cons.prems by auto
  then obtain m2 where "index_remove_all S x ks m1 = (m2, True)"
    "\<forall>k'. idx m2 k' = (if k' \<in> set ks then idx m1 k' - {x} else idx m1 k')" "no_empty m1 \<longrightarrow> no_empty m2"
    using Cons.IH [of m1] Cons.prems(1) by auto
  then show ?case using m1 Cons.prems(1) by auto
qed

end

text \<open>The live subscriptions, and the invariant of the dispatcher.\<close>

locale dispatching = containers S M for S :: "'s set_ops" and M :: "('m, subscription) map_ops"
begin

definition live :: "('s, 'm) dispatcher \<Rightarrow> int \<rightharpoonup> subscription" where
  "live d = map_Load M (d_subscriptions d)"

definition disp_inv :: "('s, 'm) dispatcher \<Rightarrow> bool" where
  "disp_inv d \<longleftrightarrow>
     (\<forall>i \<in> dom (live d). i \<le> d_serial d) \<and>
     no_empty (d_byAuthor d) \<and> no_empty (d_byKind d) \<and>
     (\<forall>a. idx (d_byAuthor d) a =
        {i. \<exists>sub as. live d i = Some sub \<and> fAuthors (sub_filter sub) = Some as \<and> a \<in> set as}) \<and>
     (\<forall>k. idx (d_byKind d) k =
        {i. \<exists>sub ks. live d i = Some sub \<and> fKinds (sub_filter sub) = Some ks \<and> k \<in> set ks}) \<and>
     set (set_Slice S (d_fallback d)) =
        {i. \<exists>sub. live d i = Some sub \<and> fAuthors (sub_filter sub) = None \<and> fKinds (sub_filter sub) = None}"

lemma new_inv: "disp_inv (newDispatcher S M)" "live (newDispatcher S M) = Map.empty"
  by (auto simp: disp_inv_def live_def newDispatcher_def load_new slice_new idx_def no_empty_def)

lemma add_live:
  "addSubscription S M sub d = (d', i) \<Longrightarrow> live d' = (live d)(i \<mapsto> sub) \<and> i = d_serial d + 1 \<and> d_serial d' = i"
  by (auto simp: addSubscription_def Let_def live_def load_store fun_eq_iff split: option.splits if_splits)

lemma add_inv:
  assumes inv: "disp_inv d" and add: "addSubscription S M sub d = (d', i)"
  shows "disp_inv d' \<and> live d i = None"
proof -
  have i: "i = d_serial d + 1" "d_serial d' = i" "live d' = (live d)(i \<mapsto> sub)" using add_live [OF add] by auto
  have fresh: "live d i = None"
    using inv i(1) unfolding disp_inv_def by (metis add_le_same_cancel1 domIff not_one_le_zero)
  have dA: "d_byAuthor d' = fold (index_add S i) (opt_list (fAuthors (sub_filter sub))) (d_byAuthor d)"
    and dK: "d_byKind d' = fold (index_add S i) (opt_list (fKinds (sub_filter sub))) (d_byKind d)"
    and dF: "set (set_Slice S (d_fallback d')) = set (set_Slice S (d_fallback d)) \<union>
      (if fAuthors (sub_filter sub) = None \<and> fKinds (sub_filter sub) = None then {i} else {})"
    using add by (auto simp: addSubscription_def Let_def slice_add split: option.splits if_splits)
  have "\<forall>j \<in> dom (live d'). j \<le> d_serial d'"
  proof
    fix j
    assume j: "j \<in> dom (live d')"
    show "j \<le> d_serial d'"
    proof (cases "j = i")
      case False
      then have "j \<in> dom (live d)" using j i(3) by auto
      then have "j \<le> d_serial d" using inv by (simp add: disp_inv_def)
      then show ?thesis using i by simp
    qed (use i in simp)
  qed
  moreover have "no_empty (d_byAuthor d')" "no_empty (d_byKind d')"
    unfolding dA dK using inv index_add_all(2) by (auto simp: disp_inv_def)
  moreover have "idx (d_byAuthor d') a =
      {i. \<exists>sub as. live d' i = Some sub \<and> fAuthors (sub_filter sub) = Some as \<and> a \<in> set as}" for a
    unfolding dA index_add_all(1) i(3) using inv fresh by (auto simp: disp_inv_def in_opt_list)
  moreover have "idx (d_byKind d') k =
      {i. \<exists>sub ks. live d' i = Some sub \<and> fKinds (sub_filter sub) = Some ks \<and> k \<in> set ks}" for k
    unfolding dK index_add_all(1) i(3) using inv fresh by (auto simp: disp_inv_def in_opt_list)
  moreover have "set (set_Slice S (d_fallback d')) =
      {i. \<exists>sub. live d' i = Some sub \<and> fAuthors (sub_filter sub) = None \<and> fKinds (sub_filter sub) = None}"
    unfolding dF i(3) using inv fresh by (auto simp: disp_inv_def split: if_splits)
  ultimately show ?thesis using fresh by (simp add: disp_inv_def)
qed

lemma remove_live: "live (removeSubscription S M i d) = (live d)(i := None)"
  by (auto simp: removeSubscription_def Let_def live_def load_delete fun_eq_iff split_beta split: option.splits)

lemma remove_inv:
  assumes inv: "disp_inv d" and tidy: "\<forall>sub \<in> ran (live d). tidy_sub sub"
  shows "disp_inv (removeSubscription S M i d)"
proof (cases "live d i")
  case None
  then show ?thesis using inv by (simp add: removeSubscription_def live_def)
next
  case (Some sub)
  let ?A = "opt_list (fAuthors (sub_filter sub))" and ?K = "opt_list (fKinds (sub_filter sub))"
  have t: "distinct ?A" "distinct ?K" using tidy Some by (auto simp: tidy_sub_def ran_def)
  have inA: "\<forall>a \<in> set ?A. i \<in> idx (d_byAuthor d) a"
    using inv Some by (auto simp: disp_inv_def in_opt_list)
  have inK: "\<forall>k \<in> set ?K. i \<in> idx (d_byKind d) k"
    using inv Some by (auto simp: disp_inv_def in_opt_list)
  obtain mA where A: "index_remove_all S i ?A (d_byAuthor d) = (mA, True)"
    "\<forall>a. idx mA a = (if a \<in> set ?A then idx (d_byAuthor d) a - {i} else idx (d_byAuthor d) a)" "no_empty mA"
    using index_remove_all [OF t(1) inA] inv by (auto simp: disp_inv_def)
  obtain mK where K: "index_remove_all S i ?K (d_byKind d) = (mK, True)"
    "\<forall>k. idx mK k = (if k \<in> set ?K then idx (d_byKind d) k - {i} else idx (d_byKind d) k)" "no_empty mK"
    using index_remove_all [OF t(2) inK] inv by (auto simp: disp_inv_def)
  let ?d = "removeSubscription S M i d"
  have d: "d_byAuthor ?d = mA" "d_byKind ?d = mK" "d_serial ?d = d_serial d"
    "set (set_Slice S (d_fallback ?d)) = set (set_Slice S (d_fallback d)) -
      (if fAuthors (sub_filter sub) = None \<and> fKinds (sub_filter sub) = None then {i} else {})"
    using Some A K by (auto simp: removeSubscription_def live_def Let_def slice_remove)
  have l: "live ?d = (live d)(i := None)" by (rule remove_live)
  have "\<forall>j \<in> dom (live ?d). j \<le> d_serial ?d" using inv by (auto simp: l d disp_inv_def)
  moreover have "no_empty (d_byAuthor ?d)" "no_empty (d_byKind ?d)" using A K by (simp_all add: d)
  moreover have "idx (d_byAuthor ?d) a =
      {j. \<exists>sub as. live ?d j = Some sub \<and> fAuthors (sub_filter sub) = Some as \<and> a \<in> set as}" for a
    unfolding d l using inv A(2) Some by (auto simp: disp_inv_def in_opt_list)
  moreover have "idx (d_byKind ?d) k =
      {j. \<exists>sub ks. live ?d j = Some sub \<and> fKinds (sub_filter sub) = Some ks \<and> k \<in> set ks}" for k
    unfolding d l using inv K(2) Some by (auto simp: disp_inv_def in_opt_list)
  moreover have "set (set_Slice S (d_fallback ?d)) =
      {j. \<exists>sub. live ?d j = Some sub \<and> fAuthors (sub_filter sub) = None \<and> fKinds (sub_filter sub) = None}"
    unfolding d l using inv Some by (auto simp: disp_inv_def split: if_splits)
  ultimately show ?thesis by (simp add: disp_inv_def)
qed

end

section \<open>Who is notified\<close>

text \<open>A subscription wants an event when its filter, without the ids, matches it.\<close>

definition wants :: "Filter \<Rightarrow> event \<Rightarrow> bool" where
  "wants f e \<longleftrightarrow> Matches (f\<lparr>fIDs := None\<rparr>) e"

lemma wants_iff: "wants f e \<longleftrightarrow> filterMatchesTimestampConstraintsAndTags f e \<and>
    (\<forall>as. fAuthors f = Some as \<longrightarrow> evPubKey e \<in> set as) \<and> (\<forall>ks. fKinds f = Some ks \<longrightarrow> evKind e \<in> set ks)"
  by (auto simp: wants_def Matches_iff MatchesIgnoring_iff filterMatchesTimestampConstraintsAndTags_def list_all_iff)

context dispatching
begin

lemma byAuthor_iff:
  assumes "disp_inv d"
  shows "i \<in> idx (d_byAuthor d) a \<longleftrightarrow> (\<exists>sub as. live d i = Some sub \<and> fAuthors (sub_filter sub) = Some as \<and> a \<in> set as)"
    "i \<in> idx (d_byKind d) k \<longleftrightarrow> (\<exists>sub ks. live d i = Some sub \<and> fKinds (sub_filter sub) = Some ks \<and> k \<in> set ks)"
    "i \<in> set (set_Slice S (d_fallback d)) \<longleftrightarrow>
      (\<exists>sub. live d i = Some sub \<and> fAuthors (sub_filter sub) = None \<and> fKinds (sub_filter sub) = None)"
  using assms unfolding disp_inv_def by auto

lemma load_live: "live d i = Some sub \<Longrightarrow> load_sub M d i = sub"
  by (simp add: load_sub_def live_def)

text \<open>The members of the three sources of candidates, as predicates on the id.\<close>

lemma candidate_ssids_idx:
  "set (candidate_ssids S M d e) =
     (let f = (\<lambda>i. sub_filter (load_sub M d i)); ok = (\<lambda>i. filterMatchesTimestampConstraintsAndTags (f i) e);
          A = idx (d_byAuthor d) (evPubKey e); K = idx (d_byKind d) (evKind e); F = set (set_Slice S (d_fallback d))
      in {i. ok i \<and> (i \<in> A \<and> (i \<in> K \<or> fKinds (f i) = None) \<or> i \<in> K \<and> fAuthors (f i) = None \<or> i \<in> F)})"
  by (auto simp: candidate_ssids_def Let_def idx_def has split: option.splits)

lemma candidates_exact:
  assumes inv: "disp_inv d"
  shows "set (candidate_ssids S M d e) = {i. \<exists>sub. live d i = Some sub \<and> wants (sub_filter sub) e}"
proof -
  have "i \<in> set (candidate_ssids S M d e) \<longleftrightarrow> (\<exists>sub. live d i = Some sub \<and> wants (sub_filter sub) e)" for i
  proof (cases "live d i")
    case None
    then show ?thesis
      unfolding candidate_ssids_idx Let_def mem_Collect_eq byAuthor_iff [OF inv] by simp
  next
    case (Some sub)
    then show ?thesis
      unfolding candidate_ssids_idx Let_def mem_Collect_eq byAuthor_iff [OF inv] load_live [OF Some] wants_iff
      by (cases "fAuthors (sub_filter sub)"; cases "fKinds (sub_filter sub)") auto
  qed
  then show ?thesis by blast
qed

lemma candidates_distinct:
  assumes inv: "disp_inv d"
  shows "distinct (candidate_ssids S M d e)"
proof -
  have A: "\<And>s i. d_byAuthor d (evPubKey e) = Some s \<Longrightarrow> i \<in> set (set_Slice S s) \<Longrightarrow>
      \<exists>sub as. live d i = Some sub \<and> fAuthors (sub_filter sub) = Some as"
    using byAuthor_iff(1) [OF inv, of _ "evPubKey e"] by (auto simp: idx_def)
  have K: "\<And>s i. d_byKind d (evKind e) = Some s \<Longrightarrow> i \<in> set (set_Slice S s) \<Longrightarrow>
      \<exists>sub ks. live d i = Some sub \<and> fKinds (sub_filter sub) = Some ks"
    using byAuthor_iff(2) [OF inv, of _ "evKind e"] by (auto simp: idx_def)
  show ?thesis
    using A K byAuthor_iff(3) [OF inv] load_live
    by (fastforce simp: candidate_ssids_def Let_def slice_distinct split: option.splits)
qed

lemma candidates_list:
  assumes "disp_inv d"
  shows "candidates S M d e = map (\<lambda>i. the (live d i)) (candidate_ssids S M d e)"
  unfolding candidates_def using candidates_exact [OF assms, of e] by (auto simp: load_live)

end

lemma notify_loop_eq:
  "notify_loop prevent skip e subs n =
     (let out = filter (\<lambda>sub. skip \<or> (case prevent of None \<Rightarrow> True | Some p \<Rightarrow> \<not> p (sub_ws sub) (sub_filter sub) e)) subs
      in (map (\<lambda>sub. (sub_ws sub, sub_id sub, e)) out, n + length out))"
  by (induction prevent skip e subs n rule: notify_loop.induct) (auto simp: Let_def split: option.splits)

section \<open>The table of clients\<close>

text \<open>One step of the relay as the listeners see it.\<close>

inductive listener_step :: "'s set_ops \<Rightarrow> ('m, subscription) map_ops \<Rightarrow> ('s, 'm) relay_state \<Rightarrow> ('s, 'm) relay_state \<Rightarrow> bool"
  for S M where
  step_open: "rl_clients rl w = None \<Longrightarrow> listener_step S M rl (openClient w rl)"
| step_add: "distinct (opt_list (fAuthors f)) \<Longrightarrow> distinct (opt_list (fKinds f)) \<Longrightarrow>
    listener_step S M rl (addListener S M w i f rl)"
| step_close: "listener_step S M rl (removeListenerId S M w i rl)"
| step_gone: "listener_step S M rl (removeClientAndListeners S M w rl)"

inductive listener_reach :: "'s set_ops \<Rightarrow> ('m, subscription) map_ops \<Rightarrow> ('s, 'm) relay_state \<Rightarrow> bool"
  for S M where
  reach_new: "listener_reach S M \<lparr>rl_dispatcher = newDispatcher S M, rl_clients = Map.empty\<rparr>"
| reach_step: "listener_reach S M rl \<Longrightarrow> listener_step S M rl rl' \<Longrightarrow> listener_reach S M rl'"

inductive_cases listener_stepE: "listener_step S M rl rl'"

context dispatching
begin

text \<open>The table lists exactly the live subscriptions of each client.\<close>

definition specs_of :: "('s, 'm) relay_state \<Rightarrow> ws \<Rightarrow> listenerSpec list" where
  "specs_of rl w = (case rl_clients rl w of None \<Rightarrow> [] | Some specs \<Rightarrow> specs)"

definition rl_inv :: "('s, 'm) relay_state \<Rightarrow> bool" where
  "rl_inv rl \<longleftrightarrow> disp_inv (rl_dispatcher rl) \<and> (\<forall>sub \<in> ran (live (rl_dispatcher rl)). tidy_sub sub) \<and>
     (\<forall>j sub. live (rl_dispatcher rl) j = Some sub \<longrightarrow>
        (\<exists>w. sub_ws sub = Some w \<and> \<lparr>ls_ssid = j, ls_sid = sub_id sub\<rparr> \<in> set (specs_of rl w))) \<and>
     (\<forall>w. \<forall>spec \<in> set (specs_of rl w). \<exists>sub. live (rl_dispatcher rl) (ls_ssid spec) = Some sub \<and>
        sub_ws sub = Some w \<and> sub_id sub = ls_sid spec)"

lemma listed: "rl_inv rl \<Longrightarrow> live (rl_dispatcher rl) j = Some sub \<Longrightarrow> sub_ws sub = Some w \<Longrightarrow>
    \<lparr>ls_ssid = j, ls_sid = sub_id sub\<rparr> \<in> set (specs_of rl w)"
  unfolding rl_inv_def by (metis option.inject)

lemma spec_live: "rl_inv rl \<Longrightarrow> spec \<in> set (specs_of rl w) \<Longrightarrow>
    \<exists>sub. live (rl_dispatcher rl) (ls_ssid spec) = Some sub \<and> sub_ws sub = Some w \<and> sub_id sub = ls_sid spec"
  unfolding rl_inv_def by blast

lemma remove_specs_eq:
  "disp_inv d \<Longrightarrow> \<forall>sub \<in> ran (live d). tidy_sub sub \<Longrightarrow>
   \<exists>d'. remove_specs S M i specs d kept = (d', kept @ filter (\<lambda>spec. ls_sid spec \<noteq> i) specs) \<and>
     disp_inv d' \<and> live d' = (live d) |` (- (ls_ssid ` {spec \<in> set specs. ls_sid spec = i}))"
proof (induction specs arbitrary: d kept)
  case Nil
  then show ?case by simp
next
  case (Cons spec specs)
  show ?case
  proof (cases "ls_sid spec = i")
    case True
    let ?d = "removeSubscription S M (ls_ssid spec) d"
    have d: "disp_inv ?d" "live ?d = (live d)(ls_ssid spec := None)"
      using remove_inv [OF Cons.prems] remove_live by auto
    have t: "\<forall>sub \<in> ran (live ?d). tidy_sub sub" using Cons.prems(2) d(2) by (auto simp: ran_def)
    have r: "((live d)(ls_ssid spec := None)) |` (- (ls_ssid ` {s \<in> set specs. ls_sid s = i}))
        = (live d) |` (- (ls_ssid ` {s \<in> set (spec # specs). ls_sid s = i}))"
      using True by (auto simp: restrict_map_def fun_eq_iff)
    obtain d' where "remove_specs S M i specs ?d kept = (d', kept @ filter (\<lambda>s. ls_sid s \<noteq> i) specs)"
      "disp_inv d'" "live d' = (live ?d) |` (- (ls_ssid ` {s \<in> set specs. ls_sid s = i}))"
      using Cons.IH [OF d(1) t, of kept] by blast
    then show ?thesis using True by (simp only: d(2) r) simp
  next
    case False
    then have "{s \<in> set (spec # specs). ls_sid s = i} = {s \<in> set specs. ls_sid s = i}" by auto
    then show ?thesis using False Cons.IH [OF Cons.prems, of "kept @ [spec]"] by auto
  qed
qed

lemma remove_fold:
  "disp_inv d \<Longrightarrow> \<forall>sub \<in> ran (live d). tidy_sub sub \<Longrightarrow>
   disp_inv (fold (\<lambda>spec. removeSubscription S M (ls_ssid spec)) specs d) \<and>
   live (fold (\<lambda>spec. removeSubscription S M (ls_ssid spec)) specs d) = (live d) |` (- (ls_ssid ` set specs))"
proof (induction specs arbitrary: d)
  case Nil
  then show ?case by simp
next
  case (Cons spec specs)
  let ?d = "removeSubscription S M (ls_ssid spec) d"
  have d: "disp_inv ?d" "live ?d = (live d)(ls_ssid spec := None)"
    using remove_inv [OF Cons.prems] remove_live by auto
  have t: "\<forall>sub \<in> ran (live ?d). tidy_sub sub" using Cons.prems(2) d(2) by (auto simp: ran_def)
  show ?case using Cons.IH [OF d(1) t] d(2) by (auto simp: restrict_map_def fun_eq_iff)
qed

text \<open>The live listeners after each operation.\<close>

lemma live_close:
  assumes inv: "rl_inv rl"
  shows "live (rl_dispatcher (removeListenerId S M w i rl)) =
      (live (rl_dispatcher rl)) |` {j. \<not> (\<exists>sub. live (rl_dispatcher rl) j = Some sub \<and> sub_ws sub = Some w \<and> sub_id sub = i)}"
    "disp_inv (rl_dispatcher (removeListenerId S M w i rl))"
    "specs_of (removeListenerId S M w i rl) w' =
      (if w' = w then filter (\<lambda>spec. ls_sid spec \<noteq> i) (specs_of rl w) else specs_of rl w')"
proof -
  let ?d = "rl_dispatcher rl"
  obtain d' where d': "remove_specs S M i (specs_of rl w) ?d [] = (d', filter (\<lambda>spec. ls_sid spec \<noteq> i) (specs_of rl w))"
    "disp_inv d'" "live d' = (live ?d) |` (- (ls_ssid ` {spec \<in> set (specs_of rl w). ls_sid spec = i}))"
    using remove_specs_eq [of ?d i "specs_of rl w" "[]"] inv by (auto simp: rl_inv_def)
  have gone: "j \<in> ls_ssid ` {spec \<in> set (specs_of rl w). ls_sid spec = i} \<longleftrightarrow>
      (\<exists>sub. live ?d j = Some sub \<and> sub_ws sub = Some w \<and> sub_id sub = i)" for j
  proof
    assume "j \<in> ls_ssid ` {spec \<in> set (specs_of rl w). ls_sid spec = i}"
    then show "\<exists>sub. live ?d j = Some sub \<and> sub_ws sub = Some w \<and> sub_id sub = i"
      using spec_live [OF inv] by auto
  next
    assume "\<exists>sub. live ?d j = Some sub \<and> sub_ws sub = Some w \<and> sub_id sub = i"
    then obtain sub where sub: "live ?d j = Some sub" "sub_ws sub = Some w" "sub_id sub = i" by blast
    then have "\<lparr>ls_ssid = j, ls_sid = i\<rparr> \<in> set (specs_of rl w)" using listed [OF inv] by auto
    then show "j \<in> ls_ssid ` {spec \<in> set (specs_of rl w). ls_sid spec = i}" by force
  qed
  have "live d' = (live ?d) |` {j. \<not> (\<exists>sub. live ?d j = Some sub \<and> sub_ws sub = Some w \<and> sub_id sub = i)}"
    unfolding d'(3) by (rule arg_cong [where f = "restrict_map (live ?d)"]) (use gone in auto)
  moreover have "rl_clients rl w = None \<Longrightarrow> d' = ?d" using d'(1) by (simp add: specs_of_def)
  ultimately show "live (rl_dispatcher (removeListenerId S M w i rl)) =
      (live ?d) |` {j. \<not> (\<exists>sub. live ?d j = Some sub \<and> sub_ws sub = Some w \<and> sub_id sub = i)}"
    "disp_inv (rl_dispatcher (removeListenerId S M w i rl))"
    "specs_of (removeListenerId S M w i rl) w' =
      (if w' = w then filter (\<lambda>spec. ls_sid spec \<noteq> i) (specs_of rl w) else specs_of rl w')"
    using d' by (auto simp: removeListenerId_def specs_of_def split: option.splits)
qed

lemma live_gone:
  assumes inv: "rl_inv rl"
  shows "live (rl_dispatcher (removeClientAndListeners S M w rl)) =
      (live (rl_dispatcher rl)) |` {j. \<not> (\<exists>sub. live (rl_dispatcher rl) j = Some sub \<and> sub_ws sub = Some w)}"
    "disp_inv (rl_dispatcher (removeClientAndListeners S M w rl))"
    "specs_of (removeClientAndListeners S M w rl) w' = (if w' = w then [] else specs_of rl w')"
proof -
  let ?d = "rl_dispatcher rl"
  note r = remove_fold [of ?d "specs_of rl w"]
  have gone: "j \<in> ls_ssid ` set (specs_of rl w) \<longleftrightarrow> (\<exists>sub. live ?d j = Some sub \<and> sub_ws sub = Some w)" for j
  proof
    assume "j \<in> ls_ssid ` set (specs_of rl w)"
    then show "\<exists>sub. live ?d j = Some sub \<and> sub_ws sub = Some w" using spec_live [OF inv] by auto
  next
    assume "\<exists>sub. live ?d j = Some sub \<and> sub_ws sub = Some w"
    then obtain sub where sub: "live ?d j = Some sub" "sub_ws sub = Some w" by blast
    then have "\<lparr>ls_ssid = j, ls_sid = sub_id sub\<rparr> \<in> set (specs_of rl w)" using listed [OF inv] by auto
    then show "j \<in> ls_ssid ` set (specs_of rl w)" by force
  qed
  have d: "rl_dispatcher (removeClientAndListeners S M w rl)
      = fold (\<lambda>spec. removeSubscription S M (ls_ssid spec)) (specs_of rl w) ?d"
    by (auto simp: removeClientAndListeners_def specs_of_def Let_def split: option.splits)
  show "live (rl_dispatcher (removeClientAndListeners S M w rl)) =
      (live ?d) |` {j. \<not> (\<exists>sub. live ?d j = Some sub \<and> sub_ws sub = Some w)}"
  proof -
    have "- (ls_ssid ` set (specs_of rl w)) = {j. \<not> (\<exists>sub. live ?d j = Some sub \<and> sub_ws sub = Some w)}"
      using gone by blast
    then show ?thesis unfolding d using r inv by (simp add: rl_inv_def)
  qed
  show "disp_inv (rl_dispatcher (removeClientAndListeners S M w rl))"
    unfolding d using r inv by (simp add: rl_inv_def)
  show "specs_of (removeClientAndListeners S M w rl) w' = (if w' = w then [] else specs_of rl w')"
    by (auto simp: removeClientAndListeners_def specs_of_def Let_def split: option.splits)
qed

end

context dispatching
begin

lemma live_add:
  assumes "rl_clients rl w = Some specs"
  obtains d' j where "addSubscription S M \<lparr>sub_id = i, sub_filter = f, sub_ws = Some w\<rparr> (rl_dispatcher rl) = (d', j)"
    "rl_dispatcher (addListener S M w i f rl) = d'"
    "\<And>w'. specs_of (addListener S M w i f rl) w' =
      (if w' = w then specs @ [\<lparr>ls_ssid = j, ls_sid = i\<rparr>] else specs_of rl w')"
  using assms that
  by (cases "addSubscription S M \<lparr>sub_id = i, sub_filter = f, sub_ws = Some w\<rparr> (rl_dispatcher rl)")
    (auto simp: addListener_def specs_of_def)

lemma add_rl_inv:
  assumes inv: "rl_inv rl" and tidy: "distinct (opt_list (fAuthors f))" "distinct (opt_list (fKinds f))"
  shows "rl_inv (addListener S M w i f rl)"
proof (cases "rl_clients rl w")
  case None
  then show ?thesis using inv by (simp add: addListener_def)
next
  case (Some specs)
  let ?sub = "\<lparr>sub_id = i, sub_filter = f, sub_ws = Some w\<rparr>" and ?d = "rl_dispatcher rl"
  obtain d' j where add: "addSubscription S M ?sub ?d = (d', j)"
    and rl': "rl_dispatcher (addListener S M w i f rl) = d'"
    and sp: "\<And>w'. specs_of (addListener S M w i f rl) w' =
      (if w' = w then specs @ [\<lparr>ls_ssid = j, ls_sid = i\<rparr>] else specs_of rl w')"
    by (rule live_add [OF Some, where i = i and f = f]) (rule that)
  have inv': "disp_inv d'" "live ?d j = None" using add_inv [OF _ add] inv by (auto simp: rl_inv_def)
  have l: "live d' = (live ?d)(j \<mapsto> ?sub)" using add_live [OF add] by simp
  have sp_old: "specs_of rl w = specs" using Some by (simp add: specs_of_def)
  have "\<forall>sub \<in> ran (live d'). tidy_sub sub"
    using inv tidy inv'(2) by (simp add: l rl_inv_def tidy_sub_def)
  moreover have "\<exists>w'. sub_ws sub = Some w' \<and>
      \<lparr>ls_ssid = k, ls_sid = sub_id sub\<rparr> \<in> set (specs_of (addListener S M w i f rl) w')"
    if k: "live d' k = Some sub" for k sub
  proof (cases "k = j")
    case True
    then have "sub = ?sub" using k by (simp add: l)
    then show ?thesis using True by (intro exI [of _ w]) (simp add: sp)
  next
    case False
    then have "live ?d k = Some sub" using k by (simp add: l)
    then show ?thesis using inv sp_old unfolding rl_inv_def sp by fastforce
  qed
  moreover have "\<exists>sub. live d' (ls_ssid spec) = Some sub \<and> sub_ws sub = Some w' \<and> sub_id sub = ls_sid spec"
    if m: "spec \<in> set (specs_of (addListener S M w i f rl) w')" for w' spec
  proof (cases "spec = \<lparr>ls_ssid = j, ls_sid = i\<rparr> \<and> w' = w")
    case True
    then show ?thesis by (simp add: l)
  next
    case False
    then have "spec \<in> set (specs_of rl w')" using m sp_old by (auto simp: sp split: if_splits)
    from spec_live [OF inv this] show ?thesis using inv'(2) by (auto simp: l)
  qed
  ultimately show ?thesis using inv'(1) by (simp add: rl_inv_def rl')
qed

lemma restrict_rl_inv:
  assumes inv: "rl_inv rl" and d: "disp_inv (rl_dispatcher rl')"
    and l: "live (rl_dispatcher rl') = (live (rl_dispatcher rl)) |` {j. \<forall>sub. live (rl_dispatcher rl) j = Some sub \<longrightarrow> keep sub}"
    and sp: "\<And>w. set (specs_of rl' w) = {spec \<in> set (specs_of rl w).
      \<forall>sub. live (rl_dispatcher rl) (ls_ssid spec) = Some sub \<longrightarrow> keep sub}"
  shows "rl_inv rl'"
proof -
  have sub: "live (rl_dispatcher rl') j = Some sub \<longleftrightarrow> live (rl_dispatcher rl) j = Some sub \<and> keep sub" for j sub
    by (auto simp: l restrict_map_def)
  have "\<forall>sub \<in> ran (live (rl_dispatcher rl')). tidy_sub sub"
    using inv sub by (auto simp: rl_inv_def ran_def)
  moreover have "\<exists>w. sub_ws sub = Some w \<and> \<lparr>ls_ssid = j, ls_sid = sub_id sub\<rparr> \<in> set (specs_of rl' w)"
    if "live (rl_dispatcher rl') j = Some sub" for j sub
    using that inv unfolding sub sp rl_inv_def by fastforce
  moreover have "\<exists>sub. live (rl_dispatcher rl') (ls_ssid spec) = Some sub \<and> sub_ws sub = Some w \<and> sub_id sub = ls_sid spec"
    if "spec \<in> set (specs_of rl' w)" for w spec
    using that spec_live [OF inv, of spec w] unfolding sub sp by auto
  ultimately show ?thesis using d by (simp add: rl_inv_def)
qed

lemma close_rl_inv: "rl_inv rl \<Longrightarrow> rl_inv (removeListenerId S M w i rl)"
proof (rule restrict_rl_inv [where keep = "\<lambda>sub. \<not> (sub_ws sub = Some w \<and> sub_id sub = i)"])
  assume inv: "rl_inv rl"
  note c = live_close [OF inv, of w i]
  show "disp_inv (rl_dispatcher (removeListenerId S M w i rl))" by (rule c(2))
  show "live (rl_dispatcher (removeListenerId S M w i rl)) = (live (rl_dispatcher rl)) |`
      {j. \<forall>sub. live (rl_dispatcher rl) j = Some sub \<longrightarrow> \<not> (sub_ws sub = Some w \<and> sub_id sub = i)}"
    unfolding c(1) by (rule arg_cong [where f = "restrict_map (live (rl_dispatcher rl))"]) auto
  show "set (specs_of (removeListenerId S M w i rl) w') = {spec \<in> set (specs_of rl w').
      \<forall>sub. live (rl_dispatcher rl) (ls_ssid spec) = Some sub \<longrightarrow> \<not> (sub_ws sub = Some w \<and> sub_id sub = i)}" for w'
  proof (rule set_eqI)
    fix spec
    show "spec \<in> set (specs_of (removeListenerId S M w i rl) w') \<longleftrightarrow> spec \<in> {spec \<in> set (specs_of rl w').
      \<forall>sub. live (rl_dispatcher rl) (ls_ssid spec) = Some sub \<longrightarrow> \<not> (sub_ws sub = Some w \<and> sub_id sub = i)}"
    proof (cases "spec \<in> set (specs_of rl w')")
      case True
      then obtain sub where "live (rl_dispatcher rl) (ls_ssid spec) = Some sub" "sub_ws sub = Some w'" "sub_id sub = ls_sid spec"
        using spec_live [OF inv] by blast
      then show ?thesis using True by (auto simp: c(3))
    qed (auto simp: c(3))
  qed
qed

lemma gone_rl_inv: "rl_inv rl \<Longrightarrow> rl_inv (removeClientAndListeners S M w rl)"
proof (rule restrict_rl_inv [where keep = "\<lambda>sub. sub_ws sub \<noteq> Some w"])
  assume inv: "rl_inv rl"
  note c = live_gone [OF inv, of w]
  show "disp_inv (rl_dispatcher (removeClientAndListeners S M w rl))" by (rule c(2))
  show "live (rl_dispatcher (removeClientAndListeners S M w rl)) = (live (rl_dispatcher rl)) |`
      {j. \<forall>sub. live (rl_dispatcher rl) j = Some sub \<longrightarrow> sub_ws sub \<noteq> Some w}"
    unfolding c(1) by (rule arg_cong [where f = "restrict_map (live (rl_dispatcher rl))"]) auto
  show "set (specs_of (removeClientAndListeners S M w rl) w') = {spec \<in> set (specs_of rl w').
      \<forall>sub. live (rl_dispatcher rl) (ls_ssid spec) = Some sub \<longrightarrow> sub_ws sub \<noteq> Some w}" for w'
  proof (rule set_eqI)
    fix spec
    show "spec \<in> set (specs_of (removeClientAndListeners S M w rl) w') \<longleftrightarrow> spec \<in> {spec \<in> set (specs_of rl w').
      \<forall>sub. live (rl_dispatcher rl) (ls_ssid spec) = Some sub \<longrightarrow> sub_ws sub \<noteq> Some w}"
    proof (cases "spec \<in> set (specs_of rl w')")
      case True
      then obtain sub where "live (rl_dispatcher rl) (ls_ssid spec) = Some sub" "sub_ws sub = Some w'" "sub_id sub = ls_sid spec"
        using spec_live [OF inv] by blast
      then show ?thesis using True by (auto simp: c(3))
    qed (auto simp: c(3))
  qed
qed

lemma reach_inv: "listener_reach S M rl \<Longrightarrow> rl_inv rl"
proof (induction rule: listener_reach.induct)
  case reach_new
  then show ?case using new_inv by (auto simp: rl_inv_def specs_of_def)
next
  case (reach_step rl rl')
  from reach_step.hyps(2) show ?case
  proof (rule listener_stepE)
    fix w
    assume "rl' = openClient w rl" "rl_clients rl w = None"
    then have "rl_dispatcher rl' = rl_dispatcher rl" "specs_of rl' = specs_of rl"
      by (auto simp: openClient_def specs_of_def fun_eq_iff)
    then show "rl_inv rl'" using reach_step.IH by (simp add: rl_inv_def)
  qed (use reach_step.IH add_rl_inv close_rl_inv gone_rl_inv in auto)
qed

text \<open>
  The client-level view: after any history, an event goes to exactly the live listeners that want
  it and that the hook does not hold back, once for each, and the count is the number of writes.
\<close>

lemma notify_exact:
  assumes "listener_reach S M rl"
  shows "set (fst (notifyListeners S M prevent rl e skip)) =
      {(sub_ws sub, sub_id sub, e) |j sub. live (rl_dispatcher rl) j = Some sub \<and> wants (sub_filter sub) e \<and>
         (skip \<or> (case prevent of None \<Rightarrow> True | Some p \<Rightarrow> \<not> p (sub_ws sub) (sub_filter sub) e))}"
    and "snd (notifyListeners S M prevent rl e skip) = length (fst (notifyListeners S M prevent rl e skip))"
proof -
  let ?d = "rl_dispatcher rl"
  have inv: "disp_inv ?d" using reach_inv [OF assms] by (simp add: rl_inv_def)
  have "set (candidates S M ?d e) = {sub. \<exists>j. live ?d j = Some sub \<and> wants (sub_filter sub) e}"
    unfolding candidates_list [OF inv] set_map candidates_exact [OF inv] by force
  then show "set (fst (notifyListeners S M prevent rl e skip)) =
      {(sub_ws sub, sub_id sub, e) |j sub. live ?d j = Some sub \<and> wants (sub_filter sub) e \<and>
         (skip \<or> (case prevent of None \<Rightarrow> True | Some p \<Rightarrow> \<not> p (sub_ws sub) (sub_filter sub) e))}"
    unfolding notifyListeners_def notify_loop_eq Let_def by auto
  show "snd (notifyListeners S M prevent rl e skip) = length (fst (notifyListeners S M prevent rl e skip))"
    unfolding notifyListeners_def notify_loop_eq Let_def by simp
qed

end

section \<open>Containers on lists\<close>

text \<open>A concrete choice of the external containers, for evaluation.\<close>

definition list_set :: "int list set_ops" where
  "list_set = \<lparr>set_New = [], set_Add = (\<lambda>x s. if x \<in> set s then s else s @ [x]), set_Remove = removeAll,
     set_Has = (\<lambda>s x. x \<in> set s), set_Len = (\<lambda>s. length (remdups s)), set_Slice = remdups\<rparr>"

definition list_map :: "((int \<times> 'v) list, 'v) map_ops" where
  "list_map = \<lparr>map_New = [], map_Store = (\<lambda>k v m. (k, v) # m), map_Load = map_of,
     map_Delete = (\<lambda>k m. filter (\<lambda>p. fst p \<noteq> k) m),
     map_Range = (\<lambda>m. map (\<lambda>k. (k, the (map_of m k))) (remdups (map fst m)))\<rparr>"

lemma map_of_filter_key: "map_of (filter (\<lambda>p. fst p \<noteq> k) m) k' = (if k' = k then None else map_of m k')"
  by (induction m) auto

interpretation lists: containers list_set list_map
proof
  show "(k, v) \<in> set (map_Range list_map m) \<longleftrightarrow> map_Load list_map m k = Some v" for k v and m :: "(int \<times> 'v) list"
    by (auto simp: list_map_def image_iff map_of_eq_Some_iff dest: map_of_SomeD)
      (metis domI dom_map_of_conv_image_fst image_iff option.sel fst_conv domIff not_None_eq)+
qed (auto simp: list_set_def list_map_def map_of_filter_key)

interpretation listed: dispatching list_set list_map
  by unfold_locales

section \<open>Properties\<close>

text \<open>C19: after any history of connections, subscriptions without repeated authors or kinds, closings and
  disconnections, an event is written to exactly the live listeners whose filter, ids aside, matches
  it and that the PreventBroadcast hook lets through; the count is the number of writes.\<close>

theorem broadcast_exact:
  assumes "dispatching S M" "listener_reach S M rl"
  shows "set (fst (BroadcastEvent S M prevent rl e)) =
      {(sub_ws sub, sub_id sub, e) |j sub. map_Load M (d_subscriptions (rl_dispatcher rl)) j = Some sub \<and>
         Matches (sub_filter sub\<lparr>fIDs := None\<rparr>) e \<and>
         (case prevent of None \<Rightarrow> True | Some p \<Rightarrow> \<not> p (sub_ws sub) (sub_filter sub) e)} \<and>
    snd (BroadcastEvent S M prevent rl e) = length (fst (BroadcastEvent S M prevent rl e))"
  using dispatching.notify_exact [OF assms, of prevent e False]
  by (simp add: BroadcastEvent_def dispatching.live_def [OF assms(1)] wants_def)

text \<open>C29: the dispatcher's table of subscriptions and the table of clients stay in step: each live subscription
  is listed under its connection with its id, and each listed one is live.\<close>

theorem client_table_consistent:
  assumes "dispatching S M" "listener_reach S M rl"
  shows "(\<exists>specs. rl_clients rl w = Some specs \<and> \<lparr>ls_ssid = j, ls_sid = i\<rparr> \<in> set specs) \<longleftrightarrow>
    (\<exists>sub. map_Load M (d_subscriptions (rl_dispatcher rl)) j = Some sub \<and> sub_ws sub = Some w \<and> sub_id sub = i)"
proof -
  note inv = dispatching.reach_inv [OF assms]
  have "(\<exists>specs. rl_clients rl w = Some specs \<and> spec \<in> set specs) \<longleftrightarrow> spec \<in> set (dispatching.specs_of rl w)" for spec
    by (cases "rl_clients rl w") (simp_all add: dispatching.specs_of_def [OF assms(1)])
  then show ?thesis
    using dispatching.listed [OF assms(1) inv, of j _ w] dispatching.spec_live [OF assms(1) inv, of "\<lparr>ls_ssid = j, ls_sid = i\<rparr>" w]
    by (auto simp: dispatching.live_def [OF assms(1)])
qed

text \<open>a disconnected client gets nothing any more: after its removal no event is written to it.\<close>

theorem removed_client_silent:
  assumes "dispatching S M" "listener_reach S M rl"
  shows "(Some w, i, e') \<notin> set (fst (BroadcastEvent S M prevent (removeClientAndListeners S M w rl) e))"
proof -
  have "listener_reach S M (removeClientAndListeners S M w rl)" by (rule reach_step [OF assms(2) step_gone])
  note n = dispatching.notify_exact(1) [OF assms(1) this, of prevent e False]
  note l = dispatching.live_gone(1) [OF assms(1) dispatching.reach_inv [OF assms], of w]
  show ?thesis unfolding BroadcastEvent_def n l by (auto simp: restrict_map_def split: if_splits)
qed

text \<open>Two connections, one of them listening, for evaluation.\<close>

definition example_relay :: "(int list, (int \<times> subscription) list) relay_state" where
  "example_relay = addListener list_set list_map 1 ''s'' (empty_filter\<lparr>fKinds := Some [1]\<rparr>)
     (openClient 1 \<lparr>rl_dispatcher = newDispatcher list_set list_map, rl_clients = Map.empty\<rparr>)"

lemma example_reach: "listener_reach list_set list_map example_relay"
  unfolding example_relay_def
  by (intro reach_step [OF reach_step [OF reach_new step_open] step_add]) (simp_all add: empty_filter_def)

theorem broadcast_exact_witness:
  "snd (BroadcastEvent list_set list_map None example_relay note1) =
     length (fst (BroadcastEvent list_set list_map None example_relay note1)) \<and>
   (Some 1, ''s'', note1) \<in> set (fst (BroadcastEvent list_set list_map None example_relay note1))"
  using broadcast_exact [OF listed.dispatching_axioms example_reach, of None note1]
  by (auto simp: example_relay_def addListener_def openClient_def addSubscription_def newDispatcher_def list_map_def
      Let_def empty_filter_def Matches_iff MatchesIgnoring_iff note1_def)

theorem client_table_consistent_witness:
  "\<exists>sub. map_Load list_map (d_subscriptions (rl_dispatcher example_relay)) 1 = Some sub \<and> sub_id sub = ''s''"
proof -
  have "\<exists>specs. rl_clients example_relay 1 = Some specs \<and> \<lparr>ls_ssid = 1, ls_sid = ''s''\<rparr> \<in> set specs"
    by (simp add: example_relay_def addListener_def openClient_def addSubscription_def newDispatcher_def Let_def empty_filter_def)
  then show ?thesis
    using client_table_consistent [OF listed.dispatching_axioms example_reach, of 1 1 "''s''"] by blast
qed

theorem removed_client_silent_witness:
  "(Some 1, ''s'', note1) \<notin> set (fst (BroadcastEvent list_set list_map None
      (removeClientAndListeners list_set list_map 1 example_relay) note1))"
  by (rule removed_client_silent [OF listed.dispatching_axioms example_reach])


end
