(* ===== verification/Expiration.thy ===== *)
theory Expiration
  imports Store
begin

text \<open>
  \<^verbatim>\<open>relay/expiration.go\<close> and \<^verbatim>\<open>nip40/nip40.go\<close>: the queue of events with an expiration time, a binary
  heap in a slice kept by \<^verbatim>\<open>container/heap\<close> of the standard library.  The sift loops are
  modelled as the library has them.  \<open>heap_ok\<close> says that no element expires before its parent;
  every operation keeps it and changes the multiset as it should, so the head expires first and
  a check takes out exactly the events whose time has come.
\<close>

section \<open>Expiration tags\<close>

fun GetExpiration :: "Tags \<Rightarrow> int" where
  "GetExpiration [] = -1"
| "GetExpiration (tag # tags) =
     (if length tag \<ge> 2 \<and> tag ! 0 = ''expiration'' then
        (case strconv_ParseInt (tag ! 1) of (ts, True) \<Rightarrow> ts | (_, False) \<Rightarrow> -1)
      else GetExpiration tags)"

section \<open>The heap\<close>

record expiringEvent =
  ex_id :: ID
  ex_expiresAt :: int

definition heap_Less :: "expiringEvent list \<Rightarrow> nat \<Rightarrow> nat \<Rightarrow> bool" where
  "heap_Less h i j \<longleftrightarrow> ex_expiresAt (h ! i) < ex_expiresAt (h ! j)"

definition heap_Swap :: "expiringEvent list \<Rightarrow> nat \<Rightarrow> nat \<Rightarrow> expiringEvent list" where
  "heap_Swap h i j = h[i := h ! j, j := h ! i]"

text \<open>The element's own \<^verbatim>\<open>Push\<close> and \<^verbatim>\<open>Pop\<close> work at the end of the slice.\<close>

definition slice_Push :: "expiringEvent list \<Rightarrow> expiringEvent \<Rightarrow> expiringEvent list" where
  "slice_Push h x = h @ [x]"

definition slice_Pop :: "expiringEvent list \<Rightarrow> expiringEvent list \<times> expiringEvent" where
  "slice_Pop h = (butlast h, last h)"

text \<open>\<^verbatim>\<open>heap.up\<close>, \<^verbatim>\<open>heap.down\<close> (which also tells whether it moved), and the operations over them.\<close>

function heap_up :: "expiringEvent list \<Rightarrow> nat \<Rightarrow> expiringEvent list" where
  "heap_up h j =
     (let i = (j - 1) div 2 in
      if i = j \<or> \<not> heap_Less h j i then h else heap_up (heap_Swap h i j) i)"
  by pat_completeness auto
termination
  by (relation "measure snd") auto

text \<open>The smaller of the two children.\<close>

definition min_child :: "expiringEvent list \<Rightarrow> nat \<Rightarrow> nat \<Rightarrow> nat" where
  "min_child h i n =
     (let j1 = 2 * i + 1 in if j1 + 1 < n \<and> heap_Less h (j1 + 1) j1 then j1 + 1 else j1)"

lemma min_child_cases: "min_child h i n = 2 * i + 1 \<or> min_child h i n = 2 * i + 2"
  by (simp add: min_child_def)

lemma min_child_less: "2 * i + 1 < n \<Longrightarrow> min_child h i n < n"
  by (simp add: min_child_def)

function heap_down_loop :: "expiringEvent list \<Rightarrow> nat \<Rightarrow> nat \<Rightarrow> expiringEvent list \<times> nat" where
  "heap_down_loop h i n =
     (if 2 * i + 1 \<ge> n then (h, i)
      else
        (let j = min_child h i n
         in if \<not> heap_Less h j i then (h, i) else heap_down_loop (heap_Swap h i j) j n))"
  by pat_completeness auto
termination
proof (relation "measure (\<lambda>(h, i, n). n - i)")
  fix h i n j
  assume "\<not> n \<le> 2 * i + 1" "j = min_child h i n"
  then show "((heap_Swap h i j, j, n), h, i, n) \<in> measure (\<lambda>(h, i, n). n - i)"
    using min_child_cases [of h i n] by auto
qed simp

declare heap_up.simps [simp del] heap_down_loop.simps [simp del]

definition heap_down :: "expiringEvent list \<Rightarrow> nat \<Rightarrow> nat \<Rightarrow> expiringEvent list \<times> bool" where
  "heap_down h i0 n = (let (h, i) = heap_down_loop h i0 n in (h, i > i0))"

definition heap_Push :: "expiringEvent list \<Rightarrow> expiringEvent \<Rightarrow> expiringEvent list" where
  "heap_Push h x = (let h = slice_Push h x in heap_up h (length h - 1))"

definition heap_Pop :: "expiringEvent list \<Rightarrow> expiringEvent list \<times> expiringEvent" where
  "heap_Pop h = (let n = length h - 1; h = heap_Swap h 0 n; (h, _) = heap_down h 0 n in slice_Pop h)"

definition heap_Remove :: "expiringEvent list \<Rightarrow> nat \<Rightarrow> expiringEvent list \<times> expiringEvent" where
  "heap_Remove h i =
     (let n = length h - 1;
          h = (if n \<noteq> i then
                 (let (h, moved) = heap_down (heap_Swap h i n) i n in if \<not> moved then heap_up h i else h)
               else h)
      in slice_Pop h)"

fun heap_Init_loop :: "expiringEvent list \<Rightarrow> nat \<Rightarrow> nat \<Rightarrow> expiringEvent list" where
  "heap_Init_loop h 0 n = h"
| "heap_Init_loop h (Suc i) n = heap_Init_loop (fst (heap_down h i n)) i n"

definition heap_Init :: "expiringEvent list \<Rightarrow> expiringEvent list" where
  "heap_Init h = heap_Init_loop h (length h div 2) (length h)"

section \<open>The manager\<close>

definition trackEvent :: "ID \<Rightarrow> int \<Rightarrow> expiringEvent list \<Rightarrow> expiringEvent list" where
  "trackEvent i expiration events =
     (if expiration \<le> 0 then events else heap_Push events \<lparr>ex_id = i, ex_expiresAt = expiration\<rparr>)"

fun find_event :: "expiringEvent list \<Rightarrow> ID \<Rightarrow> nat \<Rightarrow> nat option" where
  "find_event [] i n = None"
| "find_event (e # es) i n = (if ex_id e = i then Some n else find_event es i (n + 1))"

definition removeEvent :: "ID \<Rightarrow> expiringEvent list \<Rightarrow> expiringEvent list" where
  "removeEvent i events =
     (case find_event events i 0 of None \<Rightarrow> events | Some k \<Rightarrow> fst (heap_Remove events k))"

text \<open>The scan pushes every stored event that expires; errors of the query are skipped.\<close>

definition initialScan :: "(event + string) list \<Rightarrow> expiringEvent list \<Rightarrow> expiringEvent list" where
  "initialScan stored events =
     heap_Init (fold (\<lambda>r events. case r of
          Inr _ \<Rightarrow> events
        | Inl evt \<Rightarrow>
            (let expiresAt = GetExpiration (evTags evt) in
             if expiresAt \<noteq> -1 then heap_Push events \<lparr>ex_id = evID evt, ex_expiresAt = expiresAt\<rparr> else events))
       stored events)"

section \<open>Order\<close>

definition heap_le :: "expiringEvent list \<Rightarrow> nat \<Rightarrow> nat \<Rightarrow> bool" where
  "heap_le h i j \<longleftrightarrow> ex_expiresAt (h ! i) \<le> ex_expiresAt (h ! j)"

definition parent :: "nat \<Rightarrow> nat" where
  "parent c = (c - 1) div 2"

lemma parent_less: "0 < c \<Longrightarrow> parent c < c"
  by (auto simp: parent_def)

lemma parent_child: "0 < c \<Longrightarrow> parent c = i \<longleftrightarrow> c = 2 * i + 1 \<or> c = 2 * i + 2"
  by (cases c) (auto simp: parent_def)

lemma parent_children [simp]: "parent (2 * i + 1) = i" "parent (2 * i + 2) = i" "parent (Suc (2 * i)) = i"
  "parent (Suc (Suc (2 * i))) = i"
  by (simp_all add: parent_def)

definition heap_ok :: "expiringEvent list \<Rightarrow> bool" where
  "heap_ok h \<longleftrightarrow> (\<forall>c. 0 < c \<and> c < length h \<longrightarrow> heap_le h (parent c) c)"

lemma length_Swap [simp]: "length (heap_Swap h i j) = length h"
  by (simp add: heap_Swap_def)

lemma mset_Swap [simp]: "i < length h \<Longrightarrow> j < length h \<Longrightarrow> mset (heap_Swap h i j) = mset h"
  by (simp add: heap_Swap_def mset_swap)

lemma nth_Swap: "i < length h \<Longrightarrow> j < length h \<Longrightarrow>
    heap_Swap h i j ! k = (if k = j then h ! i else if k = i then h ! j else h ! k)"
  by (simp add: heap_Swap_def nth_list_update)

lemma mset_up [simp]: "j < length h \<Longrightarrow> mset (heap_up h j) = mset h"
proof (induction h j rule: heap_up.induct)
  case (1 h j)
  then show ?case by (subst heap_up.simps) (simp add: Let_def)
qed

lemma length_up [simp]: "j < length h \<Longrightarrow> length (heap_up h j) = length h"
  using mset_up by (metis size_mset)

text \<open>An invariant of the sift-down loop: kept by a move, enough at the end.\<close>

lemma down_loop_rule:
  assumes stop: "\<And>h i. P h i \<Longrightarrow> 2 * i + 1 \<ge> n \<or> \<not> heap_Less h (min_child h i n) i \<Longrightarrow> Q h"
    and move: "\<And>h i. P h i \<Longrightarrow> 2 * i + 1 < n \<Longrightarrow> heap_Less h (min_child h i n) i \<Longrightarrow>
      P (heap_Swap h i (min_child h i n)) (min_child h i n)"
  shows "P h i \<Longrightarrow> Q (fst (heap_down_loop h i n))"
proof (induction "n - i" arbitrary: h i rule: less_induct)
  case less
  let ?j = "min_child h i n"
  show ?case
  proof (cases "2 * i + 1 \<ge> n \<or> \<not> heap_Less h ?j i")
    case True
    then have "heap_down_loop h i n = (h, i)" by (subst heap_down_loop.simps) (auto simp: Let_def)
    then show ?thesis using stop [OF less.prems True] by simp
  next
    case False
    then have "heap_down_loop h i n = heap_down_loop (heap_Swap h i ?j) ?j n"
      by (subst heap_down_loop.simps) (simp add: Let_def)
    moreover have "n - ?j < n - i" using False min_child_cases [of h i n] by auto
    ultimately show ?thesis using less.hyps move [OF less.prems] False by simp
  qed
qed

text \<open>The loop permutes the first \<open>n\<close> places.\<close>

lemma down_loop_frame:
  assumes "i < n" "n \<le> length h"
  shows "mset (fst (heap_down_loop h i n)) = mset h \<and> length (fst (heap_down_loop h i n)) = length h \<and>
    (\<forall>k. n \<le> k \<longrightarrow> fst (heap_down_loop h i n) ! k = h ! k)"
proof -
  let ?P = "\<lambda>g i. i < n \<and> mset g = mset h \<and> length g = length h \<and> (\<forall>k. n \<le> k \<longrightarrow> g ! k = h ! k)"
  show ?thesis
  proof (rule down_loop_rule [where P = ?P])
    fix g i
    assume p: "?P g i" and lt: "2 * i + 1 < n"
    then show "?P (heap_Swap g i (min_child g i n)) (min_child g i n)"
      using min_child_less [OF lt, of g] assms by (auto simp: nth_Swap)
  qed (use assms in auto)
qed

text \<open>
  \<open>ok_from h m n\<close>: among the first \<open>n\<close> places, every element whose parent is at \<open>m\<close> or
  later is in order.  \<open>hole_down\<close>: the same except below \<open>i\<close>, with the elements below \<open>i\<close> in order
  with the parent of \<open>i\<close>.
\<close>

definition ok_from :: "expiringEvent list \<Rightarrow> nat \<Rightarrow> nat \<Rightarrow> bool" where
  "ok_from h m n \<longleftrightarrow> (\<forall>c. 0 < c \<and> c < n \<and> m \<le> parent c \<longrightarrow> heap_le h (parent c) c)"

definition hole_down :: "expiringEvent list \<Rightarrow> nat \<Rightarrow> nat \<Rightarrow> nat \<Rightarrow> bool" where
  "hole_down h i m n \<longleftrightarrow> m \<le> i \<and> i < n \<and> n \<le> length h \<and>
     (\<forall>c. 0 < c \<and> c < n \<and> m \<le> parent c \<and> parent c \<noteq> i \<longrightarrow> heap_le h (parent c) c) \<and>
     (\<forall>c. 0 < c \<and> c < n \<and> parent c = i \<and> 0 < i \<and> m \<le> parent i \<longrightarrow> heap_le h (parent i) c)"

lemma heap_ok_from: "heap_ok h \<longleftrightarrow> ok_from h 0 (length h)"
  by (auto simp: heap_ok_def ok_from_def)

lemma min_child_min:
  assumes "0 < c" "c < n" "parent c = i"
  shows "heap_le h (min_child h i n) c"
  using assms parent_child [OF assms(1), of i] by (auto simp: min_child_def heap_le_def heap_Less_def Let_def)

lemma down_move:
  assumes h: "hole_down h i m n" and lt: "2 * i + 1 < n" and less: "heap_Less h (min_child h i n) i"
  shows "hole_down (heap_Swap h i (min_child h i n)) (min_child h i n) m n"
proof -
  define j where "j = min_child h i n"
  have j: "j < n" "0 < j" "parent j = i" "j \<noteq> i"
    using min_child_less [OF lt] min_child_cases [of h i n] by (auto simp: j_def)
  have ij: "i < length h" "j < length h" using h j by (auto simp: hole_down_def)
  let ?g = "heap_Swap h i j"
  have g: "?g ! k = (if k = j then h ! i else if k = i then h ! j else h ! k)" for k
    by (rule nth_Swap [OF ij])
  have "heap_le ?g (parent c) c"
    if c: "0 < c" "c < n" "m \<le> parent c" "parent c \<noteq> j" for c
  proof -
    consider "c = j" | "c \<noteq> j" "parent c = i" | "c = i" | "c \<noteq> j" "parent c \<noteq> i" "c \<noteq> i" by blast
    then show ?thesis
    proof cases
      case 1
      then show ?thesis using less j by (simp add: heap_le_def g heap_Less_def j_def [symmetric])
    next
      case 2
      then have "heap_le h j c" "c \<noteq> i" using min_child_min c parent_less [of c] by (auto simp: j_def)
      then show ?thesis using 2 j by (simp add: heap_le_def g)
    next
      case 3
      then have "heap_le h (parent i) j" "parent i \<noteq> i" using h c j parent_less [of i] by (auto simp: hole_down_def)
      then show ?thesis using 3 c j by (simp add: heap_le_def g)
    next
      case 4
      then have "heap_le h (parent c) c" using h c by (auto simp: hole_down_def)
      then show ?thesis using 4 c by (simp add: heap_le_def g)
    qed
  qed
  moreover have "heap_le ?g (parent j) c"
    if c: "0 < c" "c < n" "parent c = j" for c
  proof -
    have "c \<noteq> i" "c \<noteq> j" using c j parent_less [of c] parent_less [of j] by auto
    moreover have "m \<le> parent c" "parent c \<noteq> i" using h c j parent_less [of j] by (auto simp: hole_down_def)
    then have "heap_le h j c" using h c by (auto simp: hole_down_def)
    ultimately show ?thesis using j by (simp add: heap_le_def g)
  qed
  ultimately show ?thesis using h j parent_less [of j] unfolding hole_down_def j_def [symmetric] by auto
qed

lemma down_ok:
  assumes "hole_down h i m n"
  shows "ok_from (fst (heap_down_loop h i n)) m n"
proof (rule down_loop_rule [where P = "\<lambda>h i. hole_down h i m n", OF _ _ assms])
  fix h i
  assume p: "hole_down h i m n" and stop: "2 * i + 1 \<ge> n \<or> \<not> heap_Less h (min_child h i n) i"
  show "ok_from h m n"
    unfolding ok_from_def
  proof (intro allI impI)
    fix c
    assume c: "0 < c \<and> c < n \<and> m \<le> parent c"
    show "heap_le h (parent c) c"
    proof (cases "parent c = i")
      case True
      then have "2 * i + 1 < n" using c parent_child [of c i] by auto
      then have "heap_le h i (min_child h i n)" using stop by (auto simp: heap_le_def heap_Less_def)
      then show ?thesis using min_child_min [of c n i h] c True by (simp add: heap_le_def)
    qed (use p c in \<open>auto simp: hole_down_def\<close>)
  qed
qed (rule down_move)

text \<open>\<open>hole_up\<close>: in order except between \<open>j\<close> and its parent.\<close>

definition hole_up :: "expiringEvent list \<Rightarrow> nat \<Rightarrow> nat \<Rightarrow> bool" where
  "hole_up h j n \<longleftrightarrow> j < n \<and> n \<le> length h \<and>
     (\<forall>c. 0 < c \<and> c < n \<and> c \<noteq> j \<longrightarrow> heap_le h (parent c) c) \<and>
     (\<forall>c. 0 < c \<and> c < n \<and> parent c = j \<and> 0 < j \<longrightarrow> heap_le h (parent j) c)"

lemma up_move:
  assumes h: "hole_up h j n" and i: "i = parent j" "i \<noteq> j" and less: "heap_Less h j i"
  shows "hole_up (heap_Swap h i j) i n"
proof -
  have j0: "0 < j" using i by (cases j) (auto simp: parent_def)
  then have ij: "i < j" "0 < j" "i < length h" "j < length h" "i < n"
    using h i parent_less [of j] by (auto simp: hole_up_def)
  let ?g = "heap_Swap h i j"
  have g: "?g ! k = (if k = j then h ! i else if k = i then h ! j else h ! k)" for k
    by (rule nth_Swap [OF ij(3,4)])
  have ji: "ex_expiresAt (h ! j) \<le> ex_expiresAt (h ! i)" using less by (simp add: heap_Less_def)
  have ord: "heap_le h (parent c) c" if "0 < c" "c < n" "c \<noteq> j" for c
    using h that by (auto simp: hole_up_def)
  have "heap_le ?g (parent c) c" if c: "0 < c" "c < n" "c \<noteq> i" for c
  proof -
    consider "c = j" | "parent c = j" | "c \<noteq> j" "parent c = i" | "c \<noteq> j" "parent c \<noteq> i" "parent c \<noteq> j"
      by blast
    then show ?thesis
    proof cases
      case 1
      then have "parent c = i" using i by simp
      then show ?thesis using ji 1 ij(1) by (simp add: heap_le_def g)
    next
      case 2
      then have "heap_le h i c" "c \<noteq> j" using h c ij i parent_less [of c] by (auto simp: hole_up_def)
      then show ?thesis using 2 c by (simp add: heap_le_def g)
    next
      case 3
      then show ?thesis using ord [of c] ji c ij by (simp add: heap_le_def g)
    next
      case 4
      then show ?thesis using ord [of c] c by (simp add: heap_le_def g)
    qed
  qed
  moreover have "heap_le ?g (parent i) c" if c: "0 < c" "c < n" "parent c = i" "0 < i" for c
  proof -
    have p: "heap_le h (parent i) i" "parent i \<noteq> i" "parent i \<noteq> j" "c \<noteq> i"
      using ord [of i] c ij parent_less [of i] parent_less [of c] by auto
    then show ?thesis using ord [of c] c by (cases "c = j") (auto simp: g heap_le_def)
  qed
  ultimately show ?thesis using ij h by (simp add: hole_up_def)
qed

lemma up_ok:
  "hole_up h j n \<Longrightarrow> ok_from (heap_up h j) 0 n \<and> (\<forall>k. n \<le> k \<longrightarrow> heap_up h j ! k = h ! k) \<and>
     length (heap_up h j) = length h \<and> mset (heap_up h j) = mset h"
proof (induction h j rule: heap_up.induct)
  case (1 h j)
  define i where "i = parent j"
  have jl: "j < length h" using "1.prems" by (auto simp: hole_up_def)
  show ?case
  proof (cases "i = j \<or> \<not> heap_Less h j i")
    case True
    then have e: "heap_up h j = h" by (subst heap_up.simps) (auto simp: Let_def i_def parent_def)
    have "ok_from h 0 n"
      unfolding ok_from_def
    proof (intro allI impI)
      fix c
      assume c: "0 < c \<and> c < n \<and> 0 \<le> parent c"
      show "heap_le h (parent c) c"
        using "1.prems" c True i_def by (cases "c = j") (auto simp: hole_up_def heap_le_def heap_Less_def)
    qed
    then show ?thesis by (simp add: e)
  next
    case False
    then have e: "heap_up h j = heap_up (heap_Swap h i j) i" by (subst heap_up.simps) (simp add: Let_def i_def parent_def)
    have g: "hole_up (heap_Swap h i j) i n" by (rule up_move [OF "1.prems" i_def]) (use False in auto)
    have ij: "i < length h" "i < n" "j < n" using g "1.prems" jl by (auto simp: hole_up_def)
    show ?thesis
      using "1.IH" [OF i_def [unfolded parent_def] _ g] False e ij jl by (simp add: nth_Swap)
  qed
qed

section \<open>The operations\<close>

lemma ok_from_mono: "ok_from h m n \<Longrightarrow> n' \<le> n \<Longrightarrow> ok_from h m n'"
  by (auto simp: ok_from_def)

lemma ok_from_cong:
  "ok_from h m n \<Longrightarrow> (\<And>k. k < n \<Longrightarrow> g ! k = h ! k) \<Longrightarrow> ok_from g m n"
  unfolding ok_from_def heap_le_def using parent_less by (metis order.strict_trans)

lemma ok_butlast: "ok_from h 0 (length h - 1) \<Longrightarrow> heap_ok (butlast h)"
  unfolding heap_ok_from length_butlast by (erule ok_from_cong) (simp add: nth_butlast)

lemma head_least: "heap_ok h \<Longrightarrow> k < length h \<Longrightarrow> heap_le h 0 k"
proof (induction k rule: less_induct)
  case (less k)
  show ?case
  proof (cases "k = 0")
    case False
    then have "parent k < k" using parent_less by simp
    then have "heap_le h 0 (parent k)" "heap_le h (parent k) k" using less False by (auto simp: heap_ok_def)
    then show ?thesis by (simp add: heap_le_def)
  qed (simp add: heap_le_def)
qed

lemma push_ok: "heap_ok h \<Longrightarrow> heap_ok (heap_Push h x) \<and> mset (heap_Push h x) = add_mset x (mset h)"
proof -
  assume h: "heap_ok h"
  have "hole_up (h @ [x]) (length h) (length (h @ [x]))"
    unfolding hole_up_def
  proof (intro conjI allI impI)
    fix c
    assume c: "0 < c \<and> c < length (h @ [x]) \<and> c \<noteq> length h"
    then have "c < length h" "parent c < length h" using parent_less [of c] by auto
    then show "heap_le (h @ [x]) (parent c) c" using h c by (auto simp: heap_ok_def heap_le_def nth_append)
  next
    fix c
    assume "0 < c \<and> c < length (h @ [x]) \<and> parent c = length h \<and> 0 < length h"
    then show "heap_le (h @ [x]) (parent (length h)) c" using parent_less [of c] by auto
  qed simp_all
  from up_ok [OF this] show ?thesis by (simp add: heap_Push_def slice_Push_def heap_ok_from)
qed

lemma split_last: "h \<noteq> [] \<Longrightarrow> mset h = add_mset (last h) (mset (butlast h))"
  by (metis add_mset_add_single append_butlast_last_id mset.simps mset_append)

lemma last_frame: "length g = length h \<Longrightarrow> h \<noteq> [] \<Longrightarrow> g ! (length h - 1) = h ! (length h - 1) \<Longrightarrow> last g = last h"
  by (metis last_conv_nth length_0_conv)

text \<open>Moving the last element into place \<open>i\<close> leaves a hole there, in the shorter heap.\<close>

lemma swap_last:
  assumes h: "heap_ok h" "i < length h - 1"
  shows "hole_down (heap_Swap h i (length h - 1)) i i (length h - 1)"
    "\<And>c. 0 < c \<Longrightarrow> c < length h - 1 \<Longrightarrow> c \<noteq> i \<Longrightarrow> parent c \<noteq> i \<Longrightarrow> heap_le (heap_Swap h i (length h - 1)) (parent c) c"
    "\<And>c. 0 < c \<Longrightarrow> c < length h - 1 \<Longrightarrow> parent c = i \<Longrightarrow> 0 < i \<Longrightarrow> heap_le (heap_Swap h i (length h - 1)) (parent i) c"
    "last (heap_Swap h i (length h - 1)) = h ! i"
proof -
  let ?n = "length h - 1" and ?g = "heap_Swap h i (length h - 1)"
  have len: "i < length h" "?n < length h" "i \<noteq> ?n" using h by auto
  have g: "?g ! k = (if k = ?n then h ! i else if k = i then h ! ?n else h ! k)" for k
    by (rule nth_Swap [OF len(1,2)])
  have ord: "heap_le h (parent c) c" if "0 < c" "c < ?n" for c using h that by (auto simp: heap_ok_def)
  show p1: "\<And>c. 0 < c \<Longrightarrow> c < ?n \<Longrightarrow> c \<noteq> i \<Longrightarrow> parent c \<noteq> i \<Longrightarrow> heap_le ?g (parent c) c"
  proof -
    fix c
    assume c: "0 < c" "c < ?n" "c \<noteq> i" "parent c \<noteq> i"
    then have "c \<noteq> ?n" "parent c \<noteq> ?n" using parent_less [of c] by auto
    then show "heap_le ?g (parent c) c" using ord [OF c(1,2)] c by (simp add: heap_le_def g del: One_nat_def)
  qed
  show "\<And>c. 0 < c \<Longrightarrow> c < ?n \<Longrightarrow> parent c = i \<Longrightarrow> 0 < i \<Longrightarrow> heap_le ?g (parent i) c"
  proof -
    fix c
    assume c: "0 < c" "c < ?n" "parent c = i" "0 < i"
    have "heap_le h (parent i) i" "heap_le h i c" using ord [of i] ord [of c] c h by auto
    moreover have "parent i < i" "c \<noteq> i" "parent i \<noteq> ?n" using c parent_less [of i] parent_less [of c] h by auto
    ultimately show "heap_le ?g (parent i) c" using c by (simp add: heap_le_def g del: One_nat_def)
  qed
  show "hole_down ?g i i ?n"
    unfolding hole_down_def
  proof (intro conjI allI impI)
    fix c
    assume c: "0 < c \<and> c < ?n \<and> i \<le> parent c \<and> parent c \<noteq> i"
    then show "heap_le ?g (parent c) c" using p1 [of c] parent_less [of c] by auto
  next
    fix c
    assume "0 < c \<and> c < ?n \<and> parent c = i \<and> 0 < i \<and> i \<le> parent i"
    then show "heap_le ?g (parent i) c" using parent_less [of i] by auto
  qed (use h in simp_all)
  have "?g \<noteq> []" using len by (metis length_0_conv length_Swap not_less_zero)
  then show "last ?g = h ! i" by (simp add: last_conv_nth g del: One_nat_def)
qed

lemma pop_ok:
  assumes h: "heap_ok h" "h \<noteq> []"
  shows "heap_ok (fst (heap_Pop h))" "mset h = add_mset (h ! 0) (mset (fst (heap_Pop h)))" "snd (heap_Pop h) = h ! 0"
proof -
  let ?n = "length h - 1" and ?g = "heap_Swap h 0 (length h - 1)"
  define d where "d = fst (heap_down_loop ?g 0 ?n)"
  have p: "heap_Pop h = (butlast d, last d)"
    by (simp add: heap_Pop_def heap_down_def slice_Pop_def Let_def split_beta d_def)
  have gl: "length ?g = length h" "mset ?g = mset h" using h by auto
  then have ne: "?g \<noteq> []" using h(2) by (metis length_0_conv)
  have d: "mset d = mset h \<and> length d = length h \<and> last d = h ! 0 \<and> ok_from d 0 ?n"
  proof (cases "?n = 0")
    case True
    then have "d = ?g" by (simp add: d_def heap_down_loop.simps)
    moreover have "h = [h ! 0]" using True h(2) by (cases h) auto
    ultimately show ?thesis using True gl by (metis diff_is_0_eq' heap_Swap_def last_ConsL length_0_conv
          list.size(3) list_update_code(2) nth_Cons_0 ok_from_def less_nat_zero_code list_update_id)
  next
    case False
    then have n: "0 < ?n" by simp
    note f = down_loop_frame [of 0 ?n ?g]
    note sw = swap_last [OF h(1) n]
    have "ok_from d 0 ?n" unfolding d_def by (rule down_ok) (use sw(1) in simp)
    moreover have "last d = last ?g"
      using last_frame [of d ?g] f n gl ne by (simp add: d_def)
    ultimately show ?thesis using f n gl sw(4) by (simp add: d_def)
  qed
  then have "d \<noteq> []" using h(2) by auto
  show "heap_ok (fst (heap_Pop h))" using d ok_butlast [of d] by (simp add: p)
  show "mset h = add_mset (h ! 0) (mset (fst (heap_Pop h)))" using d split_last [OF \<open>d \<noteq> []\<close>] by (metis p fst_conv)
  show "snd (heap_Pop h) = h ! 0" using d by (simp add: p)
qed

lemma down_loop_index: "i \<le> snd (heap_down_loop h i n)"
proof (induction h i n rule: heap_down_loop.induct)
  case (1 h i n)
  then show ?case
    using min_child_cases [of h i n] by (subst heap_down_loop.simps) (fastforce simp: Let_def)
qed

lemma hole_after_move:
  assumes "2 * i + 1 < n" "heap_Less g (min_child g i n) i"
    and "n \<le> length g" "i < n"
    and ord: "\<And>c. 0 < c \<Longrightarrow> c < n \<Longrightarrow> c \<noteq> i \<Longrightarrow> parent c \<noteq> i \<Longrightarrow> heap_le g (parent c) c"
    and grand: "\<And>c. 0 < c \<Longrightarrow> c < n \<Longrightarrow> parent c = i \<Longrightarrow> 0 < i \<Longrightarrow> heap_le g (parent i) c"
  shows "hole_down (heap_Swap g i (min_child g i n)) (min_child g i n) 0 n"
proof -
  let ?j = "min_child g i n" and ?s = "heap_Swap g i (min_child g i n)"
  have j: "?j < n" "0 < ?j" "parent ?j = i" "?j \<noteq> i" "i < ?j"
    using min_child_less [OF assms(1), of g] min_child_cases [of g i n] by auto
  have s: "?s ! k = (if k = ?j then g ! i else if k = i then g ! ?j else g ! k)" for k
    by (rule nth_Swap) (use assms j in auto)
  have "heap_le ?s (parent c) c" if c: "0 < c" "c < n" "parent c \<noteq> ?j" for c
  proof -
    consider "c = ?j" | "c \<noteq> ?j" "parent c = i" | "c = i" | "c \<noteq> ?j" "parent c \<noteq> i" "c \<noteq> i" by blast
    then show ?thesis
    proof cases
      case 1
      then show ?thesis using assms(2) j by (simp add: heap_le_def s heap_Less_def)
    next
      case 2
      then have "heap_le g ?j c" "c \<noteq> i" using min_child_min c parent_less [of c] by auto
      then show ?thesis using 2 j by (simp add: heap_le_def s)
    next
      case 3
      then have "heap_le g (parent i) ?j" "parent i \<noteq> i" using grand [of ?j] c j parent_less [of i] by auto
      then show ?thesis using 3 c j by (simp add: heap_le_def s)
    next
      case 4
      then show ?thesis using ord [of c] c by (simp add: heap_le_def s)
    qed
  qed
  moreover have "heap_le ?s (parent ?j) c" if c: "0 < c" "c < n" "parent c = ?j" for c
  proof -
    have "c \<noteq> i" "c \<noteq> ?j" using c j parent_less [of c] by auto
    moreover have "heap_le g ?j c" using ord [of c] c j \<open>c \<noteq> i\<close> by auto
    ultimately show ?thesis using j by (simp add: heap_le_def s)
  qed
  ultimately show ?thesis using j assms(3) by (simp add: hole_down_def)
qed

lemma remove_ok:
  assumes h: "heap_ok h" "i < length h"
  shows "heap_ok (fst (heap_Remove h i))" "mset h = add_mset (h ! i) (mset (fst (heap_Remove h i)))"
proof -
  let ?n = "length h - 1" and ?g = "heap_Swap h i (length h - 1)"
  have ne: "h \<noteq> []" using h by auto
  have "\<exists>d. heap_Remove h i = (butlast d, last d) \<and> mset d = mset h \<and> length d = length h \<and>
      last d = h ! i \<and> ok_from d 0 ?n"
  proof (cases "?n = i")
    case True
    have "ok_from h 0 ?n" using h(1) ok_from_mono [of h 0 "length h" ?n] by (simp add: heap_ok_from)
    then show ?thesis using True h ne
      by (intro exI [of _ h]) (simp add: heap_Remove_def slice_Pop_def last_conv_nth)
  next
    case False
    then have i: "i < ?n" using h(2) by simp
    note sw = swap_last [OF h(1) i]
    have gl: "length ?g = length h" "mset ?g = mset h" "?g \<noteq> []"
      using h ne by (auto, metis length_0_conv length_Swap)
    note f = down_loop_frame [of i ?n ?g]
    obtain d k where dk: "heap_down_loop ?g i ?n = (d, k)" by (cases "heap_down_loop ?g i ?n")
    have fd: "mset d = mset h" "length d = length h" "last d = h ! i"
      using f i gl dk last_frame [of d ?g] sw(4) by auto
    have rem: "heap_Remove h i = slice_Pop (if \<not> k > i then heap_up d i else d)"
      using False dk by (simp add: heap_Remove_def heap_down_def Let_def)
    consider (stay) "2 * i + 1 \<ge> ?n \<or> \<not> heap_Less ?g (min_child ?g i ?n) i"
      | (move) "2 * i + 1 < ?n" "heap_Less ?g (min_child ?g i ?n) i" by linarith
    then show ?thesis
    proof cases
      case stay
      then have "heap_down_loop ?g i ?n = (?g, i)" by (subst heap_down_loop.simps) (auto simp: Let_def)
      then have e: "d = ?g" "k = i" using dk by (metis prod.inject)+
      have "ok_from d i ?n" using down_ok [OF sw(1)] dk by simp
      then have "heap_le ?g (parent c) c" if "0 < c" "c < ?n" "c \<noteq> i" for c
        using that sw(2) [of c] e by (cases "parent c = i") (auto simp: ok_from_def)
      then have "hole_up ?g i ?n" using i sw(3) by (auto simp: hole_up_def)
      note u = up_ok [OF this]
      have "last (heap_up ?g i) = h ! i" using u last_frame [of "heap_up ?g i" ?g] gl sw(4) by simp
      then show ?thesis using rem e u gl by (intro exI [of _ "heap_up ?g i"]) (simp add: slice_Pop_def)
    next
      case move
      let ?j = "min_child ?g i ?n"
      have down: "hole_down (heap_Swap ?g i ?j) ?j 0 ?n"
        by (rule hole_after_move [OF move]) (use sw i gl in auto)
      have d: "heap_down_loop (heap_Swap ?g i ?j) ?j ?n = (d, k)"
      proof -
        have "heap_down_loop ?g i ?n = heap_down_loop (heap_Swap ?g i ?j) ?j ?n"
          using move by (subst heap_down_loop.simps) (simp add: Let_def)
        then show ?thesis using dk by simp
      qed
      have "ok_from d 0 ?n" using down_ok [OF down] d by simp
      moreover have "k > i" using down_loop_index [of ?j "heap_Swap ?g i ?j" ?n] d min_child_cases [of ?g i ?n] by auto
      ultimately show ?thesis using rem fd by (intro exI [of _ d]) (simp add: slice_Pop_def)
    qed
  qed
  then obtain d where d: "heap_Remove h i = (butlast d, last d)" "mset d = mset h" "length d = length h"
    "last d = h ! i" "ok_from d 0 ?n" by blast
  then have "d \<noteq> []" using ne by auto
  show "heap_ok (fst (heap_Remove h i))" using d ok_butlast [of d] by simp
  show "mset h = add_mset (h ! i) (mset (fst (heap_Remove h i)))" using d split_last [OF \<open>d \<noteq> []\<close>] by (metis fst_conv)
qed

lemma init_loop_ok:
  "ok_from h i n \<Longrightarrow> n \<le> length h \<Longrightarrow> 2 * i \<le> n \<Longrightarrow> ok_from (heap_Init_loop h i n) 0 n \<and>
     mset (heap_Init_loop h i n) = mset h"
proof (induction h i n rule: heap_Init_loop.induct)
  case (1 h n)
  then show ?case by simp
next
  case (2 h i n)
  define d where "d = fst (heap_down h i n)"
  have dd: "d = fst (heap_down_loop h i n)" by (simp add: d_def heap_down_def split_beta)
  have "hole_down h i i n"
    unfolding hole_down_def
  proof (intro conjI allI impI)
    fix c
    assume "0 < c \<and> c < n \<and> i \<le> parent c \<and> parent c \<noteq> i"
    then show "heap_le h (parent c) c" using "2.prems"(1) by (auto simp: ok_from_def)
  next
    fix c
    assume "0 < c \<and> c < n \<and> parent c = i \<and> 0 < i \<and> i \<le> parent i"
    then show "heap_le h (parent i) c" using parent_less [of i] by auto
  qed (use "2.prems" in auto)
  from down_ok [OF this] have "ok_from d i n" by (simp add: dd)
  moreover have "mset d = mset h" "length d = length h"
    using down_loop_frame [of i n h] "2.prems" by (auto simp: dd)
  ultimately show ?case using "2.IH" "2.prems" by (simp add: d_def)
qed

lemma init_ok: "heap_ok (heap_Init h) \<and> mset (heap_Init h) = mset h"
proof -
  have "ok_from h (length h div 2) (length h)"
    unfolding ok_from_def
  proof (intro allI impI)
    fix c
    assume c: "0 < c \<and> c < length h \<and> length h div 2 \<le> parent c"
    then have "c = 2 * parent c + 1 \<or> c = 2 * parent c + 2" using parent_child by blast
    then show "heap_le h (parent c) c" using c by linarith
  qed
  from init_loop_ok [OF this] show ?thesis
    by (simp add: heap_Init_def heap_ok_from) (metis size_mset)
qed

section \<open>Checking for expired events\<close>

lemma length_Pop: "h \<noteq> [] \<Longrightarrow> length (fst (heap_Pop h)) < length h"
proof -
  assume "h \<noteq> []"
  moreover have "length (fst (heap_down_loop (heap_Swap h 0 (length h - 1)) 0 (length h - 1))) = length h"
  proof (cases "length h - 1 = 0")
    case True
    then show ?thesis by (simp add: heap_down_loop.simps)
  next
    case False
    then show ?thesis using down_loop_frame [of 0 "length h - 1" "heap_Swap h 0 (length h - 1)"] by simp
  qed
  ultimately show ?thesis by (simp add: heap_Pop_def heap_down_def slice_Pop_def Let_def split_beta)
qed

text \<open>
  The loop of \<^verbatim>\<open>checkExpiredEvents\<close>: what is left in the queue and the ids handed to
  \<^verbatim>\<open>deleteEvent\<close>, in order.
\<close>

function check_loop :: "int \<Rightarrow> expiringEvent list \<Rightarrow> ID list \<Rightarrow> expiringEvent list \<times> ID list" where
  "check_loop now events deleted =
     (if length events > 0 \<and> \<not> now < ex_expiresAt (events ! 0)
      then check_loop now (fst (heap_Pop events)) (deleted @ [ex_id (events ! 0)])
      else (events, deleted))"
  by pat_completeness auto
termination
  by (relation "measure (\<lambda>(now, events, deleted). length events)") (auto dest: length_Pop)

declare check_loop.simps [simp del]

definition checkExpiredEvents :: "int \<Rightarrow> expiringEvent list \<Rightarrow> expiringEvent list \<times> ID list" where
  "checkExpiredEvents now events = check_loop now events []"

lemma check_loop_exact:
  "heap_ok events \<Longrightarrow> check_loop now events deleted = (rest, out) \<Longrightarrow>
     heap_ok rest \<and> mset rest = filter_mset (\<lambda>e. now < ex_expiresAt e) (mset events) \<and>
     mset out = mset deleted + image_mset ex_id (filter_mset (\<lambda>e. ex_expiresAt e \<le> now) (mset events))"
proof (induction now events deleted arbitrary: rest out rule: check_loop.induct)
  case (1 now events deleted)
  show ?case
  proof (cases "length events > 0 \<and> \<not> now < ex_expiresAt (events ! 0)")
    case True
    then have ne: "events \<noteq> []" by auto
    note p = pop_ok [OF "1.prems"(1) ne]
    have "check_loop now (fst (heap_Pop events)) (deleted @ [ex_id (events ! 0)]) = (rest, out)"
      using "1.prems"(2) True by (subst (asm) check_loop.simps) simp
    from "1.IH" [OF True p(1) this] True show ?thesis
      by (subst (1 2) p(2)) auto
  next
    case False
    then have r: "rest = events" "out = deleted" using "1.prems"(2) by (subst (asm) check_loop.simps, auto)+
    have late: "now < ex_expiresAt e" if e: "e \<in># mset events" for e
    proof -
      obtain k where k: "k < length events" "events ! k = e" using e by (auto simp: in_set_conv_nth)
      then have "now < ex_expiresAt (events ! 0)" using False by auto
      moreover have "heap_le events 0 k" using head_least "1.prems"(1) k(1) by blast
      ultimately show ?thesis using k(2) by (simp add: heap_le_def)
    qed
    then have "filter (\<lambda>e. now < ex_expiresAt e) events = events"
      "filter (\<lambda>e. ex_expiresAt e \<le> now) events = []"
      by (fastforce simp: filter_id_conv filter_empty_conv)+
    then have "filter_mset (\<lambda>e. now < ex_expiresAt e) (mset events) = mset events"
      "filter_mset (\<lambda>e. ex_expiresAt e \<le> now) (mset events) = {#}"
      by (metis mset_filter mset.simps(1))+
    then show ?thesis using r "1.prems"(1) by simp
  qed
qed

text \<open>Tracking, scanning and removing keep the heap in order.\<close>

lemma find_event_Some: "find_event es i n = Some k \<Longrightarrow> n \<le> k \<and> k < n + length es \<and> ex_id (es ! (k - n)) = i"
proof (induction es i n rule: find_event.induct)
  case (2 e es i n)
  then show ?case by (auto split: if_splits simp: nth_Cons')
qed simp

lemma track_ok: "heap_ok h \<Longrightarrow> heap_ok (trackEvent i t h) \<and>
    mset (trackEvent i t h) = (if t \<le> 0 then mset h else add_mset \<lparr>ex_id = i, ex_expiresAt = t\<rparr> (mset h))"
  by (simp add: trackEvent_def push_ok)

lemma removeEvent_ok:
  assumes "heap_ok h"
  shows "heap_ok (removeEvent i h)"
    "mset (removeEvent i h) = mset h \<and> i \<notin> ex_id ` set h \<or>
      (\<exists>e. ex_id e = i \<and> mset h = add_mset e (mset (removeEvent i h)))"
proof -
  have none: "find_event h i n = None \<Longrightarrow> i \<notin> ex_id ` set h" for n
    by (induction h i n rule: find_event.induct) (auto split: if_splits)
  show "heap_ok (removeEvent i h)"
    using assms remove_ok(1) find_event_Some [of h i 0] by (auto simp: removeEvent_def split: option.splits)
  show "mset (removeEvent i h) = mset h \<and> i \<notin> ex_id ` set h \<or>
      (\<exists>e. ex_id e = i \<and> mset h = add_mset e (mset (removeEvent i h)))"
  proof (cases "find_event h i 0")
    case None
    then show ?thesis using none by (simp add: removeEvent_def)
  next
    case (Some k)
    then have "k < length h" "ex_id (h ! k) = i" using find_event_Some [of h i 0 k] by auto
    then show ?thesis using Some remove_ok(2) [OF assms] by (auto simp: removeEvent_def)
  qed
qed

lemma initialScan_ok: "heap_ok h \<Longrightarrow> heap_ok (initialScan stored h)"
  by (simp add: initialScan_def init_ok)

section \<open>Properties\<close>

text \<open>C26: a check of the expiration queue deletes exactly the tracked events whose time has come and keeps the others,
  and the queue stays a heap.\<close>

theorem expiry_check_exact:
  assumes "heap_ok events" "checkExpiredEvents now events = (rest, out)"
  shows "heap_ok rest \<and> mset rest = filter_mset (\<lambda>e. now < ex_expiresAt e) (mset events) \<and>
    mset out = image_mset ex_id (filter_mset (\<lambda>e. ex_expiresAt e \<le> now) (mset events))"
  using check_loop_exact [OF assms(1), of now "[]" rest out] assms(2) by (simp add: checkExpiredEvents_def)

theorem expiry_check_exact_witness:
  "\<exists>rest. checkExpiredEvents 50 (heap_Push (heap_Push [] \<lparr>ex_id = [1], ex_expiresAt = 90\<rparr>) \<lparr>ex_id = [2], ex_expiresAt = 40\<rparr>)
     = (rest, [[2]]) \<and> mset rest = {#\<lparr>ex_id = [1], ex_expiresAt = 90\<rparr>#}"
proof -
  let ?h = "heap_Push (heap_Push [] \<lparr>ex_id = [1], ex_expiresAt = 90\<rparr>) \<lparr>ex_id = [2], ex_expiresAt = 40\<rparr>"
  have "heap_ok []" by (simp add: heap_ok_def)
  then have h: "heap_ok ?h" "mset ?h = {#\<lparr>ex_id = [1], ex_expiresAt = 90\<rparr>, \<lparr>ex_id = [2], ex_expiresAt = 40\<rparr>#}"
    using push_ok by (simp_all add: add_mset_commute)
  obtain rest out where c: "checkExpiredEvents 50 ?h = (rest, out)" by (cases "checkExpiredEvents 50 ?h")
  from expiry_check_exact [OF h(1) c] show ?thesis using c h(2) by simp
qed

text \<open>tracking and untracking keep the queue a heap; tracking adds the event when it expires at all, and
  untracking takes out one entry of the id when there is one.\<close>

theorem expiry_tracking_exact:
  assumes "heap_ok h"
  shows "heap_ok (trackEvent i t h) \<and>
    mset (trackEvent i t h) = (if t \<le> 0 then mset h else add_mset \<lparr>ex_id = i, ex_expiresAt = t\<rparr> (mset h)) \<and>
    heap_ok (removeEvent i h) \<and>
    (if i \<in> ex_id ` set h then \<exists>e. ex_id e = i \<and> mset h = add_mset e (mset (removeEvent i h))
     else mset (removeEvent i h) = mset h)"
proof -
  have "if i \<in> ex_id ` set h then \<exists>e. ex_id e = i \<and> mset h = add_mset e (mset (removeEvent i h))
     else mset (removeEvent i h) = mset h"
    using removeEvent_ok(2) [OF assms, of i]
  proof
    assume "\<exists>e. ex_id e = i \<and> mset h = add_mset e (mset (removeEvent i h))"
    then obtain e where e: "ex_id e = i" "mset h = add_mset e (mset (removeEvent i h))" by blast
    then have "e \<in># mset h" by simp
    then have "i \<in> ex_id ` set h" using e(1) by auto
    then show ?thesis using e by auto
  qed simp
  then show ?thesis using track_ok [OF assms, of i t] removeEvent_ok(1) [OF assms, of i] by simp
qed

theorem expiry_tracking_exact_witness:
  "heap_ok (trackEvent [1] 5 []) \<and> mset (trackEvent [1] 5 []) = {#\<lparr>ex_id = [1], ex_expiresAt = 5\<rparr>#}"
  using expiry_tracking_exact [of "[]" "[1]" 5] by (simp add: heap_ok_def)

end
