(* ===== verification/HLL.thy ===== *)
theory HLL
  imports Filters
begin

text \<open>
  The HyperLogLog sketches of NIP-45: \<^verbatim>\<open>nip45/hyperloglog/hll.go\<close> and \<^verbatim>\<open>helpers.go\<close> (256 one-byte
  registers; the estimate itself is floating-point arithmetic and is not modelled) and the two
  sides that must agree on what is counted, \<^verbatim>\<open>nip45/hll_event.go\<close> (the sketches an event is added to)
  and \<^verbatim>\<open>nip45/hll_filter.go\<close> (the sketch a COUNT filter reads).  \<open>None\<close> is a panic.
\<close>

section \<open>The sketch\<close>

record HyperLogLog =
  hll_offset :: int
  hll_registers :: bytes

definition hll_New :: "int \<Rightarrow> HyperLogLog option" where
  "hll_New offset =
     (if offset < 0 \<or> offset > 32 - 8 then None
      else Some \<lparr>hll_offset = offset, hll_registers = replicate 256 0\<rparr>)"

definition hll_NewWithRegisters :: "bytes \<Rightarrow> int \<Rightarrow> HyperLogLog option" where
  "hll_NewWithRegisters registers offset =
     (if offset < 0 \<or> offset > 32 - 8 then None
      else if length registers \<noteq> 256 then None
      else Some \<lparr>hll_offset = offset, hll_registers = registers\<rparr>)"

text \<open>The loop shared by \<^verbatim>\<open>MergeRegisters\<close> and \<^verbatim>\<open>Merge\<close>.\<close>

fun merge_loop :: "nat \<Rightarrow> bytes \<Rightarrow> bytes \<Rightarrow> bytes option" where
  "merge_loop i [] registers = Some registers"
| "merge_loop i (v # vs) registers =
     (case index_at registers i of
        None \<Rightarrow> None
      | Some r \<Rightarrow> merge_loop (i + 1) vs (if v > r then registers[i := v] else registers))"

definition hll_MergeRegisters :: "HyperLogLog \<Rightarrow> bytes \<Rightarrow> HyperLogLog option" where
  "hll_MergeRegisters hll other =
     map_option (\<lambda>r. hll\<lparr>hll_registers := r\<rparr>) (merge_loop 0 other (hll_registers hll))"

definition hll_Clear :: "HyperLogLog \<Rightarrow> HyperLogLog" where
  "hll_Clear hll = hll\<lparr>hll_registers := replicate (length (hll_registers hll)) 0\<rparr>"

text \<open>\<^verbatim>\<open>for m := uint64(1 << 55); m&x == 0 && m != 0; m >>= 1 { c++ }\<close>\<close>

function clz_loop :: "64 word \<Rightarrow> 64 word \<Rightarrow> byte \<Rightarrow> byte" where
  "clz_loop m x c = (if and m x = 0 \<and> m \<noteq> 0 then clz_loop (drop_bit 1 m) x (c + 1) else c)"
  by pat_completeness auto
termination
proof (relation "measure (\<lambda>(m, _). unat m)")
  fix m x :: "64 word" and c :: byte
  assume a: "and m x = 0 \<and> m \<noteq> 0"
  then have "unat m \<noteq> 0" by (simp add: unat_eq_0)
  then have "unat (drop_bit 1 m) < unat m" by (simp add: unat_div drop_bit_eq_div)
  then show "((drop_bit 1 m, x, c + 1), (m, x, c)) \<in> measure (\<lambda>(m, _). unat m)" by simp
qed simp

declare clz_loop.simps [simp del]

definition clz56 :: "64 word \<Rightarrow> byte" where
  "clz56 x = clz_loop (push_bit 55 1) x 0"

fun count_zeros :: "bytes \<Rightarrow> 32 word \<Rightarrow> 32 word" where
  "count_zeros [] c = c"
| "count_zeros (v # s) c = count_zeros s (if v = 0 then c + 1 else c)"

definition countZeros :: "bytes \<Rightarrow> 32 word" where
  "countZeros s = count_zeros s 0"

definition RegisterForPubkey :: "PubKey \<Rightarrow> int \<Rightarrow> (byte \<times> byte) option" where
  "RegisterForPubkey pubkey offset =
     (if offset < 0 then None
      else case slice pubkey (nat offset) (nat offset + 8) of
        None \<Rightarrow> None
      | Some x \<Rightarrow> let w = word_of_nat (getBE x) in Some (x ! 0, clz56 w + 1))"

definition hll_Add :: "HyperLogLog \<Rightarrow> PubKey \<Rightarrow> HyperLogLog option" where
  "hll_Add hll pubkey =
     (case RegisterForPubkey pubkey (hll_offset hll) of
        None \<Rightarrow> None
      | Some (idx, val) \<Rightarrow>
          (case index_at (hll_registers hll) (unat idx) of
             None \<Rightarrow> None
           | Some r \<Rightarrow>
               Some (if val > r then hll\<lparr>hll_registers := (hll_registers hll)[unat idx := val]\<rparr> else hll)))"

definition hll_Merge :: "HyperLogLog \<Rightarrow> HyperLogLog \<Rightarrow> HyperLogLog option" where
  "hll_Merge hll other =
     map_option (\<lambda>r. hll\<lparr>hll_registers := r\<rparr>) (merge_loop 0 (hll_registers other) (hll_registers hll))"

section \<open>What an event counts for\<close>

record HLLTarget =
  tg_TagKey :: string
  tg_Ref :: string
  tg_Offset :: int

text \<open>\<^verbatim>\<open>strconv.ParseInt(s, 16, 64)\<close> on one character; an ignored error leaves 0.\<close>

definition parse_nibble :: "string \<Rightarrow> (int \<times> bool)" where
  "parse_nibble s = (case s of [c] \<Rightarrow> (case hex_value c of Some d \<Rightarrow> (int d, True) | None \<Rightarrow> (0, False)) | _ \<Rightarrow> (0, False))"

text \<open>\<open>mk\<close> slices \<^verbatim>\<open>v[32:33]\<close>; it is only called on strings of 64 bytes.\<close>

definition mk_target :: "string \<Rightarrow> string \<Rightarrow> HLLTarget" where
  "mk_target tagKey v =
     \<lparr>tg_TagKey = tagKey, tg_Ref = v, tg_Offset = fst (parse_nibble (take 1 (drop 32 v))) + 8\<rparr>"

definition one_target :: "ext \<Rightarrow> string \<Rightarrow> Tag option \<Rightarrow> HLLTarget list" where
  "one_target x k t =
     (case t of None \<Rightarrow> [] | Some tag \<Rightarrow> if IsValid32ByteHex x (tag ! 1) then [mk_target k (tag ! 1)] else [])"

definition all_targets :: "ext \<Rightarrow> string \<Rightarrow> Tags \<Rightarrow> HLLTarget list" where
  "all_targets x k tags =
     map (\<lambda>tag. mk_target k (tag ! 1)) (filter (\<lambda>tag. IsValid32ByteHex x (tag ! 1)) tags)"

definition HyperLogLogTargetsForEventWithTags :: "ext \<Rightarrow> event \<Rightarrow> HLLTarget list" where
  "HyperLogLogTargetsForEventWithTags x evt =
     (let tags = evTags evt in
      if evKind evt = 1 then
        one_target x ''e'' (FindLast tags ''e'') @ all_targets x ''q'' (tags_FindAll tags ''q'')
      else if evKind evt = 3 then
        all_targets x ''p'' (filter (\<lambda>tag. length tag \<ge> 2 \<and> tag ! 0 = ''p'') tags)
      else if evKind evt = 6 then one_target x ''e'' (tags_Find tags ''e'')
      else if evKind evt = 7 then one_target x ''e'' (tags_Find tags ''e'')
      else if evKind evt = 1111 then
        one_target x ''E'' (tags_Find tags ''E'') @ all_targets x ''e'' (tags_FindAll tags ''e'') @
        all_targets x ''q'' (tags_FindAll tags ''q'')
      else [])"

definition HyperLogLogTargetsForEvent :: "ext \<Rightarrow> event \<Rightarrow> (string \<times> int) list" where
  "HyperLogLogTargetsForEvent x evt =
     map (\<lambda>t. (tg_Ref t, tg_Offset t)) (HyperLogLogTargetsForEventWithTags x evt)"

section \<open>What a filter reads\<close>

definition HyperLogLogFilterTag :: "Filter \<Rightarrow> string \<times> string \<times> bool" where
  "HyperLogLogFilterTag f =
     (let no = ('''', '''', False); kinds = opt_list (fKinds f) in
      if fIDs f \<noteq> None \<or> fSince f \<noteq> 0 \<or> fUntil f \<noteq> 0 \<or> fAuthors f \<noteq> None \<or> fSearch f \<noteq> ''''
      then no
      else case fTags f of
        [(tagKey, [tagValue])] \<Rightarrow>
          if tagKey = ''e'' then
            (if length kinds \<noteq> 1 \<or> (kinds ! 0 \<noteq> 1 \<and> kinds ! 0 \<noteq> 6 \<and> kinds ! 0 \<noteq> 7 \<and> kinds ! 0 \<noteq> 1111) then no
             else (tagKey, tagValue, True))
          else if tagKey = ''q'' then
            (if length kinds \<noteq> 2 then no
             else if \<not> (kinds ! 0 = 1 \<and> kinds ! 1 = 1111) \<and> \<not> (kinds ! 0 = 1111 \<and> kinds ! 1 = 1) then no
             else (tagKey, tagValue, True))
          else if tagKey = ''E'' then
            (if length kinds \<noteq> 1 \<or> kinds ! 0 \<noteq> 1111 then no else (tagKey, tagValue, True))
          else if tagKey = ''p'' then
            (if length kinds \<noteq> 1 \<or> kinds ! 0 \<noteq> 3 then no else (tagKey, tagValue, True))
          else no
      | _ \<Rightarrow> no)"

definition HyperLogLogFilterIsEligible :: "Filter \<Rightarrow> bool" where
  "HyperLogLogFilterIsEligible f = (case HyperLogLogFilterTag f of (_, _, ok) \<Rightarrow> ok)"

definition HyperLogLogEventPubkeyOffsetForFilter :: "ext \<Rightarrow> Filter \<Rightarrow> int" where
  "HyperLogLogEventPubkeyOffsetForFilter x f =
     (case HyperLogLogFilterTag f of
        (_, tagValue, ok) \<Rightarrow>
          if \<not> ok then -1
          else
            (let parts = strings_SplitN tagValue CHR '':'' 3;
                 hexStr = (if IsValid32ByteHex x tagValue then tagValue
                           else if length parts = 3 \<and> IsValid32ByteHex x (parts ! 1) then parts ! 1
                           else HexEncodeToString x (sha256_Sum x (bytes_of tagValue)));
                 (p, ok) = parse_nibble (take 1 (drop 32 hexStr))
             in if \<not> ok then -1 else p + 8))"

section \<open>Leading zeros\<close>

lemma clz_loop_spec:
  "k \<le> 56 \<Longrightarrow> m = (if k = 0 then 0 else push_bit (k - 1) 1) \<Longrightarrow> c = word_of_nat (56 - k) \<Longrightarrow>
     \<exists>n \<le> 56. clz_loop m x c = word_of_nat n \<and> 56 - k \<le> n \<and>
       (\<forall>i < k. 56 \<le> i + n \<longrightarrow> \<not> bit x i) \<and> (n < 56 \<longrightarrow> bit x (55 - n))"
proof (induction k arbitrary: m c)
  case 0
  then show ?case by (subst clz_loop.simps) auto
next
  case (Suc k)
  have m: "m = push_bit k 1" using Suc.prems by simp
  have "m \<noteq> 0"
  proof
    assume "m = 0"
    then have "bit m k = False" by simp
    then show False using Suc.prems(1) by (simp add: m bit_simps)
  qed
  have andm: "and m x = 0 \<longleftrightarrow> \<not> bit x k"
  proof -
    have "and m x = (if bit x k then m else 0)"
      unfolding m by (rule bit_word_eqI) (auto simp: bit_simps bit_1_iff)
    then show ?thesis using \<open>m \<noteq> 0\<close> by simp
  qed
  show ?case
  proof (cases "bit x k")
    case True
    then have "clz_loop m x c = c" by (subst clz_loop.simps) (simp add: andm)
    then show ?thesis using True Suc.prems by (intro exI [of _ "55 - k"]) auto
  next
    case False
    have "drop_bit 1 m = (if k = 0 then 0 else push_bit (k - 1) 1)"
      unfolding m using Suc.prems(1)
      by (intro bit_word_eqI) (auto simp: bit_simps bit_1_iff)
    moreover have "c + 1 = word_of_nat (56 - k)"
      using Suc.prems by (simp add: Suc_diff_le flip: of_nat_Suc)
    moreover have "clz_loop m x c = clz_loop (drop_bit 1 m) x (c + 1)"
      using False \<open>m \<noteq> 0\<close> by (subst clz_loop.simps) (simp add: andm)
    ultimately obtain n where n: "n \<le> 56" "clz_loop m x c = word_of_nat n" "56 - k \<le> n"
      "\<forall>i < k. 56 \<le> i + n \<longrightarrow> \<not> bit x i" "n < 56 \<longrightarrow> bit x (55 - n)"
      using Suc.IH [of "drop_bit 1 m" "c + 1"] Suc.prems(1) by auto
    have "\<forall>i < Suc k. 56 \<le> i + n \<longrightarrow> \<not> bit x i" using n(4) False by (auto simp: less_Suc_eq)
    then show ?thesis using n by (intro exI [of _ n]) auto
  qed
qed

lemma clz56_spec:
  obtains n where "n \<le> 56" "clz56 x = word_of_nat n" "\<And>i. i < 56 \<Longrightarrow> 56 \<le> i + n \<Longrightarrow> \<not> bit x i"
    "n < 56 \<Longrightarrow> bit x (55 - n)"
proof -
  have "\<exists>n \<le> 56. clz_loop (push_bit 55 1) x 0 = word_of_nat n \<and> 56 - 56 \<le> n \<and>
       (\<forall>i < 56. 56 \<le> i + n \<longrightarrow> \<not> bit x i) \<and> (n < 56 \<longrightarrow> bit x (55 - n))"
    by (rule clz_loop_spec [of 56]) auto
  then obtain n where n: "n \<le> 56" "clz_loop (push_bit 55 1) x 0 = word_of_nat n"
    "\<forall>i < 56. 56 \<le> i + n \<longrightarrow> \<not> bit x i" "n < 56 \<longrightarrow> bit x (55 - n)" by auto
  show ?thesis by (rule that [of n]) (use n in \<open>auto simp: clz56_def\<close>)
qed

section \<open>Sketches of sets of keys\<close>

definition offset_ok :: "int \<Rightarrow> bool" where
  "offset_ok offset \<longleftrightarrow> 0 \<le> offset \<and> offset \<le> 24"

definition hll_ok :: "HyperLogLog \<Rightarrow> bool" where
  "hll_ok h \<longleftrightarrow> length (hll_registers h) = 256 \<and> offset_ok (hll_offset h)"

fun add_all :: "PubKey list \<Rightarrow> HyperLogLog \<Rightarrow> HyperLogLog option" where
  "add_all [] h = Some h"
| "add_all (pk # pks) h = (case hll_Add h pk of None \<Rightarrow> None | Some h' \<Rightarrow> add_all pks h')"

text \<open>The register and the rank of a key.\<close>

definition key_index :: "int \<Rightarrow> PubKey \<Rightarrow> nat" where
  "key_index off pk = unat (pk ! nat off)"

definition key_rank :: "int \<Rightarrow> PubKey \<Rightarrow> byte" where
  "key_rank off pk = clz56 (word_of_nat (getBE (take 8 (drop (nat off) pk)))) + 1"

lemma RegisterForPubkey_eq:
  "wf32 pk \<Longrightarrow> offset_ok off \<Longrightarrow> RegisterForPubkey pk off = Some (pk ! nat off, key_rank off pk)"
  by (auto simp: RegisterForPubkey_def wf32_def offset_ok_def slice_def key_rank_def Let_def)

lemma rank_bounds: "1 \<le> unat (clz56 w + 1) \<and> unat (clz56 w + 1) \<le> 57"
proof -
  obtain n where n: "n \<le> 56" "clz56 w = word_of_nat n"
    using clz56_spec [of w] by metis
  then have "clz56 w + 1 = word_of_nat (n + 1)" by simp
  moreover have "unat (word_of_nat (n + 1) :: byte) = n + 1"
    using n(1) unat_of_nat [where 'a = 8, of "n + 1"] by (simp del: of_nat_add of_nat_Suc)
  ultimately have "unat (clz56 w + 1) = n + 1" by (simp only:)
  then show ?thesis using n(1) by linarith
qed

lemma key_index_less: "key_index off pk < 256"
  using unsigned_less [of "pk ! nat off"] by (simp add: key_index_def)

lemma Add_spec:
  assumes "hll_ok h" "wf32 pk"
  shows "\<exists>h'. hll_Add h pk = Some h' \<and> hll_ok h' \<and> hll_offset h' = hll_offset h \<and>
    (\<forall>i < 256. hll_registers h' ! i =
      (if key_index (hll_offset h) pk = i then max (key_rank (hll_offset h) pk) (hll_registers h ! i)
       else hll_registers h ! i))"
  using assms key_index_less [of "hll_offset h" pk]
  by (auto simp: hll_Add_def hll_ok_def RegisterForPubkey_eq index_at_def key_index_def nth_list_update max_def)

text \<open>The value a register reaches: the highest rank of the keys that map to it.\<close>

definition level :: "int \<Rightarrow> PubKey set \<Rightarrow> nat \<Rightarrow> byte" where
  "level off K i = Max (insert 0 (key_rank off ` {pk \<in> K. key_index off pk = i}))"

lemma level_empty [simp]: "level off {} i = 0"
  by (simp add: level_def)

lemma level_insert:
  "finite K \<Longrightarrow> level off (insert pk K) i =
     (if key_index off pk = i then max (key_rank off pk) (level off K i) else level off K i)"
proof -
  assume fin: "finite K"
  show ?thesis
  proof (cases "key_index off pk = i")
    case True
    then have "{p \<in> insert pk K. key_index off p = i} = insert pk {p \<in> K. key_index off p = i}" by auto
    then have "level off (insert pk K) i =
        Max (insert (key_rank off pk) (insert 0 (key_rank off ` {p \<in> K. key_index off p = i})))"
      by (simp add: level_def insert_commute)
    then show ?thesis using fin True by (simp add: level_def Max_insert)
  next
    case False
    then have "{p \<in> insert pk K. key_index off p = i} = {p \<in> K. key_index off p = i}" by auto
    then show ?thesis using False by (simp add: level_def)
  qed
qed

lemma level_Un:
  "finite K \<Longrightarrow> finite L \<Longrightarrow> level off (K \<union> L) i = max (level off K i) (level off L i)"
  by (induction K rule: finite_induct) (auto simp: level_insert max.assoc)

definition sketches :: "int \<Rightarrow> PubKey set \<Rightarrow> HyperLogLog \<Rightarrow> bool" where
  "sketches off K h \<longleftrightarrow> hll_ok h \<and> hll_offset h = off \<and> (\<forall>i < 256. hll_registers h ! i = level off K i)"

lemma sketches_unique: "sketches off K h \<Longrightarrow> sketches off K h' \<Longrightarrow> h = h'"
  by (auto simp: sketches_def hll_ok_def intro!: HyperLogLog.equality nth_equalityI)

lemma sketches_New: "offset_ok off \<Longrightarrow> \<exists>h. hll_New off = Some h \<and> sketches off {} h"
  by (auto simp: hll_New_def offset_ok_def sketches_def hll_ok_def)

lemma sketches_add_all:
  "sketches off K h \<Longrightarrow> finite K \<Longrightarrow> list_all wf32 pks \<Longrightarrow>
     \<exists>h'. add_all pks h = Some h' \<and> sketches off (K \<union> set pks) h'"
proof (induction pks arbitrary: h K)
  case Nil
  then show ?case by simp
next
  case (Cons pk pks)
  obtain h1 where h1: "hll_Add h pk = Some h1" "sketches off (insert pk K) h1"
    using Add_spec [of h pk] Cons.prems by (auto simp: sketches_def level_insert)
  then show ?case using Cons.IH [OF h1(2)] Cons.prems by simp
qed

lemma merge_loop_spec:
  "i + length vs \<le> length rs \<Longrightarrow> \<exists>rs'. merge_loop i vs rs = Some rs' \<and> length rs' = length rs \<and>
     (\<forall>j < length rs. rs' ! j = (if i \<le> j \<and> j < i + length vs then max (vs ! (j - i)) (rs ! j) else rs ! j))"
proof (induction vs arbitrary: i rs)
  case Nil
  then show ?case by auto
next
  case (Cons v vs)
  let ?r = "if v > rs ! i then rs[i := v] else rs"
  have len: "Suc i + length vs \<le> length ?r" using Cons.prems by simp
  have i: "i < length rs" using Cons.prems by simp
  then have step: "merge_loop i (v # vs) rs = merge_loop (Suc i) vs ?r"
    using Cons.prems by (simp add: index_at_def)
  obtain rs' where rs': "merge_loop (Suc i) vs ?r = Some rs'" "length rs' = length ?r"
    "\<forall>j < length ?r. rs' ! j = (if Suc i \<le> j \<and> j < Suc i + length vs then max (vs ! (j - Suc i)) (?r ! j) else ?r ! j)"
    using Cons.IH [OF len] by blast
  have "rs' ! j = (if i \<le> j \<and> j < i + length (v # vs) then max ((v # vs) ! (j - i)) (rs ! j) else rs ! j)"
    if j: "j < length rs" for j
  proof (cases "i = j")
    case True
    have "j < length ?r" using j by simp
    then have "rs' ! j = ?r ! j" using rs'(3) True by auto
    moreover have "?r ! j = max v (rs ! j)"
    proof (cases "rs ! j < v")
      case less: True
      then have "?r ! j = v" using True j by simp
      then show ?thesis using max.absorb1 [OF less_imp_le [OF less]] by (rule trans [OF _ sym])
    next
      case False
      then have "?r ! j = rs ! j" using True by simp
      moreover have "v \<le> rs ! j" using False by (simp only: not_less)
      ultimately show ?thesis by (simp only: max.absorb2)
    qed
    ultimately show ?thesis using True by simp
  next
    case False
    have "?r ! j = rs ! j" using False by simp
    moreover have "j < length ?r" using j by simp
    ultimately have "rs' ! j = (if Suc i \<le> j \<and> j < Suc i + length vs then max (vs ! (j - Suc i)) (rs ! j) else rs ! j)"
      using rs'(3) by metis
    then show ?thesis using False by (auto simp: nth_Cons' le_less)
  qed
  then show ?case using step rs' by auto
qed

lemma Merge_sketches:
  assumes "sketches off K h" "sketches off L h'" "finite K" "finite L"
  shows "\<exists>m. hll_Merge h h' = Some m \<and> sketches off (K \<union> L) m"
proof -
  have l: "length (hll_registers h) = 256" "length (hll_registers h') = 256"
    using assms by (auto simp: sketches_def hll_ok_def)
  have "0 + length (hll_registers h') \<le> length (hll_registers h)" using l by simp
  from merge_loop_spec [OF this] obtain rs where rs:
    "merge_loop 0 (hll_registers h') (hll_registers h) = Some rs" "length rs = 256"
    "\<forall>j < 256. rs ! j = max (hll_registers h' ! j) (hll_registers h ! j)"
    using l by auto
  have "\<forall>j < 256. rs ! j = level off (K \<union> L) j"
    using rs(3) assms by (simp add: sketches_def level_Un max.commute)
  then show ?thesis using rs(1,2) assms by (auto simp: hll_Merge_def sketches_def hll_ok_def)
qed

text \<open>
  A sketch built from keys depends on the set of keys only, and merging two sketches gives the
  sketch of the union.
\<close>

lemma sketch_of_keys:
  assumes "offset_ok off" "list_all wf32 pks"
  obtains h0 h where "hll_New off = Some h0" "add_all pks h0 = Some h" "sketches off (set pks) h"
  using sketches_New [OF assms(1)] sketches_add_all assms(2) by (metis finite.emptyI Un_empty_left)

section \<open>Events and filters agree\<close>

lemma valid_hex_nibble:
  "IsValid32ByteHex x v \<Longrightarrow> \<exists>d. parse_nibble (take 1 (drop 32 v)) = (int d, True) \<and> d < 16"
proof -
  assume v: "IsValid32ByteHex x v"
  then have l: "length v = 64" "isLowerHex v" by (auto simp: IsValid32ByteHex_def)
  then have "v ! 32 \<in> set v" by simp
  then have "\<exists>d. hex_value (v ! 32) = Some d \<and> d < 16"
    using l(2) by (auto simp: isLowerHex_def list_all_iff hex_value_def Let_def)
  moreover have "take 1 (drop 32 v) = [v ! 32]" using l(1) by (simp add: take_Suc_conv_app_nth hd_drop_conv_nth take_Suc)
  ultimately show ?thesis by (auto simp: parse_nibble_def)
qed

lemma target_offset_ok: "IsValid32ByteHex x v \<Longrightarrow> offset_ok (tg_Offset (mk_target k v))"
  using valid_hex_nibble [of x v] by (auto simp: mk_target_def offset_ok_def)

text \<open>The COUNT filter a target belongs to.\<close>

definition target_filter :: "HLLTarget \<Rightarrow> Kind \<Rightarrow> Filter" where
  "target_filter t k =
     empty_filter\<lparr>fKinds := Some (if tg_TagKey t = ''q'' then [1, 1111] else [k]),
                  fTags := [(tg_TagKey t, [tg_Ref t])]\<rparr>"

definition target_of :: "ext \<Rightarrow> Tags \<Rightarrow> string \<Rightarrow> HLLTarget \<Rightarrow> bool" where
  "target_of x tags k t \<longleftrightarrow>
     (\<exists>tag \<in> set tags. 2 \<le> length tag \<and> tag ! 0 = k \<and> tag ! 1 = tg_Ref t) \<and>
     IsValid32ByteHex x (tg_Ref t) \<and> tg_TagKey t = k \<and> t = mk_target k (tg_Ref t)"

lemma one_target_of: "t \<in> set (one_target x k (tags_Find tags k)) \<Longrightarrow> target_of x tags k t"
proof (cases "tags_Find tags k")
  case (Some tag)
  assume "t \<in> set (one_target x k (tags_Find tags k))"
  then show ?thesis using Some tags_Find_Some [OF Some]
    by (auto simp: one_target_def target_of_def mk_target_def split: if_splits)
qed (simp add: one_target_def)

lemma last_target_of: "t \<in> set (one_target x k (FindLast tags k)) \<Longrightarrow> target_of x tags k t"
  using one_target_of [of t x k "rev tags"] by (auto simp: FindLast_rev target_of_def)

lemma all_targets_of: "t \<in> set (all_targets x k (tags_FindAll tags k)) \<Longrightarrow> target_of x tags k t"
  by (auto simp: all_targets_def tags_FindAll_def target_of_def mk_target_def)

lemma targets_of:
  assumes t: "t \<in> set (HyperLogLogTargetsForEventWithTags x e)"
  shows "\<exists>k. target_of x (evTags e) k t \<and> (k, evKind e) \<in> {(''e'', 1), (''q'', 1), (''p'', 3), (''e'', 6), (''e'', 7),
       (''E'', 1111), (''e'', 1111), (''q'', 1111)}"
proof -
  have p: "filter (\<lambda>tag. length tag \<ge> 2 \<and> tag ! 0 = ''p'') (evTags e) = tags_FindAll (evTags e) ''p''"
    by (simp add: tags_FindAll_def)
  note of = one_target_of last_target_of all_targets_of
  consider "evKind e = 1" | "evKind e = 3" | "evKind e = 6" | "evKind e = 7" | "evKind e = 1111"
    using t by (auto simp: HyperLogLogTargetsForEventWithTags_def Let_def split: if_splits)
  then show ?thesis
  proof cases
    case 1
    then show ?thesis using t by (auto simp: HyperLogLogTargetsForEventWithTags_def Let_def dest!: of)
  next
    case 2
    then show ?thesis using t by (auto simp: HyperLogLogTargetsForEventWithTags_def Let_def p dest!: of)
  next
    case 3
    then show ?thesis using t by (auto simp: HyperLogLogTargetsForEventWithTags_def Let_def dest!: of)
  next
    case 4
    then show ?thesis using t by (auto simp: HyperLogLogTargetsForEventWithTags_def Let_def dest!: of)
  next
    case 5
    then show ?thesis using t by (auto simp: HyperLogLogTargetsForEventWithTags_def Let_def dest!: of)
  qed
qed

lemma target_cases:
  assumes "t \<in> set (HyperLogLogTargetsForEventWithTags x e)"
  shows "\<exists>tag \<in> set (evTags e). 2 \<le> length tag \<and> tag ! 0 = tg_TagKey t \<and> tag ! 1 = tg_Ref t \<and>
    IsValid32ByteHex x (tg_Ref t) \<and> t = mk_target (tg_TagKey t) (tg_Ref t) \<and>
    (tg_TagKey t, evKind e) \<in> {(''e'', 1), (''q'', 1), (''p'', 3), (''e'', 6), (''e'', 7),
       (''E'', 1111), (''e'', 1111), (''q'', 1111)}"
proof -
  obtain k where k: "target_of x (evTags e) k t"
    "(k, evKind e) \<in> {(''e'', 1), (''q'', 1), (''p'', 3), (''e'', 6), (''e'', 7),
       (''E'', 1111), (''e'', 1111), (''q'', 1111)}"
    using targets_of [OF assms] by blast
  then have key: "tg_TagKey t = k" by (simp add: target_of_def)
  obtain tag where "tag \<in> set (evTags e)" "2 \<le> length tag" "tag ! 0 = k" "tag ! 1 = tg_Ref t"
    using k(1) unfolding target_of_def by blast
  moreover have "IsValid32ByteHex x (tg_Ref t)" "t = mk_target k (tg_Ref t)"
    using k(1) unfolding target_of_def by blast+
  ultimately show ?thesis unfolding key by (intro bexI [of _ tag] conjI) (assumption | rule k(2))+
qed

lemma target_filter_tag:
  assumes "t \<in> set (HyperLogLogTargetsForEventWithTags x e)"
  shows "HyperLogLogFilterTag (target_filter t (evKind e)) = (tg_TagKey t, tg_Ref t, True)"
proof -
  have "(tg_TagKey t, evKind e) \<in> {(''e'', 1), (''q'', 1), (''p'', 3), (''e'', 6), (''e'', 7),
       (''E'', 1111), (''e'', 1111), (''q'', 1111)}"
    using target_cases [OF assms] by blast
  then show ?thesis by (auto simp: HyperLogLogFilterTag_def target_filter_def empty_filter_def opt_list_def)
qed

lemma target_filter_agrees:
  assumes "t \<in> set (HyperLogLogTargetsForEventWithTags x e)"
  shows "Matches (target_filter t (evKind e)) e \<and>
    HyperLogLogEventPubkeyOffsetForFilter x (target_filter t (evKind e)) = tg_Offset t \<and> offset_ok (tg_Offset t)"
proof -
  obtain tag where tag: "tag \<in> set (evTags e)" "2 \<le> length tag" "tag ! 0 = tg_TagKey t" "tag ! 1 = tg_Ref t"
    and v: "IsValid32ByteHex x (tg_Ref t)" and t: "t = mk_target (tg_TagKey t) (tg_Ref t)"
    and k: "(tg_TagKey t, evKind e) \<in> {(''e'', 1), (''q'', 1), (''p'', 3), (''e'', 6), (''e'', 7),
       (''E'', 1111), (''e'', 1111), (''q'', 1111)}"
    using target_cases [OF assms] by blast
  let ?f = "target_filter t (evKind e)"
  have "ContainsAny (evTags e) (tg_TagKey t) [tg_Ref t]" using tag by (auto simp: ContainsAny_iff)
  then have m: "Matches ?f e"
    using k by (auto simp: target_filter_def Matches_def MatchesIgnoringTimestampConstraints_def empty_filter_def)
  have ft: "HyperLogLogFilterTag ?f = (tg_TagKey t, tg_Ref t, True)" by (rule target_filter_tag [OF assms])
  obtain d where d: "parse_nibble (take 1 (drop 32 (tg_Ref t))) = (int d, True)"
    using valid_hex_nibble [OF v] by blast
  have o: "tg_Offset t = int d + 8"
    using arg_cong [OF t, of tg_Offset] by (simp only: mk_target_def HLLTarget.simps d fst_conv)
  then have "HyperLogLogEventPubkeyOffsetForFilter x ?f = tg_Offset t"
    unfolding HyperLogLogEventPubkeyOffsetForFilter_def ft using v d by (simp del: One_nat_def)
  moreover have "offset_ok (tg_Offset t)"
    using target_offset_ok [OF v, of "tg_TagKey t"] unfolding t [symmetric] .
  ultimately show ?thesis using m by simp
qed

section \<open>Properties\<close>

text \<open>C27: for every offset the protocol can produce, a sketch of 32-byte keys never panics, depends on the set of
  keys only, and merging the sketches of two sets gives the sketch of their union.\<close>

theorem merge_is_union:
  assumes "0 \<le> off" "off \<le> 24" "list_all wf32 as" "list_all wf32 bs" "list_all wf32 cs" "set cs = set as \<union> set bs"
  shows "\<exists>h0 ha hb hc. hll_New off = Some h0 \<and> add_all as h0 = Some ha \<and> add_all bs h0 = Some hb \<and>
    add_all cs h0 = Some hc \<and> hll_Merge ha hb = Some hc"
proof -
  have ok: "offset_ok off" using assms by (simp add: offset_ok_def)
  obtain h0 ha where a: "hll_New off = Some h0" "add_all as h0 = Some ha" "sketches off (set as) ha"
    using sketch_of_keys [OF ok assms(3)] .
  obtain h1 hb where b: "hll_New off = Some h1" "add_all bs h1 = Some hb" "sketches off (set bs) hb"
    using sketch_of_keys [OF ok assms(4)] .
  obtain h2 hc where c: "hll_New off = Some h2" "add_all cs h2 = Some hc" "sketches off (set cs) hc"
    using sketch_of_keys [OF ok assms(5)] .
  obtain m where m: "hll_Merge ha hb = Some m" "sketches off (set as \<union> set bs) m"
    using Merge_sketches [OF a(3) b(3)] by auto
  have "m = hc" using m(2) c(3) assms(6) sketches_unique by simp
  then show ?thesis using a b c m by auto
qed

theorem merge_is_union_witness:
  "\<exists>h0 ha hb hc. hll_New 8 = Some h0 \<and> add_all [replicate 32 1] h0 = Some ha \<and>
     add_all [replicate 32 2] h0 = Some hb \<and> add_all [replicate 32 2, replicate 32 1] h0 = Some hc \<and> hll_Merge ha hb = Some hc"
  by (rule merge_is_union) (auto simp: wf32_def)

text \<open>the rank stored in a register lies between 1 and 57, so one byte per register is enough.\<close>

theorem register_value_bounds:
  assumes "RegisterForPubkey pk off = Some (i, val)"
  shows "1 \<le> unat val \<and> unat val \<le> 57"
proof -
  obtain w where "val = clz56 w + 1"
    using assms by (auto simp: RegisterForPubkey_def Let_def split: if_splits option.splits)
  then show ?thesis using rank_bounds [of w] by simp
qed

theorem register_value_bounds_witness: "unat (snd (the (RegisterForPubkey (replicate 32 1) 8))) \<le> 57"
proof -
  obtain i val where "RegisterForPubkey (replicate 32 1) 8 = Some (i, val)"
    using RegisterForPubkey_eq [of "replicate 32 1" 8] by (auto simp: wf32_def offset_ok_def)
  then show ?thesis using register_value_bounds by fastforce
qed

text \<open>C31: whatever sketch an event is added to, there is a COUNT filter that matches the event and reads that sketch at
  the same offset, and the offset is one the sketch accepts.\<close>

theorem event_and_filter_offsets_agree:
  assumes "t \<in> set (HyperLogLogTargetsForEventWithTags x e)"
  shows "\<exists>f. Matches f e \<and> HyperLogLogFilterTag f = (tg_TagKey t, tg_Ref t, True) \<and>
    HyperLogLogEventPubkeyOffsetForFilter x f = tg_Offset t \<and> hll_New (tg_Offset t) \<noteq> None"
  using target_filter_agrees [OF assms] target_filter_tag [OF assms] by (auto simp: hll_New_def offset_ok_def)

theorem event_and_filter_offsets_agree_witness:
  "\<exists>f. Matches f (note1\<lparr>evKind := 7, evTags := [[''e'', replicate 64 (CHR ''a'')]]\<rparr>) \<and>
     HyperLogLogEventPubkeyOffsetForFilter std_ext f = 18"
proof -
  let ?v = "replicate 64 (CHR ''a'')"
  let ?e = "note1\<lparr>evKind := 7, evTags := [[''e'', ?v]]\<rparr>"
  have "IsValid32ByteHex std_ext ?v" by code_simp
  then have "mk_target ''e'' ?v \<in> set (HyperLogLogTargetsForEventWithTags std_ext ?e)"
    by (simp add: HyperLogLogTargetsForEventWithTags_def one_target_def)
  moreover have "tg_Offset (mk_target ''e'' ?v) = 18" by (simp add: mk_target_def parse_nibble_def hex_value_def)
  ultimately show ?thesis using event_and_filter_offsets_agree [of "mk_target ''e'' ?v" std_ext ?e] by auto
qed

end
