(* ===== verification/Context.thy ===== *)
theory Context
  imports Listener
begin

text \<open>
  What a relay handler knows of the connection it serves: the values that \<^verbatim>\<open>relay/utils.go\<close> and
  \<^verbatim>\<open>relay/negentropy.go\<close> keep in the Go context, the message prefixes of \<^verbatim>\<open>normalize.go\<close>, protected
  events (\<^verbatim>\<open>nip70\<close>) and authentication events (\<^verbatim>\<open>nip42\<close>).  The context is a record; a missing key is
  \<open>None\<close> or \<open>False\<close>.
\<close>

section \<open>The context\<close>

record connection =
  cn_ws :: ws
  cn_Challenge :: string
  cn_AuthedPublicKeys :: "PubKey list"

record ctx =
  cx_ws :: "connection option"            \<comment> \<open>\<^verbatim>\<open>wsKey\<close>\<close>
  cx_nip86HeaderAuth :: "PubKey option"
  cx_subscriptionId :: "string option"
  cx_internalCall :: bool
  cx_negentropySession :: bool

definition GetConnection :: "ctx \<Rightarrow> connection option" where
  "GetConnection cx = cx_ws cx"

definition GetAuthed :: "ctx \<Rightarrow> PubKey \<times> bool" where
  "GetAuthed cx =
     (case GetConnection cx of
        Some conn \<Rightarrow>
          (let total = length (cn_AuthedPublicKeys conn) in
           if total = 0 then (ZeroPK, False) else (cn_AuthedPublicKeys conn ! (total - 1), True))
      | None \<Rightarrow>
          (case cx_nip86HeaderAuth cx of Some pk \<Rightarrow> (pk, True) | None \<Rightarrow> (ZeroPK, False)))"

definition GetAllAuthed :: "ctx \<Rightarrow> PubKey list" where
  "GetAllAuthed cx =
     (case GetConnection cx of
        Some conn \<Rightarrow> cn_AuthedPublicKeys conn
      | None \<Rightarrow> (case cx_nip86HeaderAuth cx of Some pk \<Rightarrow> [pk] | None \<Rightarrow> []))"

definition IsAuthed :: "ctx \<Rightarrow> PubKey \<Rightarrow> bool" where
  "IsAuthed cx pubkey =
     (if (case GetConnection cx of Some conn \<Rightarrow> list_ex (\<lambda>pk. pk = pubkey) (cn_AuthedPublicKeys conn) | None \<Rightarrow> False)
      then True
      else case cx_nip86HeaderAuth cx of Some pk \<Rightarrow> pk = pubkey | None \<Rightarrow> False)"

definition ForceSetAuthed :: "ctx \<Rightarrow> PubKey \<Rightarrow> ctx" where
  "ForceSetAuthed cx pubkey = cx\<lparr>cx_nip86HeaderAuth := Some pubkey\<rparr>"

definition IsInternalCall :: "ctx \<Rightarrow> bool" where
  "IsInternalCall cx = cx_internalCall cx"

definition GetSubscriptionID :: "ctx \<Rightarrow> string option" where
  "GetSubscriptionID cx = cx_subscriptionId cx"  \<comment> \<open>\<open>None\<close>: the type assertion panics\<close>

definition IsNegentropySession :: "ctx \<Rightarrow> bool" where
  "IsNegentropySession cx = cx_negentropySession cx"

definition SetNegentropy :: "ctx \<Rightarrow> ctx" where
  "SetNegentropy cx = cx\<lparr>cx_negentropySession := True\<rparr>"

section \<open>Reasons\<close>

definition NormalizeOKMessage :: "string \<Rightarrow> string \<Rightarrow> string" where
  "NormalizeOKMessage reason pref =
     (let idx = strings_Index reason '': '' in
      if idx = -1 \<or> strings_IndexByte (take (nat idx) reason) (CHR '' '') \<noteq> -1 then pref @ '': '' @ reason
      else reason)"

text \<open>Every normalized message starts with a word and a colon.\<close>

definition prefixed :: "string \<Rightarrow> bool" where
  "prefixed r \<longleftrightarrow> (\<exists>w rest. r = w @ '': '' @ rest \<and> CHR '' '' \<notin> set w)"

lemma IndexByte_absent: "strings_IndexByte s c = -1 \<longleftrightarrow> c \<notin> set s"
  by (simp add: strings_IndexByte_def)

lemma prefixed_I: "CHR '' '' \<notin> set w \<Longrightarrow> prefixed (w @ '': '' @ rest)"
  unfolding prefixed_def by blast

lemma NormalizeOKMessage_prefixed:
  assumes "CHR '' '' \<notin> set pref"
  shows "prefixed (NormalizeOKMessage reason pref)"
proof (cases "strings_Index reason '': '' = -1 \<or>
    strings_IndexByte (take (nat (strings_Index reason '': '')) reason) (CHR '' '') \<noteq> -1")
  case True
  then show ?thesis using prefixed_I [OF assms] by (simp add: NormalizeOKMessage_def Let_def)
next
  case False
  let ?i = "nat (strings_Index reason '': '')"
  have "0 \<le> strings_Index reason '': ''" using False strings_Index_bounds [of reason "'': ''"] by auto
  then have "strings_HasPrefix (drop ?i reason) '': ''" by (rule strings_Index_found)
  then have "reason = take ?i reason @ '': '' @ drop 2 (drop ?i reason)"
    by (metis append_take_drop_id strings_HasPrefix_def length_Cons list.size(3) numeral_2_eq_2)
  moreover have "CHR '' '' \<notin> set (take ?i reason)" using False by (simp add: IndexByte_absent)
  ultimately have "prefixed reason" unfolding prefixed_def by blast
  then show ?thesis using False by (simp add: NormalizeOKMessage_def Let_def)
qed

section \<open>Protected events (NIP-70)\<close>

definition IsProtected :: "event \<Rightarrow> bool" where
  "IsProtected event \<longleftrightarrow> list_ex (\<lambda>tag. length tag = 1 \<and> tag ! 0 = ''-'') (evTags event)"

definition HasEmbeddedProtected :: "event \<Rightarrow> bool" where
  "HasEmbeddedProtected event =
     (if evKind event = 6 \<or> evKind event = 16 then
        (let tidx = strings_Index (evContent event) ([CHR 0x22] @ ''tags'' @ [CHR 0x22] @ '':['');
             eidx = strings_Index (evContent event) '']]'';
             pidx = strings_Index (evContent event) (''['' @ [CHR 0x22] @ ''-'' @ [CHR 0x22] @ '']'')
         in if tidx \<noteq> -1 \<and> eidx \<noteq> -1 \<and> pidx \<noteq> -1 then pidx > tidx \<and> pidx < eidx else False)
      else False)"

section \<open>Authentication events (NIP-42)\<close>

record url =
  u_Scheme :: string
  u_Host :: string
  u_Path :: string

text \<open>
  \<open>au_Parse\<close> is \<^verbatim>\<open>url.Parse\<close> after \<^verbatim>\<open>strings.ToLower\<close>, \<open>au_Now\<close> the clock in nanoseconds and \<open>au_Verify\<close> the
  signature check; all three come from outside the repository.
\<close>

record auth_env =
  au_Parse :: "string \<Rightarrow> url option"
  au_Now :: int
  au_Verify :: "event \<Rightarrow> bool"

datatype auth_error =
    WrongKind Kind
  | MissingChallenge
  | WrongChallenge string string
  | BadRelayURL
  | MissingRelay
  | InvalidRelay string
  | WrongRelay url url
  | TooFuture
  | TooPast
  | BadSignature

definition trim_slash :: "string \<Rightarrow> string" where
  "trim_slash s = (if s \<noteq> [] \<and> last s = CHR ''/'' then butlast s else s)"

definition parseURL :: "auth_env \<Rightarrow> string \<Rightarrow> url option" where
  "parseURL a input = au_Parse a (trim_slash input)"

definition CreateUnsignedAuthEvent :: "string \<Rightarrow> PubKey \<Rightarrow> string \<Rightarrow> int \<Rightarrow> event" where
  "CreateUnsignedAuthEvent challenge pubkey relayURL now =
     \<lparr>evID = ZeroID, evPubKey = pubkey, evCreatedAt = now, evKind = 22242,
      evTags = [[''relay'', relayURL], [''challenge'', challenge]], evContent = '''', evSig = replicate 64 0\<rparr>"

fun GetRelayURL_loop :: "Tags \<Rightarrow> string" where
  "GetRelayURL_loop [] = ''''"
| "GetRelayURL_loop (tag # tags) = (if length tag \<ge> 2 \<and> tag ! 0 = ''relay'' then tag ! 1 else GetRelayURL_loop tags)"

definition GetRelayURLFromAuthEvent :: "event \<Rightarrow> string" where
  "GetRelayURLFromAuthEvent event = GetRelayURL_loop (evTags event)"

definition ValidateAuthEvent :: "auth_env \<Rightarrow> event \<Rightarrow> string \<Rightarrow> string \<Rightarrow> (auth_error, PubKey) outcome" where
  "ValidateAuthEvent a event challenge relayURL =
     (if evKind event \<noteq> 22242 then Fail (WrongKind (evKind event))
      else if FindWithValue (evTags event) ''challenge'' challenge = None then
        (case tags_Find (evTags event) ''challenge'' of
           None \<Rightarrow> Fail MissingChallenge
         | Some ctag \<Rightarrow> Fail (WrongChallenge challenge (ctag ! 1)))
      else case parseURL a relayURL of
        None \<Rightarrow> Fail BadRelayURL
      | Some expected \<Rightarrow>
          (case tags_Find (evTags event) ''relay'' of
             None \<Rightarrow> Fail MissingRelay
           | Some tag \<Rightarrow>
               (case parseURL a (tag ! 1) of
                  None \<Rightarrow> Fail (InvalidRelay (tag ! 1))
                | Some found \<Rightarrow>
                    if u_Scheme expected \<noteq> u_Scheme found \<or> u_Host expected \<noteq> u_Host found \<or> u_Path expected \<noteq> u_Path found
                    then Fail (WrongRelay expected found)
                    else if evCreatedAt event * 1000000000 > au_Now a + 600 * 1000000000 then Fail TooFuture
                    else if evCreatedAt event * 1000000000 < au_Now a - 600 * 1000000000 then Fail TooPast
                    else if \<not> au_Verify a event then Fail BadSignature
                    else Ret (evPubKey event))))"

lemma tags_FindWithValue_Some:
  "FindWithValue tags k v = Some t \<Longrightarrow> t \<in> set tags \<and> 2 \<le> length t \<and> t ! 0 = k \<and> t ! 1 = v"
  by (induction tags) (auto split: if_splits)

lemma ValidateAuthEvent_Ret:
  "ValidateAuthEvent a e c r = Ret pk \<longleftrightarrow>
     evKind e = 22242 \<and> FindWithValue (evTags e) ''challenge'' c \<noteq> None \<and>
     (\<exists>expected tag found. parseURL a r = Some expected \<and> tags_Find (evTags e) ''relay'' = Some tag \<and>
        parseURL a (tag ! 1) = Some found \<and> u_Scheme found = u_Scheme expected \<and> u_Host found = u_Host expected \<and>
        u_Path found = u_Path expected) \<and>
     \<bar>evCreatedAt e * 1000000000 - au_Now a\<bar> \<le> 600 * 1000000000 \<and> au_Verify a e \<and> pk = evPubKey e"
  unfolding ValidateAuthEvent_def by (auto split: option.splits if_splits)

end
