(* ===== verification/Relay.thy ===== *)
theory Relay
  imports Context SliceStore Expiration HLL Negentropy
begin

text \<open>
  The relay's message handlers: \<^verbatim>\<open>relay/handlers.go\<close> (what happens to each message of a websocket),
  \<^verbatim>\<open>adding.go\<close>, \<^verbatim>\<open>ephemeral.go\<close>, \<^verbatim>\<open>deleting.go\<close>, \<^verbatim>\<open>responding.go\<close>, \<^verbatim>\<open>negentropy.go\<close> and the wiring of an
  event store in \<^verbatim>\<open>relay.go\<close>.  The state of the server is explicit; a handler runs as one step.  The
  hooks of the \<^verbatim>\<open>Relay\<close> struct are optional functions over the state of the store; hooks that only
  notify are recorded as calls.  Writes are the list of messages in the order they are sent.
\<close>

section \<open>State\<close>

datatype hook_call = CallSaved event | CallDeleted event | CallEphemeral event

datatype reply =
    OKMsg ID bool string
  | EventMsg string event
  | EOSEMsg string
  | ClosedMsg string string
  | CountMsg string "32 word" "bytes option"
  | NoticeMsg string
  | AuthMsg string
  | NegErrMsg string string
  | NegMsg string string
  | NegCloseMsg string

type_synonym outbox = "(ws option \<times> reply) list"

record 't hooks =
  hk_OnEvent :: "(ctx \<Rightarrow> 't \<Rightarrow> event \<Rightarrow> bool \<times> string) option"
  hk_StoreEvent :: "(ctx \<Rightarrow> event \<Rightarrow> 't \<Rightarrow> store_error option \<times> 't) option"
  hk_ReplaceEvent :: "(ctx \<Rightarrow> event \<Rightarrow> 't \<Rightarrow> (event list \<times> store_error option) \<times> 't) option"
  hk_DeleteEvent :: "(ctx \<Rightarrow> ID \<Rightarrow> 't \<Rightarrow> store_error option \<times> 't) option"
  hk_OnEventSaved :: bool                    \<comment> \<open>whether the hook is set\<close>
  hk_OnEventDeleted :: bool
  hk_OnEphemeralEvent :: bool
  hk_OnRequest :: "(ctx \<Rightarrow> 't \<Rightarrow> Filter \<Rightarrow> bool \<times> string) option"
  hk_OnCount :: "(ctx \<Rightarrow> 't \<Rightarrow> Filter \<Rightarrow> bool \<times> string) option"
  hk_QueryStored :: "(ctx \<Rightarrow> 't \<Rightarrow> Filter \<Rightarrow> (event + store_error) list) option"
  hk_Count :: "(ctx \<Rightarrow> 't \<Rightarrow> Filter \<Rightarrow> int \<times> store_error option) option"
  hk_CountHLL :: "(ctx \<Rightarrow> 't \<Rightarrow> Filter \<Rightarrow> int \<Rightarrow> int \<times> HyperLogLog option \<times> store_error option) option"
  hk_PreventBroadcast :: "(ws option \<Rightarrow> Filter \<Rightarrow> event \<Rightarrow> bool) option"

text \<open>The configuration: hooks, switches and what comes from outside.  \<open>cf_hexText\<close> and \<open>cf_authText\<close> are the
  texts of errors of other packages; \<open>cf_negText\<close> those of the negentropy engine.\<close>

record ('s, 'm, 't) relay_config =
  cf_set :: "'s set_ops"
  cf_map :: "('m, subscription) map_ops"
  cf_hooks :: "'t hooks"
  cf_ext :: ext
  cf_auth :: auth_env
  cf_relayURL :: string
  cf_Negentropy :: bool
  cf_MaxAuthenticatedClients :: int
  cf_hexText :: "string \<Rightarrow> hex_error \<Rightarrow> string"
  cf_authText :: "auth_error \<Rightarrow> string"
  cf_negText :: "neg_error \<Rightarrow> string"

record ('s, 'm, 't) server =
  sv_relay :: "('s, 'm) relay_state"
  sv_store :: 't
  sv_expiring :: "expiringEvent list option"   \<comment> \<open>\<^verbatim>\<open>expirationManager\<close>, if any\<close>
  sv_conns :: "ws \<Rightarrow> connection"
  sv_sessions :: "ws \<Rightarrow> string \<rightharpoonup> Negentropy"
  sv_calls :: "hook_call list"

definition err_text :: "store_error \<Rightarrow> string" where
  "err_text e = (case e of ErrDupEvent \<Rightarrow> ''duplicate: event already exists'' | ErrOther s \<Rightarrow> s)"

definition RequestAuth :: "connection \<Rightarrow> outbox" where
  "RequestAuth c = [(Some (cn_ws c), AuthMsg (cn_Challenge c))]"

section \<open>Adding events\<close>

text \<open>The \<^verbatim>\<open>OnEvent\<close> guard shared by \<^verbatim>\<open>handleNormal\<close> and \<^verbatim>\<open>handleEphemeral\<close>.\<close>

definition rejected :: "('s, 'm, 't) relay_config \<Rightarrow> ctx \<Rightarrow> ('s, 'm, 't) server \<Rightarrow> event \<Rightarrow> string option" where
  "rejected cf cx s evt =
     (case hk_OnEvent (cf_hooks cf) of
        None \<Rightarrow> None
      | Some f \<Rightarrow>
          (let (reject, msg) = f cx (sv_store s) evt in
           if reject then
             (if msg = '''' then Some ''blocked: no reason'' else Some (NormalizeOKMessage msg ''blocked''))
           else None))"

definition store_event :: "('s, 'm, 't) relay_config \<Rightarrow> ctx \<Rightarrow> event \<Rightarrow> 't \<Rightarrow> store_error option \<times> 't" where
  "store_event cf cx evt st =
     (if IsRegular (evKind evt) then
        (case hk_StoreEvent (cf_hooks cf) of None \<Rightarrow> (None, st) | Some f \<Rightarrow> f cx evt st)
      else
        (case hk_ReplaceEvent (cf_hooks cf) of None \<Rightarrow> (None, st) | Some f \<Rightarrow> let ((_, e), st) = f cx evt st in (e, st)))"

definition handleNormal :: "('s, 'm, 't) relay_config \<Rightarrow> ctx \<Rightarrow> event \<Rightarrow> ('s, 'm, 't) server
    \<Rightarrow> (bool \<times> string option) \<times> ('s, 'm, 't) server" where
  "handleNormal cf cx evt s =
     (case rejected cf cx s evt of
        Some reason \<Rightarrow> ((True, Some reason), s)
      | None \<Rightarrow>
          (case store_event cf cx evt (sv_store s) of
             (Some ErrDupEvent, st) \<Rightarrow> ((True, None), s\<lparr>sv_store := st\<rparr>)
           | (Some err, st) \<Rightarrow> ((False, Some (NormalizeOKMessage (err_text err) ''error'')), s\<lparr>sv_store := st\<rparr>)
           | (None, st) \<Rightarrow>
               (let s = s\<lparr>sv_store := st\<rparr>;
                    s = (if hk_OnEventSaved (cf_hooks cf) then s\<lparr>sv_calls := sv_calls s @ [CallSaved evt]\<rparr> else s);
                    s = s\<lparr>sv_expiring := map_option (trackEvent (evID evt) (GetExpiration (evTags evt))) (sv_expiring s)\<rparr>
                in ((False, None), s))))"

definition handleEphemeral :: "('s, 'm, 't) relay_config \<Rightarrow> ctx \<Rightarrow> event \<Rightarrow> ('s, 'm, 't) server
    \<Rightarrow> string option \<times> ('s, 'm, 't) server" where
  "handleEphemeral cf cx evt s =
     (case rejected cf cx s evt of
        Some reason \<Rightarrow> (Some reason, s)
      | None \<Rightarrow>
          (None, if hk_OnEphemeralEvent (cf_hooks cf) then s\<lparr>sv_calls := sv_calls s @ [CallEphemeral evt]\<rparr> else s))"

definition AddEvent :: "('s, 'm, 't) relay_config \<Rightarrow> ctx \<Rightarrow> event \<Rightarrow> ('s, 'm, 't) server
    \<Rightarrow> (bool \<times> string option) \<times> ('s, 'm, 't) server" where
  "AddEvent cf cx evt s =
     (if IsEphemeral (evKind evt) then let (err, s) = handleEphemeral cf cx evt s in ((False, err), s)
      else handleNormal cf cx evt s)"

section \<open>Deletion requests\<close>

definition ErrNothingToDelete :: string where
  "ErrNothingToDelete = ''blocked: nothing to delete''"

definition ErrNotAuthor :: string where
  "ErrNotAuthor = ''blocked: you are not the author of this event''"

text \<open>The filter a tag of the request stands for: \<open>Ret None\<close> is \<^verbatim>\<open>continue\<close>.\<close>

definition address_filter :: "event \<Rightarrow> int \<Rightarrow> PubKey \<Rightarrow> string \<Rightarrow> Filter" where
  "address_filter evt kind author identifier =
     empty_filter\<lparr>fKinds := Some [word_of_int kind], fAuthors := Some [author], fTags := [(''d'', [identifier])],
       fUntil := evCreatedAt evt\<rparr>"

definition delete_target :: "('s, 'm, 't) relay_config \<Rightarrow> event \<Rightarrow> Tag \<Rightarrow> (string, Filter option) outcome" where
  "delete_target cf evt tag =
     (if length tag < 2 then Ret None
      else if tag ! 0 = ''e'' then
        (case IDFromHex (cf_ext cf) (tag ! 1) of
           Ret i \<Rightarrow> Ret (Some (empty_filter\<lparr>fIDs := Some [i]\<rparr>))
         | Fail e \<Rightarrow> Fail (''invalid '' @ [CHR 0x27] @ ''e'' @ [CHR 0x27] @ '' tag '' @ [CHR 0x27] @ tag ! 1 @ [CHR 0x27] @ '': '' @ cf_hexText cf (tag ! 1) e)
         | Panic \<Rightarrow> Panic)
      else if tag ! 0 = ''a'' then
        (case strings_SplitN (tag ! 1) (CHR '':'') 3 of
           [k, p, identifier] \<Rightarrow>
             (case strconv_Atoi k of
                (kind, False) \<Rightarrow> Ret None
              | (kind, True) \<Rightarrow>
                  (case PubKeyFromHex (cf_ext cf) p of
                     Ret author \<Rightarrow> Ret (Some (address_filter evt kind author identifier))
                   | _ \<Rightarrow> Ret None))
         | _ \<Rightarrow> Ret None)
      else Ret None)"

text \<open>What one target leads to: an error, or whether something was deleted.\<close>

definition delete_first :: "('s, 'm, 't) relay_config \<Rightarrow> ctx \<Rightarrow> event
    \<Rightarrow> (ctx \<Rightarrow> 't \<Rightarrow> Filter \<Rightarrow> (event + store_error) list) \<Rightarrow> (ctx \<Rightarrow> ID \<Rightarrow> 't \<Rightarrow> store_error option \<times> 't)
    \<Rightarrow> Filter \<Rightarrow> ('s, 'm, 't) server \<Rightarrow> (string + bool) \<times> ('s, 'm, 't) server" where
  "delete_first cf cx evt query delete f s =
     (let cx = cx\<lparr>cx_internalCall := True\<rparr> in
      case query cx (sv_store s) f of
        [] \<Rightarrow> (Inr False, s)
      | Inr err # _ \<Rightarrow> (Inl (err_text err), s)
      | Inl target # _ \<Rightarrow>
          if evPubKey target = evPubKey evt then
            (case delete cx (evID target) (sv_store s) of
               (Some err, st) \<Rightarrow> (Inl (err_text err), s\<lparr>sv_store := st\<rparr>)
             | (None, st) \<Rightarrow>
                 (let s = s\<lparr>sv_store := st\<rparr>;
                      s = s\<lparr>sv_expiring := map_option (removeEvent (evID target)) (sv_expiring s)\<rparr>;
                      s = (if hk_OnEventDeleted (cf_hooks cf) then s\<lparr>sv_calls := sv_calls s @ [CallDeleted target]\<rparr> else s)
                  in (Inr True, s)))
          else (Inl ErrNotAuthor, s))"

fun delete_loop :: "('s, 'm, 't) relay_config \<Rightarrow> ctx \<Rightarrow> event
    \<Rightarrow> (ctx \<Rightarrow> 't \<Rightarrow> Filter \<Rightarrow> (event + store_error) list) \<Rightarrow> (ctx \<Rightarrow> ID \<Rightarrow> 't \<Rightarrow> store_error option \<times> 't)
    \<Rightarrow> Tags \<Rightarrow> bool \<Rightarrow> ('s, 'm, 't) server \<Rightarrow> (string, string option \<times> ('s, 'm, 't) server) outcome" where
  "delete_loop cf cx evt query delete [] haveDeleted s =
     Ret (if haveDeleted then (None, s) else (Some ErrNothingToDelete, s))"
| "delete_loop cf cx evt query delete (tag # tags) haveDeleted s =
     (case delete_target cf evt tag of
        Panic \<Rightarrow> Panic
      | Fail reason \<Rightarrow> Ret (Some reason, s)
      | Ret None \<Rightarrow> delete_loop cf cx evt query delete tags haveDeleted s
      | Ret (Some f) \<Rightarrow>
          (case delete_first cf cx evt query delete f s of
             (Inl reason, s) \<Rightarrow> Ret (Some reason, s)
           | (Inr d, s) \<Rightarrow> delete_loop cf cx evt query delete tags (haveDeleted \<or> d) s))"

definition handleDeleteRequest :: "('s, 'm, 't) relay_config \<Rightarrow> ctx \<Rightarrow> event \<Rightarrow> ('s, 'm, 't) server
    \<Rightarrow> (string, string option \<times> ('s, 'm, 't) server) outcome" where
  "handleDeleteRequest cf cx evt s =
     (case (hk_QueryStored (cf_hooks cf), hk_DeleteEvent (cf_hooks cf)) of
        (Some query, Some delete) \<Rightarrow> delete_loop cf cx evt query delete (evTags evt) False s
      | _ \<Rightarrow> Ret (Some ErrNothingToDelete, s))"

section \<open>An event from a client\<close>

text \<open>The three paths of the handler; the flag is \<^verbatim>\<open>skipBroadcast\<close>.\<close>

definition process_event :: "('s, 'm, 't) relay_config \<Rightarrow> ctx \<Rightarrow> event \<Rightarrow> ('s, 'm, 't) server
    \<Rightarrow> (string, (bool \<times> string option) \<times> ('s, 'm, 't) server) outcome" where
  "process_event cf cx evt s =
     (if evKind evt = 5 then
        (let ((skip, err), s) = handleNormal cf cx evt s in
         case err of
           Some reason \<Rightarrow> Ret ((skip, Some reason), s)
         | None \<Rightarrow> obind (handleDeleteRequest cf cx evt s) (\<lambda>(err, s). Ret ((skip, err), s)))
      else if IsEphemeral (evKind evt) then
        (let (err, s) = handleEphemeral cf cx evt s in Ret ((False, err), s))
      else Ret (handleNormal cf cx evt s))"

text \<open>The answer, after broadcasting.\<close>

definition ok_answer :: "('s, 'm, 't) relay_config \<Rightarrow> event \<Rightarrow> nat \<Rightarrow> reply" where
  "ok_answer cf evt n =
     (if IsEphemeral (evKind evt) then
        (if n = 0 \<and> \<not> hk_OnEphemeralEvent (cf_hooks cf)
         then OKMsg (evID evt) False ''mute: no one was listening for this''
         else if \<not> hk_OnEphemeralEvent (cf_hooks cf)
         then OKMsg (evID evt) True (''broadcasted to '' @ strconv_Itoa (int n))
         else OKMsg (evID evt) True ''handled internally'')
      else OKMsg (evID evt) True '''')"

definition answer_event :: "('s, 'm, 't) relay_config \<Rightarrow> connection \<Rightarrow> event \<Rightarrow> bool \<Rightarrow> string option
    \<Rightarrow> ('s, 'm, 't) server \<Rightarrow> outbox" where
  "answer_event cf c evt skip err s =
     (case err of
        Some reason \<Rightarrow>
          (if strings_HasPrefix reason ''auth-required:'' then RequestAuth c else []) @
          [(Some (cn_ws c), OKMsg (evID evt) False reason)]
      | None \<Rightarrow>
          if skip then [(Some (cn_ws c), OKMsg (evID evt) True '''')]
          else
            (let (out, n) = notifyListeners (cf_set cf) (cf_map cf) (hk_PreventBroadcast (cf_hooks cf)) (sv_relay s) evt False
             in map (\<lambda>(w, i, e). (w, EventMsg i e)) out @ [(Some (cn_ws c), ok_answer cf evt n)]))"

definition handle_event :: "('s, 'm, 't) relay_config \<Rightarrow> ctx \<Rightarrow> connection \<Rightarrow> event \<Rightarrow> ('s, 'm, 't) server
    \<Rightarrow> (string, outbox \<times> ('s, 'm, 't) server) outcome" where
  "handle_event cf cx c evt s =
     (let refuse = (\<lambda>reason. [(Some (cn_ws c), OKMsg (evID evt) False reason)]);
          (authed, isAuthed) = GetAuthed cx in
      if \<not> CheckID (cf_ext cf) evt then Ret (refuse ''invalid: id is computed incorrectly'', s)
      else if \<not> au_Verify (cf_auth cf) evt then Ret (refuse ''invalid: signature is invalid'', s)
      else if IsProtected evt \<and> \<not> isAuthed then
        Ret (RequestAuth c @ refuse ''auth-required: must be published by authenticated event author'', s)
      else if IsProtected evt \<and> authed \<noteq> evPubKey evt then Ret (refuse ''blocked: must be published by event author'', s)
      else if \<not> IsProtected evt \<and> HasEmbeddedProtected evt then
        Ret (refuse (''blocked: can'' @ [CHR 0x27] @ ''t repost nip70 protected''), s)
      else
        obind (process_event cf cx evt s) (\<lambda>((skip, err), s).
        Ret (answer_event cf c evt skip err s, s)))"

section \<open>Requests and counts\<close>

text \<open>The events of a query until its first error.\<close>

fun until_error :: "(event + store_error) list \<Rightarrow> event list" where
  "until_error (Inl e # rest) = e # until_error rest"
| "until_error _ = []"

definition request_rejected :: "('s, 'm, 't) relay_config \<Rightarrow> ctx \<Rightarrow> Filter \<Rightarrow> ('s, 'm, 't) server \<Rightarrow> string option" where
  "request_rejected cf cx f s =
     (case hk_OnRequest (cf_hooks cf) of
        None \<Rightarrow> None
      | Some g \<Rightarrow>
          (let (reject, msg) = g cx (sv_store s) f in
           if reject then Some (NormalizeOKMessage msg ''blocked'') else None))"

definition handleRequest :: "('s, 'm, 't) relay_config \<Rightarrow> ctx \<Rightarrow> string \<Rightarrow> connection \<Rightarrow> Filter \<Rightarrow> ('s, 'm, 't) server
    \<Rightarrow> string option \<times> outbox" where
  "handleRequest cf cx i c f s =
     (case request_rejected cf cx f s of
        Some reason \<Rightarrow> (Some reason, [])
      | None \<Rightarrow>
          if fLimitZero f then (None, [])
          else case hk_QueryStored (cf_hooks cf) of
            None \<Rightarrow> (None, [])
          | Some query \<Rightarrow>
              (None, map (\<lambda>e. (Some (cn_ws c), EventMsg i e)) (until_error (query cx (sv_store s) f))))"

text \<open>One filter after the other; the first rejection ends the request with CLOSED, otherwise EOSE ends it.\<close>

fun req_loop :: "('s, 'm, 't) relay_config \<Rightarrow> ctx \<Rightarrow> string \<Rightarrow> connection \<Rightarrow> Filter list \<Rightarrow> outbox \<Rightarrow> ('s, 'm, 't) server
    \<Rightarrow> outbox \<times> ('s, 'm, 't) server" where
  "req_loop cf cx i c [] out s = (out @ [(Some (cn_ws c), EOSEMsg i)], s)"
| "req_loop cf cx i c (f # fs) out s =
     (case handleRequest cf cx i c f s of
        (Some reason, msgs) \<Rightarrow>
          (out @ msgs @ (if strings_HasPrefix reason ''auth-required:'' then RequestAuth c else []) @
             [(Some (cn_ws c), ClosedMsg i reason)], s)
      | (None, msgs) \<Rightarrow>
          (let s = (if fIDs f = None
               then s\<lparr>sv_relay := addListener (cf_set cf) (cf_map cf) (cn_ws c) i f (sv_relay s)\<rparr> else s)
           in req_loop cf cx i c fs (out @ msgs) s))"

definition handle_req :: "('s, 'm, 't) relay_config \<Rightarrow> ctx \<Rightarrow> connection \<Rightarrow> string \<Rightarrow> Filter list \<Rightarrow> ('s, 'm, 't) server
    \<Rightarrow> outbox \<times> ('s, 'm, 't) server" where
  "handle_req cf cx c i filters s = req_loop cf (cx\<lparr>cx_subscriptionId := Some i\<rparr>) i c filters [] s"

definition count_rejected :: "('s, 'm, 't) relay_config \<Rightarrow> ctx \<Rightarrow> Filter \<Rightarrow> ('s, 'm, 't) server \<Rightarrow> string option" where
  "count_rejected cf cx f s =
     (case hk_OnCount (cf_hooks cf) of
        None \<Rightarrow> None
      | Some g \<Rightarrow> let (reject, msg) = g cx (sv_store s) f in if reject then Some msg else None)"

definition handleCountRequest :: "('s, 'm, 't) relay_config \<Rightarrow> ctx \<Rightarrow> connection \<Rightarrow> Filter \<Rightarrow> ('s, 'm, 't) server
    \<Rightarrow> int \<times> outbox" where
  "handleCountRequest cf cx c f s =
     (case count_rejected cf cx f s of
        Some msg \<Rightarrow> (0, [(Some (cn_ws c), NoticeMsg msg)])
      | None \<Rightarrow>
          (case hk_Count (cf_hooks cf) of
             None \<Rightarrow> (0, [])
           | Some g \<Rightarrow>
               (let (res, err) = g cx (sv_store s) f in
                (res, case err of None \<Rightarrow> [] | Some e \<Rightarrow> [(Some (cn_ws c), NoticeMsg (err_text e))]))))"

definition handleCountRequestWithHLL :: "('s, 'm, 't) relay_config \<Rightarrow> ctx \<Rightarrow> connection \<Rightarrow> Filter \<Rightarrow> int
    \<Rightarrow> ('s, 'm, 't) server \<Rightarrow> (int \<times> HyperLogLog option) \<times> outbox" where
  "handleCountRequestWithHLL cf cx c f offset s =
     (case count_rejected cf cx f s of
        Some msg \<Rightarrow> ((0, None), [(Some (cn_ws c), NoticeMsg msg)])
      | None \<Rightarrow>
          (case hk_CountHLL (cf_hooks cf) of
             None \<Rightarrow> ((0, None), [])
           | Some g \<Rightarrow>
               (let (res, hll, err) = g cx (sv_store s) f offset in
                ((res, hll), case err of None \<Rightarrow> [] | Some e \<Rightarrow> [(Some (cn_ws c), NoticeMsg (err_text e))]))))"

definition handle_count :: "('s, 'm, 't) relay_config \<Rightarrow> ctx \<Rightarrow> connection \<Rightarrow> string \<Rightarrow> Filter \<Rightarrow> ('s, 'm, 't) server \<Rightarrow> outbox" where
  "handle_count cf cx c i f s =
     (if hk_Count (cf_hooks cf) = None \<and> hk_CountHLL (cf_hooks cf) = None then
        [(Some (cn_ws c), ClosedMsg i ''unsupported: this relay does not support NIP-45'')]
      else
        (let offset = HyperLogLogEventPubkeyOffsetForFilter (cf_ext cf) f;
             ((total, hll), out) =
               (if offset \<noteq> -1 then handleCountRequestWithHLL cf cx c f offset s
                else let (total, out) = handleCountRequest cf cx c f s in ((total, None), out))
         in out @ [(Some (cn_ws c), CountMsg i (word_of_int total) (map_option hll_registers hll))]))"

section \<open>Authentication\<close>

text \<open>\<^verbatim>\<open>slices.Index\<close>, and the list of authenticated keys after a valid AUTH message; \<open>None\<close> is an index
  out of range.\<close>

fun find_index :: "('a \<Rightarrow> bool) \<Rightarrow> 'a list \<Rightarrow> nat option" where
  "find_index p [] = None"
| "find_index p (x # xs) = (if p x then Some 0 else map_option Suc (find_index p xs))"

definition add_authed :: "int \<Rightarrow> PubKey list \<Rightarrow> PubKey \<Rightarrow> PubKey list option" where
  "add_authed maxClients keys pubkey =
     (let total = length keys in
      case find_index (\<lambda>k. k = pubkey) keys of
        None \<Rightarrow>
          if int total < maxClients then Some (keys @ [pubkey])
          else if total = 0 then None
          else Some (keys[0 := keys ! (total - 1), total - 1 := pubkey])
      | Some idx \<Rightarrow> Some (keys[idx := keys ! (total - 1), total - 1 := keys ! idx]))"

definition handle_auth :: "('s, 'm, 't) relay_config \<Rightarrow> connection \<Rightarrow> event \<Rightarrow> ('s, 'm, 't) server
    \<Rightarrow> (string, outbox \<times> ('s, 'm, 't) server) outcome" where
  "handle_auth cf c evt s =
     (case ValidateAuthEvent (cf_auth cf) evt (cn_Challenge c) (cf_relayURL cf) of
        Panic \<Rightarrow> Panic
      | Fail e \<Rightarrow>
          Ret ([(Some (cn_ws c), OKMsg (evID evt) False (''error: failed to authenticate: '' @ cf_authText cf e))], s)
      | Ret pubkey \<Rightarrow>
          (case add_authed (cf_MaxAuthenticatedClients cf) (cn_AuthedPublicKeys c) pubkey of
             None \<Rightarrow> Panic
           | Some keys \<Rightarrow>
               Ret ([(Some (cn_ws c), OKMsg (evID evt) True '''')],
                 s\<lparr>sv_conns := (sv_conns s)(cn_ws c := c\<lparr>cn_AuthedPublicKeys := keys\<rparr>)\<rparr>)))"

section \<open>Negentropy sessions\<close>

fun insert_all :: "(event + store_error) list \<Rightarrow> Vector \<Rightarrow> store_error + Vector" where
  "insert_all [] v = Inr v"
| "insert_all (Inr err # rest) v = Inl err"
| "insert_all (Inl e # rest) v = insert_all rest (vector_Insert (evCreatedAt e) (evID e) v)"

definition startNegentropySession :: "('s, 'm, 't) relay_config \<Rightarrow> ctx \<Rightarrow> Filter \<Rightarrow> ('s, 'm, 't) server
    \<Rightarrow> (string, Vector) outcome" where
  "startNegentropySession cf cx f s =
     (if fLimitZero f then Fail ''invalid limit 0''
      else
        (let cx = SetNegentropy cx in
         case request_rejected cf cx f s of
           Some reason \<Rightarrow> Fail reason
         | None \<Rightarrow>
             (case insert_all (case hk_QueryStored (cf_hooks cf) of None \<Rightarrow> [] | Some query \<Rightarrow> query cx (sv_store s) f)
                 vector_New of
                Inl err \<Rightarrow> Fail (err_text err)
              | Inr vec \<Rightarrow> (case vector_Seal vec of Ret v \<Rightarrow> Ret v | _ \<Rightarrow> Panic))))"

definition neg_reply :: "('s, 'm, 't) relay_config \<Rightarrow> (neg_error, string \<times> Negentropy) outcome
    \<Rightarrow> (string, string \<times> Negentropy) outcome" where
  "neg_reply cf r = (case r of Ret p \<Rightarrow> Ret p | Fail e \<Rightarrow> Fail (cf_negText cf e) | Panic \<Rightarrow> Panic)"

definition set_session :: "ws \<Rightarrow> string \<Rightarrow> Negentropy option \<Rightarrow> ('s, 'm, 't) server \<Rightarrow> ('s, 'm, 't) server" where
  "set_session w i n s = s\<lparr>sv_sessions := (sv_sessions s)(w := (sv_sessions s w)(i := n))\<rparr>"

definition handle_neg_open :: "('s, 'm, 't) relay_config \<Rightarrow> ctx \<Rightarrow> connection \<Rightarrow> string \<Rightarrow> Filter \<Rightarrow> string
    \<Rightarrow> ('s, 'm, 't) server \<Rightarrow> (string, outbox \<times> ('s, 'm, 't) server) outcome" where
  "handle_neg_open cf cx c i f msg s =
     (let w = cn_ws c in
      if \<not> cf_Negentropy cf then Ret ([], s)
      else case startNegentropySession cf cx f s of
        Panic \<Rightarrow> Panic
      | Fail reason \<Rightarrow>
          Ret ((if strings_HasPrefix reason ''auth-required:'' then RequestAuth c else []) @
            [(Some w, NegErrMsg i reason)], s)
      | Ret vec \<Rightarrow>
          (case New (vector_storage (cf_ext cf) vec) (1024 * 1024) False False of
             Ret neg \<Rightarrow>
               (case neg_reply cf (Reconcile (cf_ext cf) neg msg) of
                  Panic \<Rightarrow> Panic
                | Fail reason \<Rightarrow> Ret ([(Some w, NegErrMsg i reason)], s)
                | Ret (out, neg) \<Rightarrow>
                    Ret ([(Some w, NegMsg i out)], if out \<noteq> '''' then set_session w i (Some neg) s else s))
           | _ \<Rightarrow> Panic))"

definition handle_neg_msg :: "('s, 'm, 't) relay_config \<Rightarrow> connection \<Rightarrow> string \<Rightarrow> string
    \<Rightarrow> ('s, 'm, 't) server \<Rightarrow> (string, outbox \<times> ('s, 'm, 't) server) outcome" where
  "handle_neg_msg cf c i msg s =
     (let w = cn_ws c in
      case sv_sessions s w i of
        None \<Rightarrow> Ret ([(Some w, NegErrMsg i ''CLOSED'')], s)
      | Some neg \<Rightarrow>
          (case neg_reply cf (Reconcile (cf_ext cf) neg msg) of
             Panic \<Rightarrow> Panic
           | Fail reason \<Rightarrow> Ret ([(Some w, NegErrMsg i reason)], set_session w i None s)
           | Ret (out, neg) \<Rightarrow>
               if out \<noteq> '''' then Ret ([(Some w, NegMsg i out)], set_session w i (Some neg) s)
               else Ret ([(Some w, NegMsg i out), (Some w, NegCloseMsg i)], set_session w i None s)))"

section \<open>Messages\<close>

datatype envelope =
    Unparsed string
  | EventEnvelope event
  | CountEnvelope string Filter
  | ReqEnvelope string "Filter list"
  | CloseEnvelope string
  | AuthEnvelope event
  | NegOpenEnvelope string Filter string
  | NegMessageEnvelope string string
  | NegCloseEnvelope string

definition ws_ctx :: "connection \<Rightarrow> ctx" where
  "ws_ctx c = \<lparr>cx_ws = Some c, cx_nip86HeaderAuth = None, cx_subscriptionId = None, cx_internalCall = False,
     cx_negentropySession = False\<rparr>"

definition handle_message :: "('s, 'm, 't) relay_config \<Rightarrow> ws \<Rightarrow> envelope \<Rightarrow> ('s, 'm, 't) server
    \<Rightarrow> (string, outbox \<times> ('s, 'm, 't) server) outcome" where
  "handle_message cf w env s =
     (let c = sv_conns s w; cx = ws_ctx c in
      case env of
        Unparsed err \<Rightarrow> Ret ([(Some w, NoticeMsg (''failed to parse envelope: '' @ err))], s)
      | EventEnvelope evt \<Rightarrow> handle_event cf cx c evt s
      | CountEnvelope i f \<Rightarrow> Ret (handle_count cf cx c i f s, s)
      | ReqEnvelope i fs \<Rightarrow> Ret (handle_req cf cx c i fs s)
      | CloseEnvelope i \<Rightarrow> Ret ([], s\<lparr>sv_relay := removeListenerId (cf_set cf) (cf_map cf) w i (sv_relay s)\<rparr>)
      | AuthEnvelope evt \<Rightarrow> handle_auth cf c evt s
      | NegOpenEnvelope i f msg \<Rightarrow> handle_neg_open cf cx c i f msg s
      | NegMessageEnvelope i msg \<Rightarrow> handle_neg_msg cf c i msg s
      | NegCloseEnvelope i \<Rightarrow> Ret ([], set_session w i None s))"

text \<open>Connecting: the challenge comes from outside (\<^verbatim>\<open>rand.Read\<close> behind the configured prefix).\<close>

definition connect :: "ws \<Rightarrow> string \<Rightarrow> ('s, 'm, 't) server \<Rightarrow> ('s, 'm, 't) server" where
  "connect w challenge s =
     s\<lparr>sv_relay := openClient w (sv_relay s),
       sv_conns := (sv_conns s)(w := \<lparr>cn_ws = w, cn_Challenge = challenge, cn_AuthedPublicKeys = []\<rparr>),
       sv_sessions := (sv_sessions s)(w := Map.empty)\<rparr>"

definition disconnect :: "('s, 'm, 't) relay_config \<Rightarrow> ws \<Rightarrow> ('s, 'm, 't) server \<Rightarrow> ('s, 'm, 't) server" where
  "disconnect cf w s = s\<lparr>sv_relay := removeClientAndListeners (cf_set cf) (cf_map cf) w (sv_relay s)\<rparr>"

section \<open>An event store behind the relay\<close>

definition UseEventstore :: "'t Store \<Rightarrow> int \<Rightarrow> 't hooks \<Rightarrow> 't hooks" where
  "UseEventstore S maxQueryLimit hk =
     hk\<lparr>hk_QueryStored := Some (\<lambda>cx st f.
          map Inl (QueryEvents S st f (if IsNegentropySession cx then maxQueryLimit * 20 else maxQueryLimit))),
        hk_Count := Some (\<lambda>cx st f. (CountEvents S st f, None)),
        hk_StoreEvent := Some (\<lambda>cx e st. SaveEvent S st e),
        hk_ReplaceEvent := Some (\<lambda>cx e st. ReplaceEvent S st e),
        hk_DeleteEvent := Some (\<lambda>cx i st. DeleteEvent S st i)\<rparr>"

text \<open>\<^verbatim>\<open>Stats\<close>: the number of clients and of their listeners.\<close>

definition Stats :: "ws list \<Rightarrow> ('s, 'm) relay_state \<Rightarrow> nat \<times> nat" where
  "Stats ws rl =
     (length ws, sum_list (map (\<lambda>w. case rl_clients rl w of None \<Rightarrow> 0 | Some specs \<Rightarrow> length specs) ws))"
  \<comment> \<open>\<open>ws\<close> enumerates the keys of the map of clients\<close>

section \<open>Answers to events\<close>

definition is_ok :: "ws option \<times> reply \<Rightarrow> bool" where
  "is_ok m = (case snd m of OKMsg _ _ _ \<Rightarrow> True | _ \<Rightarrow> False)"

lemma is_ok_simps [simp]:
  "is_ok (w, OKMsg i b r)" "\<not> is_ok (w, EventMsg j e)" "\<not> is_ok (w, AuthMsg ch)"
  by (simp_all add: is_ok_def)

definition answered :: "connection \<Rightarrow> ID \<Rightarrow> outbox \<Rightarrow> bool" where
  "answered c i out \<longleftrightarrow> (\<exists>before ok reason. out = before @ [(Some (cn_ws c), OKMsg i ok reason)] \<and> \<not> list_ex is_ok before)"

lemma answered_one: "answered c i [(Some (cn_ws c), OKMsg i ok reason)]"
  unfolding answered_def by (intro exI [of _ "[]"]) simp

lemma answered_auth: "answered c i (RequestAuth c @ [(Some (cn_ws c), OKMsg i ok reason)])"
  unfolding answered_def by (intro exI [of _ "RequestAuth c"]) (simp add: RequestAuth_def)

lemma ok_answer_ok: "\<exists>ok reason. ok_answer cf evt n = OKMsg (evID evt) ok reason"
  unfolding ok_answer_def by (metis (full_types))

lemma answer_event_answered: "answered c (evID evt) (answer_event cf c evt skip err s)"
proof (cases err)
  case None
  obtain out n where n: "notifyListeners (cf_set cf) (cf_map cf) (hk_PreventBroadcast (cf_hooks cf)) (sv_relay s) evt False = (out, n)"
    by fastforce
  obtain ok reason where "ok_answer cf evt n = OKMsg (evID evt) ok reason" using ok_answer_ok by blast
  then show ?thesis
    using None n answered_one unfolding answered_def answer_event_def by (auto simp: list_ex_iff)
next
  case (Some reason)
  then show ?thesis using answered_one answered_auth by (simp add: answer_event_def)
qed

lemma handle_event_answered:
  "handle_event cf cx c evt s = Ret (out, s') \<Longrightarrow> answered c (evID evt) out"
  unfolding handle_event_def Let_def
  by (auto simp: obind_Ret_iff answered_one answered_auth answer_event_answered split: prod.splits if_splits)

text \<open>What has to hold for an event to be processed at all.\<close>

definition acceptable :: "('s, 'm, 't) relay_config \<Rightarrow> ctx \<Rightarrow> event \<Rightarrow> bool" where
  "acceptable cf cx evt \<longleftrightarrow> CheckID (cf_ext cf) evt \<and> au_Verify (cf_auth cf) evt \<and>
     (if IsProtected evt then GetAuthed cx = (evPubKey evt, True) else \<not> HasEmbeddedProtected evt)"

lemma handle_event_refused:
  assumes "handle_event cf cx c evt s = Ret (out, s')" "\<not> acceptable cf cx evt"
  shows "s' = s \<and> (\<exists>reason. last out = (Some (cn_ws c), OKMsg (evID evt) False reason))"
  using assms by (auto simp: handle_event_def acceptable_def Let_def obind_Ret_iff split: prod.splits if_splits)

section \<open>Prefixed reasons\<close>

lemma rejected_prefixed: "rejected cf cx s evt = Some reason \<Longrightarrow> prefixed reason"
  using NormalizeOKMessage_prefixed [of "''blocked''"] prefixed_I [of "''blocked''" "''no reason''"]
  by (auto simp: rejected_def Let_def split: option.splits prod.splits if_splits)

lemma handleNormal_prefixed: "handleNormal cf cx evt s = ((skip, Some reason), s') \<Longrightarrow> prefixed reason"
  using rejected_prefixed [of cf cx s evt] NormalizeOKMessage_prefixed [of "''error''"]
  by (auto simp: handleNormal_def Let_def split: option.splits prod.splits store_error.splits)

lemma handleEphemeral_prefixed: "handleEphemeral cf cx evt s = (Some reason, s') \<Longrightarrow> prefixed reason"
  using rejected_prefixed [of cf cx s evt] by (auto simp: handleEphemeral_def split: option.splits)

section \<open>Deletions\<close>

context event_store
begin

definition kept :: "PubKey \<Rightarrow> 'a \<Rightarrow> event multiset" where
  "kept pk s = filter_mset (\<lambda>e. evPubKey e \<noteq> pk) (mset (contents s))"

lemma delete_one_kept:
  assumes i: "inv s" and ids: "distinct (map evID (contents s))" and t: "t \<in> set (contents s)"
    and d: "DeleteEvent S s (evID t) = (err, s')"
  shows "inv s'" "distinct (map evID (contents s'))" "kept (evPubKey t) s' = kept (evPubKey t) s"
    "mset (contents s') \<subseteq># mset (contents s)"
proof -
  have c: "inv s'" "mset (contents s') = filter_mset (\<lambda>e. evID e \<noteq> evID t) (mset (contents s))"
    using delete_ok [OF i d] ids by auto
  then show "inv s'" "mset (contents s') \<subseteq># mset (contents s)" by simp_all
  then have "mset (map evID (contents s')) \<subseteq># mset (map evID (contents s))" by (simp add: image_mset_subseteq_mono)
  then show "distinct (map evID (contents s'))" using ids distinct_mset_subset by blast
  have same: "e = t" if "e \<in> set (contents s)" "evID e = evID t" for e
    using ids t that by (simp add: distinct_map inj_on_def)
  have "filter_mset (\<lambda>e. evID e \<noteq> evID t \<and> evPubKey e \<noteq> evPubKey t) (mset (contents s)) =
      filter_mset (\<lambda>e. evPubKey e \<noteq> evPubKey t) (mset (contents s))"
    by (rule filter_mset_cong) (use same in auto)
  then show "kept (evPubKey t) s' = kept (evPubKey t) s"
    unfolding kept_def c(2) by (simp add: filter_filter_mset conj_commute)
qed

lemma delete_first_kept:
  assumes i: "inv (sv_store s)" "distinct (map evID (contents (sv_store s)))"
    and d: "delete_first cf cx evt (\<lambda>cx st f. map Inl (QueryEvents S st f (n cx))) (\<lambda>cx i st. DeleteEvent S st i) f s = (r, s')"
  shows "inv (sv_store s') \<and> distinct (map evID (contents (sv_store s'))) \<and>
    kept (evPubKey evt) (sv_store s') = kept (evPubKey evt) (sv_store s) \<and>
    mset (contents (sv_store s')) \<subseteq># mset (contents (sv_store s))"
proof (cases "QueryEvents S (sv_store s) f (n (cx\<lparr>cx_internalCall := True\<rparr>))")
  case Nil
  then show ?thesis using i d by (simp add: delete_first_def Let_def)
next
  case (Cons t ts)
  then have t: "t \<in> set (contents (sv_store s))" using query_stored [OF i(1)] by (metis list.set_intros(1))
  show ?thesis
  proof (cases "evPubKey t = evPubKey evt")
    case True
    obtain err st where e: "DeleteEvent S (sv_store s) (evID t) = (err, st)" by fastforce
    have "sv_store s' = st"
      using d Cons True e by (auto simp: delete_first_def Let_def split: option.splits)
    then show ?thesis using delete_one_kept [OF i t e] True by simp
  next
    case False
    then show ?thesis using i d Cons by (simp add: delete_first_def Let_def)
  qed
qed

lemma delete_loop_kept:
  assumes "delete_loop cf cx evt (\<lambda>cx st f. map Inl (QueryEvents S st f (n cx))) (\<lambda>cx i st. DeleteEvent S st i) tags b s
      = Ret (err, s')"
    "inv (sv_store s)" "distinct (map evID (contents (sv_store s)))"
  shows "inv (sv_store s') \<and> distinct (map evID (contents (sv_store s'))) \<and>
    kept (evPubKey evt) (sv_store s') = kept (evPubKey evt) (sv_store s) \<and>
    mset (contents (sv_store s')) \<subseteq># mset (contents (sv_store s))"
  using assms
proof (induction tags arbitrary: b s)
  case Nil
  then show ?case by (simp split: if_splits)
next
  case (Cons tag tags)
  let ?Q = "\<lambda>cx st f. map Inl (QueryEvents S st f (n cx))" and ?D = "\<lambda>cx i st. DeleteEvent S st i"
  show ?case
  proof (cases "delete_target cf evt tag")
    case (Ret fo)
    show ?thesis
    proof (cases fo)
      case None
      then show ?thesis using Cons Ret by simp
    next
      case (Some f)
      obtain r s1 where r: "delete_first cf cx evt ?Q ?D f s = (r, s1)" by fastforce
      note k = delete_first_kept [OF Cons.prems(2,3) r]
      show ?thesis
      proof (cases r)
        case (Inl reason)
        then show ?thesis using Cons.prems(1) Ret Some r k by simp
      next
        case (Inr d)
        then have "delete_loop cf cx evt ?Q ?D tags (b \<or> d) s1 = Ret (err, s')"
          using Cons.prems(1) Ret Some r by simp
        from Cons.IH [OF this] k show ?thesis by (metis subset_mset.order_trans)
      qed
    qed
  qed (use Cons.prems in auto)
qed

end

section \<open>Requests\<close>

definition sent_events :: "outbox \<Rightarrow> (ws option \<times> string \<times> event) set" where
  "sent_events out = {(w, i, e). (w, EventMsg i e) \<in> set out}"

definition ends_with :: "connection \<Rightarrow> string \<Rightarrow> outbox \<Rightarrow> bool" where
  "ends_with c i out \<longleftrightarrow> out \<noteq> [] \<and> (last out = (Some (cn_ws c), EOSEMsg i) \<or>
     (\<exists>reason. last out = (Some (cn_ws c), ClosedMsg i reason)))"

lemma until_error_Inl [simp]: "until_error (map Inl es) = es"
  by (induction es) auto

context event_source
begin

lemma handleRequest_sound:
  assumes "inv (sv_store s)" "hk_QueryStored (cf_hooks cf) = Some (\<lambda>cx st f. map Inl (QueryEvents S st f (n cx)))"
    and r: "handleRequest cf cx i c f s = (err, msgs)" and m: "(w, EventMsg j e) \<in> set msgs"
  shows "w = Some (cn_ws c) \<and> j = i \<and> e \<in> set (contents (sv_store s)) \<and> Matches f e"
  using assms query_stored [OF assms(1)] query_matches [OF assms(1)]
  by (auto simp: handleRequest_def split: option.splits if_splits)

lemma req_loop_sound:
  assumes "req_loop cf cx i c fs out0 s = (out, s')"
    "inv (sv_store s)" "hk_QueryStored (cf_hooks cf) = Some (\<lambda>cx st f. map Inl (QueryEvents S st f (n cx)))"
  shows "sv_store s' = sv_store s \<and> ends_with c i out \<and>
    (\<forall>(w, j, e) \<in> sent_events out. (w, j, e) \<in> sent_events out0 \<or>
       (w = Some (cn_ws c) \<and> j = i \<and> e \<in> set (contents (sv_store s)) \<and> (\<exists>f \<in> set fs. Matches f e)))"
  using assms
proof (induction fs arbitrary: out0 s)
  case Nil
  then show ?case by (auto simp: ends_with_def sent_events_def)
next
  case (Cons f fs)
  obtain err msgs where r: "handleRequest cf cx i c f s = (err, msgs)" by fastforce
  note snd = handleRequest_sound [OF Cons.prems(2,3) r]
  show ?case
  proof (cases err)
    case (Some reason)
    then show ?thesis using Cons.prems(1) r snd
      by (fastforce simp: ends_with_def sent_events_def RequestAuth_def split: if_splits)
  next
    case None
    let ?s = "if fIDs f = None
       then s\<lparr>sv_relay := addListener (cf_set cf) (cf_map cf) (cn_ws c) i f (sv_relay s)\<rparr> else s"
    have "req_loop cf cx i c fs (out0 @ msgs) ?s = (out, s')" using Cons.prems(1) r None by (simp add: Let_def)
    moreover have st: "sv_store ?s = sv_store s" by simp
    ultimately show ?thesis using Cons.IH [of "out0 @ msgs" ?s] Cons.prems(2,3) snd
      unfolding st by (fastforce simp: sent_events_def)
  qed
qed

end

section \<open>Authenticated keys\<close>

lemma find_index_None: "find_index p xs = None \<longleftrightarrow> (\<forall>x \<in> set xs. \<not> p x)"
  by (induction xs) auto

lemma find_index_Some: "find_index p xs = Some i \<Longrightarrow> i < length xs \<and> p (xs ! i)"
  by (induction xs arbitrary: i) (auto split: if_splits)

lemma add_authed_ok:
  assumes d: "distinct keys" and l: "int (length keys) \<le> n" and n: "1 \<le> n"
  shows "\<exists>keys'. add_authed n keys pk = Some keys' \<and> distinct keys' \<and> int (length keys') \<le> n \<and>
    keys' \<noteq> [] \<and> last keys' = pk \<and> set keys' \<subseteq> insert pk (set keys)"
proof (cases "find_index (\<lambda>k. k = pk) keys")
  case None
  then have new: "pk \<notin> set keys" by (auto simp: find_index_None)
  show ?thesis
  proof (cases "int (length keys) < n")
    case True
    then show ?thesis using None new d by (auto simp: add_authed_def Let_def)
  next
    case False
    then obtain ks k where ks: "keys = ks @ [k]" using n by (cases keys rule: rev_cases) auto
    show ?thesis
    proof (cases ks)
      case Nil
      then show ?thesis using None False ks new l by (auto simp: add_authed_def Let_def)
    next
      case (Cons k0 ks0)
      then have "add_authed n keys pk = Some (k # ks0 @ [pk])"
        using None False ks by (simp add: add_authed_def Let_def)
      then show ?thesis using ks Cons new d l by auto
    qed
  qed
next
  case (Some i)
  then have i: "i < length keys" "keys ! i = pk" using find_index_Some by fastforce+
  let ?j = "length keys - 1"
  let ?keys = "keys[i := keys ! ?j, ?j := keys ! i]"
  have a: "add_authed n keys pk = Some ?keys" using Some by (simp add: add_authed_def Let_def)
  have j: "?j < length keys" using i by simp
  have "mset ?keys = mset keys" using mset_swap [OF j i(1)] by simp
  then have "distinct ?keys" "set ?keys = set keys"
    using d mset_eq_imp_distinct_iff mset_eq_setD by blast+
  moreover have "keys \<noteq> []" using i by auto
  then have "last ?keys = pk" using i(2) by (simp add: last_list_update)
  ultimately show ?thesis using a l i by (auto intro!: exI [of _ ?keys])
qed

section \<open>No event handler fails\<close>

lemma delete_target_total: "delete_target cf evt tag \<noteq> Panic"
  by (auto simp: delete_target_def IDFromHex_def split: outcome.splits list.splits prod.splits bool.splits option.splits)

lemma delete_loop_total: "\<exists>err s'. delete_loop cf cx evt query delete tags b s = Ret (err, s')"
proof (induction tags arbitrary: b s)
  case (Cons tag tags)
  then show ?case using delete_target_total [of cf evt tag]
    by (auto split: outcome.split option.split sum.split prod.split)
qed simp

lemma handleDeleteRequest_total: "\<exists>err s'. handleDeleteRequest cf cx evt s = Ret (err, s')"
  using delete_loop_total by (auto simp: handleDeleteRequest_def split: option.split)

lemma handle_event_total: "\<exists>out s'. handle_event cf cx c evt s = Ret (out, s')"
proof -
  have "\<exists>r s'. obind (handleDeleteRequest cf cx evt s) (\<lambda>(err, s). Ret ((skip, err), s)) = Ret (r, s')" for s skip
    using handleDeleteRequest_total [of cf cx evt s] by auto
  then have "\<exists>r s'. process_event cf cx evt s = Ret (r, s')"
    unfolding process_event_def Let_def by (auto simp del: split_paired_Ex split: prod.split option.split)
  then obtain skip err s1 where "process_event cf cx evt s = Ret ((skip, err), s1)" by fastforce
  then show ?thesis by (auto simp: handle_event_def Let_def split: prod.split)
qed

section \<open>An example relay\<close>

definition no_hooks :: "event list hooks" where
  "no_hooks = \<lparr>hk_OnEvent = None, hk_StoreEvent = None, hk_ReplaceEvent = None, hk_DeleteEvent = None,
     hk_OnEventSaved = False, hk_OnEventDeleted = False, hk_OnEphemeralEvent = False, hk_OnRequest = None,
     hk_OnCount = None, hk_QueryStored = None, hk_Count = None, hk_CountHLL = None, hk_PreventBroadcast = None\<rparr>"

definition example_config :: "(int list, (int \<times> subscription) list, event list) relay_config" where
  "example_config = \<lparr>cf_set = list_set, cf_map = list_map, cf_hooks = UseEventstore SliceStore 100 no_hooks,
     cf_ext = std_ext, cf_auth = \<lparr>au_Parse = (\<lambda>s. Some \<lparr>u_Scheme = s, u_Host = '''', u_Path = ''''\<rparr>), au_Now = 0, au_Verify = (\<lambda>_. True)\<rparr>,
     cf_relayURL = ''ws://r'', cf_Negentropy = True, cf_MaxAuthenticatedClients = 3, cf_hexText = (\<lambda>_ _. ''''),
     cf_authText = (\<lambda>_. ''''), cf_negText = (\<lambda>_. '''')\<rparr>"

definition example_server :: "event list \<Rightarrow> (int list, (int \<times> subscription) list, event list) server" where
  "example_server es = connect 1 ''c''
     \<lparr>sv_relay = \<lparr>rl_dispatcher = newDispatcher list_set list_map, rl_clients = Map.empty\<rparr>, sv_store = es,
       sv_expiring = Some [], sv_conns = (\<lambda>w. \<lparr>cn_ws = w, cn_Challenge = '''', cn_AuthedPublicKeys = []\<rparr>),
       sv_sessions = (\<lambda>_. Map.empty), sv_calls = []\<rparr>"

definition signed1 :: event where
  "signed1 = SetID std_ext note1"

lemma signed1: "CheckID std_ext signed1" "evKind signed1 = 1" "evTags signed1 = [[''e'', ''x'']]"
  "evPubKey signed1 = replicate 32 2" "evCreatedAt signed1 = 100"
  by (simp_all add: signed1_def CheckID_def GetID_def SetID_def serializedHash_Serialize Serialize_closed note1_def)

lemma not_ephemeral_1: "\<not> IsEphemeral 1"
  by code_simp

lemma example_event:
  "\<exists>out s'. handle_message example_config 1 (EventEnvelope signed1) (example_server []) = Ret (out, s') \<and>
     sv_store s' = [signed1]"
proof -
  have st: "store_event example_config cx signed1 [] = (None, [signed1])" for cx
    by (simp add: store_event_def signed1 IsRegular_def example_config_def UseEventstore_def no_hooks_def SliceStore_def
        slice_save_def slices_BinarySearchFunc_def bsearch.simps copy_at_def Let_def)
  have "\<not> IsProtected signed1" "\<not> HasEmbeddedProtected signed1"
    by (simp_all add: IsProtected_def HasEmbeddedProtected_def signed1)
  moreover have "\<not> IsEphemeral (evKind signed1)" by (simp add: signed1(2) not_ephemeral_1)
  moreover have "cf_ext example_config = std_ext" "au_Verify (cf_auth example_config) e" "hk_OnEvent (cf_hooks example_config) = None" for e
    by (simp_all add: example_config_def UseEventstore_def no_hooks_def)
  ultimately show ?thesis
    using st by (auto simp: handle_message_def handle_event_def signed1 process_event_def handleNormal_def rejected_def Let_def
        example_server_def connect_def split: prod.split)
qed

section \<open>Properties\<close>

text \<open>C11: an EVENT message changes the server only when the id is the hash of the event, the signature verifies and
  NIP-70 allows it: a protected event needs its author as the last key authenticated on this connection,
  and an unprotected one must not embed a protected one.\<close>

theorem only_acceptable_events_take_effect:
  assumes "handle_message cf w (EventEnvelope evt) s = Ret (out, s')" "s' \<noteq> s"
  shows "CheckID (cf_ext cf) evt \<and> au_Verify (cf_auth cf) evt \<and>
    (if IsProtected evt then cn_AuthedPublicKeys (sv_conns s w) \<noteq> [] \<and> last (cn_AuthedPublicKeys (sv_conns s w)) = evPubKey evt
     else \<not> HasEmbeddedProtected evt)"
proof -
  have "handle_event cf (ws_ctx (sv_conns s w)) (sv_conns s w) evt s = Ret (out, s')"
    using assms(1) by (simp add: handle_message_def Let_def)
  then have "acceptable cf (ws_ctx (sv_conns s w)) evt" using handle_event_refused assms(2) by blast
  then show ?thesis
    by (auto simp: acceptable_def GetAuthed_def GetConnection_def ws_ctx_def Let_def last_conv_nth split: if_splits)
qed

theorem only_acceptable_events_take_effect_witness:
  "\<exists>out s'. handle_message example_config 1 (EventEnvelope signed1) (example_server []) = Ret (out, s') \<and>
     s' \<noteq> example_server [] \<and> CheckID (cf_ext example_config) signed1"
proof -
  obtain out s' where m: "handle_message example_config 1 (EventEnvelope signed1) (example_server []) = Ret (out, s')"
    "sv_store s' = [signed1]" using example_event by blast
  then have "s' \<noteq> example_server []" by (auto simp: example_server_def connect_def)
  then show ?thesis using only_acceptable_events_take_effect [OF m(1)] m(1) by blast
qed

text \<open>C13: handling an EVENT message never fails, and its sender gets exactly one OK, as the last
  message and with the id of the event.\<close>

theorem every_event_answered_once:
  "\<exists>out s' ok reason. handle_message cf w (EventEnvelope evt) s = Ret (out, s') \<and>
     last out = (Some (cn_ws (sv_conns s w)), OKMsg (evID evt) ok reason) \<and> length (filter is_ok out) = 1"
proof -
  obtain out s' where h: "handle_event cf (ws_ctx (sv_conns s w)) (sv_conns s w) evt s = Ret (out, s')"
    using handle_event_total by blast
  obtain before ok reason where out: "out = before @ [(Some (cn_ws (sv_conns s w)), OKMsg (evID evt) ok reason)]"
    "\<not> list_ex is_ok before" using handle_event_answered [OF h] unfolding answered_def by blast
  then have "filter is_ok before = []" by (simp add: list_ex_iff filter_empty_conv)
  then show ?thesis using h out(1) by (auto simp: handle_message_def Let_def)
qed

text \<open>C12: over any event store that keeps its contract, a deletion request removes only events of its own
  author: all others are still stored, and nothing is added.\<close>

theorem deletion_only_own_events:
  assumes "event_store S valid contents" "valid (sv_store s)" "distinct (map evID (contents (sv_store s)))"
    "cf_hooks cf = UseEventstore S n hk" "handleDeleteRequest cf cx evt s = Ret (err, s')"
  shows "valid (sv_store s') \<and> mset (contents (sv_store s')) \<subseteq># mset (contents (sv_store s)) \<and>
    filter_mset (\<lambda>e. evPubKey e \<noteq> evPubKey evt) (mset (contents (sv_store s'))) =
      filter_mset (\<lambda>e. evPubKey e \<noteq> evPubKey evt) (mset (contents (sv_store s)))"
proof -
  have "delete_loop cf cx evt (\<lambda>cx st f. map Inl (QueryEvents S st f (if IsNegentropySession cx then n * 20 else n)))
      (\<lambda>cx i st. DeleteEvent S st i) (evTags evt) False s = Ret (err, s')"
    using assms(4,5) by (simp add: handleDeleteRequest_def UseEventstore_def)
  from event_store.delete_loop_kept [OF assms(1) this assms(2,3)] show ?thesis
    by (simp add: event_store.kept_def [OF assms(1)])
qed

theorem deletion_only_own_events_witness:
  "\<exists>err s'. handleDeleteRequest example_config (ws_ctx (sv_conns (example_server [note1]) 1))
      (note1\<lparr>evKind := 5, evPubKey := replicate 32 3, evTags := [[''e'', xhex_Encode std_ext (replicate 32 1)]]\<rparr>)
      (example_server [note1]) = Ret (err, s') \<and>
    filter_mset (\<lambda>e. evPubKey e \<noteq> replicate 32 3) (mset (sv_store s')) = {#note1#}"
proof -
  let ?s = "example_server [note1]" and ?cx = "ws_ctx (sv_conns (example_server [note1]) 1)"
  let ?d = "note1\<lparr>evKind := 5, evPubKey := replicate 32 3, evTags := [[''e'', xhex_Encode std_ext (replicate 32 1)]]\<rparr>"
  obtain err s' where r: "handleDeleteRequest example_config ?cx ?d ?s = Ret (err, s')"
    using handleDeleteRequest_total by blast
  have st: "slice_inv (sv_store ?s)" "distinct (map evID (sv_store ?s))" "sv_store ?s = [note1]"
    by (simp_all add: example_server_def connect_def slice_inv_def)
  have hk: "cf_hooks example_config = UseEventstore SliceStore 100 no_hooks" by (simp add: example_config_def)
  from deletion_only_own_events [OF slice.event_store_axioms st(1,2) hk r] show ?thesis
    using r st(3) by (auto simp: note1_def)
qed

text \<open>C15: over any event source that keeps its contract, a REQ leaves the store alone, sends only stored
  events that match one of its filters, to this connection and under this subscription id,
  and ends with EOSE or CLOSED.\<close>

theorem requests_answered_soundly:
  assumes "event_source S valid contents" "valid (sv_store s)" "cf_hooks cf = UseEventstore S n hk"
    "handle_message cf w (ReqEnvelope i fs) s = Ret (out, s')"
  shows "sv_store s' = sv_store s \<and> ends_with (sv_conns s w) i out \<and>
    (\<forall>(w', j, e) \<in> sent_events out.
       w' = Some (cn_ws (sv_conns s w)) \<and> j = i \<and> e \<in> set (contents (sv_store s)) \<and> (\<exists>f \<in> set fs. Matches f e))"
proof -
  have q: "hk_QueryStored (cf_hooks cf) =
      Some (\<lambda>cx st f. map Inl (QueryEvents S st f (if IsNegentropySession cx then n * 20 else n)))"
    using assms(3) by (simp add: UseEventstore_def)
  have "req_loop cf ((ws_ctx (sv_conns s w))\<lparr>cx_subscriptionId := Some i\<rparr>) i (sv_conns s w) fs [] s = (out, s')"
    using assms(4) by (simp add: handle_message_def handle_req_def Let_def)
  from event_source.req_loop_sound [OF assms(1) this assms(2) q] show ?thesis by (auto simp: sent_events_def)
qed

theorem requests_answered_soundly_witness:
  "\<exists>out s'. handle_message example_config 1 (ReqEnvelope ''s'' [empty_filter]) (example_server [note1]) = Ret (out, s') \<and>
     sv_store s' = [note1] \<and> ends_with (sv_conns (example_server [note1]) 1) ''s'' out"
proof -
  let ?s = "example_server [note1]"
  obtain out s' where r: "handle_message example_config 1 (ReqEnvelope ''s'' [empty_filter]) ?s = Ret (out, s')"
    by (cases "handle_req example_config (ws_ctx (sv_conns ?s 1)) (sv_conns ?s 1) ''s'' [empty_filter] ?s")
      (simp add: handle_message_def Let_def)
  have st: "slice_inv (sv_store ?s)" "sv_store ?s = [note1]"
    by (simp_all add: example_server_def connect_def slice_inv_def)
  have hk: "cf_hooks example_config = UseEventstore SliceStore 100 no_hooks" by (simp add: example_config_def)
  from requests_answered_soundly [OF slice.event_source_axioms st(1) hk r] show ?thesis using r st(2) by auto
qed


text \<open>C14: keys enter the list of a connection only through a valid AUTH event for the challenge of that connection, after
  which the key is the one the connection acts as; the list stays duplicate-free and within its limit.\<close>

theorem authentication_sound:
  assumes "distinct (cn_AuthedPublicKeys (sv_conns s w))" "cn_ws (sv_conns s w) = w" "1 \<le> cf_MaxAuthenticatedClients cf"
    "int (length (cn_AuthedPublicKeys (sv_conns s w))) \<le> cf_MaxAuthenticatedClients cf"
  shows "\<exists>out s'. handle_message cf w (AuthEnvelope evt) s = Ret (out, s') \<and>
    distinct (cn_AuthedPublicKeys (sv_conns s' w)) \<and>
    int (length (cn_AuthedPublicKeys (sv_conns s' w))) \<le> cf_MaxAuthenticatedClients cf \<and>
    (if evKind evt = 22242 \<and> FindWithValue (evTags evt) ''challenge'' (cn_Challenge (sv_conns s w)) \<noteq> None \<and>
        au_Verify (cf_auth cf) evt \<and>
        ValidateAuthEvent (cf_auth cf) evt (cn_Challenge (sv_conns s w)) (cf_relayURL cf) = Ret (evPubKey evt)
     then GetAuthed (ws_ctx (sv_conns s' w)) = (evPubKey evt, True) \<and>
       set (cn_AuthedPublicKeys (sv_conns s' w)) \<subseteq> insert (evPubKey evt) (set (cn_AuthedPublicKeys (sv_conns s w)))
     else sv_conns s' = sv_conns s)"
proof (cases "ValidateAuthEvent (cf_auth cf) evt (cn_Challenge (sv_conns s w)) (cf_relayURL cf)")
  case (Ret pk)
  then have v: "pk = evPubKey evt" "evKind evt = 22242" "au_Verify (cf_auth cf) evt"
    "FindWithValue (evTags evt) ''challenge'' (cn_Challenge (sv_conns s w)) \<noteq> None"
    by (simp_all add: ValidateAuthEvent_Ret)
  obtain keys where k: "add_authed (cf_MaxAuthenticatedClients cf) (cn_AuthedPublicKeys (sv_conns s w)) pk = Some keys"
    "distinct keys" "int (length keys) \<le> cf_MaxAuthenticatedClients cf" "keys \<noteq> []" "last keys = pk"
    "set keys \<subseteq> insert pk (set (cn_AuthedPublicKeys (sv_conns s w)))"
    using add_authed_ok [OF assms(1,4,3)] by blast
  show ?thesis
    using Ret k v assms(2)
    by (simp add: handle_message_def handle_auth_def Let_def GetAuthed_def GetConnection_def ws_ctx_def last_conv_nth)
next
  case (Fail e)
  then show ?thesis using assms by (simp add: handle_message_def handle_auth_def Let_def)
next
  case Panic
  then show ?thesis by (simp add: ValidateAuthEvent_def split: option.splits if_splits)
qed

theorem authentication_sound_witness:
  "\<exists>out s'. handle_message example_config 1 (AuthEnvelope (CreateUnsignedAuthEvent ''c'' (replicate 32 5) ''ws://r'' 0)) (example_server [])
      = Ret (out, s') \<and> GetAuthed (ws_ctx (sv_conns s' 1)) = (replicate 32 5, True)"
proof -
  let ?evt = "CreateUnsignedAuthEvent ''c'' (replicate 32 5) ''ws://r'' 0" and ?s = "example_server []"
  have c: "sv_conns ?s 1 = \<lparr>cn_ws = 1, cn_Challenge = ''c'', cn_AuthedPublicKeys = []\<rparr>"
    by (simp add: example_server_def connect_def)
  have "ValidateAuthEvent (cf_auth example_config) ?evt ''c'' (cf_relayURL example_config) = Ret (evPubKey ?evt)"
    by (simp add: ValidateAuthEvent_Ret CreateUnsignedAuthEvent_def example_config_def parseURL_def)
  then show ?thesis
    using authentication_sound [of ?s 1 example_config ?evt]
    by (auto simp: c example_config_def CreateUnsignedAuthEvent_def simp del: One_nat_def)
qed

text \<open>a full list is not evicted oldest first, contrary to the comment in the code: with three places, the
  fifth key to authenticate drives out the third although the second is older.\<close>

theorem eviction_not_oldest_first:
  "\<exists>k1 k2 k3 k4. add_authed 3 [] [1] = Some k1 \<and> add_authed 3 k1 [2] = Some k2 \<and> add_authed 3 k2 [3] = Some k3 \<and>
     add_authed 3 k3 [4] = Some k4 \<and> add_authed 3 k4 [5] = Some [[4], [2], [5]]"
  by (simp add: add_authed_def Let_def)

text \<open>the error of storing or relaying an event always starts with a one-word prefix and a colon, as the protocol
  wants it.\<close>

theorem write_errors_prefixed:
  assumes "fst (AddEvent cf cx evt s) = (skip, Some reason)"
  shows "\<exists>p rest. reason = p @ '': '' @ rest \<and> CHR '' '' \<notin> set p"
proof -
  have "prefixed reason"
    using assms handleNormal_prefixed [of cf cx evt s skip reason] handleEphemeral_prefixed [of cf cx evt s reason]
    by (auto simp: AddEvent_def Let_def prod_eq_iff split: if_splits prod.splits)
  then show ?thesis by (simp add: prefixed_def)
qed

theorem write_errors_prefixed_witness:
  "\<exists>reason. fst (AddEvent (example_config\<lparr>cf_hooks := no_hooks\<lparr>hk_OnEvent := Some (\<lambda>_ _ _. (True, ''no spam''))\<rparr>\<rparr>)
      (ws_ctx (sv_conns (example_server []) 1)) note1 (example_server [])) = (True, Some reason) \<and>
    (\<exists>p rest. reason = p @ '': '' @ rest \<and> CHR '' '' \<notin> set p)"
proof -
  let ?cf = "example_config\<lparr>cf_hooks := no_hooks\<lparr>hk_OnEvent := Some (\<lambda>_ _ _. (True, ''no spam''))\<rparr>\<rparr>"
  have "\<exists>reason. fst (AddEvent ?cf (ws_ctx (sv_conns (example_server []) 1)) note1 (example_server [])) = (True, Some reason)"
    by (simp add: AddEvent_def not_ephemeral_1 note1_def handleNormal_def rejected_def)
  then show ?thesis using write_errors_prefixed [of ?cf "ws_ctx (sv_conns (example_server []) 1)" note1 "example_server []" True] by blast
qed

text \<open>a deletion request with a malformed id is answered without the promised prefix.\<close>

theorem deletion_error_unprefixed:
  "\<exists>reason. delete_target cf evt [''e'', ''zz''] = Fail reason \<and> \<not> strings_HasPrefix reason ''blocked: ''"
  by (simp add: delete_target_def IDFromHex_def strings_HasPrefix_def)

end
