(* ===== verification/Policies.thy ===== *)
theory Policies
  imports Relay
begin

text \<open>
  The ready-made policies of \<^verbatim>\<open>relay/policies\<close>: what may be put in the hooks that decide whether an event or a
  request is accepted.  A policy that keeps no state is a function of the context and of what it judges; the
  rate limiters carry their buckets as an explicit state.  The clock is an argument.
\<close>

section \<open>Policies on events\<close>

type_synonym event_policy = "ctx \<Rightarrow> event \<Rightarrow> bool \<times> string"
type_synonym filter_policy = "ctx \<Rightarrow> Filter \<Rightarrow> bool \<times> string"

definition sorted_has :: "Kind list \<Rightarrow> Kind \<Rightarrow> bool" where
  "sorted_has kinds kind = snd (slices_BinarySearchFunc (slices_SortFunc cmp_Compare kinds) kind cmp_Compare)"

definition ignore_kind :: "Kind list \<Rightarrow> Kind list \<Rightarrow> Kind \<Rightarrow> bool" where
  "ignore_kind ignoreKinds onlyKinds kind =
     (if length onlyKinds > 0 then \<not> sorted_has onlyKinds kind
      else if length ignoreKinds > 0 then sorted_has ignoreKinds kind
      else False)"

definition PreventTooManyIndexableTags :: "int \<Rightarrow> Kind list \<Rightarrow> Kind list \<Rightarrow> event_policy" where
  "PreventTooManyIndexableTags max' ignoreKinds onlyKinds cx event =
     (if ignore_kind ignoreKinds onlyKinds (evKind event) then (False, '''')
      else
        (let ntags = fold (\<lambda>tag n. if length tag > 0 \<and> length (tag ! 0) = 1 then n + 1 else n) (evTags event) (0 :: int)
         in if ntags > max' then (True, ''too many indexable tags'') else (False, '''')))"

definition PreventLargeContent :: "int \<Rightarrow> event_policy" where
  "PreventLargeContent maxContent cx event =
     (if int (length (evContent event)) > maxContent then (True, ''content is too big'') else (False, ''''))"

definition RestrictToSpecifiedKinds :: "bool \<Rightarrow> Kind list \<Rightarrow> event_policy" where
  "RestrictToSpecifiedKinds allowEphemeral kinds cx event =
     (if allowEphemeral \<and> IsEphemeral (evKind event) then (False, '''')
      else if sorted_has kinds (evKind event) then (False, '''')
      else (True, ''received event kind '' @ strconv_Itoa (int (unat (evKind event))) @ '' not allowed''))"

text \<open>The subtraction of timestamps wraps at 64 bits.  The threshold is in whole seconds.\<close>

definition PreventTimestampsInThePast :: "int \<Rightarrow> int \<Rightarrow> event_policy" where
  "PreventTimestampsInThePast now thresholdSeconds cx event =
     (if int64 (now - evCreatedAt event) > thresholdSeconds then (True, ''event too old'') else (False, ''''))"

definition PreventTimestampsInTheFuture :: "int \<Rightarrow> int \<Rightarrow> event_policy" where
  "PreventTimestampsInTheFuture now thresholdSeconds cx event =
     (if int64 (evCreatedAt event - now) > thresholdSeconds then (True, ''event too much in the future'') else (False, ''''))"

definition RejectEventsWithBase64Media :: event_policy where
  "RejectEventsWithBase64Media cx evt =
     (strings_Contains (evContent evt) ''data:image/'' \<or> strings_Contains (evContent evt) ''data:video/'',
      ''event with base64 media'')"

definition OnlyAllowNIP70ProtectedEvents :: event_policy where
  "OnlyAllowNIP70ProtectedEvents cx event =
     (if evKind event = 5 then (False, '''')
      else if IsProtected event then (False, '''')
      else (True, ''blocked: we only accept events protected with the nip70 '' @ quote @ ''-'' @ quote @ '' tag''))"

text \<open>The inner function \<^verbatim>\<open>exists\<close> of \<^verbatim>\<open>PreventNormalDuplicates\<close>: the query yields at least one event for every tag.\<close>

fun dup_exists :: "(Filter \<Rightarrow> int \<Rightarrow> event list) \<Rightarrow> event \<Rightarrow> string \<Rightarrow> Tag list \<Rightarrow> bool" where
  "dup_exists query event tagName [] = True"
| "dup_exists query event tagName (t # ts) =
     (let hasThis = query (empty_filter\<lparr>fAuthors := Some [evPubKey event], fKinds := Some [evKind event],
            fTags := [(tagName, [t ! 1])]\<rparr>) 1 \<noteq> []
      in if \<not> hasThis then False else dup_exists query event tagName ts)"

definition PreventNormalDuplicates :: "(Filter \<Rightarrow> int \<Rightarrow> event list) \<Rightarrow> event_policy" where
  "PreventNormalDuplicates query cx event =
     (let exists = (\<lambda>tagName. dup_exists query event tagName (tags_FindAll (evTags event) tagName));
          k = evKind event;
          reject =
            (if k = 6 then exists ''e'' \<and> exists ''a''
             else if k = 7 then exists ''e'' \<and> exists ''a''
             else if k = 16 then exists ''e'' \<and> exists ''a''
             else if k = 1018 then exists ''e''
             else if k = 1163 then exists ''p'' \<and> exists ''a''
             else if k = 7516 then exists ''a''
             else if k = 7517 then exists ''a''
             else False)
      in if reject then (True, ''an event similar to this already exists'') else (False, ''''))"

section \<open>Policies on filters\<close>

definition NoComplexFilters :: filter_policy where
  "NoComplexFilters cx f =
     (let items = length (fTags f) + length (opt_list (fKinds f)) in
      if items > 4 \<and> length (fTags f) > 2 then (True, ''too many things to filter for'') else (False, ''''))"

definition MustAuth :: filter_policy where
  "MustAuth cx f =
     (if \<not> snd (GetAuthed cx) then (True, ''auth-required: all requests must be authenticated'') else (False, ''''))"

definition NoEmptyFilters :: filter_policy where
  "NoEmptyFilters cx f =
     (let c = length (opt_list (fKinds f)) + length (opt_list (fIDs f)) + length (opt_list (fAuthors f));
          c = fold (\<lambda>(_, tagItems) c. c + length tagItems) (fTags f) c
      in if c = 0 then (True, ''can'' @ [CHR 0x27] @ ''t handle empty filters'') else (False, ''''))"

definition AntiSyncBots :: filter_policy where
  "AntiSyncBots cx f =
     ((length (opt_list (fKinds f)) = 0 \<or> 1 \<in> set (opt_list (fKinds f))) \<and> length (opt_list (fAuthors f)) = 0,
      ''an author must be specified to get their kind:1 notes'')"

definition NoSearchQueries :: filter_policy where
  "NoSearchQueries cx f = (if fSearch f \<noteq> '''' then (True, ''search is not supported'') else (False, ''''))"

text \<open>Policies that rewrite the filter.\<close>

definition RemoveSearchQueries :: "Filter \<Rightarrow> Filter" where
  "RemoveSearchQueries f = (if fSearch f \<noteq> '''' then f\<lparr>fSearch := '''', fLimitZero := True\<rparr> else f)"

definition RemoveAllButKinds :: "Kind list \<Rightarrow> Filter \<Rightarrow> Filter" where
  "RemoveAllButKinds kinds f =
     (let n = length (opt_list (fKinds f)) in
      if n > 0 then
        (let newKinds = filter (\<lambda>k. k \<in> set kinds) (opt_list (fKinds f));
             f = f\<lparr>fKinds := Some newKinds\<rparr>
         in if length newKinds = 0 then f\<lparr>fLimitZero := True\<rparr> else f)
      else f)"

definition RemoveAllButTags :: "string list \<Rightarrow> Filter \<Rightarrow> Filter" where
  "RemoveAllButTags tagNames f =
     (if length (fTags f) > 0 then
        (let tags = filter (\<lambda>(tagName, _). tagName \<in> set tagNames) (fTags f);
             f = f\<lparr>fTags := tags\<rparr>
         in if length tags = 0 then f\<lparr>fLimitZero := True\<rparr> else f)
      else f)"

section \<open>Policies in sequence\<close>

text \<open>A policy may keep a state \<open>'st\<close> of its own; \<open>stateless\<close> lifts the ones above.\<close>

type_synonym ('q, 'st) policy = "ctx \<Rightarrow> 'q \<Rightarrow> 'st \<Rightarrow> (bool \<times> string) \<times> 'st"

definition stateless :: "(ctx \<Rightarrow> 'q \<Rightarrow> bool \<times> string) \<Rightarrow> ('q, 'st) policy" where
  "stateless p cx q st = (p cx q, st)"

fun SeqEvent :: "(event, 'st) policy list \<Rightarrow> (event, 'st) policy" where
  "SeqEvent [] cx evt st = ((False, ''''), st)"
| "SeqEvent (fn # funcs) cx evt st =
     (let ((reject, reason), st) = fn cx evt st in if reject then ((reject, reason), st) else SeqEvent funcs cx evt st)"

fun SeqRequest :: "(Filter, 'st) policy list \<Rightarrow> (Filter, 'st) policy" where
  "SeqRequest [] cx f st = ((False, ''''), st)"
| "SeqRequest (fn # funcs) cx f st =
     (let ((reject, reason), st) = fn cx f st in if reject then ((reject, reason), st) else SeqRequest funcs cx f st)"

fun SeqStore :: "(ctx \<Rightarrow> event \<Rightarrow> 'st \<Rightarrow> store_error option \<times> 'st) list \<Rightarrow> ctx \<Rightarrow> event \<Rightarrow> 'st \<Rightarrow> store_error option \<times> 'st" where
  "SeqStore [] cx evt st = (None, st)"
| "SeqStore (fn # funcs) cx evt st =
     (case fn cx evt st of (Some err, st) \<Rightarrow> (Some err, st) | (None, st) \<Rightarrow> SeqStore funcs cx evt st)"

section \<open>Rate limits\<close>

text \<open>
  \<^verbatim>\<open>startRateLimitSystem\<close> keeps a map of 32-bit counters.  A request and a turn of the ticker are each one
  step; \<open>rl_minus\<close> is \<^verbatim>\<open>int32(-tokensPerInterval)\<close> and \<open>rl_max\<close> is \<^verbatim>\<open>int32(maxTokens)\<close>.
\<close>

record limiter =
  rl_minus :: "32 word"
  rl_max :: "32 word"

type_synonym 'k buckets = "'k \<rightharpoonup> 32 word"

definition startRateLimitSystem :: "int \<Rightarrow> int \<Rightarrow> limiter" where
  "startRateLimitSystem tokensPerInterval maxTokens =
     \<lparr>rl_minus = word_of_int (- tokensPerInterval), rl_max = word_of_int maxTokens\<rparr>"

definition rl_interval :: "limiter \<Rightarrow> 'k buckets \<Rightarrow> 'k buckets" where
  "rl_interval l m = (\<lambda>key.
     case m key of
       None \<Rightarrow> None
     | Some bucket \<Rightarrow> (let newv = bucket + rl_minus l in if sint newv \<le> 0 then None else Some newv))"

definition rl_request :: "limiter \<Rightarrow> 'k \<Rightarrow> 'k buckets \<Rightarrow> bool \<times> 'k buckets" where
  "rl_request l key m =
     (let (nb, m) = (case m key of Some nb \<Rightarrow> (nb, m) | None \<Rightarrow> (0, m(key \<mapsto> 0))) in
      if sint nb < sint (rl_max l) then (False, m(key \<mapsto> nb + 1)) else (True, m))"

text \<open>\<open>ip\<close> stands for \<^verbatim>\<open>GetIP\<close>, which reads the HTTP request.\<close>

definition EventIPRateLimiter :: "(ctx \<Rightarrow> string) \<Rightarrow> limiter \<Rightarrow> (event, string buckets) policy" where
  "EventIPRateLimiter ip rl cx evt m =
     (if ip cx = ''127.0.0.1'' \<or> ip cx = ''::1'' then ((False, ''''), m)
      else let (r, m) = rl_request rl (ip cx) m in ((r, ''rate-limited: slow down, please''), m))"

definition EventPubKeyRateLimiter :: "(ctx \<Rightarrow> string) \<Rightarrow> limiter \<Rightarrow> (event, string buckets) policy" where
  "EventPubKeyRateLimiter ip rl cx evt m =
     (if ip cx = ''127.0.0.1'' \<or> ip cx = ''::1'' then ((False, ''''), m)
      else let (r, m) = rl_request rl (hex_EncodeToString (evPubKey evt)) m in ((r, ''rate-limited: slow down, please''), m))"

definition ConnectionRateLimiter :: "string \<Rightarrow> limiter \<Rightarrow> string buckets \<Rightarrow> bool \<times> string buckets" where
  "ConnectionRateLimiter ip rl m =
     (if ip = ''127.0.0.1'' \<or> ip = ''::1'' then (False, m) else rl_request rl ip m)"

definition FilterIPRateLimiter :: "(ctx \<Rightarrow> string) \<Rightarrow> limiter \<Rightarrow> (Filter, string buckets) policy" where
  "FilterIPRateLimiter ip rl cx f m =
     (if ip cx = ''127.0.0.1'' then ((False, ''''), m)
      else let (r, m) = rl_request rl (ip cx) m in
        ((r, ''rate-limited: there is a bug in the client, no one should be making so many requests''), m))"

definition RequestRejectionStrictDefaults :: "(ctx \<Rightarrow> string) \<Rightarrow> (Filter, string buckets) policy" where
  "RequestRejectionStrictDefaults ip =
     SeqRequest [stateless NoComplexFilters, stateless NoSearchQueries, FilterIPRateLimiter ip (startRateLimitSystem 20 100)]"

text \<open>Kind validation.  \<open>json_name\<close> is the field \<^verbatim>\<open>name\<close> that \<^verbatim>\<open>json.Unmarshal\<close> finds in the content.\<close>

definition ValidateKind :: "(string \<Rightarrow> string) \<Rightarrow> event_policy" where
  "ValidateKind json_name cx evt =
     (if evKind evt = 0 then
        (if json_name (evContent evt) = '''' then (True, ''missing json name in kind 0'') else (False, ''''))
      else if evKind evt = 1 then (False, '''')
      else if evKind evt = 2 then (True, ''this kind has been deprecated'')
      else (False, ''''))"

section \<open>Facts\<close>

interpretation kind_cmp: go_total "cmp_Compare :: Kind \<Rightarrow> Kind \<Rightarrow> int"
  by unfold_locales (auto simp: cmp_Compare_def split: if_splits)

lemma sorted_has_iff [simp]: "sorted_has kinds kind \<longleftrightarrow> kind \<in> set kinds"
proof -
  have "snd (slices_BinarySearchFunc (slices_SortFunc cmp_Compare kinds) kind cmp_Compare) \<longleftrightarrow>
      (\<exists>x \<in> set (slices_SortFunc cmp_Compare kinds). cmp_Compare x kind = 0)"
    by (rule kind_cmp.search_found_iff [OF kind_cmp.sorted_SortFunc])
  then show ?thesis using kind_cmp.cmp_0 kind_cmp.cmp_self by (auto simp: sorted_has_def)
qed

lemma fold_count: "fold (\<lambda>x n. if P x then n + 1 else n) xs (n :: int) = n + int (length (filter P xs))"
  by (induction xs arbitrary: n) auto

lemma indexable_tags_rejected_iff:
  "fst (PreventTooManyIndexableTags max' ig only cx e) \<longleftrightarrow>
     (if only \<noteq> [] then evKind e \<in> set only else evKind e \<notin> set ig) \<and>
     max' < int (length (filter (\<lambda>t. t \<noteq> [] \<and> length (t ! 0) = 1) (evTags e)))"
  by (auto simp: PreventTooManyIndexableTags_def ignore_kind_def fold_count)

lemma kinds_rejected_iff:
  "fst (RestrictToSpecifiedKinds eph kinds cx e) \<longleftrightarrow> evKind e \<notin> set kinds \<and> \<not> (eph \<and> IsEphemeral (evKind e))"
  by (simp add: RestrictToSpecifiedKinds_def)

lemma empty_filter_rejected_iff:
  "fst (NoEmptyFilters cx f) \<longleftrightarrow>
     opt_list (fKinds f) = [] \<and> opt_list (fIDs f) = [] \<and> opt_list (fAuthors f) = [] \<and> (\<forall>(_, v) \<in> set (fTags f). v = [])"
proof -
  have *: "fold (\<lambda>(_, tagItems) c. c + length tagItems) m c = 0 \<longleftrightarrow> c = 0 \<and> (\<forall>(_, v) \<in> set m. v = [])" for m :: TagMap and c
    by (induction m arbitrary: c) auto
  show ?thesis by (auto simp: NoEmptyFilters_def *)
qed

lemma only_kinds_matches:
  "Matches (RemoveAllButKinds kinds f) e \<longleftrightarrow> Matches f e \<and> (opt_list (fKinds f) \<noteq> [] \<longrightarrow> evKind e \<in> set kinds)"
  by (cases "fKinds f") (auto simp: RemoveAllButKinds_def Let_def Matches_iff MatchesIgnoring_iff filter_empty_conv)

lemma only_tags_matches:
  "Matches f e \<Longrightarrow> Matches (RemoveAllButTags names f) e"
  by (auto simp: RemoveAllButTags_def Let_def Matches_iff MatchesIgnoring_iff)

lemma no_search_left: "fSearch (RemoveSearchQueries f) = ''''"
  by (simp add: RemoveSearchQueries_def)

lemma SeqEvent_stateless:
  "SeqEvent (map stateless ps) cx e st =
     (case find (\<lambda>p. fst (p cx e)) ps of None \<Rightarrow> ((False, ''''), st) | Some p \<Rightarrow> (p cx e, st))"
  by (induction ps) (auto simp: stateless_def split: prod.splits)

lemma SeqEvent_rejects_iff: "fst (fst (SeqEvent (map stateless ps) cx e st)) \<longleftrightarrow> list_ex (\<lambda>p. fst (p cx e)) ps"
  by (induction ps) (auto simp: stateless_def split: prod.splits)

lemma dup_exists_iff:
  "dup_exists query e n ts \<longleftrightarrow> (\<forall>t \<in> set ts. query (empty_filter\<lparr>fAuthors := Some [evPubKey e], fKinds := Some [evKind e],
            fTags := [(n, [t ! 1])]\<rparr>) 1 \<noteq> [])"
  by (induction ts) (auto simp: Let_def)

section \<open>Buckets\<close>

definition level :: "'k buckets \<Rightarrow> 'k \<Rightarrow> int" where
  "level m k = (case m k of None \<Rightarrow> 0 | Some b \<Rightarrow> sint b)"

definition rl_ok :: "int \<Rightarrow> 'k buckets \<Rightarrow> bool" where
  "rl_ok maxTokens m \<longleftrightarrow> (\<forall>k. 0 \<le> level m k \<and> level m k \<le> maxTokens)"

lemma sint32: "- (2 ^ 31) \<le> i \<Longrightarrow> i < 2 ^ 31 \<Longrightarrow> sint (word_of_int i :: 32 word) = i"
  by (simp add: sint_sbintrunc' signed_take_bit_int_eq_self)

lemma word32_sint: "word_of_int (sint (w :: 32 word)) = w"
  by simp

lemma rl_max_start: "0 \<le> maxTokens \<Longrightarrow> maxTokens < 2 ^ 31 \<Longrightarrow> sint (rl_max (startRateLimitSystem t maxTokens)) = maxTokens"
  by (simp add: startRateLimitSystem_def sint32)

lemma rl_request_level:
  assumes "rl_ok maxT m" "0 \<le> maxT" "maxT < 2 ^ 31"
  shows "fst (rl_request (startRateLimitSystem t maxT) key m) \<longleftrightarrow> level m key = maxT"
    "level (snd (rl_request (startRateLimitSystem t maxT) key m)) k =
       (if k = key \<and> level m key < maxT then level m k + 1 else level m k)"
proof -
  have lv: "0 \<le> level m key" "level m key \<le> maxT" using assms(1) by (auto simp: rl_ok_def)
  define nb :: "32 word" where "nb = (case m key of Some nb \<Rightarrow> nb | None \<Rightarrow> 0)"
  have nb: "sint nb = level m key" by (auto simp: nb_def level_def split: option.splits)
  have "sint (nb + 1) = level m key + 1" if "level m key < maxT"
  proof -
    have "nb = word_of_int (level m key)" by (simp add: nb [symmetric])
    then have "nb + 1 = word_of_int (level m key + 1)" by simp
    moreover have "sint (word_of_int (level m key + 1) :: 32 word) = level m key + 1"
      by (rule sint32) (use lv that assms(3) in simp_all)
    ultimately show ?thesis by simp
  qed
  then show "fst (rl_request (startRateLimitSystem t maxT) key m) \<longleftrightarrow> level m key = maxT"
    "level (snd (rl_request (startRateLimitSystem t maxT) key m)) k =
       (if k = key \<and> level m key < maxT then level m k + 1 else level m k)"
    using lv nb rl_max_start [OF assms(2,3), of t]
    by (auto simp: rl_request_def level_def nb_def split: option.splits)
qed

lemma rl_interval_level:
  assumes "rl_ok maxT m" "maxT < 2 ^ 31" "0 \<le> t" "t < 2 ^ 31"
  shows "level (rl_interval (startRateLimitSystem t maxT) m) k = max 0 (level m k - t)"
proof (cases "m k")
  case None
  then show ?thesis using assms by (simp add: rl_interval_def level_def)
next
  case (Some b)
  have lv: "0 \<le> sint b" "sint b \<le> maxT" using assms(1) Some by (auto simp: rl_ok_def level_def dest: spec [of _ k])
  have "b + word_of_int (- t) = word_of_int (sint b - t)" by simp
  moreover have "sint (word_of_int (sint b - t) :: 32 word) = sint b - t" by (rule sint32) (use lv assms in simp_all)
  ultimately have "sint (b + word_of_int (- t)) = sint b - t" by simp
  then show ?thesis using Some by (simp add: rl_interval_def level_def startRateLimitSystem_def Let_def max_def
      del: of_int_minus)
qed

text \<open>A history of requests and turns of the ticker; the result lists the keys of the requests let through.\<close>

datatype 'k rl_step = RlRequest 'k | RlInterval

fun rl_run :: "limiter \<Rightarrow> 'k rl_step list \<Rightarrow> 'k buckets \<Rightarrow> 'k list \<times> 'k buckets" where
  "rl_run l [] m = ([], m)"
| "rl_run l (RlRequest k # ss) m =
     (let (refused, m) = rl_request l k m; (ks, m) = rl_run l ss m in (if refused then ks else k # ks, m))"
| "rl_run l (RlInterval # ss) m = rl_run l ss (rl_interval l m)"

lemma rl_request_ok:
  assumes "rl_ok maxT m" "0 \<le> maxT" "maxT < 2 ^ 31"
  shows "rl_ok maxT (snd (rl_request (startRateLimitSystem t maxT) key m))"
  using rl_request_level(2) [OF assms, of t key] assms(1) by (auto simp: rl_ok_def)

lemma rl_interval_ok:
  assumes "rl_ok maxT m" "0 \<le> maxT" "maxT < 2 ^ 31" "0 \<le> t" "t < 2 ^ 31"
  shows "rl_ok maxT (rl_interval (startRateLimitSystem t maxT) m)"
  unfolding rl_ok_def
proof
  fix k
  have "0 \<le> level m k" "level m k \<le> maxT" using assms(1) by (auto simp: rl_ok_def)
  then show "0 \<le> level (rl_interval (startRateLimitSystem t maxT) m) k \<and>
      level (rl_interval (startRateLimitSystem t maxT) m) k \<le> maxT"
    using rl_interval_level [OF assms(1,3-5), of k] assms by simp
qed

lemma rl_run_level:
  assumes "0 \<le> maxT" "maxT < 2 ^ 31" "0 \<le> t" "t < 2 ^ 31"
  shows "rl_ok maxT m \<Longrightarrow> rl_run (startRateLimitSystem t maxT) ss m = (ks, m') \<Longrightarrow>
    rl_ok maxT m' \<and> int (count_list ks k) + level m k \<le> level m' k + t * int (count_list ss RlInterval)"
proof (induction ss arbitrary: m ks m')
  case (Cons s ss)
  show ?case
  proof (cases s)
    case (RlRequest key)
    let ?q = "rl_request (startRateLimitSystem t maxT) key m"
    obtain ks1 where r: "rl_run (startRateLimitSystem t maxT) ss (snd ?q) = (ks1, m')"
      "ks = (if fst ?q then ks1 else key # ks1)"
      using Cons.prems(2) RlRequest by (auto split: prod.splits)
    note ih = Cons.IH [OF rl_request_ok [OF Cons.prems(1) assms(1,2)] r(1)]
    have "level m key \<le> maxT" using Cons.prems(1) by (simp add: rl_ok_def)
    then show ?thesis
      using ih r(2) RlRequest rl_request_level [OF Cons.prems(1) assms(1,2), of t key] by auto
  next
    case RlInterval
    have "rl_run (startRateLimitSystem t maxT) ss (rl_interval (startRateLimitSystem t maxT) m) = (ks, m')"
      using Cons.prems(2) RlInterval by simp
    note ih = Cons.IH [OF rl_interval_ok [OF Cons.prems(1) assms] this]
    have "level m k - t \<le> level (rl_interval (startRateLimitSystem t maxT) m) k"
      using rl_interval_level [OF Cons.prems(1) assms(2-4), of k] by simp
    then show ?thesis using ih RlInterval by (simp add: algebra_simps)
  qed
qed simp

lemma rl_idle_level:
  assumes "0 \<le> maxT" "maxT < 2 ^ 31" "0 \<le> t" "t < 2 ^ 31" "rl_ok maxT m"
  shows "rl_ok maxT ((rl_interval (startRateLimitSystem t maxT) ^^ n) m) \<and>
    level ((rl_interval (startRateLimitSystem t maxT) ^^ n) m) k = max 0 (level m k - int n * t)"
proof (induction n)
  case 0
  then show ?case using assms(5) by (simp add: rl_ok_def)
next
  case (Suc n)
  then show ?case
    using rl_interval_ok [OF conjunct1 [OF Suc.IH] assms(1-4)] rl_interval_level [OF conjunct1 [OF Suc.IH] assms(2-4), of k] assms(3)
    by (simp add: algebra_simps max_def)
qed

section \<open>Properties\<close>

definition background_ctx :: ctx where
  "background_ctx = \<lparr>cx_ws = None, cx_nip86HeaderAuth = None, cx_subscriptionId = None, cx_internalCall = False,
     cx_negentropySession = False\<rparr>"



text \<open>A refused key recovers: when it stays quiet for enough intervals to earn back the maximum, its next
  request is let through.\<close>
theorem rate_limit_recovers:
  assumes "0 < maxTokens" "maxTokens < 2 ^ 31" "0 \<le> tokens" "tokens < 2 ^ 31" "maxTokens \<le> int n * tokens"
    and "rl_run (startRateLimitSystem tokens maxTokens) steps Map.empty = (admitted, m)"
  shows "\<not> fst (rl_request (startRateLimitSystem tokens maxTokens) k
    ((rl_interval (startRateLimitSystem tokens maxTokens) ^^ n) m))"
proof -
  have pos: "0 \<le> maxTokens" using assms(1) by simp
  have "rl_ok maxTokens (Map.empty :: 'a buckets)" using pos by (simp add: rl_ok_def level_def)
  then have ok: "rl_ok maxTokens m" using rl_run_level [OF pos assms(2-4) _ assms(6)] by simp
  then have "level m k \<le> maxTokens" by (simp add: rl_ok_def)
  then show ?thesis
    using rl_idle_level [OF pos assms(2-4) ok, of n k]
      rl_request_level(1) [of maxTokens "(rl_interval (startRateLimitSystem tokens maxTokens) ^^ n) m" tokens k] assms(1,2,5)
    by simp
qed

theorem rate_limit_recovers_witness:
  "\<not> fst (rl_request (startRateLimitSystem 1 2) ''a'' ((rl_interval (startRateLimitSystem 1 2) ^^ 2)
      (snd (rl_run (startRateLimitSystem 1 2) [RlRequest ''a'', RlRequest ''a''] Map.empty))))"
  by (rule rate_limit_recovers [of 2 1 2 "[RlRequest ''a'', RlRequest ''a'']"
        "fst (rl_run (startRateLimitSystem 1 2) [RlRequest ''a'', RlRequest ''a''] Map.empty)"]) simp_all

text \<open>The guard against old events rejects exactly those older than the threshold by less than 2^63 seconds:
  for older ones the difference wraps and they are accepted, as an event with the smallest timestamp is.\<close>
theorem past_guard_exact:
  assumes "0 \<le> now" "in_int64 now" "in_int64 (evCreatedAt e)" "0 \<le> threshold"
  shows "fst (PreventTimestampsInThePast now threshold cx e) \<longleftrightarrow>
    threshold < now - evCreatedAt e \<and> now - evCreatedAt e < 2 ^ 63"
proof (cases "now - evCreatedAt e < 2 ^ 63")
  case True
  then have "int64 (now - evCreatedAt e) = now - evCreatedAt e"
    using assms by (intro int64_id) (auto simp: in_int64_def)
  then show ?thesis using True by (simp add: PreventTimestampsInThePast_def)
next
  case False
  then have "int64 (now - evCreatedAt e) = now - evCreatedAt e - 2 ^ 64"
    using assms by (intro int64_over) (auto simp: in_int64_def)
  then show ?thesis using False assms by (simp add: PreventTimestampsInThePast_def in_int64_def)
qed

theorem past_guard_exact_witness:
  "\<not> fst (PreventTimestampsInThePast 1700000000 3600 background_ctx (note1\<lparr>evCreatedAt := - (2 ^ 63)\<rparr>)) \<and>
   fst (PreventTimestampsInThePast 1700000000 3600 background_ctx note1)"
  using past_guard_exact [of 1700000000 "note1\<lparr>evCreatedAt := - (2 ^ 63)\<rparr>" 3600 background_ctx]
    past_guard_exact [of 1700000000 note1 3600 background_ctx]
  by (simp add: in_int64_def note1_def)

text \<open>C33: A relay whose event hook is a sequence of policies takes up an event only when every policy accepts it;
  otherwise nothing changes and the reason comes back.\<close>
theorem policies_guard_events:
  assumes "hk_OnEvent (cf_hooks cf) = Some (\<lambda>cx st e. fst (SeqEvent (map stateless ps) cx e ()))"
    and "p \<in> set ps" "fst (p cx evt)"
  shows "snd (AddEvent cf cx evt s) = s \<and> snd (fst (AddEvent cf cx evt s)) \<noteq> None"
proof -
  have "fst (fst (SeqEvent (map stateless ps) cx evt ()))"
    using assms(2,3) by (auto simp: SeqEvent_rejects_iff list_ex_iff)
  then have "rejected cf cx s evt \<noteq> None"
    using assms(1) by (cases "fst (SeqEvent (map stateless ps) cx evt ())") (auto simp: rejected_def)
  then obtain reason where "rejected cf cx s evt = Some reason" by blast
  then show ?thesis by (simp add: AddEvent_def handleNormal_def handleEphemeral_def)
qed

theorem policies_guard_events_witness:
  "let cf = example_config\<lparr>cf_hooks := (cf_hooks example_config)\<lparr>hk_OnEvent :=
        Some (\<lambda>cx st e. fst (SeqEvent (map stateless [PreventLargeContent 5000, OnlyAllowNIP70ProtectedEvents]) cx e ()))\<rparr>\<rparr>
   in snd (AddEvent cf background_ctx note1 (example_server [])) = example_server []"
  using policies_guard_events [of "example_config\<lparr>cf_hooks := (cf_hooks example_config)\<lparr>hk_OnEvent :=
        Some (\<lambda>cx st e. fst (SeqEvent (map stateless [PreventLargeContent 5000, OnlyAllowNIP70ProtectedEvents]) cx e ()))\<rparr>\<rparr>"
      "[PreventLargeContent 5000, OnlyAllowNIP70ProtectedEvents]" OnlyAllowNIP70ProtectedEvents background_ctx note1 "example_server []"]
  by (simp add: OnlyAllowNIP70ProtectedEvents_def note1_def IsProtected_def)

text \<open>The guard against duplicates lets no reference-free event through: a repost, reaction, poll response or
  report of a geocache without the tags it looks at is refused whatever is stored, even nothing.\<close>
theorem duplicates_refuse_untagged:
  assumes "evKind e \<in> {6, 7, 16, 1018, 1163, 7516, 7517}"
    and "tags_FindAll (evTags e) ''e'' = []" "tags_FindAll (evTags e) ''a'' = []" "tags_FindAll (evTags e) ''p'' = []"
  shows "fst (PreventNormalDuplicates query cx e)"
  using assms by (auto simp: PreventNormalDuplicates_def Let_def)

theorem duplicates_refuse_untagged_witness:
  "fst (PreventNormalDuplicates (\<lambda>_ _. []) background_ctx (note1\<lparr>evKind := 7516, evTags := []\<rparr>))"
  using duplicates_refuse_untagged [of "note1\<lparr>evKind := 7516, evTags := []\<rparr>" "\<lambda>_ _. []" background_ctx]
  by (simp add: note1_def tags_FindAll_def)

end
