(* ===== verification/Nip19.thy ===== *)
theory Nip19
  imports Pointers
begin

text \<open>
  The bech32 entities of \<^verbatim>\<open>nip19\<close>: TLV entries, encoders, the decoder and the conversion from and to
  pointers.  The package \<^verbatim>\<open>btcutil/bech32\<close> is not part of the repository: it is the record
  \<open>bech32\<close>, and the predicate \<open>bech32_codec\<close> states what the encoders and the decoder rely on.
\<close>

section \<open>The bech32 package\<close>

record bech32 =
  b32_Encode :: "string \<Rightarrow> bytes \<Rightarrow> string option"
  b32_DecodeNoLimit :: "string \<Rightarrow> (string \<times> bytes) option"
  b32_ConvertBits :: "bytes \<Rightarrow> nat \<Rightarrow> nat \<Rightarrow> bool \<Rightarrow> bytes option"

definition hrp_ok :: "string \<Rightarrow> bool" where
  "hrp_ok p \<longleftrightarrow> p \<noteq> [] \<and> list_all (\<lambda>c. 97 \<le> (of_char c :: nat) \<and> (of_char c :: nat) \<le> 122) p"

text \<open>What the code relies on: groups of five bits give the bytes back, and a code gives its prefix and data back.\<close>

definition bech32_codec :: "bech32 \<Rightarrow> bool" where
  "bech32_codec B \<longleftrightarrow>
     (\<forall>bs. \<exists>bits5. b32_ConvertBits B bs 8 5 True = Some bits5 \<and> b32_ConvertBits B bits5 5 8 False = Some bs) \<and>
     (\<forall>bs bits5 p. b32_ConvertBits B bs 8 5 True = Some bits5 \<longrightarrow> hrp_ok p \<longrightarrow>
       (\<exists>s. b32_Encode B p bits5 = Some s \<and> b32_DecodeNoLimit B s = Some (p, bits5)))"

section \<open>TLV entries\<close>

abbreviation TLVDefault :: byte where "TLVDefault \<equiv> 0"
abbreviation TLVRelay :: byte where "TLVRelay \<equiv> 1"
abbreviation TLVAuthor :: byte where "TLVAuthor \<equiv> 2"
abbreviation TLVKind :: byte where "TLVKind \<equiv> 3"

definition readTLVEntry :: "bytes \<Rightarrow> byte \<times> bytes option" where
  "readTLVEntry data =
     (if length data < 2 then (0, None)
      else let typ = data ! 0; len = unat (data ! 1) in
        if length data < 2 + len then (typ, None) else (typ, Some (take len (drop 2 data))))"

definition writeTLVEntry :: "bytes \<Rightarrow> byte \<Rightarrow> bytes \<Rightarrow> bytes" where
  "writeTLVEntry buf typ v = buf @ [typ] @ [word_of_nat (length v)] @ v"

lemma readTLV_length: "(t, Some v) = readTLVEntry data \<Longrightarrow> 0 < length data"
  by (auto simp: readTLVEntry_def Let_def split: if_splits)

section \<open>Decoding\<close>

datatype nip19_error =
    Bech32Failed | ConvertFailed | NsecLength nat | NoteLength nat | NpubLength nat | PubkeyLength nat | NoPubkey
  | IdLength nat | NoId | AuthorLength nat | BadKind bytes | IncompleteNaddr | UnknownTag string | UnexpectedPrefix string

datatype nip19_value =
    VNil | VSecretKey bytes | VPubKey PubKey | VProfile ProfilePointer | VEvent EventPointer | VEntity EntityPointer | VData bytes

text \<open>A loop ends with a value and perhaps an error, or it panics.\<close>

type_synonym decoded = "(unit, nip19_value \<times> nip19_error option) outcome"

function nprofile_loop :: "bytes \<Rightarrow> ProfilePointer \<Rightarrow> decoded" where
  "nprofile_loop data result =
     (case readTLVEntry data of
        (t, None) \<Rightarrow> Ret (VProfile result, if pp_PublicKey result = ZeroPK then Some NoPubkey else None)
      | (t, Some v) \<Rightarrow>
          if t = TLVDefault then
            (if length v \<noteq> 32 then Ret (VNil, Some (PubkeyLength (length v)))
             else nprofile_loop (drop (2 + length v) data) (result\<lparr>pp_PublicKey := v\<rparr>))
          else if t = TLVRelay then
            nprofile_loop (drop (2 + length v) data) (result\<lparr>pp_Relays := Some (opt_list (pp_Relays result) @ [string_of v])\<rparr>)
          else nprofile_loop (drop (2 + length v) data) result)"
  by pat_completeness auto
termination by (relation "measure (\<lambda>(data, _). length data)") (auto dest!: readTLV_length)

function nevent_loop :: "bytes \<Rightarrow> EventPointer \<Rightarrow> decoded" where
  "nevent_loop data result =
     (case readTLVEntry data of
        (t, None) \<Rightarrow> Ret (VEvent result, if ep_ID result = ZeroID then Some NoId else None)
      | (t, Some v) \<Rightarrow>
          if t = TLVDefault then
            (if length v \<noteq> 32 then Ret (VNil, Some (IdLength (length v)))
             else nevent_loop (drop (2 + length v) data) (result\<lparr>ep_ID := v\<rparr>))
          else if t = TLVRelay then
            nevent_loop (drop (2 + length v) data) (result\<lparr>ep_Relays := Some (opt_list (ep_Relays result) @ [string_of v])\<rparr>)
          else if t = TLVAuthor then
            (if length v \<noteq> 32 then Ret (VNil, Some (AuthorLength (length v)))
             else nevent_loop (drop (2 + length v) data) (result\<lparr>ep_Author := v\<rparr>))
          else if t = TLVKind then
            (if length v \<noteq> 4 then Ret (VNil, Some (BadKind v))
             else nevent_loop (drop (2 + length v) data) (result\<lparr>ep_Kind := word_of_nat (getBE v)\<rparr>))
          else nevent_loop (drop (2 + length v) data) result)"
  by pat_completeness auto
termination by (relation "measure (\<lambda>(data, _). length data)") (auto dest!: readTLV_length)

text \<open>\<^verbatim>\<open>Uint32(v)\<close> reads four bytes and panics when there are fewer.\<close>

function naddr_loop :: "bytes \<Rightarrow> EntityPointer \<Rightarrow> bool \<Rightarrow> decoded" where
  "naddr_loop data result hasIdentifier =
     (case readTLVEntry data of
        (t, None) \<Rightarrow>
          Ret (VEntity result,
            if np_Kind result = 0 \<or> \<not> hasIdentifier \<or> np_PublicKey result = ZeroPK then Some IncompleteNaddr else None)
      | (t, Some v) \<Rightarrow>
          if t = TLVDefault then
            naddr_loop (drop (2 + length v) data) (result\<lparr>np_Identifier := string_of v\<rparr>) True
          else if t = TLVRelay then
            naddr_loop (drop (2 + length v) data)
              (result\<lparr>np_Relays := Some (opt_list (np_Relays result) @ [string_of v])\<rparr>) hasIdentifier
          else if t = TLVAuthor then
            (if length v \<noteq> 32 then Ret (VNil, Some (AuthorLength (length v)))
             else naddr_loop (drop (2 + length v) data) (result\<lparr>np_PublicKey := v\<rparr>) hasIdentifier)
          else if t = TLVKind then
            (if length v < 4 then Panic
             else naddr_loop (drop (2 + length v) data) (result\<lparr>np_Kind := word_of_nat (getBE (take 4 v))\<rparr>) hasIdentifier)
          else naddr_loop (drop (2 + length v) data) result hasIdentifier)"
  by pat_completeness auto
termination by (relation "measure (\<lambda>(data, _, _). length data)") (auto dest!: readTLV_length)

declare nprofile_loop.simps [simp del] nevent_loop.simps [simp del] naddr_loop.simps [simp del]

definition zero_ProfilePointer :: ProfilePointer where
  "zero_ProfilePointer = \<lparr>pp_PublicKey = ZeroPK, pp_Relays = None\<rparr>"

definition Decode :: "bech32 \<Rightarrow> string \<Rightarrow> (unit, string \<times> nip19_value \<times> nip19_error option) outcome" where
  "Decode B bech32string =
     (case b32_DecodeNoLimit B bech32string of
        None \<Rightarrow> Ret ('''', VNil, Some Bech32Failed)
      | Some (pref, bits5) \<Rightarrow>
          (case b32_ConvertBits B bits5 5 8 False of
             None \<Rightarrow> Ret (pref, VNil, Some ConvertFailed)
           | Some data \<Rightarrow>
               obind
                 (if pref = ''nsec'' then
                    (if length data \<noteq> 32 then Ret (VNil, Some (NsecLength (length data))) else Ret (VSecretKey data, None))
                  else if pref = ''note'' then
                    (if length data \<noteq> 32 then Ret (VNil, Some (NoteLength (length data)))
                     else Ret (VEvent (zero_EventPointer\<lparr>ep_ID := data\<rparr>), None))
                  else if pref = ''npub'' then
                    (if length data \<noteq> 32 then Ret (VNil, Some (NpubLength (length data))) else Ret (VPubKey data, None))
                  else if pref = ''nprofile'' then nprofile_loop data zero_ProfilePointer
                  else if pref = ''nevent'' then nevent_loop data zero_EventPointer
                  else if pref = ''naddr'' then naddr_loop data zero_EntityPointer False
                  else Ret (VData data, Some (UnknownTag pref)))
                 (\<lambda>(v, err). Ret (pref, v, err))))"

section \<open>Encoding\<close>

text \<open>\<^verbatim>\<open>bits5, _ := ConvertBits(...); code, _ := Encode(...)\<close>: errors leave nil and the empty string.\<close>

definition b32 :: "bech32 \<Rightarrow> string \<Rightarrow> bytes \<Rightarrow> string" where
  "b32 B pref data =
     (let bits5 = (case b32_ConvertBits B data 8 5 True of Some b \<Rightarrow> b | None \<Rightarrow> [])
      in case b32_Encode B pref bits5 of Some s \<Rightarrow> s | None \<Rightarrow> '''')"

definition EncodeNsec :: "bech32 \<Rightarrow> bytes \<Rightarrow> string" where
  "EncodeNsec B sk = b32 B ''nsec'' sk"

definition EncodeNpub :: "bech32 \<Rightarrow> PubKey \<Rightarrow> string" where
  "EncodeNpub B pk = b32 B ''npub'' pk"

definition write_relays :: "string list \<Rightarrow> bytes \<Rightarrow> bytes" where
  "write_relays relays buf = fold (\<lambda>u buf. writeTLVEntry buf TLVRelay (bytes_of u)) relays buf"

definition EncodeNprofile :: "bech32 \<Rightarrow> PubKey \<Rightarrow> string list \<Rightarrow> string" where
  "EncodeNprofile B pk relays = b32 B ''nprofile'' (write_relays relays (writeTLVEntry [] TLVDefault pk))"

definition EncodeNevent :: "bech32 \<Rightarrow> ID \<Rightarrow> string list \<Rightarrow> PubKey \<Rightarrow> string" where
  "EncodeNevent B i relays author =
     (let buf = write_relays relays (writeTLVEntry [] TLVDefault i);
          buf = (if author \<noteq> ZeroPK then writeTLVEntry buf TLVAuthor author else buf)
      in b32 B ''nevent'' buf)"

definition EncodeNaddr :: "bech32 \<Rightarrow> PubKey \<Rightarrow> Kind \<Rightarrow> string \<Rightarrow> string list \<Rightarrow> string" where
  "EncodeNaddr B pk kind identifier relays =
     (let buf = write_relays relays (writeTLVEntry [] TLVDefault (bytes_of identifier));
          buf = writeTLVEntry buf TLVAuthor pk;
          buf = writeTLVEntry buf TLVKind (putBE 4 (unat kind))
      in b32 B ''naddr'' buf)"

definition EncodePointer :: "bech32 \<Rightarrow> Pointer \<Rightarrow> string" where
  "EncodePointer B pointer =
     (case pointer of
        PProfile v \<Rightarrow>
          (case pp_Relays v of
             None \<Rightarrow> EncodeNpub B (pp_PublicKey v)
           | Some relays \<Rightarrow> EncodeNprofile B (pp_PublicKey v) relays)
      | PEvent v \<Rightarrow> EncodeNevent B (ep_ID v) (opt_list (ep_Relays v)) (ep_Author v)
      | PEntity v \<Rightarrow> EncodeNaddr B (np_PublicKey v) (np_Kind v) (np_Identifier v) (opt_list (np_Relays v))
      | PExternal v \<Rightarrow> '''')"

text \<open>The type assertions of \<^verbatim>\<open>ToPointer\<close>; a note decodes to an event pointer but is asserted to be an id.\<close>

definition ToPointer :: "bech32 \<Rightarrow> string \<Rightarrow> (nip19_error, Pointer) outcome" where
  "ToPointer B code =
     (case Decode B code of
        Ret (pref, data, None) \<Rightarrow>
          if pref = ''npub'' then
            (case data of VPubKey pk \<Rightarrow> Ret (PProfile \<lparr>pp_PublicKey = pk, pp_Relays = None\<rparr>) | _ \<Rightarrow> Panic)
          else if pref = ''nprofile'' then (case data of VProfile p \<Rightarrow> Ret (PProfile p) | _ \<Rightarrow> Panic)
          else if pref = ''nevent'' then (case data of VEvent p \<Rightarrow> Ret (PEvent p) | _ \<Rightarrow> Panic)
          else if pref = ''note'' then Panic
          else if pref = ''naddr'' then (case data of VEntity p \<Rightarrow> Ret (PEntity p) | _ \<Rightarrow> Panic)
          else Fail (UnexpectedPrefix pref)
      | Ret (pref, data, Some err) \<Rightarrow> Fail err
      | _ \<Rightarrow> Panic)"

section \<open>Entries read back\<close>

definition entry :: "byte \<Rightarrow> bytes \<Rightarrow> bytes" where
  "entry t v = t # word_of_nat (length v) # v"

definition short :: "'a list \<Rightarrow> bool" where
  "short v \<longleftrightarrow> length v < 256"

lemma write_entry: "writeTLVEntry buf t v = buf @ entry t v"
  by (simp add: writeTLVEntry_def entry_def)

lemma read_entry: "short v \<Longrightarrow> readTLVEntry (entry t v @ rest) = (t, Some v)"
  "short v \<Longrightarrow> drop (2 + length v) (entry t v @ rest) = rest"
proof -
  assume "short v"
  then have "unat (word_of_nat (length v) :: byte) = length v"
    by (simp add: short_def unat_of_nat take_bit_eq_mod)
  then show "readTLVEntry (entry t v @ rest) = (t, Some v)" by (simp add: readTLVEntry_def entry_def)
  show "drop (2 + length v) (entry t v @ rest) = rest" by (simp add: entry_def)
qed

lemma read_nil: "readTLVEntry [] = (0, None)"
  by (simp add: readTLVEntry_def)

definition relay_entries :: "string list \<Rightarrow> bytes" where
  "relay_entries relays = concat (map (\<lambda>u. entry TLVRelay (bytes_of u)) relays)"

lemma write_relays: "write_relays relays buf = buf @ relay_entries relays"
  by (induction relays arbitrary: buf) (simp_all add: write_relays_def relay_entries_def write_entry)

lemma relay_entries_Cons: "relay_entries (u # us) @ rest = entry TLVRelay (bytes_of u) @ relay_entries us @ rest"
  by (simp add: relay_entries_def)

definition more_relays :: "string list \<Rightarrow> string list option \<Rightarrow> string list option" where
  "more_relays us rs = (if us = [] then rs else Some (opt_list rs @ us))"

lemma more_relays_Cons: "more_relays us (Some (opt_list rs @ [u])) = more_relays (u # us) rs"
  by (simp add: more_relays_def)

lemma nprofile_entry:
  "short v \<Longrightarrow> nprofile_loop (entry t v @ rest) r =
     (if t = TLVDefault then
        (if length v \<noteq> 32 then Ret (VNil, Some (PubkeyLength (length v))) else nprofile_loop rest (r\<lparr>pp_PublicKey := v\<rparr>))
      else if t = TLVRelay then nprofile_loop rest (r\<lparr>pp_Relays := Some (opt_list (pp_Relays r) @ [string_of v])\<rparr>)
      else nprofile_loop rest r)"
  by (subst nprofile_loop.simps) (simp only: read_entry prod.case option.case)

lemma nevent_entry:
  "short v \<Longrightarrow> nevent_loop (entry t v @ rest) r =
     (if t = TLVDefault then
        (if length v \<noteq> 32 then Ret (VNil, Some (IdLength (length v))) else nevent_loop rest (r\<lparr>ep_ID := v\<rparr>))
      else if t = TLVRelay then nevent_loop rest (r\<lparr>ep_Relays := Some (opt_list (ep_Relays r) @ [string_of v])\<rparr>)
      else if t = TLVAuthor then
        (if length v \<noteq> 32 then Ret (VNil, Some (AuthorLength (length v))) else nevent_loop rest (r\<lparr>ep_Author := v\<rparr>))
      else if t = TLVKind then
        (if length v \<noteq> 4 then Ret (VNil, Some (BadKind v)) else nevent_loop rest (r\<lparr>ep_Kind := word_of_nat (getBE v)\<rparr>))
      else nevent_loop rest r)"
  by (subst nevent_loop.simps) (simp only: read_entry prod.case option.case)

lemma naddr_entry:
  "short v \<Longrightarrow> naddr_loop (entry t v @ rest) r h =
     (if t = TLVDefault then naddr_loop rest (r\<lparr>np_Identifier := string_of v\<rparr>) True
      else if t = TLVRelay then naddr_loop rest (r\<lparr>np_Relays := Some (opt_list (np_Relays r) @ [string_of v])\<rparr>) h
      else if t = TLVAuthor then
        (if length v \<noteq> 32 then Ret (VNil, Some (AuthorLength (length v))) else naddr_loop rest (r\<lparr>np_PublicKey := v\<rparr>) h)
      else if t = TLVKind then
        (if length v < 4 then Panic else naddr_loop rest (r\<lparr>np_Kind := word_of_nat (getBE (take 4 v))\<rparr>) h)
      else naddr_loop rest r h)"
  by (subst naddr_loop.simps) (simp only: read_entry prod.case option.case)

lemma short_bytes: "short (bytes_of u) \<longleftrightarrow> short u"
  by (simp add: short_def)

lemma nprofile_relays:
  "list_all short us \<Longrightarrow> nprofile_loop (relay_entries us @ rest) r = nprofile_loop rest (r\<lparr>pp_Relays := more_relays us (pp_Relays r)\<rparr>)"
proof (induction us arbitrary: r)
  case (Cons u us)
  then show ?case
    using Cons.IH [of "r\<lparr>pp_Relays := Some (opt_list (pp_Relays r) @ [u])\<rparr>"]
    by (simp add: relay_entries_Cons nprofile_entry short_bytes more_relays_Cons)
qed (simp add: relay_entries_def more_relays_def)

lemma nevent_relays:
  "list_all short us \<Longrightarrow> nevent_loop (relay_entries us @ rest) r = nevent_loop rest (r\<lparr>ep_Relays := more_relays us (ep_Relays r)\<rparr>)"
proof (induction us arbitrary: r)
  case (Cons u us)
  then show ?case
    using Cons.IH [of "r\<lparr>ep_Relays := Some (opt_list (ep_Relays r) @ [u])\<rparr>"]
    by (simp add: relay_entries_Cons nevent_entry short_bytes more_relays_Cons)
qed (simp add: relay_entries_def more_relays_def)

lemma naddr_relays:
  "list_all short us \<Longrightarrow> naddr_loop (relay_entries us @ rest) r h = naddr_loop rest (r\<lparr>np_Relays := more_relays us (np_Relays r)\<rparr>) h"
proof (induction us arbitrary: r)
  case (Cons u us)
  then show ?case
    using Cons.IH [of "r\<lparr>np_Relays := Some (opt_list (np_Relays r) @ [u])\<rparr>"]
    by (simp add: relay_entries_Cons naddr_entry short_bytes more_relays_Cons)
qed (simp add: relay_entries_def more_relays_def)

lemma short32: "wf32 v \<Longrightarrow> short v"
  by (simp add: wf32_def short_def)

lemma nprofile_decoded:
  assumes "wf32 pk" "pk \<noteq> ZeroPK" "list_all short us"
  shows "nprofile_loop (writeTLVEntry [] TLVDefault pk @ relay_entries us) zero_ProfilePointer =
    Ret (VProfile \<lparr>pp_PublicKey = pk, pp_Relays = more_relays us None\<rparr>, None)"
  using assms nprofile_relays [of us "[]"]
  by (simp add: write_entry nprofile_entry short32 wf32_def nprofile_loop.simps [of "[]"] read_nil zero_ProfilePointer_def)

lemma nevent_decoded:
  assumes "wf32 i" "i \<noteq> ZeroID" "wf32 a" "list_all short us"
  shows "nevent_loop (writeTLVEntry [] TLVDefault i @ relay_entries us @ (if a \<noteq> ZeroPK then entry TLVAuthor a else [])) zero_EventPointer =
    Ret (VEvent \<lparr>ep_ID = i, ep_Relays = more_relays us None, ep_Author = a, ep_Kind = 0\<rparr>, None)"
proof -
  have "nevent_loop (entry TLVAuthor a) r = nevent_loop [] (r\<lparr>ep_Author := a\<rparr>)" for r
    using nevent_entry [of a TLVAuthor "[]" r] assms(3) by (simp add: short32 wf32_def)
  then show ?thesis
    using assms by (simp add: write_entry nevent_entry short32 wf32_def nevent_relays nevent_loop.simps [of "[]"] read_nil
        zero_EventPointer_def)
qed

lemma naddr_nil: "naddr_loop [] r h = Ret (VEntity r,
    if np_Kind r = 0 \<or> \<not> h \<or> np_PublicKey r = ZeroPK then Some IncompleteNaddr else None)"
  by (subst naddr_loop.simps) (simp only: read_nil prod.case option.case)

lemma naddr_decoded:
  assumes "wf32 pk" "pk \<noteq> ZeroPK" "k \<noteq> 0" "short d" "list_all short us"
  shows "naddr_loop (writeTLVEntry [] TLVDefault (bytes_of d) @ relay_entries us @ entry TLVAuthor pk @ entry TLVKind (putBE 4 (unat k)))
      zero_EntityPointer False =
    Ret (VEntity \<lparr>np_PublicKey = pk, np_Kind = k, np_Identifier = d, np_Relays = more_relays us None\<rparr>, None)"
proof -
  have k: "short (putBE 4 (unat k))" by (simp add: short_def)
  have "(unat k :: nat) < 2 ^ 16" using unsigned_less [of k, where 'a = nat] by simp
  then have "unat k < 256 ^ 4" by (rule less_le_trans) simp
  then have kv: "getBE (putBE 4 (unat k)) = unat k" by (simp add: getBE_putBE)
  have kind: "naddr_loop (entry TLVKind (putBE 4 (unat k))) r h = naddr_loop [] (r\<lparr>np_Kind := k\<rparr>) h" for r h
    using naddr_entry [OF k, of TLVKind "[]" r h] kv by simp
  have author: "naddr_loop (entry TLVAuthor pk @ rest) r h = naddr_loop rest (r\<lparr>np_PublicKey := pk\<rparr>) h" for rest r h
    using naddr_entry [OF short32 [OF assms(1)], of TLVAuthor rest r h] assms(1) by (simp add: wf32_def)
  have "writeTLVEntry [] TLVDefault (bytes_of d) = entry TLVDefault (bytes_of d)" by (simp add: write_entry)
  moreover have "naddr_loop (entry TLVDefault (bytes_of d) @ rest) r h = naddr_loop rest (r\<lparr>np_Identifier := d\<rparr>) True" for rest r h
    using naddr_entry [of "bytes_of d" TLVDefault rest r h] assms(4) by (simp add: short_bytes)
  ultimately show ?thesis
    using assms(2,3,5) by (simp add: naddr_relays author kind naddr_nil zero_EntityPointer_def)
qed

lemma b32_Decode:
  assumes "bech32_codec B" "hrp_ok p"
  obtains bits5 where "b32_DecodeNoLimit B (b32 B p data) = Some (p, bits5)" "b32_ConvertBits B bits5 5 8 False = Some data"
proof -
  obtain bits5 where c: "b32_ConvertBits B data 8 5 True = Some bits5" "b32_ConvertBits B bits5 5 8 False = Some data"
    using assms(1) unfolding bech32_codec_def by blast
  then obtain s where "b32_Encode B p bits5 = Some s" "b32_DecodeNoLimit B s = Some (p, bits5)"
    using assms unfolding bech32_codec_def by blast
  then show ?thesis using c that by (simp add: b32_def)
qed

lemma hrps [simp]: "hrp_ok ''nsec''" "hrp_ok ''note''" "hrp_ok ''npub''" "hrp_ok ''nprofile''" "hrp_ok ''nevent''" "hrp_ok ''naddr''"
  by (simp_all add: hrp_ok_def)

lemma Decode_npub: "bech32_codec B \<Longrightarrow> wf32 pk \<Longrightarrow> Decode B (EncodeNpub B pk) = Ret (''npub'', VPubKey pk, None)"
  by (rule b32_Decode [of B "''npub''" pk]) (simp_all add: Decode_def EncodeNpub_def wf32_def)

lemma Decode_note: "bech32_codec B \<Longrightarrow> wf32 i \<Longrightarrow>
    Decode B (b32 B ''note'' i) = Ret (''note'', VEvent (zero_EventPointer\<lparr>ep_ID := i\<rparr>), None)"
  by (rule b32_Decode [of B "''note''" i]) (simp_all add: Decode_def wf32_def)

lemma Decode_nprofile:
  assumes "bech32_codec B" "wf32 pk" "pk \<noteq> ZeroPK" "list_all short us"
  shows "Decode B (EncodeNprofile B pk us) = Ret (''nprofile'', VProfile \<lparr>pp_PublicKey = pk, pp_Relays = more_relays us None\<rparr>, None)"
  by (rule b32_Decode [OF assms(1), of "''nprofile''" "write_relays us (writeTLVEntry [] TLVDefault pk)"])
     (simp_all add: Decode_def EncodeNprofile_def write_relays nprofile_decoded assms)

lemma Decode_nevent:
  assumes "bech32_codec B" "wf32 i" "i \<noteq> ZeroID" "wf32 a" "list_all short us"
  shows "Decode B (EncodeNevent B i us a) =
    Ret (''nevent'', VEvent \<lparr>ep_ID = i, ep_Relays = more_relays us None, ep_Author = a, ep_Kind = 0\<rparr>, None)"
proof -
  let ?buf = "writeTLVEntry [] TLVDefault i @ relay_entries us @ (if a \<noteq> ZeroPK then entry TLVAuthor a else [])"
  have "EncodeNevent B i us a = b32 B ''nevent'' ?buf"
    by (simp add: EncodeNevent_def write_relays write_entry [of _ TLVAuthor])
  moreover obtain bits5 where "b32_DecodeNoLimit B (b32 B ''nevent'' ?buf) = Some (''nevent'', bits5)"
      "b32_ConvertBits B bits5 5 8 False = Some ?buf"
    by (rule b32_Decode [OF assms(1), of "''nevent''" ?buf]) simp_all
  ultimately show ?thesis
    unfolding Decode_def using nevent_decoded [OF assms(2-5)] by simp
qed

lemma Decode_naddr:
  assumes "bech32_codec B" "wf32 pk" "pk \<noteq> ZeroPK" "k \<noteq> 0" "short d" "list_all short us"
  shows "Decode B (EncodeNaddr B pk k d us) =
    Ret (''naddr'', VEntity \<lparr>np_PublicKey = pk, np_Kind = k, np_Identifier = d, np_Relays = more_relays us None\<rparr>, None)"
proof -
  let ?buf = "writeTLVEntry [] TLVDefault (bytes_of d) @ relay_entries us @ entry TLVAuthor pk @ entry TLVKind (putBE 4 (unat k))"
  have "EncodeNaddr B pk k d us = b32 B ''naddr'' ?buf"
    by (simp add: EncodeNaddr_def write_relays write_entry [of _ TLVAuthor] write_entry [of _ TLVKind])
  moreover obtain bits5 where "b32_DecodeNoLimit B (b32 B ''naddr'' ?buf) = Some (''naddr'', bits5)"
      "b32_ConvertBits B bits5 5 8 False = Some ?buf"
    by (rule b32_Decode [OF assms(1), of "''naddr''" ?buf]) simp_all
  ultimately show ?thesis
    unfolding Decode_def using naddr_decoded [OF assms(2-6)] by simp
qed

section \<open>A concrete codec\<close>

text \<open>Half bytes in place of five-bit groups and no checksum: enough to show that the laws can hold.\<close>

fun pair_halves :: "bytes \<Rightarrow> bytes" where
  "pair_halves (a # b # rest) = (16 * a + b) # pair_halves rest"
| "pair_halves _ = []"

definition halves_codec :: bech32 where
  "halves_codec = \<lparr>
     b32_Encode = (\<lambda>p bits. Some (p @ ''1'' @ string_of bits)),
     b32_DecodeNoLimit = (\<lambda>s. let p = takeWhile (\<lambda>c. c \<noteq> CHR ''1'') s in Some (p, bytes_of (drop (length p + 1) s))),
     b32_ConvertBits = (\<lambda>bs from to pad.
       if from = 8 then Some (concat (map (\<lambda>b. [b div 16, b mod 16]) bs)) else Some (pair_halves bs))\<rparr>"

lemma pair_halves: "pair_halves (concat (map (\<lambda>b. [b div 16, b mod 16]) bs)) = bs"
proof (induction bs)
  case (Cons b bs)
  have "16 * (b div 16) + b mod 16 = b" by (rule mult_div_mod_eq)
  then show ?case using Cons by simp
qed simp

lemma halves_prefix:
  assumes "hrp_ok p"
  shows "takeWhile (\<lambda>c. c \<noteq> CHR ''1'') (p @ CHR ''1'' # q) = p"
proof -
  have "of_char (CHR ''1'') < (97 :: nat)" by code_simp
  then have "\<forall>c \<in> set p. c \<noteq> CHR ''1''"
    using assms unfolding hrp_ok_def list_all_iff by (metis linorder_not_less)
  then show ?thesis by simp
qed

lemma halves_codec: "bech32_codec halves_codec"
  by (auto simp: bech32_codec_def halves_codec_def pair_halves halves_prefix)

section \<open>Properties\<close>

definition codable :: "Pointer \<Rightarrow> bool" where
  "codable p =
     (case p of
        PProfile v \<Rightarrow> wf32 (pp_PublicKey v) \<and>
          (pp_Relays v = None \<or> pp_PublicKey v \<noteq> ZeroPK \<and> list_all short (opt_list (pp_Relays v)))
      | PEvent v \<Rightarrow> wf32 (ep_ID v) \<and> ep_ID v \<noteq> ZeroID \<and> wf32 (ep_Author v) \<and> list_all short (opt_list (ep_Relays v))
      | PEntity v \<Rightarrow> wf32 (np_PublicKey v) \<and> np_PublicKey v \<noteq> ZeroPK \<and> np_Kind v \<noteq> 0 \<and> short (np_Identifier v) \<and>
          list_all short (opt_list (np_Relays v))
      | PExternal _ \<Rightarrow> False)"

text \<open>What a code keeps of a pointer: an empty list of relays comes back nil, the kind of an event pointer is lost.\<close>

definition kept :: "Pointer \<Rightarrow> Pointer" where
  "kept p =
     (case p of
        PProfile v \<Rightarrow> PProfile (v\<lparr>pp_Relays := more_relays (opt_list (pp_Relays v)) None\<rparr>)
      | PEvent v \<Rightarrow> PEvent (v\<lparr>ep_Relays := more_relays (opt_list (ep_Relays v)) None, ep_Kind := 0\<rparr>)
      | PEntity v \<Rightarrow> PEntity (v\<lparr>np_Relays := more_relays (opt_list (np_Relays v)) None\<rparr>)
      | PExternal v \<Rightarrow> PExternal v)"

text \<open>C38: A pointer written as a bech32 code and read back is the pointer again, for profiles, events and
  addresses with keys that are not zero and strings below 256 bytes; only the kind of an event pointer is lost
  and an empty relay list becomes nil.\<close>
theorem pointer_code_roundtrip:
  assumes "bech32_codec B" "codable p"
  shows "ToPointer B (EncodePointer B p) = Ret (kept p)"
proof (cases p)
  case (PProfile v)
  then show ?thesis
    using assms Decode_npub [of B "pp_PublicKey v"] Decode_nprofile [of B "pp_PublicKey v" "opt_list (pp_Relays v)"]
    by (cases v; cases "pp_Relays v") (auto simp: codable_def kept_def ToPointer_def EncodePointer_def more_relays_def)
next
  case (PEvent v)
  then show ?thesis
    using assms Decode_nevent [of B "ep_ID v" "ep_Author v" "opt_list (ep_Relays v)"]
    by (cases v) (simp add: codable_def kept_def ToPointer_def EncodePointer_def)
next
  case (PEntity v)
  then show ?thesis
    using assms Decode_naddr [of B "np_PublicKey v" "np_Kind v" "np_Identifier v" "opt_list (np_Relays v)"]
    by (cases v) (simp add: codable_def kept_def ToPointer_def EncodePointer_def)
next
  case (PExternal v)
  then show ?thesis using assms by (simp add: codable_def)
qed

theorem pointer_code_roundtrip_witness:
  "ToPointer halves_codec (EncodePointer halves_codec
      (PEntity \<lparr>np_PublicKey = replicate 32 7, np_Kind = 30023, np_Identifier = ''post'', np_Relays = Some [''wss://r'']\<rparr>)) =
    Ret (PEntity \<lparr>np_PublicKey = replicate 32 7, np_Kind = 30023, np_Identifier = ''post'', np_Relays = Some [''wss://r'']\<rparr>)"
proof -
  have "replicate 32 (7 :: byte) \<noteq> ZeroPK" "(30023 :: Kind) \<noteq> 0" by code_simp+
  then show ?thesis
    using pointer_code_roundtrip [OF halves_codec, of "PEntity \<lparr>np_PublicKey = replicate 32 7, np_Kind = 30023,
        np_Identifier = ''post'', np_Relays = Some [''wss://r'']\<rparr>"]
    by (simp add: codable_def wf32_def short_def kept_def more_relays_def)
qed

text \<open>The code of a note cannot be turned into a pointer: the decoder returns an event pointer where
  ToPointer asserts an id, so the call panics on every well formed note code.\<close>
theorem note_code_panics:
  assumes "bech32_codec B" "wf32 i"
  shows "ToPointer B (b32 B ''note'' i) = Panic"
  using Decode_note [OF assms] by (simp add: ToPointer_def)

theorem note_code_panics_witness:
  "ToPointer halves_codec (b32 halves_codec ''note'' (replicate 32 7)) = Panic"
  using note_code_panics [OF halves_codec, of "replicate 32 7"] by (simp add: wf32_def)

lemma nprofile_no_panic: "nprofile_loop data r \<noteq> Panic"
proof (induction "length data" arbitrary: data r rule: less_induct)
  case less
  show ?case
  proof (cases "readTLVEntry data")
    case (Pair t v)
    show ?thesis
    proof (cases v)
      case None
      then show ?thesis using Pair by (subst nprofile_loop.simps) simp
    next
      case (Some x)
      then have "length (drop (2 + length x) data) < length data" using Pair readTLV_length [of t x data] by simp
      note rest = less [OF this]
      show ?thesis by (subst nprofile_loop.simps) (simp only: Pair Some prod.case option.case rest outcome.distinct not_False_eq_True simp_thms split: if_split)
    qed
  qed
qed

lemma nevent_no_panic: "nevent_loop data r \<noteq> Panic"
proof (induction "length data" arbitrary: data r rule: less_induct)
  case less
  show ?case
  proof (cases "readTLVEntry data")
    case (Pair t v)
    show ?thesis
    proof (cases v)
      case None
      then show ?thesis using Pair by (subst nevent_loop.simps) simp
    next
      case (Some x)
      then have "length (drop (2 + length x) data) < length data" using Pair readTLV_length [of t x data] by simp
      note rest = less [OF this]
      show ?thesis by (subst nevent_loop.simps) (simp only: Pair Some prod.case option.case rest outcome.distinct not_False_eq_True simp_thms split: if_split)
    qed
  qed
qed

lemma Decode_panic:
  assumes "Decode B s = Panic"
  shows "\<exists>bits5. b32_DecodeNoLimit B s = Some (''naddr'', bits5)"
proof (cases "b32_DecodeNoLimit B s")
  case (Some pb)
  obtain pref bits5 where pb: "pb = (pref, bits5)" by (cases pb)
  obtain data where "b32_ConvertBits B bits5 5 8 False = Some data"
    using assms Some pb by (cases "b32_ConvertBits B bits5 5 8 False") (simp_all add: Decode_def)
  then have "pref = ''naddr''"
    using assms Some pb by (simp add: Decode_def obind_Panic_iff nprofile_no_panic nevent_no_panic split: if_splits)
  then show ?thesis using Some pb by simp
qed (use assms in \<open>simp add: Decode_def\<close>)

text \<open>Data that starts with a kind entry shorter than four bytes makes the decoder panic exactly when the
  code's prefix is naddr; every other prefix, nevent included, answers an error or a value.\<close>
theorem decode_panics_on_short_kind:
  assumes "b32_DecodeNoLimit B s = Some (pref, bits5)"
    and "b32_ConvertBits B bits5 5 8 False = Some (entry TLVKind v @ rest)" "length v < 4"
  shows "Decode B s = Panic \<longleftrightarrow> pref = ''naddr''"
proof
  assume "Decode B s = Panic"
  then show "pref = ''naddr''" using Decode_panic [of B s] assms(1) by auto
next
  assume "pref = ''naddr''"
  moreover have "naddr_loop (entry TLVKind v @ rest) zero_EntityPointer False = Panic"
    using assms(3) by (subst naddr_entry) (simp_all add: short_def)
  ultimately show "Decode B s = Panic" using assms by (simp add: Decode_def)
qed

theorem decode_panics_on_short_kind_witness:
  "Decode halves_codec (b32 halves_codec ''naddr'' (entry TLVKind [1, 2] @ [])) = Panic"
proof (rule b32_Decode [OF halves_codec, of "''naddr''" "entry TLVKind [1, 2] @ []"])
  fix bits5
  assume h: "b32_DecodeNoLimit halves_codec (b32 halves_codec ''naddr'' (entry TLVKind [1, 2] @ [])) = Some (''naddr'', bits5)"
    "b32_ConvertBits halves_codec bits5 5 8 False = Some (entry TLVKind [1, 2] @ [])"
  show ?thesis using decode_panics_on_short_kind [OF h] by simp
qed simp

end
