(* ===== verification/Nip29.thy ===== *)
theory Nip29
  imports Nip19 "HOL-Library.AList"
begin

text \<open>
  Relay-based groups, \<^verbatim>\<open>nip29\<close>: the state of a group, the events that publish it, the merging of such
  events into a group and the moderation actions.  Roles are shared through pointers: a group carries the
  store of its \<^verbatim>\<open>Role\<close> structs, and the role list and the members hold references into it.  The map of
  members is an association list, whose order stands for an iteration order.
\<close>

section \<open>State\<close>

record Role =
  ro_Name :: string
  ro_Description :: string

type_synonym role_ref = nat

record GroupAddress =
  ga_Relay :: string
  ga_ID :: string
  ga_Self :: PubKey

record Group =
  gr_Address :: GroupAddress
  gr_Name :: string
  gr_Picture :: string
  gr_Banner :: string
  gr_About :: string
  gr_Members :: "(PubKey \<times> role_ref list) list"
  gr_LiveKitParticipants :: "PubKey list"
  gr_Private :: bool
  gr_Restricted :: bool
  gr_Closed :: bool
  gr_Hidden :: bool
  gr_LiveKit :: bool
  gr_SupportedKinds :: "Kind list option"
  gr_Parent :: string
  gr_Children :: "string list"
  gr_Roles :: "role_ref list"
  gr_InviteCodes :: "string list"
  gr_Pinned :: "Pointer list"
  gr_LastMetadataUpdate :: int
  gr_LastAdminsUpdate :: int
  gr_LastMembersUpdate :: int
  gr_LastRolesUpdate :: int
  gr_LastLiveKitParticipantsUpdate :: int
  gr_LastPinnedEventsUpdate :: int
  gr_store :: "Role list"                    \<comment> \<open>the allocated roles\<close>

datatype nip29_error =
    ExpectedKind Kind Kind | OlderEvent int int | UnsupportedAction Kind | PTagNotValidPublicKey | MissingPTags
  | InvalidKindText string | MissingMetadataTags | InvalidEventIdHex | MissingETag | MissingCodeTags | TooManyCodeTags
  | InvalidEventAddress

definition GroupAddress_Code :: "bech32 \<Rightarrow> GroupAddress \<Rightarrow> string" where
  "GroupAddress_Code B gid = EncodeNaddr B (ga_Self gid) 39000 (ga_ID gid) [ga_Relay gid]"

definition GroupAddress_IsValid :: "GroupAddress \<Rightarrow> bool" where
  "GroupAddress_IsValid gid \<longleftrightarrow> ga_Relay gid \<noteq> '''' \<and> ga_ID gid \<noteq> ''''"

definition GroupAddress_Equals :: "GroupAddress \<Rightarrow> GroupAddress \<Rightarrow> bool" where
  "GroupAddress_Equals gid gid2 \<longleftrightarrow> ga_Relay gid = ga_Relay gid2 \<and> ga_ID gid = ga_ID gid2"

text \<open>The group a constructor starts from; a literal leaves the other fields at their zero values.\<close>

definition group_at :: "string \<Rightarrow> string \<Rightarrow> Group" where
  "group_at relay i =
     \<lparr>gr_Address = \<lparr>ga_Relay = relay, ga_ID = i, ga_Self = ZeroPK\<rparr>, gr_Name = i, gr_Picture = '''', gr_Banner = '''',
       gr_About = '''', gr_Members = [], gr_LiveKitParticipants = [], gr_Private = False, gr_Restricted = False,
       gr_Closed = False, gr_Hidden = False, gr_LiveKit = False, gr_SupportedKinds = None, gr_Parent = '''',
       gr_Children = [], gr_Roles = [], gr_InviteCodes = [], gr_Pinned = [], gr_LastMetadataUpdate = 0,
       gr_LastAdminsUpdate = 0, gr_LastMembersUpdate = 0, gr_LastRolesUpdate = 0,
       gr_LastLiveKitParticipantsUpdate = 0, gr_LastPinnedEventsUpdate = 0, gr_store = []\<rparr>"

definition role_name :: "Group \<Rightarrow> role_ref \<Rightarrow> string" where
  "role_name g r = ro_Name (gr_store g ! r)"

definition GetRoleByName :: "Group \<Rightarrow> string \<Rightarrow> role_ref \<times> Group" where
  "GetRoleByName g name =
     (case find (\<lambda>r. role_name g r = name) (gr_Roles g) of
        Some r \<Rightarrow> (r, g)
      | None \<Rightarrow> (length (gr_store g), g\<lparr>gr_store := gr_store g @ [\<lparr>ro_Name = name, ro_Description = ''''\<rparr>]\<rparr>))"

section \<open>Events that publish a group\<close>

text \<open>The events are not signed yet: the other fields are zero.\<close>

definition draft :: "Kind \<Rightarrow> int \<Rightarrow> Tags \<Rightarrow> event" where
  "draft kind when' tags =
     \<lparr>evID = ZeroID, evPubKey = ZeroPK, evCreatedAt = when', evKind = kind, evTags = tags, evContent = '''',
       evSig = replicate 64 0\<rparr>"

definition text_tag :: "string \<Rightarrow> string \<Rightarrow> Tags" where
  "text_tag name v = (if v \<noteq> '''' then [[name, v]] else [])"

definition flag_tag :: "string \<Rightarrow> bool \<Rightarrow> Tags" where
  "flag_tag name b = (if b then [[name]] else [])"

definition ToMetadataEvent :: "Group \<Rightarrow> event" where
  "ToMetadataEvent g =
     draft 39000 (gr_LastMetadataUpdate g)
       ([[''d'', ga_ID (gr_Address g)]] @ text_tag ''name'' (gr_Name g) @ text_tag ''about'' (gr_About g) @
        text_tag ''picture'' (gr_Picture g) @ text_tag ''banner'' (gr_Banner g) @
        flag_tag ''private'' (gr_Private g) @ flag_tag ''restricted'' (gr_Restricted g) @
        flag_tag ''hidden'' (gr_Hidden g) @ flag_tag ''closed'' (gr_Closed g) @ flag_tag ''livekit'' (gr_LiveKit g) @
        (case gr_SupportedKinds g of
           None \<Rightarrow> []
         | Some kinds \<Rightarrow> [''supported_kinds'' # map (\<lambda>k. strconv_Itoa (int (unat k))) kinds]) @
        text_tag ''parent'' (gr_Parent g) @ map (\<lambda>child. [''child'', child]) (gr_Children g))"

definition ToAdminsEvent :: "ext \<Rightarrow> Group \<Rightarrow> event" where
  "ToAdminsEvent x g =
     draft 39001 (gr_LastAdminsUpdate g)
       ([''d'', ga_ID (gr_Address g)] #
        map (\<lambda>(member, roles). [''p'', PubKey_Hex x member] @ map (role_name g) roles)
          (filter (\<lambda>(member, roles). length roles \<noteq> 0) (gr_Members g)))"

definition ToMembersEvent :: "ext \<Rightarrow> Group \<Rightarrow> event" where
  "ToMembersEvent x g =
     draft 39002 (gr_LastMembersUpdate g)
       ([''d'', ga_ID (gr_Address g)] # map (\<lambda>(member, roles). [''p'', PubKey_Hex x member]) (gr_Members g))"

definition ToRolesEvent :: "Group \<Rightarrow> event" where
  "ToRolesEvent g =
     draft 39003 (gr_LastRolesUpdate g)
       ([''d'', ga_ID (gr_Address g)] #
        map (\<lambda>r. [''role'', ro_Name (gr_store g ! r), ro_Description (gr_store g ! r)]) (gr_Roles g))"

definition ToLiveKitParticipantsEvent :: "ext \<Rightarrow> Group \<Rightarrow> event" where
  "ToLiveKitParticipantsEvent x g =
     draft 39004 (gr_LastLiveKitParticipantsUpdate g)
       ([''d'', ga_ID (gr_Address g)] # map (\<lambda>m. [''participant'', PubKey_Hex x m]) (gr_LiveKitParticipants g))"

definition ToPinnedEventsEvent :: "ext \<Rightarrow> Group \<Rightarrow> event" where
  "ToPinnedEventsEvent x g =
     draft 39005 (gr_LastPinnedEventsUpdate g)
       ([''d'', ga_ID (gr_Address g)] # map (Pointer_AsTag x) (gr_Pinned g))"

section \<open>Merging events into a group\<close>

text \<open>A refused event leaves the group as it was; the result is the error, if any, and the group.\<close>

type_synonym merged = "nip29_error option \<times> Group"

definition merge_guard :: "Kind \<Rightarrow> int \<Rightarrow> event \<Rightarrow> nip29_error option" where
  "merge_guard kind last' evt =
     (if evKind evt \<noteq> kind then Some (ExpectedKind kind (evKind evt))
      else if evCreatedAt evt < last' then Some (OlderEvent (evCreatedAt evt) last')
      else None)"

text \<open>\<^verbatim>\<open>supported_kinds\<close>: numbers that do not parse are skipped, others are cut to 16 bits.\<close>

definition read_kinds :: "string list \<Rightarrow> Kind list" where
  "read_kinds raws = map (\<lambda>raw. word_of_int (fst (strconv_Atoi raw))) (filter (\<lambda>raw. snd (strconv_Atoi raw)) raws)"

definition metadata_tag :: "Tag \<Rightarrow> Group \<Rightarrow> Group" where
  "metadata_tag tag g =
     (case tag of
        [] \<Rightarrow> g
      | name # vals \<Rightarrow>
          if name = ''private'' then g\<lparr>gr_Private := True\<rparr>
          else if name = ''restricted'' then g\<lparr>gr_Restricted := True\<rparr>
          else if name = ''closed'' then g\<lparr>gr_Closed := True\<rparr>
          else if name = ''hidden'' then g\<lparr>gr_Hidden := True\<rparr>
          else if name = ''livekit'' then g\<lparr>gr_LiveKit := True\<rparr>
          else if name = ''supported_kinds'' then g\<lparr>gr_SupportedKinds := Some (read_kinds vals)\<rparr>
          else (case vals of
              [] \<Rightarrow> g
            | v # _ \<Rightarrow>
                if name = ''name'' then g\<lparr>gr_Name := v\<rparr>
                else if name = ''about'' then g\<lparr>gr_About := v\<rparr>
                else if name = ''picture'' then g\<lparr>gr_Picture := v\<rparr>
                else if name = ''banner'' then g\<lparr>gr_Banner := v\<rparr>
                else if name = ''parent'' then g\<lparr>gr_Parent := v\<rparr>
                else if name = ''child'' then g\<lparr>gr_Children := gr_Children g @ [v]\<rparr>
                else g))"

definition MergeInMetadataEvent :: "event \<Rightarrow> Group \<Rightarrow> merged" where
  "MergeInMetadataEvent evt g =
     (case merge_guard 39000 (gr_LastMetadataUpdate g) evt of
        Some e \<Rightarrow> (Some e, g)
      | None \<Rightarrow>
          (None, fold metadata_tag (evTags evt)
             (g\<lparr>gr_LastMetadataUpdate := evCreatedAt evt, gr_Name := ga_ID (gr_Address g)\<rparr>)))"

definition NewGroup :: "(string \<Rightarrow> string) \<Rightarrow> string \<Rightarrow> string \<Rightarrow> Group" where
  "NewGroup NormalizeURL relayHost groupId = group_at (NormalizeURL relayHost) groupId"

definition NewGroupFromMetadataEvent :: "string \<Rightarrow> event \<Rightarrow> merged" where
  "NewGroupFromMetadataEvent relayURL evt = MergeInMetadataEvent evt (group_at relayURL (GetD (evTags evt)))"

definition member_roles :: "Group \<Rightarrow> PubKey \<Rightarrow> role_ref list" where
  "member_roles g pk = opt_list (map_of (gr_Members g) pk)"

text \<open>The loop over the role names of a tag: \<^verbatim>\<open>Members[member] = append(Members[member], GetRoleByName(name))\<close>.\<close>

fun add_roles :: "PubKey \<Rightarrow> string list \<Rightarrow> Group \<Rightarrow> Group" where
  "add_roles member [] g = g"
| "add_roles member (roleName # names) g =
     (let (r, g) = GetRoleByName g roleName in
      add_roles member names (g\<lparr>gr_Members := AList.update member (member_roles g member @ [r]) (gr_Members g)\<rparr>))"

definition admins_tag :: "ext \<Rightarrow> Tag \<Rightarrow> Group \<Rightarrow> Group" where
  "admins_tag x tag g =
     (if length tag < 3 then g
      else if tag ! 0 \<noteq> ''p'' then g
      else case PubKeyFromHex x (tag ! 1) of
        Ret member \<Rightarrow> add_roles member (drop 2 tag) g
      | _ \<Rightarrow> g)"

definition MergeInAdminsEvent :: "ext \<Rightarrow> event \<Rightarrow> Group \<Rightarrow> merged" where
  "MergeInAdminsEvent x evt g =
     (case merge_guard 39001 (gr_LastAdminsUpdate g) evt of
        Some e \<Rightarrow> (Some e, g)
      | None \<Rightarrow> (None, fold (admins_tag x) (evTags evt) (g\<lparr>gr_LastAdminsUpdate := evCreatedAt evt\<rparr>)))"

definition members_tag :: "ext \<Rightarrow> Tag \<Rightarrow> Group \<Rightarrow> Group" where
  "members_tag x tag g =
     (if length tag < 2 then g
      else if tag ! 0 \<noteq> ''p'' then g
      else case PubKeyFromHex x (tag ! 1) of
        Ret member \<Rightarrow>
          (if map_of (gr_Members g) member = None then g\<lparr>gr_Members := AList.update member [] (gr_Members g)\<rparr> else g)
      | _ \<Rightarrow> g)"

definition MergeInMembersEvent :: "ext \<Rightarrow> event \<Rightarrow> Group \<Rightarrow> merged" where
  "MergeInMembersEvent x evt g =
     (case merge_guard 39002 (gr_LastMembersUpdate g) evt of
        Some e \<Rightarrow> (Some e, g)
      | None \<Rightarrow> (None, fold (members_tag x) (evTags evt) (g\<lparr>gr_LastMembersUpdate := evCreatedAt evt\<rparr>)))"

text \<open>A known role is changed through its pointer, so the members that hold it see the new description.\<close>

definition roles_tag :: "Tag \<Rightarrow> Group \<Rightarrow> Group" where
  "roles_tag tag g =
     (if length tag < 2 then g
      else if tag ! 0 \<noteq> ''role'' then g
      else
        (let roleName = tag ! 1;
             roleDescription = (if length tag \<ge> 3 then tag ! 2 else '''')
         in case find (\<lambda>r. role_name g r = roleName) (gr_Roles g) of
              Some r \<Rightarrow> g\<lparr>gr_store := (gr_store g)[r := (gr_store g ! r)\<lparr>ro_Description := roleDescription\<rparr>]\<rparr>
            | None \<Rightarrow>
                g\<lparr>gr_store := gr_store g @ [\<lparr>ro_Name = roleName, ro_Description = roleDescription\<rparr>],
                  gr_Roles := gr_Roles g @ [length (gr_store g)]\<rparr>))"

definition MergeInRolesEvent :: "event \<Rightarrow> Group \<Rightarrow> merged" where
  "MergeInRolesEvent evt g =
     (case merge_guard 39003 (gr_LastRolesUpdate g) evt of
        Some e \<Rightarrow> (Some e, g)
      | None \<Rightarrow> (None, fold roles_tag (evTags evt) (g\<lparr>gr_LastRolesUpdate := evCreatedAt evt\<rparr>)))"

definition participant_tag :: "ext \<Rightarrow> Tag \<Rightarrow> Group \<Rightarrow> Group" where
  "participant_tag x tag g =
     (if length tag < 2 then g
      else if tag ! 0 \<noteq> ''participant'' then g
      else case PubKeyFromHex x (tag ! 1) of
        Ret member \<Rightarrow>
          (if member \<in> set (gr_LiveKitParticipants g) then g
           else g\<lparr>gr_LiveKitParticipants := gr_LiveKitParticipants g @ [member]\<rparr>)
      | _ \<Rightarrow> g)"

definition MergeInLiveKitParticipantsEvent :: "ext \<Rightarrow> event \<Rightarrow> Group \<Rightarrow> merged" where
  "MergeInLiveKitParticipantsEvent x evt g =
     (case merge_guard 39004 (gr_LastLiveKitParticipantsUpdate g) evt of
        Some e \<Rightarrow> (Some e, g)
      | None \<Rightarrow>
          (None, fold (participant_tag x) (evTags evt)
             (g\<lparr>gr_LastLiveKitParticipantsUpdate := evCreatedAt evt, gr_LiveKitParticipants := []\<rparr>)))"

definition pinned_tag :: "ext \<Rightarrow> Tag \<Rightarrow> Group \<Rightarrow> Group" where
  "pinned_tag x tag g =
     (if length tag < 2 then g
      else if tag ! 0 = ''e'' then
        (case EventPointerFromTag x tag of Ret p \<Rightarrow> g\<lparr>gr_Pinned := gr_Pinned g @ [PEvent p]\<rparr> | _ \<Rightarrow> g)
      else if tag ! 0 = ''a'' then
        (case EntityPointerFromTag x tag of Ret p \<Rightarrow> g\<lparr>gr_Pinned := gr_Pinned g @ [PEntity p]\<rparr> | _ \<Rightarrow> g)
      else g)"

definition MergeInPinnedEventsEvent :: "ext \<Rightarrow> event \<Rightarrow> Group \<Rightarrow> merged" where
  "MergeInPinnedEventsEvent x evt g =
     (case merge_guard 39005 (gr_LastPinnedEventsUpdate g) evt of
        Some e \<Rightarrow> (Some e, g)
      | None \<Rightarrow>
          (None, fold (pinned_tag x) (evTags evt) (g\<lparr>gr_LastPinnedEventsUpdate := evCreatedAt evt, gr_Pinned := []\<rparr>)))"

section \<open>Moderation actions\<close>

record PubKeyRoles =
  pr_PubKey :: PubKey
  pr_RoleNames :: "string list"

text \<open>\<^verbatim>\<open>EditMetadata\<close> embeds a group of which only the fields of the metadata are read.\<close>

datatype Action =
    PutUser "PubKeyRoles list" string int
  | RemoveUser "PubKey list" int
  | EditMetadata Group int
  | CreateGroup PubKey int
  | DeleteEvent "ID list"
  | DeleteGroup int
  | CreateInvite "string list"
  | UpdatePinList "Pointer list" int

fun Action_Name :: "Action \<Rightarrow> string" where
  "Action_Name (PutUser _ _ _) = ''put-user''"
| "Action_Name (RemoveUser _ _) = ''remove-user''"
| "Action_Name (EditMetadata _ _) = ''edit-metadata''"
| "Action_Name (CreateGroup _ _) = ''create-group''"
| "Action_Name (DeleteEvent _) = ''delete-event''"
| "Action_Name (DeleteGroup _) = ''delete-group''"
| "Action_Name (CreateInvite _) = ''create-invite''"
| "Action_Name (UpdatePinList _ _) = ''update-pin-list''"

text \<open>Reading the tags one by one, the first that does not parse fails the whole action.\<close>

fun collect :: "('a \<Rightarrow> (nip29_error, 'b) outcome) \<Rightarrow> 'a list \<Rightarrow> (nip29_error, 'b list) outcome" where
  "collect f [] = Ret []"
| "collect f (a # as) = obind (f a) (\<lambda>b. obind (collect f as) (\<lambda>bs. Ret (b # bs)))"

fun replace_error :: "'f \<Rightarrow> ('e, 'a) outcome \<Rightarrow> ('f, 'a) outcome" where
  "replace_error f (Ret a) = Ret a"
| "replace_error f (Fail e) = Fail f"
| "replace_error f Panic = Panic"

definition prepare_put_user :: "ext \<Rightarrow> event \<Rightarrow> (nip29_error, Action) outcome" where
  "prepare_put_user x evt =
     obind (collect (\<lambda>tag. obind (replace_error PTagNotValidPublicKey (PubKeyFromHex x (tag ! 1)))
              (\<lambda>target. Ret \<lparr>pr_PubKey = target, pr_RoleNames = drop 2 tag\<rparr>)) (tags_FindAll (evTags evt) ''p''))
       (\<lambda>targets.
          let inviteCode = (case tags_Find (evTags evt) ''code'' of Some ctag \<Rightarrow> ctag ! 1 | None \<Rightarrow> '''') in
          if length targets > 0 then Ret (PutUser targets inviteCode (evCreatedAt evt)) else Fail MissingPTags)"

definition prepare_remove_user :: "ext \<Rightarrow> event \<Rightarrow> (nip29_error, Action) outcome" where
  "prepare_remove_user x evt =
     obind (collect (\<lambda>tag. replace_error PTagNotValidPublicKey (PubKeyFromHex x (tag ! 1))) (tags_FindAll (evTags evt) ''p''))
       (\<lambda>targets. if length targets > 0 then Ret (RemoveUser targets (evCreatedAt evt)) else Fail MissingPTags)"

definition parse_kind :: "string \<Rightarrow> (nip29_error, Kind) outcome" where
  "parse_kind kstr =
     (let (kind, ok) = strconv_ParseUint16 kstr in if \<not> ok then Fail (InvalidKindText kstr) else Ret (word_of_int kind))"

text \<open>One tag of an edit: the group so far and whether anything was found.\<close>

definition edit_tag :: "Tag \<Rightarrow> Group \<Rightarrow> bool \<Rightarrow> (nip29_error, Group \<times> bool) outcome" where
  "edit_tag tag g ok =
     (case tag of
        [] \<Rightarrow> Ret (g, ok)
      | name # vals \<Rightarrow>
          (let with_value = (\<lambda>f. case vals of [] \<Rightarrow> Ret (g, ok) | v # _ \<Rightarrow> Ret (f v, True)) in
          if name = ''name'' then with_value (\<lambda>v. g\<lparr>gr_Name := v\<rparr>)
          else if name = ''picture'' then with_value (\<lambda>v. g\<lparr>gr_Picture := v\<rparr>)
          else if name = ''banner'' then with_value (\<lambda>v. g\<lparr>gr_Banner := v\<rparr>)
          else if name = ''about'' then with_value (\<lambda>v. g\<lparr>gr_About := v\<rparr>)
          else if name = ''supported_kinds'' then
            obind (collect parse_kind vals) (\<lambda>kinds. Ret (g\<lparr>gr_SupportedKinds := Some kinds\<rparr>, True))
          else if name = ''closed'' then Ret (g\<lparr>gr_Closed := True\<rparr>, True)
          else if name = ''restricted'' then Ret (g\<lparr>gr_Restricted := True\<rparr>, True)
          else if name = ''hidden'' then Ret (g\<lparr>gr_Hidden := True\<rparr>, True)
          else if name = ''private'' then Ret (g\<lparr>gr_Private := True\<rparr>, True)
          else if name = ''parent'' then with_value (\<lambda>v. g\<lparr>gr_Parent := v\<rparr>)
          else if name = ''livekit'' then Ret (g\<lparr>gr_LiveKit := True\<rparr>, True)
          else if name = ''child'' then with_value (\<lambda>v. g\<lparr>gr_Children := gr_Children g @ [v]\<rparr>)
          else Ret (g, ok)))"

fun edit_tags :: "Tags \<Rightarrow> Group \<Rightarrow> bool \<Rightarrow> (nip29_error, Group \<times> bool) outcome" where
  "edit_tags [] g ok = Ret (g, ok)"
| "edit_tags (tag # tags) g ok = obind (edit_tag tag g ok) (\<lambda>(g, ok). edit_tags tags g ok)"

definition prepare_edit_metadata :: "event \<Rightarrow> (nip29_error, Action) outcome" where
  "prepare_edit_metadata evt =
     obind (edit_tags (evTags evt) (group_at '''' '''') False) (\<lambda>(g, ok).
       if ok then Ret (EditMetadata g (evCreatedAt evt)) else Fail MissingMetadataTags)"

definition prepare_delete_event :: "ext \<Rightarrow> event \<Rightarrow> (nip29_error, Action) outcome" where
  "prepare_delete_event x evt =
     obind (collect (\<lambda>tag. replace_error InvalidEventIdHex (IDFromHex x (tag ! 1))) (tags_FindAll (evTags evt) ''e''))
       (\<lambda>targets. if targets = [] then Fail MissingETag else Ret (DeleteEvent targets))"

definition prepare_create_invite :: "event \<Rightarrow> (nip29_error, Action) outcome" where
  "prepare_create_invite evt =
     (let codes = map (\<lambda>tag. tag ! 1) (tags_FindAll (evTags evt) ''code'') in
      if length codes = 0 then Fail MissingCodeTags
      else if length codes > 10 then Fail TooManyCodeTags
      else Ret (CreateInvite codes))"

definition prepare_pin_list :: "ext \<Rightarrow> event \<Rightarrow> (nip29_error, Action) outcome" where
  "prepare_pin_list x evt =
     obind (collect (\<lambda>tag. replace_error InvalidEventIdHex (EventPointerFromTag x tag)) (tags_FindAll (evTags evt) ''e'')) (\<lambda>es.
     obind (collect (\<lambda>tag. replace_error InvalidEventAddress (EntityPointerFromTag x tag)) (tags_FindAll (evTags evt) ''a'')) (\<lambda>as.
     Ret (UpdatePinList (map PEvent es @ map PEntity as) (evCreatedAt evt))))"

definition PrepareModerationAction :: "ext \<Rightarrow> event \<Rightarrow> (nip29_error, Action) outcome" where
  "PrepareModerationAction x evt =
     (let k = evKind evt in
      if k = 9000 then prepare_put_user x evt
      else if k = 9001 then prepare_remove_user x evt
      else if k = 9002 then prepare_edit_metadata evt
      else if k = 9005 then prepare_delete_event x evt
      else if k = 9007 then Ret (CreateGroup (evPubKey evt) (evCreatedAt evt))
      else if k = 9008 then Ret (DeleteGroup (evCreatedAt evt))
      else if k = 9009 then prepare_create_invite evt
      else if k = 9010 then prepare_pin_list x evt
      else Fail (UnsupportedAction k))"

text \<open>The role names of one target; a name met before is skipped.\<close>

fun put_roles :: "string list \<Rightarrow> int \<Rightarrow> role_ref list \<Rightarrow> Group \<Rightarrow> role_ref list \<times> Group" where
  "put_roles [] when' roles g = (roles, g)"
| "put_roles (roleName # names) when' roles g =
     (if list_ex (\<lambda>r. role_name g r = roleName) roles then put_roles names when' roles g
      else
        (let (r, g) = GetRoleByName g roleName
         in put_roles names when' (roles @ [r]) (g\<lparr>gr_LastAdminsUpdate := when'\<rparr>)))"

fun index_of :: "'a \<Rightarrow> 'a list \<Rightarrow> nat option" where
  "index_of a [] = None"
| "index_of a (b # bs) = (if b = a then Some 0 else map_option Suc (index_of a bs))"

text \<open>A used code is overwritten by the last one, which is cut off.\<close>

definition use_code :: "string \<Rightarrow> string list \<Rightarrow> string list" where
  "use_code code codes =
     (if code \<noteq> '''' then
        (case index_of code codes of
           Some idx \<Rightarrow> butlast (codes[idx := last codes])
         | None \<Rightarrow> codes)
      else codes)"

definition put_target :: "string \<Rightarrow> int \<Rightarrow> PubKeyRoles \<Rightarrow> Group \<Rightarrow> Group" where
  "put_target inviteCode when' target g =
     (let (roles, g) = put_roles (pr_RoleNames target) when' [] g in
      g\<lparr>gr_Members := AList.update (pr_PubKey target) roles (gr_Members g),
        gr_InviteCodes := use_code inviteCode (gr_InviteCodes g), gr_LastMembersUpdate := when'\<rparr>)"

definition remove_target :: "int \<Rightarrow> PubKey \<Rightarrow> Group \<Rightarrow> Group" where
  "remove_target when' tpk g =
     (let g = (case map_of (gr_Members g) tpk of
           Some roles \<Rightarrow>
             (let g = g\<lparr>gr_LastMembersUpdate := when'\<rparr>
              in if length roles > 0 then g\<lparr>gr_LastAdminsUpdate := when'\<rparr> else g)
         | None \<Rightarrow> g)
      in g\<lparr>gr_Members := AList.delete tpk (gr_Members g)\<rparr>)"

fun Apply :: "Action \<Rightarrow> Group \<Rightarrow> Group" where
  "Apply (PutUser targets inviteCode when') g = fold (put_target inviteCode when') targets g"
| "Apply (RemoveUser targets when') g = fold (remove_target when') targets g"
| "Apply (EditMetadata a when') g =
     g\<lparr>gr_LastMetadataUpdate := when', gr_Name := gr_Name a, gr_Picture := gr_Picture a, gr_Banner := gr_Banner a,
       gr_About := gr_About a, gr_Restricted := gr_Restricted a, gr_Closed := gr_Closed a, gr_Hidden := gr_Hidden a,
       gr_Private := gr_Private a, gr_LiveKit := gr_LiveKit a, gr_SupportedKinds := gr_SupportedKinds a,
       gr_Parent := gr_Parent a, gr_Children := gr_Children a\<rparr>"
| "Apply (CreateGroup _ when') g =
     g\<lparr>gr_LastMetadataUpdate := when', gr_LastAdminsUpdate := when', gr_LastMembersUpdate := when',
       gr_LastLiveKitParticipantsUpdate := when', gr_LastPinnedEventsUpdate := when'\<rparr>"
| "Apply (DeleteEvent _) g = g"
| "Apply (DeleteGroup when') g =
     g\<lparr>gr_Members := [], gr_LiveKitParticipants := [], gr_Pinned := [], gr_Closed := True, gr_Private := True,
       gr_Restricted := True, gr_Hidden := True, gr_Name := ''[deleted]'', gr_About := '''', gr_Picture := '''',
       gr_Banner := '''', gr_LiveKit := False, gr_LastMetadataUpdate := when', gr_LastAdminsUpdate := when',
       gr_LastMembersUpdate := when', gr_LastLiveKitParticipantsUpdate := when', gr_LastPinnedEventsUpdate := when'\<rparr>"
| "Apply (CreateInvite codes) g = g\<lparr>gr_InviteCodes := gr_InviteCodes g @ codes\<rparr>"
| "Apply (UpdatePinList pinned when') g = g\<lparr>gr_Pinned := pinned, gr_LastPinnedEventsUpdate := when'\<rparr>"

definition ModerationEventKinds :: "Kind list" where
  "ModerationEventKinds = [9000, 9001, 9002, 9005, 9007, 9008, 9009, 9010]"

definition MetadataEventKinds :: "Kind list" where
  "MetadataEventKinds = [39000, 39001, 39002, 39003, 39004, 39005]"

definition KindRange_Includes :: "Kind list \<Rightarrow> Kind \<Rightarrow> bool" where
  "KindRange_Includes kr kind = snd (slices_BinarySearchFunc kr kind cmp_Compare)"

section \<open>The store of roles\<close>

text \<open>A group is well formed when its references are allocated and its names and keys do not repeat.\<close>

definition refs_ok :: "Group \<Rightarrow> role_ref list \<Rightarrow> bool" where
  "refs_ok g rs \<longleftrightarrow> (\<forall>r \<in> set rs. r < length (gr_store g))"

definition group_ok :: "Group \<Rightarrow> bool" where
  "group_ok g \<longleftrightarrow> refs_ok g (gr_Roles g) \<and> (\<forall>(pk, rs) \<in> set (gr_Members g). refs_ok g rs) \<and>
     distinct (map (role_name g) (gr_Roles g)) \<and> distinct (map fst (gr_Members g)) \<and>
     distinct (gr_LiveKitParticipants g)"

text \<open>\<open>grows g g'\<close>: the roles of \<open>g\<close> keep their names in \<open>g'\<close>.\<close>

definition grows :: "Group \<Rightarrow> Group \<Rightarrow> bool" where
  "grows g g' \<longleftrightarrow> length (gr_store g) \<le> length (gr_store g') \<and>
     (\<forall>r < length (gr_store g). role_name g' r = role_name g r)"

lemma grows_refl [simp, intro]: "grows g g"
  by (simp add: grows_def)

lemma grows_trans: "grows a b \<Longrightarrow> grows b c \<Longrightarrow> grows a c"
  by (auto simp: grows_def)

lemma grows_store: "gr_store g' = gr_store g \<Longrightarrow> grows g g'"
  by (simp add: grows_def role_name_def)

lemma grows_alloc: "gr_store g' = gr_store g @ [r] \<Longrightarrow> grows g g'"
  by (simp add: grows_def role_name_def nth_append)

lemma grows_refs: "grows g g' \<Longrightarrow> refs_ok g rs \<Longrightarrow> refs_ok g' rs"
  by (auto simp: grows_def refs_ok_def)

lemma grows_names: "grows g g' \<Longrightarrow> refs_ok g rs \<Longrightarrow> map (role_name g') rs = map (role_name g) rs"
  by (auto simp: grows_def refs_ok_def)

lemma refs_ok_simps [simp]: "refs_ok g []" "refs_ok g (r # rs) \<longleftrightarrow> r < length (gr_store g) \<and> refs_ok g rs"
  "refs_ok g (rs @ rs') \<longleftrightarrow> refs_ok g rs \<and> refs_ok g rs'"
  by (auto simp: refs_ok_def)

lemma group_ok_step:
  assumes "group_ok g" "grows g g'" "gr_Roles g' = gr_Roles g"
    "\<forall>(pk, rs) \<in> set (gr_Members g'). refs_ok g' rs" "distinct (map fst (gr_Members g'))"
    "distinct (gr_LiveKitParticipants g')"
  shows "group_ok g'"
proof -
  have "refs_ok g (gr_Roles g)" "distinct (map (role_name g) (gr_Roles g))" using assms(1) by (auto simp: group_ok_def)
  then have "refs_ok g' (gr_Roles g')" "distinct (map (role_name g') (gr_Roles g'))"
    unfolding assms(3) using grows_refs [OF assms(2)] grows_names [OF assms(2), of "gr_Roles g"] by metis+
  then show ?thesis using assms by (simp add: group_ok_def)
qed

lemma GetRoleByName_spec:
  assumes "group_ok g" "GetRoleByName g n = (r, g')"
  shows "grows g g'" "r < length (gr_store g')" "role_name g' r = n" "gr_Members g' = gr_Members g"
    "gr_Roles g' = gr_Roles g" "gr_LiveKitParticipants g' = gr_LiveKitParticipants g" "gr_InviteCodes g' = gr_InviteCodes g"
    "gr_LastAdminsUpdate g' = gr_LastAdminsUpdate g" "gr_LastMembersUpdate g' = gr_LastMembersUpdate g"
proof -
  have *: "grows g g' \<and> r < length (gr_store g') \<and> role_name g' r = n \<and> gr_Members g' = gr_Members g \<and>
      gr_Roles g' = gr_Roles g \<and> gr_LiveKitParticipants g' = gr_LiveKitParticipants g \<and> gr_InviteCodes g' = gr_InviteCodes g \<and>
      gr_LastAdminsUpdate g' = gr_LastAdminsUpdate g \<and> gr_LastMembersUpdate g' = gr_LastMembersUpdate g"
  proof (cases "find (\<lambda>r. role_name g r = n) (gr_Roles g)")
    case None
    then show ?thesis using assms(2) grows_alloc [of g' g "\<lparr>ro_Name = n, ro_Description = ''''\<rparr>"]
      by (auto simp: GetRoleByName_def role_name_def)
  next
    case (Some r')
    then have "r' \<in> set (gr_Roles g)" "role_name g r' = n" by (auto simp: find_Some_iff)
    then show ?thesis using Some assms by (auto simp: GetRoleByName_def group_ok_def refs_ok_def)
  qed
  then show "grows g g'" "r < length (gr_store g')" "role_name g' r = n" "gr_Members g' = gr_Members g"
    "gr_Roles g' = gr_Roles g" "gr_LiveKitParticipants g' = gr_LiveKitParticipants g" "gr_InviteCodes g' = gr_InviteCodes g"
    "gr_LastAdminsUpdate g' = gr_LastAdminsUpdate g" "gr_LastMembersUpdate g' = gr_LastMembersUpdate g" by auto
qed

lemma members_refs_grow:
  "group_ok g \<Longrightarrow> grows g g' \<Longrightarrow> gr_Members g' = gr_Members g \<Longrightarrow> \<forall>(pk, rs) \<in> set (gr_Members g'). refs_ok g' rs"
  by (auto simp: group_ok_def intro: grows_refs)

lemma group_ok_grow:
  "group_ok g \<Longrightarrow> grows g g' \<Longrightarrow> gr_Members g' = gr_Members g \<Longrightarrow> gr_Roles g' = gr_Roles g \<Longrightarrow>
     gr_LiveKitParticipants g' = gr_LiveKitParticipants g \<Longrightarrow> group_ok g'"
  by (rule group_ok_step [of g]) (auto simp: members_refs_grow, auto simp: group_ok_def)

lemma put_roles_spec:
  assumes "group_ok g" "refs_ok g roles" "distinct (map (role_name g) roles)" "put_roles ns w roles g = (rs, g')"
  shows "grows g g' \<and> refs_ok g' rs \<and> distinct (map (role_name g') rs) \<and>
    set (map (role_name g') rs) = set (map (role_name g) roles) \<union> set ns \<and> gr_Members g' = gr_Members g \<and> group_ok g' \<and>
    gr_InviteCodes g' = gr_InviteCodes g \<and> gr_LastMembersUpdate g' = gr_LastMembersUpdate g"
  using assms
proof (induction ns w roles g arbitrary: rs g' rule: put_roles.induct)
  case (1 w roles g)
  then show ?case by auto
next
  case (2 n ns w roles g)
  show ?case
  proof (cases "list_ex (\<lambda>r. role_name g r = n) roles")
    case True
    then have "n \<in> role_name g ` set roles" by (auto simp: list_ex_iff)
    then show ?thesis using 2 True by (auto simp: insert_absorb)
  next
    case False
    obtain r g1 where r: "GetRoleByName g n = (r, g1)" by (cases "GetRoleByName g n")
    let ?g = "g1\<lparr>gr_LastAdminsUpdate := w\<rparr>"
    note sp = GetRoleByName_spec [OF 2(3) r]
    have gr: "grows g ?g" using sp(1) grows_store [of ?g g1] grows_trans by simp
    have ok: "group_ok ?g" using group_ok_grow [OF 2(3) gr] sp by simp
    have names: "map (role_name ?g) roles = map (role_name g) roles" using grows_names [OF gr 2(4)] .
    have rn: "role_name ?g r = n" using sp(3) by (simp add: role_name_def)
    have "distinct (map (role_name ?g) (roles @ [r]))"
      unfolding map_append names using rn 2(5) False by (auto simp: list_ex_iff)
    moreover have "refs_ok ?g (roles @ [r])" using grows_refs [OF gr 2(4)] sp(2) by simp
    moreover have "put_roles ns w (roles @ [r]) ?g = (rs, g')" using 2(6) False r by simp
    ultimately have "grows ?g g' \<and> refs_ok g' rs \<and> distinct (map (role_name g') rs) \<and>
      set (map (role_name g') rs) = set (map (role_name ?g) (roles @ [r])) \<union> set ns \<and> gr_Members g' = gr_Members ?g \<and>
      group_ok g' \<and> gr_InviteCodes g' = gr_InviteCodes ?g \<and> gr_LastMembersUpdate g' = gr_LastMembersUpdate ?g"
      using 2(2) [OF False r [symmetric] refl] ok by blast
    then show ?thesis using grows_trans [OF gr] names rn sp by auto
  qed
qed

section \<open>Every operation keeps groups well formed\<close>

named_theorems group_ok_intros

lemma update_refs: "\<forall>(pk, rs) \<in> set ms. P rs \<Longrightarrow> P r \<Longrightarrow> \<forall>(pk, rs) \<in> set (AList.update k r ms). P rs"
  by (induction ms) (auto split: if_splits)

lemma group_ok_update [group_ok_intros]:
  assumes "group_ok g" "refs_ok g rs" "gr_store g' = gr_store g" "gr_Roles g' = gr_Roles g"
    "gr_Members g' = AList.update pk rs (gr_Members g)" "gr_LiveKitParticipants g' = gr_LiveKitParticipants g"
  shows "group_ok g'"
proof (rule group_ok_step [OF assms(1) grows_store [OF assms(3)] assms(4)])
  have refs: "refs_ok g' rs \<longleftrightarrow> refs_ok g rs" for rs by (simp add: refs_ok_def assms(3))
  show "\<forall>(pk, rs) \<in> set (gr_Members g'). refs_ok g' rs"
    unfolding assms(5) refs using assms(1,2) by (intro update_refs) (auto simp: group_ok_def)
  show "distinct (map fst (gr_Members g'))"
    using assms(1) by (simp add: assms(5) distinct_update group_ok_def)
  show "distinct (gr_LiveKitParticipants g')" using assms(1) by (simp add: assms(6) group_ok_def)
qed

lemma group_ok_frame [group_ok_intros]:
  assumes "group_ok g" "gr_store g' = gr_store g" "gr_Roles g' = gr_Roles g" "gr_Members g' = gr_Members g"
    "distinct (gr_LiveKitParticipants g')"
  shows "group_ok g'"
  using assms by (intro group_ok_step [OF assms(1) grows_store]) (auto simp: group_ok_def refs_ok_def)

lemma group_ok_at [simp]: "group_ok (group_at r i)"
  by (simp add: group_ok_def group_at_def)

lemma put_target_ok:
  assumes "group_ok g"
  shows "group_ok (put_target code w t g)"
proof (cases "put_roles (pr_RoleNames t) w [] g")
  case (Pair rs g1)
  then have "group_ok g1" "refs_ok g1 rs" using put_roles_spec [OF assms _ _ Pair] by auto
  then show ?thesis using Pair by (simp add: put_target_def group_ok_update)
qed

lemma remove_target_ok: "group_ok g \<Longrightarrow> group_ok (remove_target w pk g)"
  by (rule group_ok_step [of g])
     (auto simp: remove_target_def Let_def group_ok_def refs_ok_def grows_def role_name_def distinct_map_filter
        AList.delete_eq split: option.splits)

lemma fold_preserves: "(\<And>a s. P s \<Longrightarrow> P (f a s)) \<Longrightarrow> P s \<Longrightarrow> P (fold f as s)"
  by (induction as arbitrary: s) auto

lemma Apply_ok:
  assumes "group_ok g"
  shows "group_ok (Apply a g)"
proof -
  have d: "distinct (gr_LiveKitParticipants g)" using assms by (simp add: group_ok_def)
  show ?thesis
proof (cases a)
  case (PutUser ts code w)
  then show ?thesis by (simp add: fold_preserves [of group_ok] put_target_ok assms)
next
  case (RemoveUser pks w)
  then show ?thesis by (simp add: fold_preserves [of group_ok] remove_target_ok assms)
next
  case (DeleteGroup w)
  then show ?thesis using assms
    by (auto simp: group_ok_def refs_ok_def role_name_def [abs_def])
next
  case (DeleteEvent ids)
  then show ?thesis using assms by simp
qed (rule group_ok_frame [OF assms], simp_all add: d)+
qed

lemma add_roles_spec:
  "group_ok g \<Longrightarrow> let g' = add_roles pk ns g in
     group_ok g' \<and> grows g g' \<and>
     map (role_name g') (member_roles g' pk) = map (role_name g) (member_roles g pk) @ ns \<and>
     (\<forall>pk'. pk' \<noteq> pk \<longrightarrow> map_of (gr_Members g') pk' = map_of (gr_Members g) pk') \<and>
     (ns \<noteq> [] \<longrightarrow> map_of (gr_Members g') pk \<noteq> None)"
proof (induction pk ns g rule: add_roles.induct)
  case (1 pk g)
  then show ?case by simp
next
  case (2 pk n ns g)
  obtain r g1 where r: "GetRoleByName g n = (r, g1)" by (cases "GetRoleByName g n")
  note sp = GetRoleByName_spec [OF "2.prems" r]
  let ?rs = "member_roles g1 pk @ [r]"
  let ?g = "g1\<lparr>gr_Members := AList.update pk ?rs (gr_Members g1)\<rparr>"
  have ok1: "group_ok g1" using group_ok_grow [OF "2.prems" sp(1)] sp by simp
  have mr: "refs_ok g (member_roles g pk)"
    using "2.prems" by (auto simp: member_roles_def group_ok_def split: option.splits dest!: map_of_SomeD
        split: option.split) (auto simp: opt_list_def dest!: map_of_SomeD split: option.splits)
  have mr1: "member_roles g1 pk = member_roles g pk" by (simp add: member_roles_def sp(4))
  have refs: "refs_ok g1 ?rs" using grows_refs [OF sp(1) mr] sp(2) by (simp add: mr1)
  have ok: "group_ok ?g" by (rule group_ok_update [OF ok1 refs]) simp_all
  have gr: "grows g ?g" using grows_trans [OF sp(1) grows_store [of ?g g1]] by simp
  have names: "map (role_name ?g) (member_roles ?g pk) = map (role_name g) (member_roles g pk) @ [n]"
    using grows_names [OF gr mr] sp(3) by (simp add: member_roles_def update_conv' sp(4) role_name_def)
  have "add_roles pk (n # ns) g = add_roles pk ns ?g" using r by simp
  then show ?case
    using "2.IH" [OF r [symmetric] refl, unfolded Let_def, OF ok] gr names grows_trans [OF gr]
    by (auto simp: Let_def update_conv' sp(4))
qed

lemma metadata_tag_frame [simp]:
  "gr_store (metadata_tag t g) = gr_store g" "gr_Roles (metadata_tag t g) = gr_Roles g"
  "gr_Members (metadata_tag t g) = gr_Members g" "gr_LiveKitParticipants (metadata_tag t g) = gr_LiveKitParticipants g"
  by (cases t; simp add: metadata_tag_def split: list.split)+

lemma group_ok_distinct: "group_ok g \<Longrightarrow> distinct (gr_LiveKitParticipants g)"
  by (simp add: group_ok_def)

lemma metadata_tag_ok: "group_ok g \<Longrightarrow> group_ok (metadata_tag t g)"
  by (rule group_ok_frame [of g]) (simp_all add: group_ok_distinct)

lemma admins_tag_ok: "group_ok g \<Longrightarrow> group_ok (admins_tag x t g)"
  using add_roles_spec [of g _ "drop 2 t"] by (auto simp: admins_tag_def Let_def split: outcome.split)

lemma members_tag_ok: "group_ok g \<Longrightarrow> group_ok (members_tag x t g)"
  by (auto simp: members_tag_def split: outcome.split intro: group_ok_update [of g "[]"])

lemma roles_tag_spec:
  assumes "group_ok g"
  shows "group_ok (roles_tag t g) \<and> grows g (roles_tag t g) \<and> gr_Members (roles_tag t g) = gr_Members g"
proof (cases "length t < 2 \<or> t ! 0 \<noteq> ''role''")
  case True
  then show ?thesis using assms by (auto simp: roles_tag_def)
next
  case False
  define d where "d = (if length t \<ge> 3 then t ! 2 else '''')"
  show ?thesis
  proof (cases "find (\<lambda>r. role_name g r = t ! 1) (gr_Roles g)")
    case (Some r)
    then have "r \<in> set (gr_Roles g)" by (auto simp: find_Some_iff)
    then have r: "r < length (gr_store g)" using assms by (auto simp: group_ok_def refs_ok_def)
    let ?g = "g\<lparr>gr_store := (gr_store g)[r := (gr_store g ! r)\<lparr>ro_Description := d\<rparr>]\<rparr>"
    have g': "roles_tag t g = ?g" using Some False by (simp add: roles_tag_def d_def)
    have gr: "grows g ?g" using r by (simp add: grows_def role_name_def nth_list_update)
    then show ?thesis unfolding g' using group_ok_grow [OF assms gr] by simp
  next
    case None
    let ?g = "g\<lparr>gr_store := gr_store g @ [\<lparr>ro_Name = t ! 1, ro_Description = d\<rparr>], gr_Roles := gr_Roles g @ [length (gr_store g)]\<rparr>"
    have g': "roles_tag t g = ?g" using None False by (simp add: roles_tag_def d_def)
    have gr: "grows g ?g" by (rule grows_alloc) simp
    have rr: "refs_ok g (gr_Roles g)" using assms by (simp add: group_ok_def)
    have "role_name ?g (length (gr_store g)) = t ! 1" by (simp add: role_name_def)
    moreover have "t ! 1 \<notin> set (map (role_name g) (gr_Roles g))" using None by (auto simp: find_None_iff)
    ultimately have "distinct (map (role_name ?g) (gr_Roles g) @ [role_name ?g (length (gr_store g))])"
      unfolding grows_names [OF gr rr] using assms by (simp add: group_ok_def)
    then have "group_ok ?g"
      using assms grows_refs [OF gr] rr by (auto simp: group_ok_def refs_ok_def)
    then show ?thesis unfolding g' using gr by simp
  qed
qed

lemma participant_tag_ok: "group_ok g \<Longrightarrow> group_ok (participant_tag x t g)"
  by (auto simp: participant_tag_def group_ok_distinct split: outcome.split intro: group_ok_frame [of g])

lemma pinned_tag_ok: "group_ok g \<Longrightarrow> group_ok (pinned_tag x t g)"
  by (auto simp: pinned_tag_def group_ok_distinct split: outcome.split intro: group_ok_frame [of g])

text \<open>What can happen to a group: it is merged with an event of its relay, or a moderation action is applied.\<close>

inductive group_reach :: "ext \<Rightarrow> Group \<Rightarrow> bool" for x where
  start: "group_reach x (group_at relay i)"
| metadata: "group_reach x g \<Longrightarrow> group_reach x (snd (MergeInMetadataEvent evt g))"
| admins: "group_reach x g \<Longrightarrow> group_reach x (snd (MergeInAdminsEvent x evt g))"
| members: "group_reach x g \<Longrightarrow> group_reach x (snd (MergeInMembersEvent x evt g))"
| roles: "group_reach x g \<Longrightarrow> group_reach x (snd (MergeInRolesEvent evt g))"
| participants: "group_reach x g \<Longrightarrow> group_reach x (snd (MergeInLiveKitParticipantsEvent x evt g))"
| pinned: "group_reach x g \<Longrightarrow> group_reach x (snd (MergeInPinnedEventsEvent x evt g))"
| action: "group_reach x g \<Longrightarrow> PrepareModerationAction x evt = Ret a \<Longrightarrow> group_reach x (Apply a g)"

lemma group_ok_clock:
  "group_ok g \<Longrightarrow> group_ok (g\<lparr>gr_LastMetadataUpdate := w, gr_Name := n\<rparr>)"
  "group_ok g \<Longrightarrow> group_ok (g\<lparr>gr_LastAdminsUpdate := w\<rparr>)"
  "group_ok g \<Longrightarrow> group_ok (g\<lparr>gr_LastMembersUpdate := w\<rparr>)"
  "group_ok g \<Longrightarrow> group_ok (g\<lparr>gr_LastRolesUpdate := w\<rparr>)"
  "group_ok g \<Longrightarrow> group_ok (g\<lparr>gr_LastLiveKitParticipantsUpdate := w, gr_LiveKitParticipants := []\<rparr>)"
  "group_ok g \<Longrightarrow> group_ok (g\<lparr>gr_LastPinnedEventsUpdate := w, gr_Pinned := ps\<rparr>)"
  by (rule group_ok_frame [of g]; simp add: group_ok_distinct)+

lemma merges_ok:
  assumes "group_ok g"
  shows "group_ok (snd (MergeInMetadataEvent evt g))" "group_ok (snd (MergeInAdminsEvent x evt g))"
    "group_ok (snd (MergeInMembersEvent x evt g))" "group_ok (snd (MergeInRolesEvent evt g))"
    "group_ok (snd (MergeInLiveKitParticipantsEvent x evt g))" "group_ok (snd (MergeInPinnedEventsEvent x evt g))"
proof -
  note fi = fold_preserves [of group_ok]
  show "group_ok (snd (MergeInMetadataEvent evt g))"
    by (simp add: MergeInMetadataEvent_def assms fi metadata_tag_ok group_ok_clock split: option.split)
  show "group_ok (snd (MergeInAdminsEvent x evt g))"
    by (simp add: MergeInAdminsEvent_def assms fi admins_tag_ok group_ok_clock split: option.split)
  show "group_ok (snd (MergeInMembersEvent x evt g))"
    by (simp add: MergeInMembersEvent_def assms fi members_tag_ok group_ok_clock split: option.split)
  show "group_ok (snd (MergeInRolesEvent evt g))"
    by (simp add: MergeInRolesEvent_def assms fi roles_tag_spec group_ok_clock split: option.split)
  show "group_ok (snd (MergeInLiveKitParticipantsEvent x evt g))"
    by (simp add: MergeInLiveKitParticipantsEvent_def assms fi participant_tag_ok group_ok_clock split: option.split)
  show "group_ok (snd (MergeInPinnedEventsEvent x evt g))"
    by (simp add: MergeInPinnedEventsEvent_def assms fi pinned_tag_ok group_ok_clock split: option.split)
qed

lemma reach_ok: "group_reach x g \<Longrightarrow> group_ok g"
  by (induction rule: group_reach.induct) (simp_all add: merges_ok Apply_ok)

section \<open>Effects\<close>

lemma member_refs: "group_ok g \<Longrightarrow> refs_ok g (member_roles g pk)"
  by (cases "map_of (gr_Members g) pk") (auto simp: member_roles_def group_ok_def dest!: map_of_SomeD)

lemma member_roles_cong: "map_of (gr_Members g') pk = map_of (gr_Members g) pk \<Longrightarrow> member_roles g' pk = member_roles g pk"
  by (simp add: member_roles_def)

definition member_names :: "Group \<Rightarrow> PubKey \<Rightarrow> string list" where
  "member_names g pk = map (role_name g) (member_roles g pk)"

lemma member_names_grow:
  "group_ok g \<Longrightarrow> grows g g' \<Longrightarrow> map_of (gr_Members g') pk = map_of (gr_Members g) pk \<Longrightarrow> member_names g' pk = member_names g pk"
  unfolding member_names_def using grows_names [of g g' "member_roles g pk"] member_refs [of g pk] member_roles_cong [of g' pk g]
  by metis

lemma put_target_spec:
  assumes "group_ok g"
  shows "group_ok (put_target code w t g) \<and> grows g (put_target code w t g) \<and>
    distinct (member_names (put_target code w t g) (pr_PubKey t)) \<and>
    set (member_names (put_target code w t g) (pr_PubKey t)) = set (pr_RoleNames t) \<and>
    map_of (gr_Members (put_target code w t g)) = (map_of (gr_Members g))(pr_PubKey t \<mapsto>
      member_roles (put_target code w t g) (pr_PubKey t))"
proof (cases "put_roles (pr_RoleNames t) w [] g")
  case (Pair rs g1)
  let ?g = "put_target code w t g"
  note sp = put_roles_spec [OF assms _ _ Pair, simplified]
  have g': "gr_Members ?g = AList.update (pr_PubKey t) rs (gr_Members g)" "gr_store ?g = gr_store g1"
    using Pair sp by (simp_all add: put_target_def)
  have mr: "member_roles ?g (pr_PubKey t) = rs" by (simp add: member_roles_def g' update_conv')
  have "member_names ?g (pr_PubKey t) = map (role_name g1) rs"
    by (simp add: member_names_def mr role_name_def g')
  moreover have "grows g ?g" using sp grows_trans [OF _ grows_store [OF g'(2)]] by blast
  ultimately show ?thesis using sp mr put_target_ok [OF assms] by (simp add: g'(1) update_conv')
qed

lemma put_targets_spec:
  "group_ok g \<Longrightarrow> distinct (map pr_PubKey ts) \<Longrightarrow> let g' = fold (put_target code w) ts g in
    group_ok g' \<and> grows g g' \<and>
    (\<forall>t \<in> set ts. distinct (member_names g' (pr_PubKey t)) \<and> set (member_names g' (pr_PubKey t)) = set (pr_RoleNames t) \<and>
       map_of (gr_Members g') (pr_PubKey t) \<noteq> None) \<and>
    (\<forall>pk. pk \<notin> pr_PubKey ` set ts \<longrightarrow> map_of (gr_Members g') pk = map_of (gr_Members g) pk)"
proof (induction ts arbitrary: g)
  case (Cons t ts)
  let ?g = "put_target code w t g"
  note sp = put_target_spec [OF Cons.prems(1), of code w t]
  have "distinct (map pr_PubKey ts)" using Cons.prems(2) by simp
  note ih = Cons.IH [OF conjunct1 [OF sp] this, unfolded Let_def]
  define g' where "g' = fold (put_target code w) ts ?g"
  note ih' = ih [folded g'_def]
  have same: "map_of (gr_Members g') (pr_PubKey t) = map_of (gr_Members ?g) (pr_PubKey t)"
    using ih' Cons.prems(2) by simp
  then have "member_names g' (pr_PubKey t) = member_names ?g (pr_PubKey t)"
    using member_names_grow [of ?g g'] sp ih' by blast
  then show ?case using ih' sp same grows_trans [of g ?g g'] by (auto simp: Let_def g'_def)
qed simp

lemma remove_targets_spec:
  "map_of (gr_Members (fold (remove_target w) pks g)) = (map_of (gr_Members g)) |` (- set pks) \<and>
   gr_LastMembersUpdate (fold (remove_target w) pks g) =
     (if \<exists>pk \<in> set pks. map_of (gr_Members g) pk \<noteq> None then w else gr_LastMembersUpdate g) \<and>
   gr_LastAdminsUpdate (fold (remove_target w) pks g) =
     (if \<exists>pk \<in> set pks. member_roles g pk \<noteq> [] then w else gr_LastAdminsUpdate g)"
proof (induction pks arbitrary: g)
  case (Cons pk pks)
  let ?g = "remove_target w pk g"
  have m: "map_of (gr_Members ?g) = (map_of (gr_Members g))(pk := None)"
    by (auto simp: remove_target_def Let_def delete_conv split: option.splits)
  have mr: "member_roles ?g k = (if k = pk then [] else member_roles g k)" for k by (simp add: member_roles_def m)
  have lm: "gr_LastMembersUpdate ?g = (if map_of (gr_Members g) pk \<noteq> None then w else gr_LastMembersUpdate g)"
    and la: "gr_LastAdminsUpdate ?g = (if member_roles g pk \<noteq> [] then w else gr_LastAdminsUpdate g)"
    by (auto simp: remove_target_def Let_def member_roles_def split: option.splits)
  show ?case
    unfolding fold_Cons comp_def using Cons.IH [of ?g] m mr lm la
    by (auto simp: restrict_map_def fun_eq_iff)
qed (simp add: restrict_map_def)

section \<open>Reading back what was published\<close>

lemma fold_text_tag:
  "fold metadata_tag (text_tag ''name'' v) g = g\<lparr>gr_Name := if v \<noteq> '''' then v else gr_Name g\<rparr>"
  "fold metadata_tag (text_tag ''about'' v) g = g\<lparr>gr_About := if v \<noteq> '''' then v else gr_About g\<rparr>"
  "fold metadata_tag (text_tag ''picture'' v) g = g\<lparr>gr_Picture := if v \<noteq> '''' then v else gr_Picture g\<rparr>"
  "fold metadata_tag (text_tag ''banner'' v) g = g\<lparr>gr_Banner := if v \<noteq> '''' then v else gr_Banner g\<rparr>"
  "fold metadata_tag (text_tag ''parent'' v) g = g\<lparr>gr_Parent := if v \<noteq> '''' then v else gr_Parent g\<rparr>"
  by (simp_all add: text_tag_def metadata_tag_def)

lemma fold_flag_tag:
  "fold metadata_tag (flag_tag ''private'' b) g = g\<lparr>gr_Private := b \<or> gr_Private g\<rparr>"
  "fold metadata_tag (flag_tag ''restricted'' b) g = g\<lparr>gr_Restricted := b \<or> gr_Restricted g\<rparr>"
  "fold metadata_tag (flag_tag ''hidden'' b) g = g\<lparr>gr_Hidden := b \<or> gr_Hidden g\<rparr>"
  "fold metadata_tag (flag_tag ''closed'' b) g = g\<lparr>gr_Closed := b \<or> gr_Closed g\<rparr>"
  "fold metadata_tag (flag_tag ''livekit'' b) g = g\<lparr>gr_LiveKit := b \<or> gr_LiveKit g\<rparr>"
  by (simp_all add: flag_tag_def metadata_tag_def)

lemma fold_children: "fold metadata_tag (map (\<lambda>c. [''child'', c]) cs) g = g\<lparr>gr_Children := gr_Children g @ cs\<rparr>"
  by (induction cs arbitrary: g) (simp_all add: metadata_tag_def)

lemma Atoi_kind: "strconv_Atoi (strconv_Itoa (uint (k :: Kind))) = (uint k, True)"
proof -
  have "0 \<le> uint k" "uint k < 2 ^ 16" using unsigned_less [of k, where 'a = int] by simp_all
  moreover have "- 9223372036854775808 \<le> uint k" by (rule order_trans [OF _ \<open>0 \<le> uint k\<close>]) simp
  ultimately have "in_int64 (uint k)" by (simp add: in_int64_def)
  then show ?thesis unfolding strconv_Atoi_def by (rule ParseInt_Itoa)
qed

lemma read_kinds_Itoa: "read_kinds (map (\<lambda>k. strconv_Itoa (uint k)) ks) = ks"
  by (induction ks) (simp_all add: read_kinds_def Atoi_kind)

lemma fold_kinds:
  "fold metadata_tag (case ks of None \<Rightarrow> [] | Some kinds \<Rightarrow> [''supported_kinds'' # map (\<lambda>k. strconv_Itoa (int (unat k))) kinds]) g =
    g\<lparr>gr_SupportedKinds := (case ks of None \<Rightarrow> gr_SupportedKinds g | Some _ \<Rightarrow> ks)\<rparr>"
  by (cases ks) (simp_all add: metadata_tag_def read_kinds_Itoa)

lemma metadata_d: "metadata_tag [''d'', v] g = g"
  by (simp add: metadata_tag_def)

lemma metadata_read:
  "fold metadata_tag (evTags (ToMetadataEvent g)) r =
     r\<lparr>gr_Name := if gr_Name g \<noteq> '''' then gr_Name g else gr_Name r,
       gr_About := if gr_About g \<noteq> '''' then gr_About g else gr_About r,
       gr_Picture := if gr_Picture g \<noteq> '''' then gr_Picture g else gr_Picture r,
       gr_Banner := if gr_Banner g \<noteq> '''' then gr_Banner g else gr_Banner r,
       gr_Private := gr_Private g \<or> gr_Private r, gr_Restricted := gr_Restricted g \<or> gr_Restricted r,
       gr_Hidden := gr_Hidden g \<or> gr_Hidden r, gr_Closed := gr_Closed g \<or> gr_Closed r,
       gr_LiveKit := gr_LiveKit g \<or> gr_LiveKit r,
       gr_SupportedKinds := (case gr_SupportedKinds g of None \<Rightarrow> gr_SupportedKinds r | Some k \<Rightarrow> gr_SupportedKinds g),
       gr_Parent := if gr_Parent g \<noteq> '''' then gr_Parent g else gr_Parent r,
       gr_Children := gr_Children r @ gr_Children g\<rparr>"
  unfolding ToMetadataEvent_def draft_def event.select_convs fold_append comp_apply fold_text_tag fold_flag_tag fold_kinds
    fold_children
  by (simp add: metadata_d cong: option.case_cong)

section \<open>Properties\<close>

text \<open>C35: Whatever events are merged and whatever moderation actions are applied, a group stays well formed: every
  role a member holds or the group lists is an allocated role, no role name is listed twice, no member and no
  participant occurs twice.\<close>
theorem group_stays_well_formed:
  assumes "group_reach x g"
  shows "group_ok g"
  using assms by (rule reach_ok)

theorem group_stays_well_formed_witness:
  "group_ok (Apply (CreateInvite [''c1'']) (group_at ''wss://r'' ''g''))"
proof -
  let ?e = "draft 9009 100 [[''code'', ''c1'']]"
  have "PrepareModerationAction std_ext ?e = Ret (CreateInvite [''c1''])"
    by (simp add: PrepareModerationAction_def prepare_create_invite_def draft_def tags_FindAll_def)
  then have "group_reach std_ext (Apply (CreateInvite [''c1'']) (group_at ''wss://r'' ''g''))"
    using group_reach.action [OF group_reach.start] by blast
  then show ?thesis by (rule group_stays_well_formed)
qed

text \<open>Putting users gives each of them exactly the roles named for them, once each, and changes neither the
  membership nor the role names of anybody else.\<close>
theorem put_user_sets_roles:
  assumes "group_reach x g" "distinct (map pr_PubKey targets)" "t \<in> set targets"
  shows "distinct (member_names (Apply (PutUser targets code w) g) (pr_PubKey t)) \<and>
    set (member_names (Apply (PutUser targets code w) g) (pr_PubKey t)) = set (pr_RoleNames t) \<and>
    map_of (gr_Members (Apply (PutUser targets code w) g)) (pr_PubKey t) \<noteq> None \<and>
    (pk \<in> pr_PubKey ` set targets \<or>
      map_of (gr_Members (Apply (PutUser targets code w) g)) pk = map_of (gr_Members g) pk \<and>
      member_names (Apply (PutUser targets code w) g) pk = member_names g pk)"
  using put_targets_spec [OF reach_ok [OF assms(1)] assms(2), of code w, unfolded Let_def] assms(3)
    member_names_grow [OF reach_ok [OF assms(1)], of "Apply (PutUser targets code w) g" pk]
  by auto

theorem put_user_sets_roles_witness:
  "set (member_names (Apply (PutUser [\<lparr>pr_PubKey = replicate 32 7, pr_RoleNames = [''king'', ''king'']\<rparr>] '''' 5)
     (group_at ''wss://r'' ''g'')) (replicate 32 7)) = {''king''}"
  using put_user_sets_roles [OF group_reach.start, of "[\<lparr>pr_PubKey = replicate 32 7, pr_RoleNames = [''king'', ''king'']\<rparr>]"
      "\<lparr>pr_PubKey = replicate 32 7, pr_RoleNames = [''king'', ''king'']\<rparr>" "''''" 5 "''wss://r''" "''g''"] by simp

text \<open>Removing users removes exactly them; the members list is dated when one of them was there, the admins
  list when one of them had a role.\<close>
theorem remove_user_exact:
  "map_of (gr_Members (Apply (RemoveUser pks w) g)) = (map_of (gr_Members g)) |` (- set pks) \<and>
   gr_LastMembersUpdate (Apply (RemoveUser pks w) g) =
     (if \<exists>pk \<in> set pks. map_of (gr_Members g) pk \<noteq> None then w else gr_LastMembersUpdate g) \<and>
   gr_LastAdminsUpdate (Apply (RemoveUser pks w) g) =
     (if \<exists>pk \<in> set pks. member_roles g pk \<noteq> [] then w else gr_LastAdminsUpdate g)"
  using remove_targets_spec [of w pks g] by simp

text \<open>An admin who is put again without roles loses them, but the date of the admins list stays: the new list is
  published with the timestamp of the old one.\<close>
theorem demotion_not_dated:
  assumes "member_roles g pk \<noteq> []"
  shows "member_roles (Apply (PutUser [\<lparr>pr_PubKey = pk, pr_RoleNames = []\<rparr>] code w) g) pk = [] \<and>
    evCreatedAt (ToAdminsEvent x (Apply (PutUser [\<lparr>pr_PubKey = pk, pr_RoleNames = []\<rparr>] code w) g)) =
    evCreatedAt (ToAdminsEvent x g)"
  by (simp add: put_target_def member_roles_def update_conv' ToAdminsEvent_def draft_def)

theorem demotion_not_dated_witness:
  "let g = (group_at ''wss://r'' ''g'')\<lparr>gr_store := [\<lparr>ro_Name = ''king'', ro_Description = ''''\<rparr>],
        gr_Members := [(replicate 32 7, [0])], gr_LastAdminsUpdate := 5\<rparr>
   in evCreatedAt (ToAdminsEvent std_ext (Apply (PutUser [\<lparr>pr_PubKey = replicate 32 7, pr_RoleNames = []\<rparr>] '''' 9) g)) = 5"
  using demotion_not_dated [of "(group_at ''wss://r'' ''g'')\<lparr>gr_store := [\<lparr>ro_Name = ''king'', ro_Description = ''''\<rparr>],
        gr_Members := [(replicate 32 7, [0])], gr_LastAdminsUpdate := 5\<rparr>" "replicate 32 7" "''''" 9 std_ext]
  by (simp add: member_roles_def ToAdminsEvent_def draft_def Let_def)

text \<open>C37: A group read from the metadata event of another has its name, texts, flags, supported kinds, parent and
  children; an empty name is read as the identifier.\<close>
theorem metadata_roundtrip:
  assumes "0 \<le> gr_LastMetadataUpdate g"
  shows "NewGroupFromMetadataEvent relay (ToMetadataEvent g) =
    (None, (group_at relay (ga_ID (gr_Address g)))\<lparr>
       gr_LastMetadataUpdate := gr_LastMetadataUpdate g,
       gr_Name := if gr_Name g \<noteq> '''' then gr_Name g else ga_ID (gr_Address g),
       gr_About := gr_About g, gr_Picture := gr_Picture g, gr_Banner := gr_Banner g, gr_Private := gr_Private g,
       gr_Restricted := gr_Restricted g, gr_Hidden := gr_Hidden g, gr_Closed := gr_Closed g, gr_LiveKit := gr_LiveKit g,
       gr_SupportedKinds := gr_SupportedKinds g, gr_Parent := gr_Parent g, gr_Children := gr_Children g\<rparr>)"
proof -
  have d: "GetD (evTags (ToMetadataEvent g)) = ga_ID (gr_Address g)"
    by (simp add: ToMetadataEvent_def draft_def)
  have "merge_guard 39000 (gr_LastMetadataUpdate (group_at relay (ga_ID (gr_Address g)))) (ToMetadataEvent g) = None"
    using assms by (simp add: merge_guard_def ToMetadataEvent_def draft_def group_at_def)
  then show ?thesis
    by (simp add: NewGroupFromMetadataEvent_def MergeInMetadataEvent_def d metadata_read)
       (simp add: group_at_def ToMetadataEvent_def draft_def split: option.split)
qed

theorem metadata_roundtrip_witness:
  "fst (NewGroupFromMetadataEvent ''wss://r'' (ToMetadataEvent ((group_at ''wss://s'' ''g'')\<lparr>gr_Private := True\<rparr>))) = None \<and>
   gr_Private (snd (NewGroupFromMetadataEvent ''wss://r'' (ToMetadataEvent ((group_at ''wss://s'' ''g'')\<lparr>gr_Private := True\<rparr>))))"
  using metadata_roundtrip [of "(group_at ''wss://s'' ''g'')\<lparr>gr_Private := True\<rparr>" "''wss://r''"] by (simp add: group_at_def)

definition keys_ok :: "ext \<Rightarrow> Group \<Rightarrow> bool" where
  "keys_ok x g \<longleftrightarrow> list_all (\<lambda>(pk, _). wf32 pk \<and> ParsePubKey x pk) (gr_Members g)"

lemma members_tag_key:
  "hex_ext x \<Longrightarrow> wf32 pk \<Longrightarrow> ParsePubKey x pk \<Longrightarrow> members_tag x [''p'', PubKey_Hex x pk] g =
     (if map_of (gr_Members g) pk = None then g\<lparr>gr_Members := AList.update pk [] (gr_Members g)\<rparr> else g)"
  by (simp add: members_tag_def PubKeyFromHex_Hex)

lemma members_read:
  assumes "hex_ext x"
  shows "list_all (\<lambda>(pk, _). wf32 pk \<and> ParsePubKey x pk) ms \<Longrightarrow>
    map_of (gr_Members (fold (members_tag x) (map (\<lambda>(m, rs). [''p'', PubKey_Hex x m]) ms) g)) =
      (\<lambda>pk. if pk \<in> fst ` set ms \<and> map_of (gr_Members g) pk = None then Some [] else map_of (gr_Members g) pk)"
proof (induction ms arbitrary: g)
  case (Cons m ms)
  obtain pk rs where m: "m = (pk, rs)" by (cases m)
  then show ?case
    using Cons by (auto simp: members_tag_key [OF assms] update_conv' fun_eq_iff)
qed simp

definition admin_line :: "ext \<Rightarrow> PubKey \<times> string list \<Rightarrow> Tag" where
  "admin_line x a = [''p'', PubKey_Hex x (fst a)] @ snd a"

lemma admins_read:
  assumes "hex_ext x" "\<forall>(pk, ns) \<in> set as. wf32 pk \<and> ParsePubKey x pk \<and> ns \<noteq> []" "distinct (map fst as)" "group_ok g"
  shows "let g' = fold (admins_tag x) (map (admin_line x) as) g in
    member_names g' pk = member_names g pk @ opt_list (map_of as pk) \<and>
    dom (map_of (gr_Members g')) = dom (map_of (gr_Members g)) \<union> fst ` set as \<and> grows g g'"
  using assms(2-4)
proof (induction as arbitrary: g)
  case Nil
  then show ?case by simp
next
  case (Cons a as)
  obtain m ns where a: "a = (m, ns)" by (cases a)
  have k: "wf32 m" "ParsePubKey x m" "ns \<noteq> []" using Cons.prems(1) a by auto
  define g1 where "g1 = add_roles m ns g"
  have step: "admins_tag x (admin_line x a) g = g1"
    using k by (cases ns) (simp_all add: a admin_line_def admins_tag_def PubKeyFromHex_Hex assms(1) g1_def)
  note sp = add_roles_spec [OF Cons.prems(3), of m ns, unfolded Let_def, folded g1_def]
  have names: "member_names g1 p = (if p = m then member_names g p @ ns else member_names g p)" for p
    using sp member_names_grow [OF Cons.prems(3), of g1 p] by (auto simp: member_names_def)
  have dom: "dom (map_of (gr_Members g1)) = insert m (dom (map_of (gr_Members g)))"
    using sp k(3) by (auto simp: dom_def)
  have "\<forall>(pk, ns) \<in> set as. wf32 pk \<and> ParsePubKey x pk \<and> ns \<noteq> []" "distinct (map fst as)" "group_ok g1"
    using Cons.prems sp by auto
  note ih = Cons.IH [OF this, unfolded Let_def]
  have "m \<notin> fst ` set as" using Cons.prems(2) a by simp
  then have "map_of as m = None" by (simp add: map_of_eq_None_iff)
  then have "member_names (fold (admins_tag x) (map (admin_line x) as) g1) pk = member_names g pk @ opt_list (map_of (a # as) pk)"
    using ih names a by simp
  moreover have "dom (map_of (gr_Members (fold (admins_tag x) (map (admin_line x) as) g1))) =
      dom (map_of (gr_Members g)) \<union> fst ` set (a # as)"
    using ih dom a by simp
  moreover have "grows g (fold (admins_tag x) (map (admin_line x) as) g1)"
    using ih sp grows_trans [of g g1] by blast
  ultimately show ?case by (simp add: Let_def step)
qed

lemma filter_map_of:
  "distinct (map fst ms) \<Longrightarrow>
    opt_list (map_of (map (\<lambda>(m, rs). (m, map f rs)) (filter (\<lambda>(m, rs). length rs \<noteq> 0) ms)) pk) =
    map f (opt_list (map_of ms pk))"
proof (induction ms)
  case (Cons m ms)
  obtain k rs where m: "m = (k, rs)" by (cases m)
  show ?case
  proof (cases "pk = k \<and> rs = []")
    case True
    then have "map_of ms pk = None" using Cons.prems m by (simp add: map_of_eq_None_iff)
    then show ?thesis using True Cons m by simp
  qed (use Cons m in auto)
qed simp

text \<open>C36: A fresh group that merges the members event and the admins event of another has the same members, each with
  the same role names.\<close>
theorem membership_roundtrip:
  assumes "hex_ext x" "group_reach x g" "keys_ok x g" "0 \<le> gr_LastMembersUpdate g" "0 \<le> gr_LastAdminsUpdate g"
    and "MergeInMembersEvent x (ToMembersEvent x g) (group_at relay i) = (e1, g1)"
    and "MergeInAdminsEvent x (ToAdminsEvent x g) g1 = (e2, g2)"
  shows "dom (map_of (gr_Members g2)) = dom (map_of (gr_Members g)) \<and> member_names g2 = member_names g"
proof -
  let ?as = "map (\<lambda>(m, rs). (m, map (role_name g) rs)) (filter (\<lambda>(m, rs). length rs \<noteq> 0) (gr_Members g))"
  have ok: "group_ok g" by (rule reach_ok [OF assms(2)])
  have dist: "distinct (map fst (gr_Members g))" using ok by (simp add: group_ok_def)
  have md: "members_tag x [''d'', v] h = h" for v h by (simp add: members_tag_def)
  have g1: "g1 = fold (members_tag x) (map (\<lambda>(m, rs). [''p'', PubKey_Hex x m]) (gr_Members g))
      ((group_at relay i)\<lparr>gr_LastMembersUpdate := gr_LastMembersUpdate g\<rparr>)" (is "_ = fold _ _ ?g0")
    using assms(4,6) md by (simp add: MergeInMembersEvent_def merge_guard_def ToMembersEvent_def draft_def) (simp add: group_at_def md)
  have ok1: "group_ok g1" unfolding g1
    by (rule fold_preserves [of group_ok]) (auto intro: members_tag_ok group_ok_clock)
  have "gr_Members ?g0 = []" by (simp add: group_at_def)
  then have m1: "map_of (gr_Members g1) = (\<lambda>pk. if pk \<in> fst ` set (gr_Members g) then Some [] else None)"
    unfolding g1 using members_read [OF assms(1), of "gr_Members g" ?g0] assms(3) by (auto simp: keys_ok_def fun_eq_iff)
  then have n1: "member_names g1 pk = []" for pk by (simp add: member_names_def member_roles_def)
  have last1: "gr_LastAdminsUpdate g1 = 0"
  proof -
    have "gr_LastAdminsUpdate (members_tag x t g) = gr_LastAdminsUpdate g" for t g
      by (simp add: members_tag_def split: outcome.split)
    then show ?thesis unfolding g1
      by (intro fold_preserves [of "\<lambda>g. gr_LastAdminsUpdate g = 0"]) (simp_all add: group_at_def)
  qed
  have tags: "evTags (ToAdminsEvent x g) = [''d'', ga_ID (gr_Address g)] # map (admin_line x) ?as"
    by (simp add: ToAdminsEvent_def draft_def admin_line_def case_prod_unfold)
  have head: "evKind (ToAdminsEvent x g) = 39001" "evCreatedAt (ToAdminsEvent x g) = gr_LastAdminsUpdate g"
    by (simp_all add: ToAdminsEvent_def draft_def)
  have "admins_tag x [''d'', v] h = h" for v h by (simp add: admins_tag_def)
  then have g2: "g2 = fold (admins_tag x) (map (admin_line x) ?as) (g1\<lparr>gr_LastAdminsUpdate := gr_LastAdminsUpdate g\<rparr>)"
    using assms(5,7) last1 head by (simp add: MergeInAdminsEvent_def merge_guard_def tags)
  have keys: "\<forall>(pk, ns) \<in> set ?as. wf32 pk \<and> ParsePubKey x pk \<and> ns \<noteq> []"
    using assms(3) by (auto simp: keys_ok_def list_all_iff)
  have dist2: "distinct (map fst ?as)"
    using dist by (simp add: comp_def case_prod_unfold distinct_map_filter)
  note ar = admins_read [OF assms(1) keys dist2 group_ok_clock(2) [OF ok1, of "gr_LastAdminsUpdate g"], unfolded Let_def, folded g2]
  have "member_names (g1\<lparr>gr_LastAdminsUpdate := gr_LastAdminsUpdate g\<rparr>) pk = member_names g1 pk" for pk
    by (simp add: member_names_def member_roles_def role_name_def)
  then have "member_names g2 pk = member_names g pk" for pk
    using ar [of pk] n1 filter_map_of [OF dist, of "role_name g" pk] by (simp add: member_names_def member_roles_def)
  moreover have "dom (map_of (gr_Members g2)) = fst ` set (gr_Members g)"
    using ar [of undefined] m1 by (auto simp: dom_def split: if_splits intro: rev_image_eqI)
  ultimately show ?thesis by (auto simp: dom_map_of_conv_image_fst)
qed

definition example_group :: Group where
  "example_group = Apply (PutUser [\<lparr>pr_PubKey = replicate 32 7, pr_RoleNames = [''king'']\<rparr>] '''' 5) (group_at ''wss://s'' ''g'')"

lemma example_key: "PubKeyFromHex std_ext (PubKey_Hex std_ext (replicate 32 7)) = Ret (replicate 32 7)"
proof -
  have "replicate 32 (7 :: byte) \<noteq> replicate 32 0" by code_simp
  then show ?thesis by (intro PubKeyFromHex_Hex) (simp_all add: wf32_def)
qed

lemma example_group_reach: "group_reach std_ext example_group"
proof -
  have "PrepareModerationAction std_ext (draft 9000 5 [[''p'', PubKey_Hex std_ext (replicate 32 7), ''king'']]) =
      Ret (PutUser [\<lparr>pr_PubKey = replicate 32 7, pr_RoleNames = [''king'']\<rparr>] '''' 5)"
    by (simp add: PrepareModerationAction_def prepare_put_user_def draft_def tags_FindAll_def example_key)
  then show ?thesis unfolding example_group_def by (rule group_reach.action [OF group_reach.start])
qed

lemma example_group_eval: "gr_Members example_group = [(replicate 32 7, [0])]" "member_names example_group (replicate 32 7) = [''king'']"
    "gr_LastMembersUpdate example_group = 5" "gr_LastAdminsUpdate example_group = 5"
  by (simp_all add: example_group_def put_target_def GetRoleByName_def group_at_def member_names_def member_roles_def role_name_def)

theorem membership_roundtrip_witness:
  "\<exists>e1 g1 e2 g2. MergeInMembersEvent std_ext (ToMembersEvent std_ext example_group) (group_at ''wss://r'' ''h'') = (e1, g1) \<and>
     MergeInAdminsEvent std_ext (ToAdminsEvent std_ext example_group) g1 = (e2, g2) \<and>
     member_names g2 (replicate 32 7) = [''king'']"
proof -
  obtain e1 g1 where 1: "MergeInMembersEvent std_ext (ToMembersEvent std_ext example_group) (group_at ''wss://r'' ''h'') = (e1, g1)"
    by fastforce
  obtain e2 g2 where 2: "MergeInAdminsEvent std_ext (ToAdminsEvent std_ext example_group) g1 = (e2, g2)" by fastforce
  have "replicate 32 (7 :: byte) \<noteq> replicate 32 0" by code_simp
  then have "keys_ok std_ext example_group" by (simp add: keys_ok_def example_group_eval wf32_def)
  from membership_roundtrip [OF hex_std_ext example_group_reach this _ _ 1 2] 1 2 show ?thesis
    by (auto simp: example_group_eval)
qed

lemma admins_tag_clock: "gr_LastAdminsUpdate (admins_tag x t g) = gr_LastAdminsUpdate g"
proof -
  have "gr_LastAdminsUpdate (add_roles m ns h) = gr_LastAdminsUpdate h" for m ns h
    by (induction m ns h rule: add_roles.induct) (auto simp: GetRoleByName_def split: option.splits prod.splits)
  then show ?thesis by (simp add: admins_tag_def split: outcome.split)
qed

lemma group_at_simps: "member_names (group_at r i) pk = []" "gr_LastAdminsUpdate (group_at r i) = 0"
  by (simp_all add: group_at_def member_names_def member_roles_def)

text \<open>Merging is not idempotent: an admins event that is received twice gives every admin its roles twice.\<close>
theorem admins_merge_repeats:
  assumes "hex_ext x" "group_reach x g" "wf32 pk" "ParsePubKey x pk" "gr_LastAdminsUpdate g \<le> w"
  shows "member_names (snd (MergeInAdminsEvent x (draft 39001 w [[''p'', PubKey_Hex x pk, role]])
      (snd (MergeInAdminsEvent x (draft 39001 w [[''p'', PubKey_Hex x pk, role]]) g)))) pk = member_names g pk @ [role, role]"
proof -
  have keys: "\<forall>(pk, ns) \<in> set [(pk, [role])]. wf32 pk \<and> ParsePubKey x pk \<and> ns \<noteq> []" "distinct (map fst [(pk, [role])])"
    using assms by auto
  have once: "member_names (snd (MergeInAdminsEvent x (draft 39001 w [[''p'', PubKey_Hex x pk, role]]) h)) pk =
      member_names h pk @ [role]" if "group_ok h" "gr_LastAdminsUpdate h \<le> w" for h
  proof -
    have "member_names (h\<lparr>gr_LastAdminsUpdate := w\<rparr>) pk = member_names h pk"
      by (simp add: member_names_def member_roles_def role_name_def)
    then show ?thesis
      using that admins_read [OF assms(1) keys group_ok_clock(2) [OF that(1)], of w pk]
      by (simp add: MergeInAdminsEvent_def merge_guard_def draft_def admin_line_def Let_def)
  qed
  have "gr_LastAdminsUpdate (snd (MergeInAdminsEvent x (draft 39001 w [[''p'', PubKey_Hex x pk, role]]) g)) = w"
    using assms(5) by (simp add: MergeInAdminsEvent_def merge_guard_def draft_def admins_tag_clock)
  then show ?thesis
    using once [OF reach_ok [OF assms(2)] assms(5)]
      once [OF merges_ok(2) [OF reach_ok [OF assms(2)], of x "draft 39001 w [[''p'', PubKey_Hex x pk, role]]"]]
    by simp
qed

theorem admins_merge_repeats_witness:
  "member_names (snd (MergeInAdminsEvent std_ext (draft 39001 9 [[''p'', PubKey_Hex std_ext (replicate 32 7), ''king'']])
      (snd (MergeInAdminsEvent std_ext (draft 39001 9 [[''p'', PubKey_Hex std_ext (replicate 32 7), ''king'']])
        (group_at ''wss://r'' ''g''))))) (replicate 32 7) = [''king'', ''king'']"
proof -
  have "replicate 32 (7 :: byte) \<noteq> replicate 32 0" by code_simp
  then show ?thesis
    using admins_merge_repeats [OF hex_std_ext group_reach.start, of "replicate 32 7" "''wss://r''" "''g''" 9 "''king''"]
    by (simp add: wf32_def group_at_simps)
qed

end
