(* ===== verification/BoltKeys.thy ===== *)
theory BoltKeys
  imports Store BetterBinary
begin

text \<open>
  The indexes of the bolt store, \<^verbatim>\<open>eventstore/boltdb\<close>: which keys an event is filed under
  (\<^verbatim>\<open>helpers.go\<close>), how a filter is turned into scans of one index with extra checks
  (\<^verbatim>\<open>query_planner.go\<close>) and the helpers of \<^verbatim>\<open>eventstore/internal\<close>.
\<close>

section \<open>Helpers of the stores\<close>

text \<open>The \<^verbatim>\<open>break\<close> of the first case leaves the switch only; the loop goes on.\<close>

definition narrowest_step :: "Filter \<Rightarrow> string \<times> string list \<Rightarrow> string \<times> string list option \<times> int
    \<Rightarrow> string \<times> string list option \<times> int" where
  "narrowest_step f kv best =
     (let (key, values) = kv; (tagKey, tagValues, goodness) = best in
      if key \<in> {''e'', ''E'', ''q''} then (key, Some values, 9)
      else if key \<in> {''a'', ''A'', ''i'', ''I'', ''g'', ''r''} then (key, Some values, 8)
      else if key = ''d'' then
        (if length (opt_list (fAuthors f)) \<noteq> 0 \<and> goodness < 7 then (key, Some values, 7)
         else if goodness < 4 then (key, Some values, 4) else best)
      else if key \<in> {''h'', ''t'', ''l'', ''k'', ''K''} then (if goodness < 6 then (key, Some values, 6) else best)
      else if key = ''p'' then (if goodness < 2 then (key, Some values, 2) else best)
      else if goodness = 0 then (key, Some values, goodness) else best)"

definition ChooseNarrowestTag :: "Filter \<Rightarrow> string \<times> string list option \<times> int" where
  "ChooseNarrowestTag f = fold (narrowest_step f) (fTags f) ('''', None, 0)"

definition CopyMapWithoutKey :: "('k \<times> 'v) list \<Rightarrow> 'k \<Rightarrow> ('k \<times> 'v) list" where
  "CopyMapWithoutKey m key = filter (\<lambda>(k, _). k \<noteq> key) m"

text \<open>\<open>pow_batch\<close> is the rounded-up quotient of floating-point powers.\<close>

definition BatchSizePerNumberOfQueries :: "(int \<Rightarrow> nat \<Rightarrow> int) \<Rightarrow> int \<Rightarrow> nat \<Rightarrow> int" where
  "BatchSizePerNumberOfQueries pow_batch totalFilterLimit numberOfQueries =
     (if numberOfQueries = 1 \<or> totalFilterLimit * int numberOfQueries < 50 then totalFilterLimit
      else max 4 (pow_batch totalFilterLimit numberOfQueries))"

definition SwapDelete :: "'a list \<Rightarrow> nat \<Rightarrow> 'a list" where
  "SwapDelete arr i = butlast (arr[i := last arr])"

lemma mset_SwapDelete: "i < length arr \<Longrightarrow> add_mset (arr ! i) (mset (SwapDelete arr i)) = mset arr"
proof -
  assume i: "i < length arr"
  then have ne: "arr \<noteq> []" by auto
  then have upd: "mset (arr[i := last arr]) = add_mset (last arr) (mset arr) - {#arr ! i#}"
    using mset_update [OF i] by (simp add: mset_update i add_mset_remove_trivial_If diff_union_swap nth_mem)
  have "arr[i := last arr] \<noteq> []" using ne by simp
  then have "mset (butlast (arr[i := last arr])) + {#last (arr[i := last arr])#} = mset (arr[i := last arr])"
    by (metis append_butlast_last_id mset_append mset_single_iff_right union_code mset.simps(1) mset.simps(2) add.commute)
  moreover have "last (arr[i := last arr]) = last arr" using ne i
    by (simp add: last_list_update)
  ultimately show ?thesis using upd i by (simp add: SwapDelete_def)
qed

section \<open>Buckets\<close>

datatype bucket = SettingsStore | RawEventStore | IndexCreatedAt | IndexKind | IndexPubkey | IndexPubkeyKind
  | IndexTag | IndexTag32 | IndexTagAddr | HllCache

text \<open>What comes from outside: the codecs and the hash.\<close>

record bolt_env =
  be_ext :: ext
  be_md5 :: "bytes \<Rightarrow> bytes"
  be_pow :: "int \<Rightarrow> nat \<Rightarrow> int"

definition id_ptr :: "ID \<Rightarrow> bytes" where
  "id_ptr i = take 8 (drop 16 i)"

definition addr_prefix :: "bolt_env \<Rightarrow> byte \<Rightarrow> string \<Rightarrow> bytes option" where
  "addr_prefix B letter tagValue =
     (case strings_Split tagValue (CHR '':'') of
        [s0, s1, s2] \<Rightarrow>
          if length s1 = 64 then
            (case xhex_Decode (be_ext B) (take 16 s1) of
               None \<Rightarrow> None
             | Some pk \<Rightarrow>
                 (let (kind, ok) = strconv_ParseUint16 s0 in
                  if ok then Some ([letter, word_of_int (kind div 256), word_of_int kind] @ pk @
                    take 30 (bytes_of s2 @ replicate 30 0))
                  else None))
          else None
      | _ \<Rightarrow> None)"

text \<open>The key has room for the date and the id pointer at the end.\<close>

definition tag_index_key :: "bolt_env \<Rightarrow> byte \<Rightarrow> string \<Rightarrow> bucket \<times> bytes" where
  "tag_index_key B letter tagValue =
     (case (if length tagValue = 64 then xhex_Decode (be_ext B) (take 16 tagValue) else None) of
        Some bs \<Rightarrow> (IndexTag32, letter # bs @ replicate 12 0)
      | None \<Rightarrow>
          (case addr_prefix B letter tagValue of
             Some pre \<Rightarrow> (IndexTagAddr, pre @ replicate 12 0)
           | None \<Rightarrow> (IndexTag, letter # be_md5 B (bytes_of tagValue) @ replicate 12 0)))"

text \<open>\<^verbatim>\<open>tagName[0]\<close> panics on an empty name.\<close>

definition getTagIndexPrefix :: "bolt_env \<Rightarrow> string \<Rightarrow> string \<Rightarrow> (unit, bucket \<times> bytes) outcome" where
  "getTagIndexPrefix B tagName tagValue =
     (case tagName of [] \<Rightarrow> Panic | c # _ \<Rightarrow> Ret (tag_index_key B (byte_of_char c) tagValue))"

definition stamp :: "event \<Rightarrow> bytes" where
  "stamp evt = putBE 4 (uint32 (evCreatedAt evt)) @ id_ptr (evID evt)"

definition indexable :: "Tag \<Rightarrow> bool" where
  "indexable tag \<longleftrightarrow> \<not> (length tag < 2 \<or> length (tag ! 0) \<noteq> 1 \<or> length (tag ! 1) = 0 \<or> length (tag ! 1) > 100)"

definition first_such :: "Tags \<Rightarrow> nat \<Rightarrow> bool" where
  "first_such tags i \<longleftrightarrow>
     list_all (\<lambda>t. \<not> (length t \<ge> 2 \<and> t ! 0 = tags ! i ! 0 \<and> t ! 1 = tags ! i ! 1)) (take i tags)"

definition tag_key :: "bolt_env \<Rightarrow> event \<Rightarrow> Tag \<Rightarrow> bucket \<times> bytes" where
  "tag_key B evt tag =
     (let (bucket, k) = tag_index_key B (byte_of_char (hd (tag ! 0))) (tag ! 1)
      in (bucket, take (length k - 12) k @ stamp evt))"

definition getIndexKeysForEvent :: "bolt_env \<Rightarrow> event \<Rightarrow> (bucket \<times> bytes) list" where
  "getIndexKeysForEvent B evt =
     [(IndexPubkey, take 8 (evPubKey evt) @ stamp evt),
      (IndexKind, putBE 2 (unat (evKind evt)) @ stamp evt),
      (IndexPubkeyKind, take 8 (evPubKey evt) @ putBE 2 (unat (evKind evt)) @ stamp evt)] @
     map (\<lambda>i. tag_key B evt (evTags evt ! i))
       (filter (\<lambda>i. indexable (evTags evt ! i) \<and> first_such (evTags evt) i) [0..<length (evTags evt)]) @
     [(IndexCreatedAt, stamp evt)]"

section \<open>Query plans\<close>

record query =
  q_bucket :: bucket
  q_prefix :: bytes
  q_startingPoint :: bytes

record plan =
  pl_queries :: "query list"
  pl_extraAuthors :: "PubKey list option"
  pl_extraKinds :: "Kind list option"
  pl_extraTagKey :: string
  pl_extraTagValues :: "string list option"
  pl_since :: nat

text \<open>The deferred function gives every query its starting point.\<close>

definition plan_until :: "Filter \<Rightarrow> nat" where
  "plan_until f =
     (if fUntil f \<noteq> 0 \<and> uint32 (fUntil f) < 4294967295 then uint32 (fUntil f) + 1 else 4294967295)"

definition mk_query :: "Filter \<Rightarrow> bucket \<times> bytes \<Rightarrow> query" where
  "mk_query f bp =
     \<lparr>q_bucket = fst bp, q_prefix = snd bp, q_startingPoint = snd bp @ putBE 4 (plan_until f)\<rparr>"

definition plan_since :: "Filter \<Rightarrow> nat" where
  "plan_since f = (if fSince f \<noteq> 0 then uint32 (fSince f) else 0)"

fun tag_prefixes :: "bolt_env \<Rightarrow> string \<Rightarrow> string list \<Rightarrow> (unit, (bucket \<times> bytes) list) outcome" where
  "tag_prefixes B tagKey [] = Ret []"
| "tag_prefixes B tagKey (v # vs) =
     obind (getTagIndexPrefix B tagKey v) (\<lambda>(bucket, k).
     obind (tag_prefixes B tagKey vs) (\<lambda>ps.
     Ret ((bucket, take (length k - 12) k) # ps)))"

text \<open>The part after the label \<^verbatim>\<open>pubkeyMatching\<close>.\<close>

definition plan_without_tag :: "Filter \<Rightarrow> plan" where
  "plan_without_tag f =
     (let (tagKey, tagValues, _) = ChooseNarrowestTag f;
          authors = opt_list (fAuthors f); kinds = opt_list (fKinds f);
          mk = (\<lambda>bps tk tv. \<lparr>pl_queries = map (mk_query f) bps, pl_extraAuthors = None, pl_extraKinds = None,
             pl_extraTagKey = tk, pl_extraTagValues = tv, pl_since = plan_since f\<rparr>)
      in if length authors > 0 then
           (if length kinds = 0 then mk (map (\<lambda>pk. (IndexPubkey, take 8 pk)) authors) tagKey tagValues
            else mk (concat (map (\<lambda>pk. map (\<lambda>kind. (IndexPubkeyKind, take 8 pk @ putBE 2 (unat kind))) kinds) authors))
              tagKey tagValues)
         else if length kinds > 0 then mk (map (\<lambda>kind. (IndexKind, putBE 2 (unat kind))) kinds) tagKey tagValues
         else mk [(IndexCreatedAt, [])] '''' None)"

definition prepareQueries :: "bolt_env \<Rightarrow> Filter \<Rightarrow> (unit, plan) outcome" where
  "prepareQueries B f =
     (if length (fTags f) > 0 then
        (let (tagKey, tagValues, goodness) = ChooseNarrowestTag f in
         if goodness < 2 \<and> (length (opt_list (fAuthors f)) > 0 \<or> length (opt_list (fKinds f)) > 0)
         then Ret (plan_without_tag f)
         else
           obind (tag_prefixes B tagKey (opt_list tagValues)) (\<lambda>bps.
           let tags = CopyMapWithoutKey (fTags f) tagKey;
               (extraKey, extraValues, _) =
                 (if length tags > 0 then ChooseNarrowestTag (f\<lparr>fTags := tags\<rparr>) else ('''', None, 0))
           in Ret \<lparr>pl_queries = map (mk_query f) bps, pl_extraAuthors = fAuthors f, pl_extraKinds = fKinds f,
                pl_extraTagKey = extraKey, pl_extraTagValues = extraValues, pl_since = plan_since f\<rparr>))
      else Ret (plan_without_tag f))"

end
