(* ===== verification/Bolt.thy ===== *)
theory Bolt
  imports BoltKeys
begin

text \<open>
  The bolt store, \<^verbatim>\<open>eventstore/boltdb\<close>: saving and deleting events with their index entries,
  and queries that merge the scans of several index ranges.  The key-value database \<^verbatim>\<open>bbolt\<close> is not part
  of the repository; it is the record \<open>bolt_db\<close>, whose laws are the locale \<open>bolt_buckets\<close>.
\<close>

section \<open>The database\<close>

text \<open>
  \<open>db_Put\<close> answers \<open>None\<close> when it fails.  A cursor stands on a key or, past the last one, nowhere:
  \<open>db_Seek\<close> and \<open>db_Prev\<close> answer the key it moves to.
\<close>

record 'd bolt_db =
  db_Get :: "'d \<Rightarrow> bucket \<Rightarrow> bytes \<Rightarrow> bytes option"
  db_Put :: "'d \<Rightarrow> bucket \<Rightarrow> bytes \<Rightarrow> bytes \<Rightarrow> 'd option"
  db_Delete :: "'d \<Rightarrow> bucket \<Rightarrow> bytes \<Rightarrow> 'd option"
  db_Seek :: "'d \<Rightarrow> bucket \<Rightarrow> bytes \<Rightarrow> bytes option"
  db_Prev :: "'d \<Rightarrow> bucket \<Rightarrow> bytes option \<Rightarrow> bytes option"

text \<open>A transaction that ends with an error leaves the database as it was.\<close>

definition Update :: "'d \<Rightarrow> ('e option \<times> 'd) \<Rightarrow> 'e option \<times> 'd" where
  "Update d r = (case r of (Some e, _) \<Rightarrow> (Some e, d) | (None, d') \<Rightarrow> (None, d'))"

datatype bolt_error = BoltDup | BoltMarshal bb_error | BoltPut | BoltDelete | BoltUnmarshal bb_error | BoltFailedDelete

section \<open>Saving and deleting\<close>

fun put_keys :: "'d bolt_db \<Rightarrow> (bucket \<times> bytes) list \<Rightarrow> 'd \<Rightarrow> bolt_error option \<times> 'd" where
  "put_keys D [] d = (None, d)"
| "put_keys D ((bucket, fullkey) # ks) d =
     (case db_Put D d bucket fullkey [] of None \<Rightarrow> (Some BoltPut, d) | Some d \<Rightarrow> put_keys D ks d)"

text \<open>\<^verbatim>\<open>bolt_save\<close>: a panic of the encoder would abort the transaction too.\<close>

definition bolt_save :: "'d bolt_db \<Rightarrow> bolt_env \<Rightarrow> event \<Rightarrow> 'd \<Rightarrow> bolt_error option \<times> 'd" where
  "bolt_save D B evt d =
     (case Marshal evt (replicate (Measure evt) 0) of
        Ret bin \<Rightarrow>
          (case db_Put D d RawEventStore (id_ptr (evID evt)) bin of
             None \<Rightarrow> (Some BoltPut, d)
           | Some d \<Rightarrow> put_keys D (getIndexKeysForEvent B evt) d)
      | Fail e \<Rightarrow> (Some (BoltMarshal e), d)
      | Panic \<Rightarrow> (Some (BoltMarshal DecodePanic), d))"

text \<open>Without \<^verbatim>\<open>EnableHLLCacheFor\<close>.\<close>

definition bolt_SaveEvent :: "'d bolt_db \<Rightarrow> bolt_env \<Rightarrow> event \<Rightarrow> 'd \<Rightarrow> bolt_error option \<times> 'd" where
  "bolt_SaveEvent D B evt d =
     Update d
       (case db_Get D d RawEventStore (id_ptr (evID evt)) of
          Some bin \<Rightarrow> (Some BoltDup, d)
        | None \<Rightarrow> bolt_save D B evt d)"

fun delete_keys :: "'d bolt_db \<Rightarrow> (bucket \<times> bytes) list \<Rightarrow> 'd \<Rightarrow> bolt_error option \<times> 'd" where
  "delete_keys D [] d = (None, d)"
| "delete_keys D ((bucket, fullkey) # ks) d =
     (case db_Delete D d bucket fullkey of None \<Rightarrow> (Some BoltDelete, d) | Some d \<Rightarrow> delete_keys D ks d)"

definition bolt_delete :: "'d bolt_db \<Rightarrow> bolt_env \<Rightarrow> ID \<Rightarrow> 'd \<Rightarrow> bolt_error option \<times> 'd" where
  "bolt_delete D B i d =
     (case db_Get D d RawEventStore (id_ptr i) of
        None \<Rightarrow> (None, d)
      | Some bin \<Rightarrow>
          (case Unmarshal bin of
             Ret evt \<Rightarrow>
               (case delete_keys D (getIndexKeysForEvent B evt) d of
                  (Some e, d) \<Rightarrow> (Some e, d)
                | (None, d) \<Rightarrow>
                    (case db_Delete D d RawEventStore (id_ptr i) of
                       None \<Rightarrow> (Some BoltDelete, d)
                     | Some d \<Rightarrow> (None, d)))
           | Fail e \<Rightarrow> (Some (BoltUnmarshal e), d)
           | Panic \<Rightarrow> (Some (BoltUnmarshal DecodePanic), d)))"

definition bolt_DeleteEvent :: "'d bolt_db \<Rightarrow> bolt_env \<Rightarrow> ID \<Rightarrow> 'd \<Rightarrow> bolt_error option \<times> 'd" where
  "bolt_DeleteEvent D B i d = Update d (bolt_delete D B i d)"

section \<open>Iterators\<close>

text \<open>
  The two slices of pending results are one list of pairs of a date and an id pointer; \<open>it_pos\<close> is where
  the cursor stands.  A cursor that cannot go back stays where it is.
\<close>

record iterator =
  it_query :: query
  it_pos :: "bytes option"
  it_key :: bytes
  it_currIdPtr :: bytes
  it_last :: nat
  it_exhausted :: bool
  it_pending :: "(nat \<times> bytes) list"

definition newIterator :: "query \<Rightarrow> iterator" where
  "newIterator q = \<lparr>it_query = q, it_pos = None, it_key = [], it_currIdPtr = replicate 8 0, it_last = 0,
     it_exhausted = False, it_pending = []\<rparr>"

definition it_stand :: "bytes option \<Rightarrow> iterator \<Rightarrow> iterator" where
  "it_stand fullkey it =
     (case fullkey of
        None \<Rightarrow> it\<lparr>it_exhausted := True\<rparr>
      | Some k \<Rightarrow>
          it\<lparr>it_pos := Some k, it_key := take (length k - 8) k, it_currIdPtr := drop (length k - 8) k\<rparr>)"

definition it_seek :: "'d bolt_db \<Rightarrow> 'd \<Rightarrow> bytes \<Rightarrow> iterator \<Rightarrow> iterator" where
  "it_seek D d key it =
     (let bucket = q_bucket (it_query it); fullkey = db_Seek D d bucket key in
      if (case fullkey of None \<Rightarrow> True | Some k \<Rightarrow> bytes_Compare k key = 1)
      then it_stand (db_Prev D d bucket fullkey) (it\<lparr>it_pos := fullkey\<rparr>)
      else it_stand fullkey it)"

definition it_next :: "'d bolt_db \<Rightarrow> 'd \<Rightarrow> iterator \<Rightarrow> iterator" where
  "it_next D d it = it_stand (db_Prev D d (q_bucket (it_query it)) (it_pos it)) it"

definition bytes_HasPrefix :: "bytes \<Rightarrow> bytes \<Rightarrow> bool" where
  "bytes_HasPrefix s p \<longleftrightarrow> take (length p) s = p"

definition key_time :: "bytes \<Rightarrow> nat" where
  "key_time k = getBE (drop (length k - 4) k)"

fun it_pull :: "'d bolt_db \<Rightarrow> 'd \<Rightarrow> nat \<Rightarrow> nat \<Rightarrow> iterator \<Rightarrow> iterator" where
  "it_pull D d 0 since it = it"
| "it_pull D d (Suc n) since it =
     (if \<not> bytes_HasPrefix (it_key it) (q_prefix (it_query it)) then it\<lparr>it_exhausted := True\<rparr>
      else
        (let createdAt = key_time (it_key it) in
         if createdAt < since then it\<lparr>it_exhausted := True\<rparr>
         else
           (let it = it\<lparr>it_pending := it_pending it @ [(createdAt, it_currIdPtr it)], it_last := createdAt\<rparr>;
                it = it_next D d it
            in if it_exhausted it then it else it_pull D d n since it)))"

section \<open>The iterators with the latest last dates\<close>

text \<open>\<^verbatim>\<open>its[i], its[j] = its[j], its[i]\<close>\<close>

definition swap :: "nat \<Rightarrow> nat \<Rightarrow> 'a list \<Rightarrow> 'a list" where
  "swap i j xs = xs[i := xs ! j, j := xs ! i]"

definition last_at :: "iterator list \<Rightarrow> nat \<Rightarrow> nat" where
  "last_at its i = it_last (its ! i)"

fun sink :: "nat \<Rightarrow> iterator list \<Rightarrow> iterator list" where
  "sink 0 its = its"
| "sink (Suc j) its =
     (if last_at its (Suc j) > last_at its j then sink j (swap (Suc j) j its) else its)"

definition insertion_range :: "nat \<Rightarrow> nat \<Rightarrow> iterator list \<Rightarrow> iterator list" where
  "insertion_range left right its = fold sink [Suc left..<Suc right] its"

function up_scan :: "iterator list \<Rightarrow> nat \<Rightarrow> nat \<Rightarrow> nat \<Rightarrow> nat" where
  "up_scan its left right ll =
     (if ll \<le> right \<and> last_at its ll > last_at its left then up_scan its left right (ll + 1) else ll)"
  by pat_completeness auto
termination by (relation "measure (\<lambda>(its, left, right, ll). Suc right - ll)") auto

fun down_scan :: "iterator list \<Rightarrow> nat \<Rightarrow> nat \<Rightarrow> nat" where
  "down_scan its left 0 = 0"
| "down_scan its left (Suc rr) =
     (if Suc rr \<ge> left \<and> last_at its left > last_at its (Suc rr) then down_scan its left rr else Suc rr)"

declare up_scan.simps [simp del]

lemma up_scan_ge: "ll \<le> up_scan its left right ll"
proof (induction its left right ll rule: up_scan.induct)
  case (1 its left right ll)
  then show ?case by (subst up_scan.simps) auto
qed

lemma down_scan_le: "down_scan its left rr \<le> rr"
  by (induction its left rr rule: down_scan.induct) auto

text \<open>The partition loop; the counter \<^verbatim>\<open>rr\<close> stops at the pivot's place and does not pass zero.\<close>

function partition_loop :: "iterator list \<Rightarrow> nat \<Rightarrow> nat \<Rightarrow> nat \<Rightarrow> nat \<Rightarrow> iterator list \<times> nat" where
  "partition_loop its left right ll rr =
     (if ll \<le> rr then
        (let ll = up_scan its left right ll; rr = down_scan its left rr in
         if ll \<le> rr then partition_loop (swap ll rr its) left right (ll + 1) (rr - 1)
         else (its, rr))
      else (its, rr))"
  by pat_completeness auto
termination
proof (relation "measure (\<lambda>(its, left, right, ll, rr). Suc rr - ll)")
  fix its left right ll rr x y
  assume "ll \<le> rr" "x = up_scan its left right ll" "y = down_scan its left rr" "x \<le> y"
  then show "((swap x y its, left, right, x + 1, y - 1), its, left, right, ll, rr)
      \<in> measure (\<lambda>(its, left, right, ll, rr). Suc rr - ll)"
    using up_scan_ge [of ll its left right] down_scan_le [of its left rr] by auto
qed simp

declare partition_loop.simps [simp del]

definition order_pair :: "nat \<Rightarrow> nat \<Rightarrow> iterator list \<Rightarrow> iterator list" where
  "order_pair a b its = (if last_at its a > last_at its b then swap a b its else its)"

definition partition_range :: "nat \<Rightarrow> nat \<Rightarrow> iterator list \<Rightarrow> iterator list \<times> nat" where
  "partition_range left right its =
     (let p = left + (right - left) div 2;
          its = order_pair right left its;
          its = order_pair p left its;
          its = order_pair right p its;
          its = swap left p its;
          (its, rr) = partition_loop its left right (left + 1) right
      in (swap left rr its, rr))"

text \<open>The loop narrows the range; \<open>fuel\<close> is its length at the start, and it ends before the fuel does.\<close>

fun quickselect_loop :: "nat \<Rightarrow> nat \<Rightarrow> nat \<Rightarrow> nat \<Rightarrow> iterator list \<Rightarrow> iterator list" where
  "quickselect_loop 0 k left right its = its"
| "quickselect_loop (Suc fuel) k left right its =
     (if right - left \<le> 20 then insertion_range left right its
      else
        (let (its, p) = partition_range left right its in
         if k = p then its
         else if k < p then quickselect_loop fuel k left (p - 1) its
         else quickselect_loop fuel k (p + 1) right its))"

definition quickselect :: "nat \<Rightarrow> iterator list \<Rightarrow> iterator list" where
  "quickselect k its =
     (if length its = 0 \<or> k \<ge> length its then its else quickselect_loop (length its) k 0 (length its - 1) its)"

definition threshold :: "nat \<Rightarrow> iterator list \<Rightarrow> nat" where
  "threshold k its =
     fold (\<lambda>i highest. if last_at its i > highest then last_at its i else highest) [1..<k] (last_at its 0)"

section \<open>Queries\<close>

text \<open>
  What is done with one result: \<open>None\<close> when it is passed over.  The fields are read from the stored bytes; on a value
  shorter than the header of an event, which no operation stores, the code would panic where this passes it over.
\<close>

definition fetch :: "'d bolt_db \<Rightarrow> 'd \<Rightarrow> plan \<Rightarrow> bytes \<Rightarrow> event option" where
  "fetch D d pl idPtr =
     (case db_Get D d RawEventStore idPtr of
        None \<Rightarrow> None
      | Some bin \<Rightarrow>
          if (case pl_extraAuthors pl of Some as \<Rightarrow> \<not> (\<exists>pk \<in> set as. GetPubKey bin = Ret pk) | None \<Rightarrow> False) then None
          else if (case pl_extraKinds pl of Some ks \<Rightarrow> \<not> (\<exists>k \<in> set ks. GetKind bin = Ret k) | None \<Rightarrow> False) then None
          else
            (case Unmarshal bin of
               Ret event \<Rightarrow>
                 (case pl_extraTagValues pl of
                    Some vs \<Rightarrow> if \<not> ContainsAny (evTags event) (pl_extraTagKey pl) vs then None else Some event
                  | None \<Rightarrow> Some event)
             | _ \<Rightarrow> None))"

text \<open>The loop over the pending results of one iterator: those not below the threshold are swap-deleted and fetched.\<close>

function emit_pending :: "'d bolt_db \<Rightarrow> 'd \<Rightarrow> plan \<Rightarrow> nat \<Rightarrow> nat \<Rightarrow> (nat \<times> bytes) list \<Rightarrow> event list
    \<Rightarrow> (nat \<times> bytes) list \<times> event list" where
  "emit_pending D d pl thr t pending tmp =
     (if t < length pending then
        (if fst (pending ! t) \<ge> thr then
           emit_pending D d pl thr t (SwapDelete pending t)
             (case fetch D d pl (snd (pending ! t)) of None \<Rightarrow> tmp | Some e \<Rightarrow> tmp @ [e])
         else emit_pending D d pl thr (t + 1) pending tmp)
      else (pending, tmp))"
  by pat_completeness auto
termination
  by (relation "measures [\<lambda>(D, d, pl, thr, t, pending, tmp). length pending,
        \<lambda>(D, d, pl, thr, t, pending, tmp). length pending - t]") (auto simp: SwapDelete_def)

declare emit_pending.simps [simp del]

fun emit_all :: "'d bolt_db \<Rightarrow> 'd \<Rightarrow> plan \<Rightarrow> nat \<Rightarrow> iterator list \<Rightarrow> event list \<Rightarrow> iterator list \<times> event list" where
  "emit_all D d pl thr [] tmp = ([], tmp)"
| "emit_all D d pl thr (it # its) tmp =
     (let (pending, tmp) = emit_pending D d pl thr 0 (it_pending it) tmp;
          (its, tmp) = emit_all D d pl thr its tmp
      in (it\<lparr>it_pending := pending\<rparr> # its, tmp))"

text \<open>\<^verbatim>\<open>for i := 0; i < min(len(iterators), n); i++\<close>: an exhausted iterator without results is swap-deleted.\<close>

function pull_more :: "'d bolt_db \<Rightarrow> 'd \<Rightarrow> nat \<Rightarrow> nat \<Rightarrow> nat \<Rightarrow> nat \<Rightarrow> iterator list \<Rightarrow> iterator list" where
  "pull_more D d batch since n i its =
     (if i < min (length its) n then
        (if it_exhausted (its ! i) then
           (if length (it_pending (its ! i)) = 0 then pull_more D d batch since n i (SwapDelete its i)
            else pull_more D d batch since n (i + 1) its)
         else pull_more D d batch since n (i + 1) (its[i := it_pull D d batch since (its ! i)]))
      else its)"
  by pat_completeness auto
termination
  by (relation "measures [\<lambda>(D, d, batch, since, n, i, its). length its, \<lambda>(D, d, batch, since, n, i, its). length its - i]")
     (auto simp: SwapDelete_def)

declare pull_more.simps [simp del]

text \<open>Yielding until the limit: the events given out, how many so far, and whether the limit was met.\<close>

fun yield_until :: "int \<Rightarrow> event list \<Rightarrow> int \<Rightarrow> event list \<times> int \<times> bool" where
  "yield_until limit [] emitted = ([], emitted, False)"
| "yield_until limit (e # es) emitted =
     (if emitted + 1 = limit then ([e], emitted + 1, True)
      else let (out, emitted, stop) = yield_until limit es (emitted + 1) in (e # out, emitted, stop))"

text \<open>One turn of the loop over the iterators.\<close>

definition bolt_round :: "'d bolt_db \<Rightarrow> 'd \<Rightarrow> plan \<Rightarrow> nat \<Rightarrow> nat \<Rightarrow> iterator list \<Rightarrow> iterator list \<times> event list" where
  "bolt_round D d pl batch n its =
     (let k = min n (length its); its = quickselect k its; thr = threshold k its;
          (its, tmp) = emit_all D d pl thr its []
      in (its, slices_SortFunc CompareEventReverse tmp))"

text \<open>The loop may run forever, hence the option.\<close>

partial_function (option) bolt_loop :: "'d bolt_db \<Rightarrow> 'd \<Rightarrow> plan \<Rightarrow> int \<Rightarrow> nat \<Rightarrow> nat \<Rightarrow> int \<Rightarrow> iterator list
    \<Rightarrow> event list option" where
  "bolt_loop D d pl limit batch n emitted its =
     (if its = [] then Some []
      else
        (let (its, tmp) = bolt_round D d pl batch n its; (out, emitted, stop) = yield_until limit tmp emitted in
         if stop then Some out
         else
           Option.bind (bolt_loop D d pl limit batch n emitted (pull_more D d batch (pl_since pl) n 0 its))
             (\<lambda>rest. Some (out @ rest))))"

definition start_iterators :: "'d bolt_db \<Rightarrow> 'd \<Rightarrow> plan \<Rightarrow> iterator list" where
  "start_iterators D d pl =
     filter (\<lambda>it. \<not> it_exhausted it) (map (\<lambda>q. it_seek D d (q_startingPoint q) (newIterator q)) (pl_queries pl))"

definition bolt_run :: "'d bolt_db \<Rightarrow> bolt_env \<Rightarrow> 'd \<Rightarrow> plan \<Rightarrow> int \<Rightarrow> event list option" where
  "bolt_run D B d pl limit =
     (let its = start_iterators D d pl;
          batch = nat (BatchSizePerNumberOfQueries (be_pow B) limit (length (pl_queries pl)));
          its = map (it_pull D d batch (pl_since pl)) its;
          n = max 1 ((length its + 11) div 12)
      in bolt_loop D d pl limit batch n 0 its)"

text \<open>
  The outer option is an endless loop, \<open>Panic\<close> a query with an empty tag name or a negative batch, for which the slice of
  results cannot be made.  The consumer takes every event it is given.
\<close>

definition bolt_query :: "'d bolt_db \<Rightarrow> bolt_env \<Rightarrow> 'd \<Rightarrow> Filter \<Rightarrow> int \<Rightarrow> (unit, event list) outcome option" where
  "bolt_query D B d f limit =
     (case prepareQueries B f of
        Ret pl \<Rightarrow>
          if BatchSizePerNumberOfQueries (be_pow B) limit (length (pl_queries pl)) < 0 then Some Panic
          else map_option Ret (bolt_run D B d pl limit)
      | Fail e \<Rightarrow> Some (Fail e)
      | Panic \<Rightarrow> Some Panic)"

fun queryByIds :: "'d bolt_db \<Rightarrow> 'd \<Rightarrow> ID list \<Rightarrow> event list" where
  "queryByIds D d [] = []"
| "queryByIds D d (i # ids) =
     (case db_Get D d RawEventStore (id_ptr i) of
        None \<Rightarrow> queryByIds D d ids
      | Some bin \<Rightarrow>
          (case Unmarshal bin of Ret event \<Rightarrow> event # queryByIds D d ids | _ \<Rightarrow> queryByIds D d ids))"

definition bolt_QueryEvents :: "'d bolt_db \<Rightarrow> bolt_env \<Rightarrow> 'd \<Rightarrow> Filter \<Rightarrow> int \<Rightarrow> (unit, event list) outcome option" where
  "bolt_QueryEvents D B d f maxLimit =
     (case fIDs f of
        Some ids \<Rightarrow> Some (Ret (queryByIds D d ids))
      | None \<Rightarrow>
          if fSearch f \<noteq> '''' then Some (Ret [])
          else
            (let tlimit = GetTheoreticalLimit f in
             if tlimit = 0 then Some (Ret [])
             else bolt_query D B d f (if tlimit < maxLimit then tlimit else maxLimit)))"

end
