(* ===== verification/BoltSelect.thy ===== *)
theory BoltSelect
  imports Bolt
begin

text \<open>
  The quickselect of the bolt query (\<^verbatim>\<open>eventstore/boltdb/helpers.go\<close>) moves the iterators with the
  latest last dates to the front, and only exchanges iterators.  It follows that the threshold is the latest of
  all last dates.
\<close>

section \<open>Exchanges within a range\<close>

inductive shuffled :: "nat \<Rightarrow> nat \<Rightarrow> 'a list \<Rightarrow> 'a list \<Rightarrow> bool" for l r where
  same: "shuffled l r xs xs"
| exchange: "shuffled l r xs ys \<Longrightarrow> l \<le> i \<Longrightarrow> i \<le> r \<Longrightarrow> l \<le> j \<Longrightarrow> j \<le> r \<Longrightarrow> shuffled l r xs (swap i j ys)"

lemma length_swap [simp]: "length (swap i j xs) = length xs"
  by (simp add: swap_def)

lemma mset_swap [simp]: "i < length xs \<Longrightarrow> j < length xs \<Longrightarrow> mset (swap i j xs) = mset xs"
  unfolding swap_def by (rule mset_swap)

lemma nth_swap: "i < length xs \<Longrightarrow> j < length xs \<Longrightarrow> m < length xs \<Longrightarrow>
    swap i j xs ! m = (if m = j then xs ! i else if m = i then xs ! j else xs ! m)"
  by (simp add: swap_def nth_list_update)

lemma shuffled_length: "shuffled l r xs ys \<Longrightarrow> length ys = length xs"
  by (induction rule: shuffled.induct) simp_all

lemma shuffled_mset: "shuffled l r xs ys \<Longrightarrow> r < length xs \<Longrightarrow> mset ys = mset xs"
  by (induction rule: shuffled.induct) (auto dest: shuffled_length)

lemma shuffled_trans: "shuffled l r ys zs \<Longrightarrow> shuffled l r xs ys \<Longrightarrow> shuffled l r xs zs"
  by (induction rule: shuffled.induct) (auto intro: shuffled.exchange)

lemma shuffled_mono: "shuffled l r xs ys \<Longrightarrow> l' \<le> l \<Longrightarrow> r \<le> r' \<Longrightarrow> shuffled l' r' xs ys"
  by (induction rule: shuffled.induct) (auto intro: shuffled.intros)

lemma shuffled_swap: "l \<le> i \<Longrightarrow> i \<le> r \<Longrightarrow> l \<le> j \<Longrightarrow> j \<le> r \<Longrightarrow> shuffled l r xs (swap i j xs)"
  by (rule shuffled.exchange [OF shuffled.same])

lemma shuffled_outside: "shuffled l r xs ys \<Longrightarrow> r < length xs \<Longrightarrow> m < length xs \<Longrightarrow> m < l \<or> r < m \<Longrightarrow> ys ! m = xs ! m"
  by (induction rule: shuffled.induct) (auto simp: nth_swap dest: shuffled_length)

text \<open>The iterators before a place are at least as late as those from it on.\<close>

definition parted :: "iterator list \<Rightarrow> nat \<Rightarrow> bool" where
  "parted its m \<longleftrightarrow> (\<forall>i j. i < m \<longrightarrow> m \<le> j \<longrightarrow> j < length its \<longrightarrow> last_at its j \<le> last_at its i)"

lemma last_swap: "i < length its \<Longrightarrow> j < length its \<Longrightarrow> m < length its \<Longrightarrow>
    last_at (swap i j its) m = (if m = j then last_at its i else if m = i then last_at its j else last_at its m)"
  by (simp add: last_at_def nth_swap)

lemma parted_swap:
  assumes "parted its m" "i < length its" "j < length its" "i < m \<longleftrightarrow> j < m"
  shows "parted (swap i j its) m"
  unfolding parted_def
proof (intro allI impI)
  fix a b assume ab: "a < m" "m \<le> b" "b < length (swap i j its)"
  have "a < length its" using ab by simp
  then show "last_at (swap i j its) b \<le> last_at (swap i j its) a"
    using assms ab unfolding parted_def by (auto simp: last_swap)
qed

lemma shuffled_parted: "shuffled l r its its' \<Longrightarrow> r < length its \<Longrightarrow> m \<le> l \<or> r < m \<Longrightarrow> parted its m \<Longrightarrow> parted its' m"
proof (induction rule: shuffled.induct)
  case (exchange xs ys i j)
  have "parted ys m" using exchange by blast
  then show ?case using exchange.hyps exchange.prems by (intro parted_swap) (auto dest!: shuffled_length)
qed

section \<open>Small ranges\<close>

definition descending :: "iterator list \<Rightarrow> nat \<Rightarrow> nat \<Rightarrow> bool" where
  "descending its l r \<longleftrightarrow> (\<forall>i j. l \<le> i \<longrightarrow> i < j \<longrightarrow> j \<le> r \<longrightarrow> last_at its j \<le> last_at its i)"

text \<open>Sinking stops at the left end, because what stands before it is at least as late.\<close>

lemma parted_left: "parted its l \<Longrightarrow> 0 < l \<Longrightarrow> l < length its \<Longrightarrow> last_at its l \<le> last_at its (l - 1)"
  by (simp add: parted_def)

lemma sink_shuffled:
  assumes "l \<le> j" "j < length its" "parted its l"
  shows "shuffled l j its (sink j its)"
  using assms
proof (induction j arbitrary: its)
  case 0
  then show ?case by (simp add: shuffled.same)
next
  case (Suc j)
  show ?case
  proof (cases "last_at its (Suc j) > last_at its j")
    case True
    then have l: "l \<le> j" using Suc.prems parted_left [of its l] by (cases "l = Suc j") auto
    have one: "shuffled l (Suc j) its (swap (Suc j) j its)" using l by (intro shuffled_swap) auto
    have "shuffled l j (swap (Suc j) j its) (sink j (swap (Suc j) j its))"
      using Suc.prems l by (intro Suc.IH) (auto intro: parted_swap)
    from shuffled_trans [OF shuffled_mono [OF this, of l "Suc j"] one] show ?thesis using True by simp
  qed (simp add: shuffled.same)
qed

text \<open>The range is descending but for the iterator at one place, which may be too late.\<close>

definition descending_but :: "iterator list \<Rightarrow> nat \<Rightarrow> nat \<Rightarrow> nat \<Rightarrow> bool" where
  "descending_but its l r j \<longleftrightarrow> (\<forall>a b. l \<le> a \<longrightarrow> a < b \<longrightarrow> b \<le> r \<longrightarrow> b \<noteq> j \<longrightarrow> last_at its b \<le> last_at its a)"

lemma sink_descending:
  assumes "l \<le> j" "j \<le> r" "r < length its" "parted its l" "descending_but its l r j"
  shows "descending (sink j its) l r"
  using assms
proof (induction j arbitrary: its)
  case 0
  then show ?case by (auto simp: descending_def descending_but_def)
next
  case (Suc j)
  show ?case
  proof (cases "last_at its (Suc j) > last_at its j")
    case True
    then have l: "l \<le> j" using Suc.prems parted_left [of its l] by (cases "l = Suc j") auto
    have "descending_but (swap (Suc j) j its) l r j"
      using Suc.prems True l unfolding descending_but_def by (auto simp: last_swap)
    then show ?thesis using True Suc.prems l by (auto intro!: Suc.IH parted_swap)
  next
    case False
    have "last_at its b \<le> last_at its a" if ab: "l \<le> a" "a < b" "b \<le> r" for a b
    proof (cases "b = Suc j")
      case True
      have "last_at its j \<le> last_at its a" if "a \<noteq> j"
        using Suc.prems(5,2) ab True that unfolding descending_but_def by (auto simp: less_Suc_eq)
      then show ?thesis using False True by fastforce
    qed (use Suc.prems(5) ab in \<open>auto simp: descending_but_def\<close>)
    then show ?thesis using False by (auto simp: descending_def)
  qed
qed

lemma insertion_steps:
  assumes "l \<le> r" "r < length its" "parted its l"
  shows "shuffled l r its (fold sink [Suc l..<Suc r] its) \<and> descending (fold sink [Suc l..<Suc r] its) l r"
  using assms
proof (induction r rule: dec_induct)
  case base
  then show ?case by (simp add: shuffled.same descending_def)
next
  case (step r)
  let ?ys = "fold sink [Suc l..<Suc r] its"
  have IH: "shuffled l r its ?ys" "descending ?ys l r" using step by auto
  have len: "length ?ys = length its" using IH(1) by (rule shuffled_length)
  have sep: "parted ?ys l" using shuffled_parted [OF IH(1)] step by simp
  have "shuffled l (Suc r) ?ys (sink (Suc r) ?ys)" using sink_shuffled [of l "Suc r" ?ys] step len sep by simp
  moreover have "descending_but ?ys l (Suc r) (Suc r)"
    using IH(2) by (auto simp: descending_def descending_but_def le_Suc_eq)
  then have "descending (sink (Suc r) ?ys) l (Suc r)" using sink_descending [of l "Suc r"] step len sep by simp
  moreover have "[Suc l..<Suc (Suc r)] = [Suc l..<Suc r] @ [Suc r]" using step by simp
  ultimately show ?case using shuffled_mono [OF IH(1), of l "Suc r"] by (auto intro: shuffled_trans)
qed

lemma descending_parted:
  assumes "descending its l r" "parted its l" "parted its (Suc r)" "l \<le> k" "k \<le> r" "r < length its"
  shows "parted its k"
  unfolding parted_def
proof (intro allI impI)
  fix i j assume ij: "i < k" "k \<le> j" "j < length its"
  show "last_at its j \<le> last_at its i"
  proof (cases "i < l \<or> r < j")
    case True
    then show ?thesis using assms(2-5) ij unfolding parted_def by auto
  qed (use assms(1) ij in \<open>auto simp: descending_def\<close>)
qed

section \<open>Partitions\<close>

lemma up_scan_spec:
  "(\<forall>i. ll \<le> i \<longrightarrow> i < up_scan its l r ll \<longrightarrow> last_at its l < last_at its i) \<and>
   (up_scan its l r ll \<le> r \<longrightarrow> last_at its (up_scan its l r ll) \<le> last_at its l)"
proof (induction its l r ll rule: up_scan.induct)
  case (1 its l r ll)
  show ?case
  proof (cases "ll \<le> r \<and> last_at its ll > last_at its l")
    case True
    then have "up_scan its l r ll = up_scan its l r (ll + 1)" by (subst up_scan.simps) simp
    then show ?thesis using 1 True by (metis Suc_eq_plus1 le_antisym not_less_eq_eq)
  next
    case False
    then have "up_scan its l r ll = ll" by (subst up_scan.simps) auto
    then show ?thesis using False by auto
  qed
qed

lemma down_scan_spec:
  "l \<le> rr \<Longrightarrow> l \<le> down_scan its l rr \<and> last_at its l \<le> last_at its (down_scan its l rr) \<and>
   (\<forall>i. down_scan its l rr < i \<longrightarrow> i \<le> rr \<longrightarrow> last_at its i < last_at its l)"
proof (induction its l rr rule: down_scan.induct)
  case (2 its l rr)
  show ?case
  proof (cases "last_at its l > last_at its (Suc rr)")
    case True
    then have "l \<le> rr" using 2 by (cases "l = Suc rr") auto
    then show ?thesis using 2 True by (auto simp: le_Suc_eq)
  qed (use 2 in auto)
qed simp

definition split_around :: "iterator list \<Rightarrow> nat \<Rightarrow> nat \<Rightarrow> nat \<Rightarrow> nat \<Rightarrow> bool" where
  "split_around its l r ll rr \<longleftrightarrow>
     (\<forall>i. l < i \<longrightarrow> i < ll \<longrightarrow> last_at its l \<le> last_at its i) \<and> (\<forall>i. rr < i \<longrightarrow> i \<le> r \<longrightarrow> last_at its i \<le> last_at its l)"

lemma split_around_swap:
  assumes "split_around its l r ll rr" "l < ll" "ll \<le> rr" "rr \<le> r" "r < length its"
    "last_at its ll \<le> last_at its l" "last_at its l \<le> last_at its rr"
  shows "split_around (swap ll rr its) l r (ll + 1) (rr - 1)"
  using assms unfolding split_around_def by (auto simp: last_swap)

lemma partition_loop_spec:
  assumes "partition_loop its l r ll rr = (its', p)" "l < ll" "l \<le> rr" "rr \<le> r" "r < length its"
    "split_around its l r ll rr"
  shows "shuffled (Suc l) r its its' \<and> l \<le> p \<and> p \<le> r \<and> split_around its' l r (Suc p) p"
  using assms
proof (induction its l r ll rr rule: partition_loop.induct)
  case (1 its l r ll rr)
  define ll' where "ll' = up_scan its l r ll"
  define rr' where "rr' = down_scan its l rr"
  have up: "ll \<le> ll'" "\<forall>i. ll \<le> i \<longrightarrow> i < ll' \<longrightarrow> last_at its l < last_at its i" "ll' \<le> r \<longrightarrow> last_at its ll' \<le> last_at its l"
    using up_scan_spec [of ll its l r] up_scan_ge [of ll its l r] by (simp_all add: ll'_def)
  have down: "l \<le> rr'" "rr' \<le> rr" "last_at its l \<le> last_at its rr'"
      "\<forall>i. rr' < i \<longrightarrow> i \<le> rr \<longrightarrow> last_at its i < last_at its l"
    using down_scan_spec [of l rr its] down_scan_le [of its l rr] 1(4) by (simp_all add: rr'_def)
  consider "rr < ll" | "ll \<le> rr" "rr' < ll'" | "ll \<le> rr" "ll' \<le> rr'" by linarith
  then show ?case
  proof cases
    case a: 1
    then have "its' = its" "p = rr" using 1(2) by (simp_all add: partition_loop.simps)
    then show ?thesis using "1.prems" a by (auto simp: split_around_def shuffled.same)
  next
    case a: 2
    then have "its' = its" "p = rr'"
      using 1(2) by (auto simp: partition_loop.simps [of its l r ll rr] ll'_def rr'_def Let_def)
    moreover have "split_around its l r (Suc rr') rr'"
      unfolding split_around_def
    proof (intro conjI allI impI)
      fix i assume i: "l < i" "i < Suc rr'"
      then show "last_at its l \<le> last_at its i"
        using "1.prems"(6) up(2) a by (cases "i < ll") (auto simp: split_around_def less_imp_le)
    next
      fix i assume i: "rr' < i" "i \<le> r"
      then show "last_at its i \<le> last_at its l"
        using "1.prems"(6) down(4) by (cases "i \<le> rr") (auto simp: split_around_def less_imp_le)
    qed
    ultimately show ?thesis using down "1.prems" by (simp add: shuffled.same)
  next
    case a: 3
    let ?ys = "swap ll' rr' its"
    have rec: "partition_loop ?ys l r (ll' + 1) (rr' - 1) = (its', p)"
      using 1(2) a by (simp add: partition_loop.simps [of its l r ll rr] ll'_def rr'_def Let_def)
    have "split_around its l r ll' rr'"
      unfolding split_around_def
    proof (intro conjI allI impI)
      fix i assume i: "l < i" "i < ll'"
      then show "last_at its l \<le> last_at its i"
        using "1.prems"(6) up(2) by (cases "i < ll") (auto simp: split_around_def less_imp_le)
    next
      fix i assume i: "rr' < i" "i \<le> r"
      then show "last_at its i \<le> last_at its l"
        using "1.prems"(6) down(4) by (cases "i \<le> rr") (auto simp: split_around_def less_imp_le)
    qed
    then have sa: "split_around ?ys l r (ll' + 1) (rr' - 1)"
      using split_around_swap up down a "1.prems" by simp
    have one: "shuffled (Suc l) r its ?ys" using up(1) down a "1.prems" by (intro shuffled_swap) auto
    have "shuffled (Suc l) r ?ys its' \<and> l \<le> p \<and> p \<le> r \<and> split_around its' l r (Suc p) p"
      using "1.IH" [of ll' rr'] rec sa a up(1) down "1.prems" by (simp add: ll'_def rr'_def)
    then show ?thesis using one shuffled_trans by blast
  qed
qed

lemma order_pair_shuffled: "l \<le> a \<Longrightarrow> a \<le> r \<Longrightarrow> l \<le> b \<Longrightarrow> b \<le> r \<Longrightarrow> shuffled l r its (order_pair a b its)"
  by (simp add: order_pair_def shuffled.same shuffled_swap)

lemma partition_range_spec:
  assumes part: "partition_range l r its = (its', p)" and "l < r" and r: "r < length its"
  shows "shuffled l r its its' \<and> l \<le> p \<and> p \<le> r \<and>
    (\<forall>i. l \<le> i \<longrightarrow> i \<le> p \<longrightarrow> last_at its' p \<le> last_at its' i) \<and> (\<forall>i. p \<le> i \<longrightarrow> i \<le> r \<longrightarrow> last_at its' i \<le> last_at its' p)"
proof -
  define m where "m = l + (r - l) div 2"
  define ys where "ys = swap l m (order_pair r m (order_pair m l (order_pair r l its)))"
  obtain zs where loop: "partition_loop ys l r (l + 1) r = (zs, p)" and its': "its' = swap l p zs"
    using part by (auto simp: partition_range_def ys_def m_def Let_def split: prod.splits)
  have m: "l \<le> m" "m \<le> r" using assms by (auto simp: m_def)
  have pairs: "shuffled l r xs (order_pair a b xs)" if "a \<in> {l, m, r}" "b \<in> {l, m, r}" for a b xs
    using that m \<open>l < r\<close> order_pair_shuffled [of l a r b xs] by auto
  have "shuffled l r its (order_pair r m (order_pair m l (order_pair r l its)))"
    by (rule shuffled_trans [OF pairs shuffled_trans [OF pairs pairs]]) simp_all
  then have "shuffled l r its ys"
    unfolding ys_def by (rule shuffled_trans [OF shuffled_swap, rotated -1]) (use m \<open>l < r\<close> in simp_all)
  moreover from this have len: "length ys = length its" by (rule shuffled_length)
  have zs: "shuffled (Suc l) r ys zs" "l \<le> p" "p \<le> r" "split_around zs l r (Suc p) p"
    using partition_loop_spec [OF loop] assms len by (auto simp: split_around_def)
  moreover have lenz: "length zs = length its" using shuffled_length [OF zs(1)] len by simp
  have "shuffled l r zs its'" unfolding its' using zs by (intro shuffled_swap) auto
  moreover have "\<forall>i. l \<le> i \<longrightarrow> i \<le> p \<longrightarrow> last_at its' p \<le> last_at its' i"
    using zs r lenz unfolding its' split_around_def by (auto simp: last_swap)
  moreover have "\<forall>i. p \<le> i \<longrightarrow> i \<le> r \<longrightarrow> last_at its' i \<le> last_at its' p"
    using zs r lenz unfolding its' split_around_def by (auto simp: last_swap)
  ultimately show ?thesis using shuffled_mono [OF zs(1), of l r] by (auto intro: shuffled_trans)
qed

section \<open>Quickselect\<close>

lemma quickselect_loop_spec:
  assumes "r - l < fuel" "l \<le> k" "k \<le> r" "r < length its" "parted its l" "parted its (Suc r)"
  shows "mset (quickselect_loop fuel k l r its) = mset its \<and> parted (quickselect_loop fuel k l r its) k"
  using assms
proof (induction fuel k l r its rule: quickselect_loop.induct)
  case (2 fuel k l r its)
  show ?case
  proof (cases "r - l \<le> 20")
    case True
    have "shuffled l r its (insertion_range l r its)" "descending (insertion_range l r its) l r"
      using insertion_steps [of l r its] "2.prems" by (simp_all add: insertion_range_def)
    moreover from this have "parted (insertion_range l r its) l" "parted (insertion_range l r its) (Suc r)"
      using shuffled_parted "2.prems" by (metis le_refl, metis lessI)
    ultimately have "parted (insertion_range l r its) k" "mset (insertion_range l r its) = mset its"
      using "2.prems" descending_parted [of "insertion_range l r its" l r k]
        shuffled_mset [of l r its "insertion_range l r its"] shuffled_length [of l r its "insertion_range l r its"] by simp_all
    then show ?thesis using True by simp
  next
    case False
    obtain ys p where part: "partition_range l r its = (ys, p)" by (cases "partition_range l r its")
    have ys: "shuffled l r its ys" "l \<le> p" "p \<le> r" "\<forall>i. l \<le> i \<longrightarrow> i \<le> p \<longrightarrow> last_at ys p \<le> last_at ys i"
        "\<forall>i. p \<le> i \<longrightarrow> i \<le> r \<longrightarrow> last_at ys i \<le> last_at ys p"
      using partition_range_spec [OF part] "2.prems" False by auto
    have len: "length ys = length its" and ms: "mset ys = mset its"
      using shuffled_length [OF ys(1)] shuffled_mset [OF ys(1)] "2.prems" by auto
    have out: "parted ys l" "parted ys (Suc r)" using shuffled_parted [OF ys(1)] "2.prems" by auto
    have at: "parted ys m" if "m = p \<or> m = Suc p" for m
      unfolding parted_def
    proof (intro allI impI)
      fix i j assume ij: "i < m" "m \<le> j" "j < length ys"
      consider "i < l" | "r < j" | "l \<le> i" "j \<le> r" by linarith
      then show "last_at ys j \<le> last_at ys i"
      proof cases
        case 3
        then have "last_at ys j \<le> last_at ys p" "last_at ys p \<le> last_at ys i" using ys ij that by auto
        then show ?thesis by simp
      qed (use out ij that ys in \<open>auto simp: parted_def\<close>)
    qed
    consider "k = p" | "k < p" | "p < k" by linarith
    then show ?thesis
    proof cases
      case 1
      then show ?thesis using False part at ms by simp
    next
      case k: 2
      have "mset (quickselect_loop fuel k l (p - 1) ys) = mset ys \<and> parted (quickselect_loop fuel k l (p - 1) ys) k"
        using k False "2.prems" ys len at out by (intro "2.IH"(1) [OF False part [symmetric] refl]) auto
      then show ?thesis using k False part ms by simp
    next
      case k: 3
      have "mset (quickselect_loop fuel k (p + 1) r ys) = mset ys \<and> parted (quickselect_loop fuel k (p + 1) r ys) k"
        using k False "2.prems" ys len at out by (intro "2.IH"(2) [OF False part [symmetric] refl]) auto
      then show ?thesis using k False part ms by simp
    qed
  qed
qed simp

lemma quickselect_mset [simp]: "mset (quickselect k its) = mset its"
  and quickselect_parted: "k \<le> length its \<Longrightarrow> parted (quickselect k its) k"
proof -
  have "mset (quickselect k its) = mset its \<and> (k \<le> length its \<longrightarrow> parted (quickselect k its) k)"
  proof (cases "length its = 0 \<or> k \<ge> length its")
    case False
    then show ?thesis using quickselect_loop_spec [of "length its - 1" 0 "length its" k its]
      by (auto simp: quickselect_def parted_def)
  qed (auto simp: quickselect_def parted_def)
  then show "mset (quickselect k its) = mset its" "k \<le> length its \<Longrightarrow> parted (quickselect k its) k" by auto
qed

lemma quickselect_length [simp]: "length (quickselect k its) = length its"
  by (metis quickselect_mset size_mset)

lemma quickselect_set [simp]: "set (quickselect k its) = set its"
  by (metis quickselect_mset set_mset_mset)

lemma threshold_front: "0 < k \<Longrightarrow> (\<exists>j < k. threshold k its = last_at its j) \<and> (\<forall>j < k. last_at its j \<le> threshold k its)"
proof (induction k)
  case (Suc k)
  show ?case
  proof (cases k)
    case (Suc k')
    then have "threshold (Suc k) its = (if last_at its k > threshold k its then last_at its k else threshold k its)"
      by (simp add: threshold_def)
    moreover obtain j where j: "j < k" "threshold k its = last_at its j" and le: "\<forall>j < k. last_at its j \<le> threshold k its"
      using Suc.IH Suc by blast
    moreover have "last_at its i \<le> last_at its k" if "threshold k its < last_at its k" "i < k" for i
      using le that by fastforce
    ultimately show ?thesis by (auto simp: less_Suc_eq)
  qed (simp add: threshold_def)
qed simp

lemma threshold_quickselect:
  assumes "0 < k" "k \<le> length its"
  shows "it \<in> set its \<Longrightarrow> it_last it \<le> threshold k (quickselect k its)"
    and "\<exists>j < k. threshold k (quickselect k its) = last_at (quickselect k its) j"
proof -
  let ?ys = "quickselect k its"
  obtain j where j: "j < k" "threshold k ?ys = last_at ?ys j" and le: "\<forall>j < k. last_at ?ys j \<le> threshold k ?ys"
    using threshold_front [OF assms(1), of ?ys] by blast
  show "\<exists>j < k. threshold k ?ys = last_at ?ys j" using j by blast
  assume "it \<in> set its"
  then have "it \<in> set ?ys" by simp
  then obtain i where i: "i < length its" "it = ?ys ! i" by (metis in_set_conv_nth quickselect_length)
  show "it_last it \<le> threshold k ?ys"
  proof (cases "i < k")
    case False
    then have "last_at ?ys i \<le> last_at ?ys j" using quickselect_parted [OF assms(2)] i j by (simp add: parted_def)
    then show ?thesis using i j by (simp add: last_at_def)
  qed (use le i in \<open>auto simp: last_at_def\<close>)
qed

end
