(* ===== verification/BoltStore.thy ===== *)
theory BoltStore
  imports Bolt "HOL-Library.AList"
begin

text \<open>
  What saving and deleting do to a bolt database: the raw events and the index entries stay in step, and the
  store behaves as a map from id pointers to events.  The locale \<open>bolt_buckets\<close> holds the documented
  behaviour of \<^verbatim>\<open>bbolt\<close>; a database kept as an association list shows that it can hold.
\<close>

section \<open>The laws of the database\<close>

definition present :: "'d bolt_db \<Rightarrow> 'd \<Rightarrow> bucket \<Rightarrow> bytes \<Rightarrow> bool" where
  "present D d b k \<longleftrightarrow> db_Get D d b k \<noteq> None"

definition below :: "bytes \<Rightarrow> bytes option \<Rightarrow> bool" where
  "below k pos \<longleftrightarrow> (case pos of None \<Rightarrow> True | Some c \<Rightarrow> bytes_Compare k c < 0)"

locale bolt_buckets =
  fixes D :: "'d bolt_db"
  assumes put_get: "db_Put D d b k v = Some d' \<Longrightarrow> db_Get D d' b' k' = (if b' = b \<and> k' = k then Some v else db_Get D d b' k')"
    and put_ok: "k \<noteq> [] \<Longrightarrow> length k \<le> 32768 \<Longrightarrow> length v \<le> 2147483646 \<Longrightarrow> db_Put D d b k v \<noteq> None"
    and delete_get: "db_Delete D d b k = Some d' \<Longrightarrow> db_Get D d' b' k' = (if b' = b \<and> k' = k then None else db_Get D d b' k')"
    and delete_ok: "db_Delete D d b k \<noteq> None"
    and seek_None: "db_Seek D d b k = None \<Longrightarrow> present D d b k' \<Longrightarrow> bytes_Compare k' k < 0"
    and seek_Some: "db_Seek D d b k = Some k' \<Longrightarrow>
      present D d b k' \<and> \<not> bytes_Compare k' k < 0 \<and> (\<forall>k''. present D d b k'' \<longrightarrow> bytes_Compare k'' k' < 0 \<longrightarrow> bytes_Compare k'' k < 0)"
    and prev_None: "db_Prev D d b pos = None \<Longrightarrow> present D d b k' \<Longrightarrow> \<not> below k' pos"
    and prev_Some: "db_Prev D d b pos = Some k' \<Longrightarrow>
      present D d b k' \<and> below k' pos \<and> (\<forall>k''. present D d b k'' \<longrightarrow> below k'' pos \<longrightarrow> \<not> bytes_Compare k' k'' < 0)"
    and finite_bucket: "finite {k. present D d b k}"

locale bolt_store = bolt_buckets D for D :: "'d bolt_db" +
  fixes B :: bolt_env
  assumes hex: "hex_ext (be_ext B)"
    and md5: "length (be_md5 B bs) = 16"

section \<open>Contents and invariant\<close>

definition stored :: "'d bolt_db \<Rightarrow> 'd \<Rightarrow> bytes \<Rightarrow> event option" where
  "stored D d p =
     (case db_Get D d RawEventStore p of
        None \<Rightarrow> None
      | Some bin \<Rightarrow> (case Unmarshal bin of Ret e \<Rightarrow> Some e | _ \<Rightarrow> None))"

definition index_bucket :: "bucket \<Rightarrow> bool" where
  "index_bucket b \<longleftrightarrow> b \<notin> {SettingsStore, RawEventStore, HllCache}"

text \<open>Every raw value is an event filed under its own pointer; the index entries are those of the stored events.\<close>

definition raw_ok :: "'d bolt_db \<Rightarrow> 'd \<Rightarrow> bool" where
  "raw_ok D d \<longleftrightarrow> (\<forall>p. present D d RawEventStore p \<longrightarrow> (\<exists>e. stored D d p = Some e \<and> id_ptr (evID e) = p \<and> wf_event e))"

definition index_ok :: "'d bolt_db \<Rightarrow> bolt_env \<Rightarrow> 'd \<Rightarrow> bool" where
  "index_ok D B d \<longleftrightarrow> (\<forall>b k. index_bucket b \<longrightarrow>
     (present D d b k \<longleftrightarrow> (\<exists>p e. stored D d p = Some e \<and> (b, k) \<in> set (getIndexKeysForEvent B e))))"

definition bolt_inv :: "'d bolt_db \<Rightarrow> bolt_env \<Rightarrow> 'd \<Rightarrow> bool" where
  "bolt_inv D B d \<longleftrightarrow> raw_ok D d \<and> index_ok D B d"

text \<open>The events the format can hold.\<close>

definition storable :: "event \<Rightarrow> bool" where
  "storable e \<longleftrightarrow> wf_event e \<and> encodable e \<and> section_length (evTags e) < 65536"

section \<open>Keys\<close>

lemma length_id_ptr: "wf_event e \<Longrightarrow> length (id_ptr (evID e)) = 8"
  by (simp add: id_ptr_def wf_event_def wf32_def)

lemma length_stamp: "wf_event e \<Longrightarrow> length (stamp e) = 12"
  by (simp add: stamp_def length_id_ptr)

lemma key_bucket: "(b, k) \<in> set (getIndexKeysForEvent B e) \<Longrightarrow> index_bucket b"
  by (auto simp: getIndexKeysForEvent_def index_bucket_def tag_key_def tag_index_key_def split: option.splits prod.splits)

lemma key_stamp: "(b, k) \<in> set (getIndexKeysForEvent B e) \<Longrightarrow> \<exists>pre. k = pre @ stamp e"
  by (auto simp: getIndexKeysForEvent_def tag_key_def split: prod.splits)

lemma key_ptr:
  assumes "wf_event e" "(b, k) \<in> set (getIndexKeysForEvent B e)"
  shows "drop (length k - 8) k = id_ptr (evID e)"
proof -
  obtain pre where "k = pre @ putBE 4 (uint32 (evCreatedAt e)) @ id_ptr (evID e)"
    using key_stamp [OF assms(2)] by (auto simp: stamp_def)
  then show ?thesis using length_id_ptr [OF assms(1)] by simp
qed

lemma ex_update:
  assumes "m p0 = None"
  shows "(\<exists>p e. (m(p0 \<mapsto> a)) p = Some e \<and> P e) \<longleftrightarrow> P a \<or> (\<exists>p e. m p = Some e \<and> P e)"
proof
  assume "\<exists>p e. (m(p0 \<mapsto> a)) p = Some e \<and> P e"
  then obtain p e where "(m(p0 \<mapsto> a)) p = Some e" "P e" by blast
  then show "P a \<or> (\<exists>p e. m p = Some e \<and> P e)" by (cases "p = p0") auto
next
  assume "P a \<or> (\<exists>p e. m p = Some e \<and> P e)"
  then show "\<exists>p e. (m(p0 \<mapsto> a)) p = Some e \<and> P e"
  proof
    assume "\<exists>p e. m p = Some e \<and> P e"
    then obtain p e where "m p = Some e" "P e" by blast
    then have "(m(p0 \<mapsto> a)) p = Some e \<and> P e" using assms by auto
    then show ?thesis by blast
  qed auto
qed

lemma ex_remove: "(\<exists>p e. (m(p0 := None)) p = Some e \<and> P e) \<longleftrightarrow> (\<exists>p e. p \<noteq> p0 \<and> m p = Some e \<and> P e)"
  by auto

context bolt_store
begin

lemma decode16: "xhex_Decode (be_ext B) (take 16 s) = Some bs \<Longrightarrow> length bs \<le> 8"
proof -
  assume "xhex_Decode (be_ext B) (take 16 s) = Some bs"
  then have "length (take 16 s) = 2 * length bs" by (rule hex_codec.len_dec [OF hex])
  then show ?thesis by simp
qed

lemma addr_prefix_length: "addr_prefix B l s = Some pre \<Longrightarrow> length pre \<le> 41"
  by (auto simp: addr_prefix_def Let_def split: list.splits option.splits if_splits prod.splits dest!: decode16)

lemma tag_index_key_length: "tag_index_key B l s = (b, k) \<Longrightarrow> length k \<le> 53"
  using md5 by (auto simp: tag_index_key_def split: option.splits if_splits dest: decode16 addr_prefix_length)

lemma tag_key_length: "wf_event e \<Longrightarrow> tag_key B e t = (b, k) \<Longrightarrow> length k \<le> 100"
proof -
  assume wf: "wf_event e" and k: "tag_key B e t = (b, k)"
  obtain b' k' where t: "tag_index_key B (byte_of_char (hd (t ! 0))) (t ! 1) = (b', k')"
    by (cases "tag_index_key B (byte_of_char (hd (t ! 0))) (t ! 1)")
  then show ?thesis using k tag_index_key_length [OF t] by (auto simp: tag_key_def length_stamp [OF wf])
qed

lemma key_length: "wf_event e \<Longrightarrow> (b, k) \<in> set (getIndexKeysForEvent B e) \<Longrightarrow> k \<noteq> [] \<and> length k \<le> 100"
proof -
  assume wf: "wf_event e" and k: "(b, k) \<in> set (getIndexKeysForEvent B e)"
  have "length k \<le> 100"
    using k by (auto simp: getIndexKeysForEvent_def length_stamp [OF wf] wf [unfolded wf_event_def wf32_def]
        dest!: sym [of "(b, k)"] dest: tag_key_length [OF wf])
  moreover obtain pre where "k = pre @ stamp e" using key_stamp [OF k] by blast
  then have "k \<noteq> []" using length_stamp [OF wf] by auto
  ultimately show ?thesis by blast
qed

section \<open>Saving\<close>

lemma put_keys_ok:
  assumes "\<forall>(b, k) \<in> set ks. k \<noteq> [] \<and> length k \<le> 100"
  shows "\<exists>d'. put_keys D ks d = (None, d') \<and>
    (\<forall>b k. db_Get D d' b k = (if (b, k) \<in> set ks then Some [] else db_Get D d b k))"
  using assms
proof (induction ks arbitrary: d)
  case (Cons bk ks)
  obtain b k where bk: "bk = (b, k)" by (cases bk)
  then obtain d1 where d1: "db_Put D d b k [] = Some d1" using Cons.prems put_ok [of k "[]" d b] by fastforce
  obtain d' where "put_keys D ks d1 = (None, d')"
      "\<forall>b k. db_Get D d' b k = (if (b, k) \<in> set ks then Some [] else db_Get D d1 b k)"
    using Cons.IH [of d1] Cons.prems by auto
  then show ?case using bk d1 put_get [OF d1] by auto
qed simp

lemma Measure_bound: "storable e \<Longrightarrow> Measure e \<le> 200000"
  using length_layout [of e] by (auto simp: storable_def layout_def encodable_def section_length_def length_header)

lemma bolt_save_fresh:
  assumes inv: "bolt_inv D B d" and e: "storable e" and fresh: "db_Get D d RawEventStore (id_ptr (evID e)) = None"
  shows "\<exists>d'. bolt_SaveEvent D B e d = (None, d') \<and> bolt_inv D B d' \<and> stored D d' = (stored D d)(id_ptr (evID e) \<mapsto> e)"
proof -
  have wf: "wf_event e" and enc: "encodable e" using e by (auto simp: storable_def)
  obtain bin where bin: "Marshal e (replicate (Measure e) 0) = Ret bin"
    using Marshal_layout [OF wf, of "replicate (Measure e) 0"] enc by auto
  have lay: "bin = layout e" using Marshal_layout [OF wf, of "replicate (Measure e) 0"] enc bin by simp
  have dec: "Unmarshal bin = Ret e"
    using Unmarshal_layout [OF wf fits_small [OF enc], of "[]"] e lay by (simp add: storable_def)
  have "length bin \<le> 2147483646" using Measure_bound [OF e] length_layout [OF wf] lay by simp
  moreover have "id_ptr (evID e) \<noteq> []" "length (id_ptr (evID e)) \<le> 32768" using length_id_ptr [OF wf] by auto
  ultimately obtain d1 where d1: "db_Put D d RawEventStore (id_ptr (evID e)) bin = Some d1"
    using put_ok [of "id_ptr (evID e)" bin d RawEventStore] by auto
  have "\<forall>(b, k) \<in> set (getIndexKeysForEvent B e). k \<noteq> [] \<and> length k \<le> 100" using key_length [OF wf] by auto
  from put_keys_ok [OF this, of d1] obtain d' where d': "put_keys D (getIndexKeysForEvent B e) d1 = (None, d')"
      "\<And>b k. db_Get D d' b k = (if (b, k) \<in> set (getIndexKeysForEvent B e) then Some [] else db_Get D d1 b k)" by blast
  have raw: "db_Get D d' RawEventStore p = (if p = id_ptr (evID e) then Some bin else db_Get D d RawEventStore p)" for p
    using d'(2) [of RawEventStore p] put_get [OF d1] key_bucket [of RawEventStore p B e] by (auto simp: index_bucket_def)
  have st: "stored D d' = (stored D d)(id_ptr (evID e) \<mapsto> e)" by (auto simp: stored_def raw dec fun_eq_iff)
  have old: "stored D d (id_ptr (evID e)) = None" using fresh by (simp add: stored_def)
  have "raw_ok D d'" using inv wf by (auto simp: bolt_inv_def raw_ok_def st present_def raw)
  moreover have "index_ok D B d'"
    unfolding index_ok_def
  proof (intro allI impI)
    fix b k
    assume b: "index_bucket b"
    then have "db_Get D d1 b k = db_Get D d b k" using put_get [OF d1] by (auto simp: index_bucket_def)
    then have "present D d' b k \<longleftrightarrow> (b, k) \<in> set (getIndexKeysForEvent B e) \<or> present D d b k"
      using d'(2) by (auto simp: present_def)
    also have "present D d b k \<longleftrightarrow> (\<exists>p e. stored D d p = Some e \<and> (b, k) \<in> set (getIndexKeysForEvent B e))"
      using inv b by (simp add: bolt_inv_def index_ok_def)
    finally show "present D d' b k \<longleftrightarrow> (\<exists>p e. stored D d' p = Some e \<and> (b, k) \<in> set (getIndexKeysForEvent B e))"
      unfolding st by (simp only: ex_update [of "stored D d", OF old])
  qed
  ultimately have "bolt_inv D B d'" by (simp add: bolt_inv_def)
  moreover have "bolt_SaveEvent D B e d = (None, d')"
    using fresh bin d1 d' by (simp add: bolt_SaveEvent_def bolt_save_def Update_def)
  ultimately show ?thesis using st by blast
qed

lemma bolt_save_dup: "db_Get D d RawEventStore (id_ptr (evID e)) = Some bin \<Longrightarrow> bolt_SaveEvent D B e d = (Some BoltDup, d)"
  by (simp add: bolt_SaveEvent_def Update_def)

section \<open>Deleting\<close>

lemma delete_keys_ok:
  "\<exists>d'. delete_keys D ks d = (None, d') \<and>
    (\<forall>b k. db_Get D d' b k = (if (b, k) \<in> set ks then None else db_Get D d b k))"
proof (induction ks arbitrary: d)
  case (Cons bk ks)
  obtain b k where bk: "bk = (b, k)" by (cases bk)
  obtain d1 where d1: "db_Delete D d b k = Some d1" using delete_ok [of d b k] by blast
  obtain d' where "delete_keys D ks d1 = (None, d')"
      "\<forall>b k. db_Get D d' b k = (if (b, k) \<in> set ks then None else db_Get D d1 b k)"
    using Cons.IH [of d1] by auto
  then show ?case using bk d1 delete_get [OF d1] by auto
qed simp

lemma delete_event:
  assumes inv: "bolt_inv D B d"
  shows "\<exists>d'. bolt_DeleteEvent D B i d = (None, d') \<and> bolt_inv D B d' \<and> stored D d' = (stored D d)(id_ptr i := None)"
proof (cases "db_Get D d RawEventStore (id_ptr i)")
  case None
  then have "bolt_DeleteEvent D B i d = (None, d)" by (simp add: bolt_DeleteEvent_def bolt_delete_def Update_def)
  moreover have "stored D d (id_ptr i) = None" using None by (simp add: stored_def)
  ultimately show ?thesis using inv by (auto simp: fun_eq_iff)
next
  case (Some bin)
  then obtain e where e: "stored D d (id_ptr i) = Some e" "id_ptr (evID e) = id_ptr i" "wf_event e"
    using inv by (auto simp: bolt_inv_def raw_ok_def present_def)
  then have dec: "Unmarshal bin = Ret e" using Some by (auto simp: stored_def split: outcome.splits)
  obtain d1 where d1: "delete_keys D (getIndexKeysForEvent B e) d = (None, d1)"
      "\<And>b k. db_Get D d1 b k = (if (b, k) \<in> set (getIndexKeysForEvent B e) then None else db_Get D d b k)"
    using delete_keys_ok [of "getIndexKeysForEvent B e" d] by blast
  obtain d' where d': "db_Delete D d1 RawEventStore (id_ptr i) = Some d'" using delete_ok by blast
  have raw: "db_Get D d' RawEventStore p = (if p = id_ptr i then None else db_Get D d RawEventStore p)" for p
    using delete_get [OF d'] d1(2) [of RawEventStore p] key_bucket [of RawEventStore p B e] by (auto simp: index_bucket_def)
  have st: "stored D d' = (stored D d)(id_ptr i := None)" by (auto simp: stored_def raw fun_eq_iff)
  have "raw_ok D d'" using inv by (auto simp: bolt_inv_def raw_ok_def st present_def raw split: if_splits)
  moreover have "index_ok D B d'"
    unfolding index_ok_def
  proof (intro allI impI)
    fix b k
    assume b: "index_bucket b"
    then have "present D d' b k \<longleftrightarrow> present D d b k \<and> (b, k) \<notin> set (getIndexKeysForEvent B e)"
      using d1(2) delete_get [OF d', of b k] by (auto simp: present_def index_bucket_def)
    also have "present D d b k \<longleftrightarrow> (\<exists>p e. stored D d p = Some e \<and> (b, k) \<in> set (getIndexKeysForEvent B e))"
      using inv b by (simp add: bolt_inv_def index_ok_def)
    finally have *: "present D d' b k \<longleftrightarrow>
      (\<exists>p f. stored D d p = Some f \<and> (b, k) \<in> set (getIndexKeysForEvent B f)) \<and> (b, k) \<notin> set (getIndexKeysForEvent B e)" .
    have other: "(b, k) \<notin> set (getIndexKeysForEvent B e)"
      if "stored D d p = Some f" "p \<noteq> id_ptr i" "(b, k) \<in> set (getIndexKeysForEvent B f)" for p f
    proof
      assume "(b, k) \<in> set (getIndexKeysForEvent B e)"
      have "present D d RawEventStore p" using that(1) by (auto simp: stored_def present_def split: option.splits)
      then have "id_ptr (evID f) = p" "wf_event f" using inv that(1) by (auto simp: bolt_inv_def raw_ok_def)
      then show False using key_ptr [OF e(3)] key_ptr [of f b k] e(2) that \<open>(b, k) \<in> set (getIndexKeysForEvent B e)\<close> by auto
    qed
    show "present D d' b k \<longleftrightarrow> (\<exists>p e. stored D d' p = Some e \<and> (b, k) \<in> set (getIndexKeysForEvent B e))"
      unfolding * st ex_remove
    proof
      assume l: "(\<exists>p f. stored D d p = Some f \<and> (b, k) \<in> set (getIndexKeysForEvent B f)) \<and> (b, k) \<notin> set (getIndexKeysForEvent B e)"
      then obtain p f where f: "stored D d p = Some f" "(b, k) \<in> set (getIndexKeysForEvent B f)" by blast
      then have "p \<noteq> id_ptr i" using e(1) l by auto
      then show "\<exists>p f. p \<noteq> id_ptr i \<and> stored D d p = Some f \<and> (b, k) \<in> set (getIndexKeysForEvent B f)" using f by blast
    next
      assume "\<exists>p f. p \<noteq> id_ptr i \<and> stored D d p = Some f \<and> (b, k) \<in> set (getIndexKeysForEvent B f)"
      then obtain p f where "p \<noteq> id_ptr i" "stored D d p = Some f" "(b, k) \<in> set (getIndexKeysForEvent B f)" by blast
      then show "(\<exists>p f. stored D d p = Some f \<and> (b, k) \<in> set (getIndexKeysForEvent B f)) \<and> (b, k) \<notin> set (getIndexKeysForEvent B e)"
        using other by blast
    qed
  qed
  ultimately have "bolt_inv D B d'" by (simp add: bolt_inv_def)
  moreover have "bolt_DeleteEvent D B i d = (None, d')"
    using Some dec d1(1) d' by (simp add: bolt_DeleteEvent_def bolt_delete_def Update_def)
  ultimately show ?thesis using st by blast
qed

end

section \<open>A database in a list\<close>

type_synonym list_state = "((bucket \<times> bytes) \<times> bytes) list"

fun pick :: "(bytes \<Rightarrow> bytes \<Rightarrow> bool) \<Rightarrow> bytes list \<Rightarrow> bytes option" where
  "pick R [] = None"
| "pick R (x # xs) = (case pick R xs of None \<Rightarrow> Some x | Some y \<Rightarrow> if R x y then Some x else Some y)"

definition list_keys :: "list_state \<Rightarrow> bucket \<Rightarrow> bytes list" where
  "list_keys d b = map (\<lambda>e. snd (fst e)) (filter (\<lambda>e. fst (fst e) = b) d)"

definition list_db :: "list_state bolt_db" where
  "list_db = \<lparr>
     db_Get = (\<lambda>d b k. map_of d (b, k)),
     db_Put = (\<lambda>d b k v. Some (AList.update (b, k) v d)),
     db_Delete = (\<lambda>d b k. Some (AList.delete (b, k) d)),
     db_Seek = (\<lambda>d b k. pick (\<lambda>x y. bytes_Compare x y < 0) (filter (\<lambda>x. \<not> bytes_Compare x k < 0) (list_keys d b))),
     db_Prev = (\<lambda>d b pos. pick (\<lambda>x y. bytes_Compare y x < 0) (filter (\<lambda>x. below x pos) (list_keys d b)))\<rparr>"

lemma pick_None: "pick R xs = None \<longleftrightarrow> xs = []"
  by (cases xs) (auto split: option.split)

lemma pick_Some:
  assumes "\<And>x y z. R x y \<Longrightarrow> R y z \<Longrightarrow> R x z" "\<And>x. \<not> R x x"
  shows "pick R xs = Some y \<Longrightarrow> y \<in> set xs \<and> (\<forall>x \<in> set xs. \<not> R x y)"
proof (induction xs arbitrary: y)
  case (Cons x xs)
  show ?case
  proof (cases "pick R xs")
    case None
    then show ?thesis using Cons.prems assms(2) by (auto simp: pick_None)
  next
    case (Some z)
    then show ?thesis using Cons.IH [OF Some] Cons.prems assms by (auto split: if_splits)
  qed
qed simp

lemma bytes_less_irrefl: "\<not> bytes_Compare x x < 0"
  by simp

lemma list_present: "present list_db d b k \<longleftrightarrow> k \<in> set (list_keys d b)"
  by (force simp: present_def list_db_def list_keys_def map_of_eq_None_iff)

interpretation list_bolt: bolt_buckets list_db
proof
  fix d d' :: list_state and b b' :: bucket and k k' :: bytes and v and pos
  show "db_Get list_db d' b' k' = (if b' = b \<and> k' = k then Some v else db_Get list_db d b' k')"
    if "db_Put list_db d b k v = Some d'"
    using that by (auto simp: list_db_def update_conv')
  show "db_Put list_db d b k v \<noteq> None" by (simp add: list_db_def)
  show "db_Get list_db d' b' k' = (if b' = b \<and> k' = k then None else db_Get list_db d b' k')"
    if "db_Delete list_db d b k = Some d'"
    using that by (auto simp: list_db_def delete_conv')
  show "db_Delete list_db d b k \<noteq> None" by (simp add: list_db_def)
  have least: "pick (\<lambda>x y. bytes_Compare x y < 0) xs = Some y \<Longrightarrow> y \<in> set xs \<and> (\<forall>x \<in> set xs. \<not> bytes_Compare x y < 0)" for xs y
    using pick_Some [of "\<lambda>x y. bytes_Compare x y < 0"] bytes_Compare_less_trans bytes_less_irrefl by blast
  have greatest: "pick (\<lambda>x y. bytes_Compare y x < 0) xs = Some y \<Longrightarrow> y \<in> set xs \<and> (\<forall>x \<in> set xs. \<not> bytes_Compare y x < 0)" for xs y
    using pick_Some [of "\<lambda>x y. bytes_Compare y x < 0"] bytes_Compare_less_trans bytes_less_irrefl by blast
  show "bytes_Compare k' k < 0" if "db_Seek list_db d b k = None" "present list_db d b k'"
    using that unfolding list_present by (auto simp: list_db_def pick_None filter_empty_conv)
  show "present list_db d b k' \<and> \<not> bytes_Compare k' k < 0 \<and>
      (\<forall>k''. present list_db d b k'' \<longrightarrow> bytes_Compare k'' k' < 0 \<longrightarrow> bytes_Compare k'' k < 0)"
    if "db_Seek list_db d b k = Some k'"
    using least [of "filter (\<lambda>x. \<not> bytes_Compare x k < 0) (list_keys d b)" k'] that
    unfolding list_present by (auto simp: list_db_def)
  show "\<not> below k' pos" if "db_Prev list_db d b pos = None" "present list_db d b k'"
    using that unfolding list_present by (auto simp: list_db_def pick_None filter_empty_conv)
  show "present list_db d b k' \<and> below k' pos \<and>
      (\<forall>k''. present list_db d b k'' \<longrightarrow> below k'' pos \<longrightarrow> \<not> bytes_Compare k' k'' < 0)"
    if "db_Prev list_db d b pos = Some k'"
    using greatest [of "filter (\<lambda>x. below x pos) (list_keys d b)" k'] that
    unfolding list_present by (auto simp: list_db_def)
  show "finite {k. present list_db d b k}" unfolding list_present by simp
qed

definition std_bolt :: bolt_env where
  "std_bolt = \<lparr>be_ext = std_ext, be_md5 = (\<lambda>bs. take 16 (bs @ replicate 16 0)), be_pow = (\<lambda>_ _. 4)\<rparr>"

lemma std_bolt_ext: "be_ext std_bolt = std_ext"
  by (simp add: std_bolt_def)

lemma std_bolt_axioms: "bolt_store_axioms std_bolt"
  by (rule bolt_store_axioms.intro) (simp_all add: std_bolt_ext, simp add: std_bolt_def)

interpretation list_store: bolt_store list_db std_bolt
  using bolt_store.intro [OF list_bolt.bolt_buckets_axioms std_bolt_axioms] .

lemma bolt_inv_empty: "bolt_inv list_db B []"
  by (simp add: bolt_inv_def raw_ok_def index_ok_def present_def list_db_def stored_def)

lemma storable_note1: "storable note1"
  by (simp add: storable_def wf_note1) (simp add: encodable_def note1_def section_length_def enc_tag_def enc_item_def)

section \<open>Properties\<close>



end
