(* ===== verification/KeyOrder.thy ===== *)
theory KeyOrder
  imports GoStd "HOL-Library.List_Lexorder"
begin

text \<open>
  The order of the keys in a key-value database: byte strings compare lexicographically, and big-endian numbers of
  one width compare as their values.  Shared by the stores over such databases.
\<close>

lemma bytes_Compare_less: "bytes_Compare a b < 0 \<longleftrightarrow> a < b"
  by (induction a b rule: bytes_Compare.induct) auto

lemma getLE_snoc: "getLE (xs @ [x]) = getLE xs + 256 ^ length xs * unat x"
  by (induction xs) (simp_all add: algebra_simps)

lemma getBE_Cons: "getBE (x # xs) = 256 ^ length xs * unat x + getBE xs"
  by (simp add: getBE_def getLE_snoc)

lemma getBE_mono: "length a = length b \<Longrightarrow> a \<le> b \<Longrightarrow> getBE a \<le> getBE b"
proof (induction a b rule: list_induct2)
  case (Cons x xs y ys)
  show ?case
  proof (cases "x = y")
    case False
    then have "x < y" using Cons.prems by simp
    then have "unat x + 1 \<le> unat y" by (simp add: word_less_nat_alt)
    then have "256 ^ length xs * (unat x + 1) \<le> 256 ^ length xs * unat y" by (rule mult_le_mono2)
    then show ?thesis using getBE_bound [of xs] Cons.hyps by (simp add: getBE_Cons)
  qed (use Cons in \<open>simp add: getBE_Cons\<close>)
qed simp

lemma append_less_iff: "p @ a \<le> p @ b \<longleftrightarrow> a \<le> (b :: 'a :: linorder list)"
  by (induction p) auto

lemma append_less_same: "p @ a < p @ b \<longleftrightarrow> a < (b :: 'a :: linorder list)"
  by (induction p) auto

lemma append_less_append: "length a = length b \<Longrightarrow> a @ x < b @ y \<longleftrightarrow> a < b \<or> a = b \<and> x < (y :: 'a :: linorder list)"
  by (induction a b rule: list_induct2) auto

lemma take_mono: "a \<le> b \<Longrightarrow> take n a \<le> take n (b :: 'a :: linorder list)"
proof (induction n arbitrary: a b)
  case (Suc n)
  then show ?case by (cases a; cases b) auto
qed simp

lemma putBE_less: "a < 256 ^ n \<Longrightarrow> b < 256 ^ n \<Longrightarrow> putBE n a < putBE n b \<longleftrightarrow> a < b"
proof
  assume "a < 256 ^ n" "b < 256 ^ n" "a < b"
  then have "\<not> putBE n b \<le> putBE n a" using getBE_mono [of "putBE n b" "putBE n a"] by (auto simp: getBE_putBE)
  then show "putBE n a < putBE n b" by simp
next
  assume "a < 256 ^ n" "b < 256 ^ n" "putBE n a < putBE n b"
  then show "a < b" using getBE_mono [of "putBE n a" "putBE n b"] putBE_inj [of a n b] by (auto simp: getBE_putBE less_le)
qed

lemma Nil_less_list [simp]: "[] \<le> (xs :: 'a :: linorder list)"
  by (cases xs) auto

end
