(* ===== verification/BoltScan.thy ===== *)
theory BoltScan
  imports BoltSelect BoltStore KeyOrder
begin

text \<open>
  What the iterators of the bolt query read: \<open>todo\<close> are the entries an iterator has still to pull, a stretch of
  the index in descending order.  Pulling moves entries from \<open>todo\<close> to the pending results, emitting takes out those
  from the threshold on, and the loop gives out the newest events up to the limit.
\<close>

section \<open>The order of the keys\<close>

lemma below_None [simp]: "below k None"
  and below_Some [simp]: "below k (Some c) \<longleftrightarrow> k < c"
  by (simp_all add: below_def bytes_Compare_less)

section \<open>Scans\<close>

definition keys_from :: "'d bolt_db \<Rightarrow> 'd \<Rightarrow> bucket \<Rightarrow> bytes \<Rightarrow> bytes list" where
  "keys_from D d b k = rev (sorted_list_of_set {k'. present D d b k' \<and> k' \<le> k})"

definition scan_entry :: "bytes \<Rightarrow> nat \<times> bytes" where
  "scan_entry k = (key_time (take (length k - 8) k), drop (length k - 8) k)"

definition in_scan :: "query \<Rightarrow> nat \<Rightarrow> bytes \<Rightarrow> bool" where
  "in_scan q since k \<longleftrightarrow>
     bytes_HasPrefix (take (length k - 8) k) (q_prefix q) \<and> \<not> key_time (take (length k - 8) k) < since"

definition todo :: "'d bolt_db \<Rightarrow> 'd \<Rightarrow> nat \<Rightarrow> iterator \<Rightarrow> (nat \<times> bytes) list" where
  "todo D d since it =
     (if it_exhausted it then []
      else map scan_entry (takeWhile (in_scan (it_query it) since) (keys_from D d (q_bucket (it_query it)) (the (it_pos it)))))"

definition it_ok :: "'d bolt_db \<Rightarrow> 'd \<Rightarrow> iterator \<Rightarrow> bool" where
  "it_ok D d it \<longleftrightarrow> (\<not> it_exhausted it \<longrightarrow>
     (\<exists>k. it_pos it = Some k \<and> present D d (q_bucket (it_query it)) k \<and>
        it_key it = take (length k - 8) k \<and> it_currIdPtr it = drop (length k - 8) k))"

lemma it_stand_simps:
  "it_stand None it = it\<lparr>it_exhausted := True\<rparr>"
  "it_stand (Some k) it = it\<lparr>it_pos := Some k, it_key := take (length k - 8) k, it_currIdPtr := drop (length k - 8) k\<rparr>"
  by (simp_all add: it_stand_def)

definition emits :: "nat \<Rightarrow> iterator \<Rightarrow> iterator \<Rightarrow> bool" where
  "emits thr it it' \<longleftrightarrow>
     (\<exists>p. it' = it\<lparr>it_pending := p\<rparr> \<and> mset p = filter_mset (\<lambda>x. fst x < thr) (mset (it_pending it)))"

definition resting :: "iterator \<Rightarrow> bool" where
  "resting it \<longleftrightarrow> it_exhausted it \<and> it_pending it \<noteq> []"

text \<open>The events given out are the newest of those fetched, and all of them unless the limit was met.\<close>

definition newest :: "event list \<Rightarrow> event multiset \<Rightarrow> bool" where
  "newest out rest \<longleftrightarrow> sorted_wrt (\<lambda>a b. evCreatedAt b \<le> evCreatedAt a) out \<and>
     (\<forall>x \<in> set out. \<forall>y \<in># rest. evCreatedAt y \<le> evCreatedAt x)"

context bolt_buckets
begin

lemma keys_step:
  assumes "present D d b k"
  shows "keys_from D d b k = k # (case db_Prev D d b (Some k) of None \<Rightarrow> [] | Some k' \<Rightarrow> keys_from D d b k')"
proof -
  let ?below = "{k'. present D d b k' \<and> k' < k}"
  have fin: "finite ?below" using finite_bucket [of d b] by (rule rev_finite_subset) auto
  have "{k'. present D d b k' \<and> k' \<le> k} = insert k ?below" using assms by auto
  moreover have "sorted_list_of_set (insert k ?below) = sorted_list_of_set ?below @ [k]"
    using fin by (subst sorted_list_of_set_insert) (auto simp: intro!: sorted_insort_is_snoc)
  ultimately have "keys_from D d b k = k # rev (sorted_list_of_set ?below)" by (simp add: keys_from_def)
  moreover have "rev (sorted_list_of_set ?below) =
      (case db_Prev D d b (Some k) of None \<Rightarrow> [] | Some k' \<Rightarrow> keys_from D d b k')"
  proof (cases "db_Prev D d b (Some k)")
    case None
    then have empty: "?below = {}" using prev_None [OF None] by auto
    show ?thesis unfolding empty using None by simp
  next
    case (Some k')
    then have "?below = {x. present D d b x \<and> x \<le> k'}"
      using prev_Some [OF Some] by (auto simp: bytes_Compare_less not_less)
    then show ?thesis using Some by (simp add: keys_from_def)
  qed
  ultimately show ?thesis by simp
qed

lemma set_keys_from: "set (keys_from D d b k) = {k'. present D d b k' \<and> k' \<le> k}"
proof -
  have "finite {k'. present D d b k' \<and> k' \<le> k}" using finite_bucket [of d b] by (rule rev_finite_subset) auto
  then show ?thesis by (simp add: keys_from_def)
qed

lemma it_next_ok:
  assumes "it_ok D d it" "\<not> it_exhausted it"
  shows "it_ok D d (it_next D d it)" "it_query (it_next D d it) = it_query it" "it_pending (it_next D d it) = it_pending it"
    "it_last (it_next D d it) = it_last it"
  using assms by (auto simp: it_ok_def it_next_def it_stand_def dest: prev_Some split: option.splits)

lemma todo_step:
  assumes "it_ok D d it" "\<not> it_exhausted it"
  shows "todo D d since it =
    (if bytes_HasPrefix (it_key it) (q_prefix (it_query it)) \<and> \<not> key_time (it_key it) < since
     then (key_time (it_key it), it_currIdPtr it) # todo D d since (it_next D d it) else [])"
proof -
  obtain k where k: "it_pos it = Some k" "present D d (q_bucket (it_query it)) k"
      "it_key it = take (length k - 8) k" "it_currIdPtr it = drop (length k - 8) k"
    using assms by (auto simp: it_ok_def)
  show ?thesis
    using k assms keys_step [OF k(2)]
    by (auto simp: todo_def in_scan_def scan_entry_def it_next_def it_stand_simps split: option.splits)
qed

definition pulls :: "'d \<Rightarrow> nat \<Rightarrow> iterator \<Rightarrow> iterator \<Rightarrow> (nat \<times> bytes) list \<Rightarrow> bool" where
  "pulls d since it it' got \<longleftrightarrow>
     it_ok D d it' \<and> it_query it' = it_query it \<and> it_pending it' = it_pending it @ got \<and>
     todo D d since it = got @ todo D d since it' \<and> it_last it' = (if got = [] then it_last it else fst (last got))"

lemma it_pulled_one:
  assumes "it_ok D d it" "\<not> it_exhausted it" "bytes_HasPrefix (it_key it) (q_prefix (it_query it))" "\<not> key_time (it_key it) < since"
    "it1 = it_next D d (it\<lparr>it_pending := it_pending it @ [(key_time (it_key it), it_currIdPtr it)], it_last := key_time (it_key it)\<rparr>)"
  shows "pulls d since it it1 [(key_time (it_key it), it_currIdPtr it)]"
proof -
  let ?it = "it\<lparr>it_pending := it_pending it @ [(key_time (it_key it), it_currIdPtr it)], it_last := key_time (it_key it)\<rparr>"
  have ok: "it_ok D d ?it" "\<not> it_exhausted ?it" using assms(1,2) by (simp_all add: it_ok_def)
  have "todo D d since ?it = todo D d since it" by (simp add: todo_def)
  then have "todo D d since it = (key_time (it_key it), it_currIdPtr it) # todo D d since it1"
    using todo_step [OF ok, of since] assms by simp
  then show ?thesis using it_next_ok [OF ok] assms(5) by (simp add: pulls_def)
qed

lemma pulls_trans: "pulls d since it it1 got1 \<Longrightarrow> pulls d since it1 it2 got2 \<Longrightarrow> pulls d since it it2 (got1 @ got2)"
  by (auto simp: pulls_def)

lemma it_pull_spec:
  assumes "it_ok D d it" "\<not> it_exhausted it"
  shows "\<exists>got. pulls d since it (it_pull D d n since it) got \<and> (0 < n \<longrightarrow> got = [] \<longrightarrow> it_exhausted (it_pull D d n since it))"
  using assms
proof (induction n arbitrary: it)
  case (Suc n)
  show ?case
  proof (cases "bytes_HasPrefix (it_key it) (q_prefix (it_query it)) \<and> \<not> key_time (it_key it) < since")
    case False
    then have "it_pull D d (Suc n) since it = it\<lparr>it_exhausted := True\<rparr>" by auto
    moreover have "pulls d since it (it\<lparr>it_exhausted := True\<rparr>) []"
      using Suc.prems False todo_step [OF Suc.prems, of since] by (simp add: pulls_def it_ok_def) (simp add: todo_def)
    ultimately show ?thesis by auto
  next
    case True
    define it1 where "it1 = it_next D d
      (it\<lparr>it_pending := it_pending it @ [(key_time (it_key it), it_currIdPtr it)], it_last := key_time (it_key it)\<rparr>)"
    have one: "pulls d since it it1 [(key_time (it_key it), it_currIdPtr it)]"
      using Suc.prems True it1_def by (intro it_pulled_one) auto
    have pull: "it_pull D d (Suc n) since it = (if it_exhausted it1 then it1 else it_pull D d n since it1)"
      using True by (simp add: it1_def Let_def)
    show ?thesis
    proof (cases "it_exhausted it1")
      case False
      have "it_ok D d it1" using one by (simp add: pulls_def)
      then obtain got where "pulls d since it1 (it_pull D d n since it1) got" using Suc.IH False by blast
      then show ?thesis using pulls_trans [OF one] pull False by fastforce
    qed (use one pull in auto)
  qed
qed (auto simp: pulls_def)

section \<open>Dates go down\<close>

text \<open>All keys of a scan are the prefix, the date and the id pointer.\<close>

definition uniform :: "'d \<Rightarrow> query \<Rightarrow> bool" where
  "uniform d q \<longleftrightarrow> (\<forall>k. present D d (q_bucket q) k \<longrightarrow> bytes_HasPrefix (take (length k - 8) k) (q_prefix q) \<longrightarrow>
     length k = length (q_prefix q) + 12)"

lemma scan_key:
  assumes "uniform d q" "present D d (q_bucket q) k" "in_scan q since k"
  shows "\<exists>t r. k = q_prefix q @ t @ r \<and> length t = 4 \<and> length r = 8 \<and> scan_entry k = (getBE t, r)"
proof -
  let ?p = "q_prefix q"
  have pre: "take (length ?p) (take (length k - 8) k) = ?p" and len: "length k = length ?p + 12"
    using assms by (auto simp: uniform_def in_scan_def bytes_HasPrefix_def)
  then have "take (length ?p) k = ?p" by (simp add: min_def)
  then have k: "k = ?p @ drop (length ?p) k" by (metis append_take_drop_id)
  define u where "u = drop (length ?p) k"
  have u: "length u = 12" "k = ?p @ u" using len k by (simp_all add: u_def)
  have "length k - 8 = length ?p + 4" using len by simp
  then have "scan_entry k = (getBE (take 4 u), drop 4 u)" using u(1) by (simp add: scan_entry_def key_time_def u(2))
  then show ?thesis using u by (intro exI [of _ "take 4 u"] exI [of _ "drop 4 u"]) simp
qed

lemma scan_mono:
  assumes "uniform d q" "present D d (q_bucket q) k" "in_scan q since k" "present D d (q_bucket q) k'" "in_scan q since k'" "k' \<le> k"
  shows "fst (scan_entry k') \<le> fst (scan_entry k)"
proof -
  obtain t r where k: "k = q_prefix q @ t @ r" "length t = 4" "scan_entry k = (getBE t, r)" using scan_key [OF assms(1-3)] by auto
  obtain t' r' where k': "k' = q_prefix q @ t' @ r'" "length t' = 4" "scan_entry k' = (getBE t', r')"
    using scan_key [OF assms(1,4,5)] by auto
  have "t' @ r' \<le> t @ r" using assms(6) k k' append_less_iff by metis
  then have "t' \<le> t" using take_mono [of "t' @ r'" "t @ r" 4] k k' by simp
  then show ?thesis using getBE_mono [of t' t] k k' by simp
qed

lemma todo_descending: "uniform d (it_query it) \<Longrightarrow> sorted_wrt (\<lambda>x y. fst y \<le> fst x) (todo D d since it)"
proof (cases "it_exhausted it")
  case False
  assume uni: "uniform d (it_query it)"
  let ?q = "it_query it"
  let ?ks = "takeWhile (in_scan ?q since) (keys_from D d (q_bucket ?q) (the (it_pos it)))"
  have "sorted_wrt (\<ge>) (keys_from D d (q_bucket ?q) (the (it_pos it)))"
    by (simp add: keys_from_def sorted_wrt_rev)
  then have "sorted_wrt (\<ge>) ?ks" by (metis sorted_wrt_take takeWhile_eq_take)
  moreover have "present D d (q_bucket ?q) k \<and> in_scan ?q since k" if "k \<in> set ?ks" for k
    using set_takeWhileD [OF that] by (simp add: set_keys_from)
  ultimately have "sorted_wrt (\<lambda>k k'. fst (scan_entry k') \<le> fst (scan_entry k)) ?ks"
    by (elim sorted_wrt_mono_rel [rotated]) (use scan_mono [OF uni] in blast)
  then show ?thesis using False by (simp add: todo_def sorted_wrt_map)
qed (simp add: todo_def)

text \<open>What holds of every iterator between the rounds.\<close>

definition it_inv :: "'d \<Rightarrow> nat \<Rightarrow> iterator \<Rightarrow> bool" where
  "it_inv d since it \<longleftrightarrow> it_ok D d it \<and> uniform d (it_query it) \<and>
     (\<forall>x \<in> set (it_pending it). it_last it \<le> fst x) \<and> (\<forall>x \<in> set (todo D d since it). fst x \<le> it_last it)"

lemma pulls_inv:
  assumes "pulls d since it it' got" "uniform d (it_query it)" "got \<noteq> []"
    "\<forall>x \<in> set (it_pending it). \<forall>y \<in> set got. fst y \<le> fst x"
  shows "it_inv d since it'"
proof -
  have sorted: "sorted_wrt (\<lambda>x y. fst y \<le> fst x) (got @ todo D d since it')"
    using todo_descending [OF assms(2), of since] assms(1) by (simp add: pulls_def)
  have last: "fst (last got) \<le> fst x" if "x \<in> set got" for x
    using sorted that by (induction got) (auto simp: sorted_wrt_append split: if_splits)
  have "last got \<in> set got" using assms(3) by simp
  then show ?thesis using sorted last assms by (auto simp: it_inv_def pulls_def sorted_wrt_append)
qed

lemma pull_inv:
  assumes "it_inv d since it" "\<not> it_exhausted it"
  shows "it_inv d since (it_pull D d n since it)"
proof -
  obtain got where got: "pulls d since it (it_pull D d n since it) got"
    using it_pull_spec [of d it since n] assms by (auto simp: it_inv_def)
  show ?thesis
  proof (cases "got = []")
    case False
    have "\<forall>x \<in> set (it_pending it). \<forall>y \<in> set got. fst y \<le> fst x"
      using assms(1) got unfolding it_inv_def pulls_def by (metis UnI1 order_trans set_append)
    then show ?thesis using pulls_inv [OF got] assms(1) False by (simp add: it_inv_def)
  qed (use assms got in \<open>simp add: it_inv_def pulls_def\<close>)
qed

lemma first_pull_inv:
  assumes "it_ok D d it" "\<not> it_exhausted it" "uniform d (it_query it)" "it_pending it = []" "0 < n"
  shows "it_inv d since (it_pull D d n since it)"
proof -
  obtain got where got: "pulls d since it (it_pull D d n since it) got"
      "got = [] \<longrightarrow> it_exhausted (it_pull D d n since it)"
    using it_pull_spec [of d it since n] assms by auto
  show ?thesis
  proof (cases "got = []")
    case True
    then have "todo D d since (it_pull D d n since it) = []" using got(2) by (simp add: todo_def)
    then show ?thesis using True got assms by (simp add: it_inv_def pulls_def)
  qed (use pulls_inv [OF got(1)] assms in simp)
qed

section \<open>Rounds\<close>

text \<open>The entries not yet emitted.\<close>

definition open_entries :: "'d \<Rightarrow> nat \<Rightarrow> iterator list \<Rightarrow> (nat \<times> bytes) multiset" where
  "open_entries d since its = (\<Sum>it \<leftarrow> its. mset (it_pending it @ todo D d since it))"

lemma open_entries_simps [simp]:
  "open_entries d since [] = {#}"
  "open_entries d since (it # its) = mset (it_pending it @ todo D d since it) + open_entries d since its"
  by (simp_all add: open_entries_def)

lemma open_entries_mset: "mset its = mset its' \<Longrightarrow> open_entries d since its = open_entries d since its'"
  unfolding open_entries_def sum_mset_sum_list [symmetric] mset_map by simp

definition fetched :: "'d \<Rightarrow> plan \<Rightarrow> (nat \<times> bytes) multiset \<Rightarrow> event multiset" where
  "fetched d pl M = image_mset the (filter_mset (\<lambda>x. x \<noteq> None) (image_mset (\<lambda>x. fetch D d pl (snd x)) M))"

lemma fetched_simps [simp]:
  "fetched d pl {#} = {#}"
  "fetched d pl (M + N) = fetched d pl M + fetched d pl N"
  "fetched d pl (add_mset x M) = (case fetch D d pl (snd x) of None \<Rightarrow> fetched d pl M | Some e \<Rightarrow> add_mset e (fetched d pl M))"
  by (auto simp: fetched_def split: option.splits)

lemma emit_pending_spec:
  assumes "emit_pending D d pl thr t pending tmp = (pending', tmp')" "\<forall>i < t. i < length pending \<longrightarrow> fst (pending ! i) < thr"
  shows "mset pending' = filter_mset (\<lambda>x. fst x < thr) (mset pending) \<and>
    mset tmp' = mset tmp + fetched d pl (filter_mset (\<lambda>x. thr \<le> fst x) (mset pending))"
  using assms
proof (induction "2 * length pending - t" arbitrary: t pending tmp rule: less_induct)
  case less
  consider "length pending \<le> t" | "t < length pending" "thr \<le> fst (pending ! t)" | "t < length pending" "fst (pending ! t) < thr"
    by linarith
  then show ?case
  proof cases
    case 1
    then have "emit_pending D d pl thr t pending tmp = (pending, tmp)" by (simp add: emit_pending.simps)
    moreover have "fst x < thr" if "x \<in># mset pending" for x
      using that less.prems(2) 1 unfolding set_mset_mset in_set_conv_nth by (metis order_less_le_trans)
    then have "filter (\<lambda>x. fst x < thr) pending = pending" "filter (\<lambda>x. thr \<le> fst x) pending = []"
      by (simp_all add: filter_id_conv filter_empty_conv not_le)
    ultimately show ?thesis using less.prems(1) by (simp flip: mset_filter)
  next
    case 2
    let ?rest = "SwapDelete pending t" and ?x = "pending ! t"
    have ms: "mset pending = add_mset ?x (mset ?rest)" using mset_SwapDelete [OF 2(1)] by simp
    have len: "length ?rest = length pending - 1" by (simp add: SwapDelete_def)
    have front: "\<forall>i < t. i < length ?rest \<longrightarrow> fst (?rest ! i) < thr"
      using less.prems(2) len 2 by (auto simp: SwapDelete_def nth_butlast)
    have "emit_pending D d pl thr t ?rest (case fetch D d pl (snd ?x) of None \<Rightarrow> tmp | Some e \<Rightarrow> tmp @ [e]) = (pending', tmp')"
      using less.prems(1) 2 by (simp add: emit_pending.simps [of D d pl thr t pending])
    then show ?thesis using less.hyps [OF _ _ front] len 2 ms by (auto split: option.splits)
  next
    case 3
    then have "emit_pending D d pl thr (t + 1) pending tmp = (pending', tmp')"
      using less.prems(1) by (simp add: emit_pending.simps [of D d pl thr t pending])
    then show ?thesis using less.hyps [of pending "t + 1" tmp] less.prems(2) 3 by (auto simp: less_Suc_eq)
  qed
qed

lemma emit_all_spec:
  "emit_all D d pl thr its tmp = (its', tmp') \<Longrightarrow>
    list_all2 (emits thr) its its' \<and>
    (\<exists>E. mset tmp' = mset tmp + fetched d pl E \<and> (\<forall>x \<in># E. thr \<le> fst x) \<and>
       open_entries d since its = E + open_entries d since its')"
proof (induction its arbitrary: tmp its' tmp')
  case (Cons it its)
  obtain p tmp1 where p: "emit_pending D d pl thr 0 (it_pending it) tmp = (p, tmp1)"
    by (cases "emit_pending D d pl thr 0 (it_pending it) tmp")
  obtain its1 tmp2 where rec: "emit_all D d pl thr its tmp1 = (its1, tmp2)" by (cases "emit_all D d pl thr its tmp1")
  have res: "its' = it\<lparr>it_pending := p\<rparr> # its1" "tmp' = tmp2" using Cons.prems p rec by simp_all
  have one: "mset p = filter_mset (\<lambda>x. fst x < thr) (mset (it_pending it))"
      "mset tmp1 = mset tmp + fetched d pl (filter_mset (\<lambda>x. thr \<le> fst x) (mset (it_pending it)))"
    using emit_pending_spec [OF p] by auto
  obtain E where E: "mset tmp2 = mset tmp1 + fetched d pl E" "\<forall>x \<in># E. thr \<le> fst x"
      "open_entries d since its = E + open_entries d since its1"
    and rest: "list_all2 (emits thr) its its1"
    using Cons.IH [OF rec] by blast
  let ?E = "filter_mset (\<lambda>x. thr \<le> fst x) (mset (it_pending it)) + E"
  have "mset (it_pending it) = filter_mset (\<lambda>x. thr \<le> fst x) (mset (it_pending it)) + mset p"
    unfolding one(1) not_le [symmetric] by (rule multiset_partition)
  moreover have "todo D d since (it\<lparr>it_pending := p\<rparr>) = todo D d since it" by (simp add: todo_def)
  ultimately have "open_entries d since (it # its) = ?E + open_entries d since its'"
    using E(3) res by (simp add: ac_simps)
  moreover have "mset tmp' = mset tmp + fetched d pl ?E" using E(1) one(2) res by simp
  moreover have "\<forall>x \<in># ?E. thr \<le> fst x" using E(2) by auto
  moreover have "list_all2 (emits thr) (it # its) its'" using rest one(1) res by (auto simp: emits_def)
  ultimately show ?case by blast
qed simp

text \<open>How much is left to do: every round makes it less.\<close>

definition work :: "'d \<Rightarrow> nat \<Rightarrow> iterator list \<Rightarrow> nat" where
  "work d since its = (\<Sum>it \<leftarrow> its. length (it_pending it) + 2 * length (todo D d since it) + (if it_exhausted it then 1 else 2))"

lemma emits_frame:
  assumes "emits thr it it'"
  shows "it_last it' = it_last it" "it_exhausted it' = it_exhausted it" "todo D d since it' = todo D d since it"
    "set (it_pending it') = {x \<in> set (it_pending it). fst x < thr}" "length (it_pending it') \<le> length (it_pending it)"
    "it_inv d since it \<Longrightarrow> it_inv d since it'"
proof -
  obtain p where p: "it' = it\<lparr>it_pending := p\<rparr>" "mset p = filter_mset (\<lambda>x. fst x < thr) (mset (it_pending it))"
    using assms by (auto simp: emits_def)
  show "it_last it' = it_last it" "it_exhausted it' = it_exhausted it" "todo D d since it' = todo D d since it"
    using p(1) by (simp_all add: todo_def)
  show pend: "set (it_pending it') = {x \<in> set (it_pending it). fst x < thr}"
    using arg_cong [OF p(2), of set_mset] p(1) by (simp add: set_mset_filter)
  show "length (it_pending it') \<le> length (it_pending it)"
    using arg_cong [OF p(2), of size] p(1) by (simp flip: mset_filter)
  show "it_inv d since it'" if "it_inv d since it"
    using that pend p(1) by (auto simp: it_inv_def it_ok_def todo_def)
qed

lemma emits_work: "list_all2 (emits thr) its its' \<Longrightarrow> work d since its' \<le> work d since its"
  by (induction rule: list_all2_induct) (auto simp: work_def emits_frame intro!: add_mono dest: emits_frame(5))

lemma in_open_entries: "x \<in># open_entries d since its \<longleftrightarrow> (\<exists>it \<in> set its. x \<in> set (it_pending it) \<or> x \<in> set (todo D d since it))"
  by (induction its) auto

lemma bolt_round_spec:
  assumes round: "bolt_round D d pl batch n its = (its', tmp)" and "its \<noteq> []" "0 < n" and inv: "\<forall>it \<in> set its. it_inv d since it"
  shows "\<exists>E T. mset tmp = fetched d pl E \<and> sorted_wrt (\<lambda>a b. CompareEventReverse a b \<le> 0) tmp \<and>
      open_entries d since its = E + open_entries d since its' \<and> (\<forall>x \<in># E. T \<le> fst x) \<and>
      (\<forall>x \<in># open_entries d since its'. fst x \<le> T)"
    and "\<forall>it \<in> set its'. it_inv d since it"
    and "work d since its' \<le> work d since its"
    and "\<exists>j < min (length its') n. \<not> resting (its' ! j)"
proof -
  define k where "k = min n (length its)"
  define ys where "ys = quickselect k its"
  define T where "T = threshold k ys"
  have k: "0 < k" "k \<le> length its" using assms by (simp_all add: k_def)
  obtain es where emit: "emit_all D d pl T ys [] = (its', es)" and tmp: "tmp = slices_SortFunc CompareEventReverse es"
    using round by (auto simp: bolt_round_def Let_def k_def ys_def T_def split: prod.splits)
  obtain E where all2: "list_all2 (emits T) ys its'"
    and E: "mset es = fetched d pl E" "\<forall>x \<in># E. T \<le> fst x" "open_entries d since ys = E + open_entries d since its'"
    using emit_all_spec [OF emit] by auto
  have ys: "mset ys = mset its" "set ys = set its" "length ys = length its" by (simp_all add: ys_def)
  have pairs: "\<exists>it \<in> set its. emits T it it'" if "it' \<in> set its'" for it'
    using all2 that ys(2) by (metis in_set_conv_nth list_all2_conv_all_nth)
  have "\<forall>x \<in># open_entries d since its'. fst x \<le> T"
  proof
    fix x assume "x \<in># open_entries d since its'"
    then obtain it' where it': "it' \<in> set its'" and x: "x \<in> set (it_pending it') \<or> x \<in> set (todo D d since it')"
      unfolding in_open_entries by blast
    then obtain it where it: "it \<in> set its" "emits T it it'" using pairs by blast
    have "it_last it \<le> T" using threshold_quickselect(1) [OF k it(1)] by (simp add: T_def ys_def)
    then show "fst x \<le> T" using x inv it(1) unfolding emits_frame [OF it(2)] it_inv_def
      by (auto dest!: bspec intro: order_trans)
  qed
  moreover have "open_entries d since its = E + open_entries d since its'" using E(3) open_entries_mset [OF ys(1)] by metis
  ultimately show "\<exists>E T. mset tmp = fetched d pl E \<and> sorted_wrt (\<lambda>a b. CompareEventReverse a b \<le> 0) tmp \<and>
      open_entries d since its = E + open_entries d since its' \<and> (\<forall>x \<in># E. T \<le> fst x) \<and>
      (\<forall>x \<in># open_entries d since its'. fst x \<le> T)"
    using E tmp event_cmp_rev.sorted_SortFunc by (intro exI [of _ E] exI [of _ T]) simp
  show "\<forall>it \<in> set its'. it_inv d since it" using pairs inv emits_frame(6) by blast
  show "work d since its' \<le> work d since its"
    using emits_work [OF all2, of d since] by (simp add: work_def flip: sum_mset_sum_list) (simp add: ys)
  obtain j where j: "j < k" "T = last_at ys j" using threshold_quickselect(2) [OF k] by (auto simp: T_def ys_def)
  then have jl: "j < length ys" using k ys by simp
  then have em: "emits T (ys ! j) (its' ! j)" using list_all2_nthD [OF all2] by blast
  have "it_inv d since (ys ! j)" using inv ys jl nth_mem by metis
  then have "set (it_pending (its' ! j)) = {}"
    using j unfolding emits_frame(4) [OF em] it_inv_def last_at_def by auto
  moreover have "j < min (length its') n" using j k list_all2_lengthD [OF all2] ys by (simp add: k_def)
  ultimately show "\<exists>j < min (length its') n. \<not> resting (its' ! j)" by (auto simp: resting_def)
qed

lemma sum_list_update:
  fixes f :: "'b \<Rightarrow> 'c :: comm_monoid_add"
  shows "i < length xs \<Longrightarrow> sum_list (map f (xs[i := x])) + f (xs ! i) = sum_list (map f xs) + f x"
proof (induction xs arbitrary: i)
  case (Cons a xs)
  then show ?case by (cases i) (simp_all add: ac_simps)
qed simp

lemma pulls_work:
  assumes "pulls d since it it' got" "\<not> it_exhausted it" "got = [] \<longrightarrow> it_exhausted it'"
  shows "work d since [it'] < work d since [it]" and "open_entries d since [it'] = open_entries d since [it]"
  using assms by (cases got; auto simp: work_def pulls_def)+

lemma pull_more_one:
  assumes "i < length its" "\<not> it_exhausted (its ! i)" "\<forall>it \<in> set its. it_inv d since it" "0 < batch"
    "its1 = its[i := it_pull D d batch since (its ! i)]"
  shows "\<forall>it \<in> set its1. it_inv d since it" "open_entries d since its1 = open_entries d since its"
    "work d since its1 < work d since its"
proof -
  let ?it = "its ! i" and ?it' = "it_pull D d batch since (its ! i)"
  have inv: "it_inv d since ?it" using assms by simp
  obtain got where got: "pulls d since ?it ?it' got" "got = [] \<longrightarrow> it_exhausted ?it'"
    using it_pull_spec [of d ?it since batch] inv assms(2,4) by (auto simp: it_inv_def)
  show "\<forall>it \<in> set its1. it_inv d since it"
    using assms(3,5) pull_inv [OF inv assms(2)] set_update_subset_insert [of its i ?it'] by blast
  show "open_entries d since its1 = open_entries d since its"
    using sum_list_update [OF assms(1), of "\<lambda>it. mset (it_pending it @ todo D d since it)" ?it'] pulls_work(2) [OF got(1) assms(2) got(2)]
      assms(5) by (simp add: open_entries_def)
  show "work d since its1 < work d since its"
    using sum_list_update [OF assms(1), of "\<lambda>it. length (it_pending it) + 2 * length (todo D d since it) + (if it_exhausted it then 1 else 2)" ?it']
      pulls_work(1) [OF got(1) assms(2) got(2)] assms(5) by (simp add: work_def)
qed

lemma SwapDelete_work:
  assumes "i < length its" "it_exhausted (its ! i)" "it_pending (its ! i) = []"
  shows "open_entries d since (SwapDelete its i) = open_entries d since its" "work d since (SwapDelete its i) < work d since its"
    "set (SwapDelete its i) \<subseteq> set its"
proof -
  have ms: "add_mset (its ! i) (mset (SwapDelete its i)) = mset its" by (rule mset_SwapDelete [OF assms(1)])
  show "set (SwapDelete its i) \<subseteq> set its" using arg_cong [OF ms, of set_mset] by auto
  have none: "todo D d since (its ! i) = []" using assms(2) by (simp add: todo_def)
  show "open_entries d since (SwapDelete its i) = open_entries d since its"
    using open_entries_mset [of "its ! i # SwapDelete its i" its d since] ms assms(3) none by simp
  have "work d since (its ! i # SwapDelete its i) = work d since its"
    unfolding work_def sum_mset_sum_list [symmetric] mset_map using ms by simp
  then show "work d since (SwapDelete its i) < work d since its" using none assms by (simp add: work_def)
qed

lemma pull_more_spec:
  assumes "\<forall>it \<in> set its. it_inv d since it" "0 < batch"
  shows "(\<forall>it \<in> set (pull_more D d batch since n i its). it_inv d since it) \<and>
    open_entries d since (pull_more D d batch since n i its) = open_entries d since its \<and>
    work d since (pull_more D d batch since n i its) \<le> work d since its \<and>
    ((\<exists>j < min (length its) n. i \<le> j \<and> \<not> resting (its ! j)) \<longrightarrow>
       work d since (pull_more D d batch since n i its) < work d since its)"
  using assms
proof (induction "2 * length its - i" arbitrary: i its rule: less_induct)
  case less
  note unfold = pull_more.simps [of D d batch since n i its]
  consider "\<not> i < min (length its) n" | "i < min (length its) n" "it_exhausted (its ! i)" "it_pending (its ! i) = []"
    | "i < min (length its) n" "resting (its ! i)" | "i < min (length its) n" "\<not> it_exhausted (its ! i)"
    unfolding resting_def by blast
  then show ?case
  proof cases
    case 1
    then have "pull_more D d batch since n i its = its" by (simp only: unfold if_False)
    moreover have "\<not> (\<exists>j < min (length its) n. i \<le> j \<and> \<not> resting (its ! j))" using 1 by auto
    ultimately show ?thesis using less.prems by simp
  next
    case 2
    let ?its = "SwapDelete its i"
    have sd: "open_entries d since ?its = open_entries d since its" "work d since ?its < work d since its"
        "set ?its \<subseteq> set its"
      using SwapDelete_work 2 by simp_all
    have "2 * length ?its - i < 2 * length its - i" using 2(1) by (simp add: SwapDelete_def) linarith
    moreover have "\<forall>it \<in> set ?its. it_inv d since it" using less.prems(1) sd(3) by blast
    ultimately have "(\<forall>it \<in> set (pull_more D d batch since n i ?its). it_inv d since it) \<and>
        open_entries d since (pull_more D d batch since n i ?its) = open_entries d since ?its \<and>
        work d since (pull_more D d batch since n i ?its) \<le> work d since ?its"
      using less.hyps less.prems(2) by blast
    moreover have "pull_more D d batch since n i its = pull_more D d batch since n i ?its" using 2 by (simp add: unfold)
    ultimately show ?thesis using sd by simp
  next
    case 3
    then have "pull_more D d batch since n i its = pull_more D d batch since n (i + 1) its"
      by (simp add: unfold resting_def)
    moreover have "(\<exists>j < min (length its) n. i \<le> j \<and> \<not> resting (its ! j)) \<longleftrightarrow>
        (\<exists>j < min (length its) n. i + 1 \<le> j \<and> \<not> resting (its ! j))"
      using 3(2) by (metis Suc_eq_plus1 Suc_le_eq le_eq_less_or_eq)
    moreover have "2 * length its - (i + 1) < 2 * length its - i" using 3(1) by simp linarith
    ultimately show ?thesis using less.hyps [OF _ less.prems, of "i + 1"] by simp
  next
    case 4
    let ?its = "its[i := it_pull D d batch since (its ! i)]"
    have one: "\<forall>it \<in> set ?its. it_inv d since it" "open_entries d since ?its = open_entries d since its"
        "work d since ?its < work d since its"
      using pull_more_one [of i its d since batch ?its] 4 less.prems by simp_all
    have "pull_more D d batch since n i its = pull_more D d batch since n (i + 1) ?its" using 4 by (simp add: unfold)
    moreover have "2 * length ?its - (i + 1) < 2 * length its - i" using 4(1) by simp linarith
    from less.hyps [OF this one(1) less.prems(2)] have "(\<forall>it \<in> set (pull_more D d batch since n (i + 1) ?its). it_inv d since it) \<and>
        open_entries d since (pull_more D d batch since n (i + 1) ?its) = open_entries d since ?its \<and>
        work d since (pull_more D d batch since n (i + 1) ?its) \<le> work d since ?its" by blast
    ultimately show ?thesis using one by simp
  qed
qed

section \<open>The loop\<close>

lemma yield_until_spec:
  "yield_until limit tmp emitted = (out, emitted', stop) \<Longrightarrow> emitted < limit \<Longrightarrow>
    (if emitted + int (length tmp) < limit then out = tmp \<and> emitted' = emitted + int (length tmp) \<and> \<not> stop
     else out = take (nat (limit - emitted)) tmp \<and> stop)"
proof (induction limit tmp emitted arbitrary: out emitted' stop rule: yield_until.induct)
  case (2 limit e es emitted)
  show ?case
  proof (cases "emitted + 1 = limit")
    case True
    then show ?thesis using 2(2) by auto
  next
    case False
    obtain out1 where rec: "yield_until limit es (emitted + 1) = (out1, emitted', stop)" "out = e # out1"
      using 2(2) False by (auto split: prod.splits)
    have "nat (limit - emitted) = Suc (nat (limit - (emitted + 1)))" using False 2(3) by simp
    then show ?thesis using "2.IH" [OF False rec(1)] rec(2) False 2(3) by (auto simp: ac_simps split: if_splits)
  qed
qed auto

definition dated :: "'d \<Rightarrow> plan \<Rightarrow> (nat \<times> bytes) multiset \<Rightarrow> bool" where
  "dated d pl M \<longleftrightarrow> (\<forall>x \<in># M. \<forall>e. fetch D d pl (snd x) = Some e \<longrightarrow> evCreatedAt e = int (fst x))"

lemma in_fetched: "e \<in># fetched d pl M \<longleftrightarrow> (\<exists>x \<in># M. fetch D d pl (snd x) = Some e)"
  by (force simp: fetched_def)

lemma reverse_order: "CompareEventReverse a b \<le> 0 \<Longrightarrow> evCreatedAt b \<le> evCreatedAt a"
  by (auto simp: CompareEventReverse_def cmp_Compare_def split: if_splits)

lemma newest_take:
  assumes "newest tmp rest"
  shows "newest (take m tmp) (mset (drop m tmp) + rest)"
proof -
  have "sorted_wrt (\<lambda>a b. evCreatedAt b \<le> evCreatedAt a) (take m tmp @ drop m tmp)" using assms by (simp add: newest_def)
  then show ?thesis using assms unfolding newest_def sorted_wrt_append by (auto dest: in_set_takeD)
qed

lemma newest_append: "newest tmp (mset out + rest) \<Longrightarrow> newest out rest \<Longrightarrow> newest (tmp @ out) rest"
  by (auto simp: newest_def sorted_wrt_append)

lemma bolt_loop_step:
  assumes "its \<noteq> []" "bolt_round D d pl batch n its = (its', tmp)" "yield_until limit tmp emitted = (out, emitted', stop)"
  shows "bolt_loop D d pl limit batch n emitted its =
    (if stop then Some out
     else Option.bind (bolt_loop D d pl limit batch n emitted' (pull_more D d batch (pl_since pl) n 0 its')) (\<lambda>rest. Some (out @ rest)))"
  by (subst bolt_loop.simps) (simp add: assms)

lemma round_newest:
  assumes "mset tmp = fetched d pl E" "sorted_wrt (\<lambda>a b. CompareEventReverse a b \<le> 0) tmp" "dated d pl (E + M)"
    "\<forall>x \<in># E. T \<le> fst x" "\<forall>x \<in># M. fst x \<le> T"
  shows "newest tmp (fetched d pl M)"
proof -
  have "sorted_wrt (\<lambda>a b. evCreatedAt b \<le> evCreatedAt a) tmp"
    using assms(2) by (rule sorted_wrt_mono_rel [rotated]) (rule reverse_order)
  moreover have "evCreatedAt y \<le> evCreatedAt x" if xy: "x \<in> set tmp" "y \<in># fetched d pl M" for x y
  proof -
    have "x \<in># fetched d pl E" using xy(1) assms(1) by (metis set_mset_mset)
    then obtain a b where a: "a \<in># E" "fetch D d pl (snd a) = Some x" and b: "b \<in># M" "fetch D d pl (snd b) = Some y"
      using xy(2) unfolding in_fetched by blast
    then have "evCreatedAt x = int (fst a)" "evCreatedAt y = int (fst b)" using assms(3) by (auto simp: dated_def)
    moreover have "fst b \<le> fst a" using assms(4,5) a(1) b(1) by (meson order_trans)
    ultimately show ?thesis by simp
  qed
  ultimately show ?thesis by (simp add: newest_def)
qed

text \<open>The loop ends, with the newest of the fetched events.\<close>

lemma bolt_loop_newest:
  assumes "\<forall>it \<in> set its. it_inv d (pl_since pl) it" "dated d pl (open_entries d (pl_since pl) its)" "0 < batch" "0 < n"
    "0 \<le> emitted" "emitted < limit"
  shows "\<exists>out rest. bolt_loop D d pl limit batch n emitted its = Some out \<and>
    mset out + rest = fetched d pl (open_entries d (pl_since pl) its) \<and> newest out rest \<and>
    emitted + int (length out) \<le> limit \<and> (rest \<noteq> {#} \<longrightarrow> emitted + int (length out) = limit)"
  using assms
proof (induction "work d (pl_since pl) its" arbitrary: its emitted rule: less_induct)
  case less
  let ?since = "pl_since pl"
  show ?case
  proof (cases "its = []")
    case True
    then have "bolt_loop D d pl limit batch n emitted its = Some []" by (subst bolt_loop.simps) simp
    then show ?thesis using True less.prems by (intro exI [of _ "[]"] exI [of _ "{#}"]) (simp add: newest_def)
  next
    case False
    obtain its' tmp where round: "bolt_round D d pl batch n its = (its', tmp)" by (cases "bolt_round D d pl batch n its")
    obtain out emitted' stop where yield: "yield_until limit tmp emitted = (out, emitted', stop)"
      by (cases "yield_until limit tmp emitted")
    note step = bolt_loop_step [OF False round yield]
    note spec = bolt_round_spec [OF round False less.prems(4,1)]
    obtain E T where E: "mset tmp = fetched d pl E" "sorted_wrt (\<lambda>a b. CompareEventReverse a b \<le> 0) tmp"
        "open_entries d ?since its = E + open_entries d ?since its'" "\<forall>x \<in># E. T \<le> fst x"
        "\<forall>x \<in># open_entries d ?since its'. fst x \<le> T"
      using spec(1) by blast
    let ?rest = "fetched d pl (open_entries d ?since its')"
    have new: "newest tmp ?rest" using round_newest [OF E(1,2)] less.prems(2) E(3-5) by simp
    have all: "fetched d pl (open_entries d ?since its) = mset tmp + ?rest" using E(1,3) by simp
    show ?thesis
    proof (cases "emitted + int (length tmp) < limit")
      case False
      then have out: "out = take (nat (limit - emitted)) tmp" stop using yield_until_spec [OF yield] less.prems(6) by auto
      then have "bolt_loop D d pl limit batch n emitted its = Some out" using step by simp
      moreover have "mset out + (mset (drop (nat (limit - emitted)) tmp) + ?rest) = fetched d pl (open_entries d ?since its)"
        using all out(1) by (metis append_take_drop_id mset_append union_assoc)
      moreover have "emitted + int (length out) = limit" using out(1) False less.prems by simp
      moreover have "newest out (mset (drop (nat (limit - emitted)) tmp) + ?rest)" unfolding out(1) by (rule newest_take [OF new])
      ultimately show ?thesis by (intro exI [of _ out] exI conjI) (assumption | simp)+
    next
      case True
      then have out: "out = tmp" "emitted' = emitted + int (length tmp)" "\<not> stop"
        using yield_until_spec [OF yield] less.prems(6) by auto
      define next_its where "next_its = pull_more D d batch ?since n 0 its'"
      have more: "\<forall>it \<in> set next_its. it_inv d ?since it" "open_entries d ?since next_its = open_entries d ?since its'"
          "work d ?since next_its < work d ?since its'"
        using pull_more_spec [OF spec(2) less.prems(3), where n = n and i = 0] spec(4) by (simp_all add: next_its_def)
      have "dated d pl (open_entries d ?since next_its)" using less.prems(2) E(3) more(2) by (simp add: dated_def)
      moreover have "work d ?since next_its < work d ?since its" using more(3) spec(3) by simp
      ultimately obtain out' rest where rec: "bolt_loop D d pl limit batch n emitted' next_its = Some out'"
          "mset out' + rest = ?rest" "newest out' rest" "emitted' + int (length out') \<le> limit"
          "rest \<noteq> {#} \<longrightarrow> emitted' + int (length out') = limit"
        using less.hyps [of next_its emitted'] more(1,2) less.prems out(2) True by auto
      have "bolt_loop D d pl limit batch n emitted its = Some (tmp @ out')" using step rec(1) out by (simp add: next_its_def)
      moreover have "newest (tmp @ out') rest" using newest_append new rec(2,3) by metis
      moreover have "mset (tmp @ out') + rest = fetched d pl (open_entries d ?since its)" using all rec(2) by (simp add: ac_simps)
      ultimately show ?thesis using rec(4,5) out(2) by (intro exI [of _ "tmp @ out'"] exI [of _ rest]) (simp add: add.assoc)
    qed
  qed
qed

end

end
