(* ===== verification/BoltQuery.thy ===== *)
theory BoltQuery
  imports BoltScan
begin

text \<open>
  The bolt query as a whole: which stored events the scans of a plan select, that the query gives out the newest of
  them up to the limit, and how the plan of a filter relates to the filter.
\<close>

section \<open>Keys and scans\<close>

fun prefix_length :: "bucket \<Rightarrow> nat" where
  "prefix_length IndexPubkey = 8"
| "prefix_length IndexKind = 2"
| "prefix_length IndexPubkeyKind = 10"
| "prefix_length IndexTag = 17"
| "prefix_length IndexTag32 = 9"
| "prefix_length IndexTagAddr = 41"
| "prefix_length _ = 0"

text \<open>The events a scan selects, and those of them that pass the extra checks.\<close>

definition in_range :: "nat \<Rightarrow> nat \<Rightarrow> event \<Rightarrow> bool" where
  "in_range since until e \<longleftrightarrow> since \<le> uint32 (evCreatedAt e) \<and> uint32 (evCreatedAt e) < until"

definition hit :: "bolt_env \<Rightarrow> query \<Rightarrow> event \<Rightarrow> bool" where
  "hit B q e \<longleftrightarrow> (q_bucket q, q_prefix q @ stamp e) \<in> set (getIndexKeysForEvent B e)"

definition passes :: "plan \<Rightarrow> event \<Rightarrow> bool" where
  "passes pl e \<longleftrightarrow>
     (case pl_extraAuthors pl of Some as \<Rightarrow> evPubKey e \<in> set as | None \<Rightarrow> True) \<and>
     (case pl_extraKinds pl of Some ks \<Rightarrow> evKind e \<in> set ks | None \<Rightarrow> True) \<and>
     (case pl_extraTagValues pl of Some vs \<Rightarrow> ContainsAny (evTags e) (pl_extraTagKey pl) vs | None \<Rightarrow> True)"

definition held :: "'d bolt_db \<Rightarrow> 'd \<Rightarrow> event set" where
  "held D d = {e. stored D d (id_ptr (evID e)) = Some e}"

definition timely :: "'d bolt_db \<Rightarrow> 'd \<Rightarrow> bool" where
  "timely D d \<longleftrightarrow> (\<forall>e \<in> held D d. 0 \<le> evCreatedAt e \<and> evCreatedAt e < 4294967295)"

lemma Unmarshal_fields:
  assumes "Unmarshal bin = Ret e"
  shows "GetPubKey bin = Ret (evPubKey e)" "GetKind bin = Ret (evKind e)"
proof -
  have "unmarshal_body bin = Ret e" using assms by (simp add: Unmarshal_def split: outcome.splits)
  then show "GetPubKey bin = Ret (evPubKey e)" "GetKind bin = Ret (evKind e)"
    by (auto simp: unmarshal_body_def GetPubKey_def GetKind_def obind_Ret_iff Let_def)
qed

lemma fetch_stored: "stored D d p = Some e \<Longrightarrow> fetch D d pl p = (if passes pl e then Some e else None)"
  by (auto simp: stored_def fetch_def passes_def Unmarshal_fields split: option.splits outcome.splits)

definition query_ok :: "nat \<Rightarrow> query \<Rightarrow> bool" where
  "query_ok until q \<longleftrightarrow> index_bucket (q_bucket q) \<and> length (q_prefix q) = prefix_length (q_bucket q) \<and>
     q_startingPoint q = q_prefix q @ putBE 4 until"

definition plan_ok :: "nat \<Rightarrow> plan \<Rightarrow> bool" where
  "plan_ok until pl \<longleftrightarrow> (\<forall>q \<in> set (pl_queries pl). query_ok until q)"

text \<open>Authors of the filter are public keys.\<close>

definition filter_keys :: "Filter \<Rightarrow> bool" where
  "filter_keys f \<longleftrightarrow> (\<forall>pk \<in> set (opt_list (fAuthors f)). length pk = 32)"

text \<open>The bounds of the filter fit the dates of the index.\<close>

definition filter_times :: "Filter \<Rightarrow> bool" where
  "filter_times f \<longleftrightarrow> 0 \<le> fSince f \<and> fSince f < 4294967295 \<and> 0 \<le> fUntil f \<and> fUntil f < 4294967295"

text \<open>The tags of the filter are those the index holds.\<close>

definition filter_tags :: "Filter \<Rightarrow> bool" where
  "filter_tags f \<longleftrightarrow> (\<forall>(k, vs) \<in> set (fTags f). length k = 1 \<and> (\<forall>v \<in> set vs. 0 < length v \<and> length v \<le> 100))"

definition same_key :: "Filter \<Rightarrow> event \<Rightarrow> bool" where
  "same_key f e \<longleftrightarrow> (opt_list (fAuthors f) \<noteq> [] \<longrightarrow> take 8 (evPubKey e) \<in> take 8 ` set (opt_list (fAuthors f))) \<and>
     (opt_list (fKinds f) \<noteq> [] \<longrightarrow> evKind e \<in> set (opt_list (fKinds f)))"

definition extra_tag :: "Filter \<Rightarrow> string \<Rightarrow> string \<times> string list option" where
  "extra_tag f key =
     (let tags = CopyMapWithoutKey (fTags f) key
      in if length tags > 0 then (case ChooseNarrowestTag (f\<lparr>fTags := tags\<rparr>) of (k, vs, _) \<Rightarrow> (k, vs)) else ('''', None))"

definition tag_plan :: "Filter \<Rightarrow> string \<Rightarrow> (bucket \<times> bytes) list \<Rightarrow> plan" where
  "tag_plan f key bps =
     \<lparr>pl_queries = map (mk_query f) bps, pl_extraAuthors = fAuthors f, pl_extraKinds = fKinds f,
       pl_extraTagKey = fst (extra_tag f key), pl_extraTagValues = snd (extra_tag f key), pl_since = plan_since f\<rparr>"

context bolt_store
begin

lemma decode16_exact:
  assumes "length s = 64" "xhex_Decode (be_ext B) (take 16 s) = Some bs"
  shows "length bs = 8"
  using hex_codec.len_dec [OF hex assms(2)] assms(1) by simp

lemma addr_prefix_exact: "addr_prefix B l s = Some pre \<Longrightarrow> length pre = 41"
  by (auto simp: addr_prefix_def Let_def split: list.splits option.splits if_splits prod.splits dest!: decode16_exact)

lemma tag_index_key_exact: "tag_index_key B l s = (b, k) \<Longrightarrow> length k = prefix_length b + 12 \<and> index_bucket b"
  using md5
  by (auto simp: tag_index_key_def index_bucket_def split: option.splits if_splits dest: decode16_exact addr_prefix_exact)

lemma key_exact:
  assumes "wf_event e" "(b, k) \<in> set (getIndexKeysForEvent B e)"
  shows "length k = prefix_length b + 12"
proof -
  have "length (evPubKey e) = 32" using assms(1) by (simp add: wf_event_def wf32_def)
  moreover have "length k' = prefix_length b' + 12" if t: "tag_key B e t = (b', k')" for t b' k'
  proof -
    obtain b'' k'' where "tag_index_key B (byte_of_char (hd (t ! 0))) (t ! 1) = (b'', k'')"
      by (cases "tag_index_key B (byte_of_char (hd (t ! 0))) (t ! 1)")
    with tag_index_key_exact [OF this] t show ?thesis by (auto simp: tag_key_def length_stamp [OF assms(1)])
  qed
  ultimately show ?thesis using assms length_stamp [OF assms(1)]
    by (auto simp: getIndexKeysForEvent_def dest!: sym [of "(b, k)"])
qed

section \<open>Where an iterator starts\<close>

definition sized :: "'d \<Rightarrow> query \<Rightarrow> bool" where
  "sized d q \<longleftrightarrow> (\<forall>k. present D d (q_bucket q) k \<longrightarrow> length k = length (q_prefix q) + 12)"

lemma sized_uniform: "sized d q \<Longrightarrow> uniform d q"
  by (simp add: sized_def uniform_def)

lemma it_seek_spec:
  assumes "it = it_seek D d sp (newIterator q)"
  shows "it_ok D d it" "it_query it = q" "it_pending it = []"
    and "if it_exhausted it then \<forall>k. present D d (q_bucket q) k \<longrightarrow> \<not> k \<le> sp
      else \<exists>p. it_pos it = Some p \<and> (\<forall>k. present D d (q_bucket q) k \<longrightarrow> (k \<le> p \<longleftrightarrow> k \<le> sp))"
proof -
  let ?b = "q_bucket q"
  have it: "it = (if (case db_Seek D d ?b sp of None \<Rightarrow> True | Some k \<Rightarrow> bytes_Compare k sp = 1)
      then it_stand (db_Prev D d ?b (db_Seek D d ?b sp)) ((newIterator q)\<lparr>it_pos := db_Seek D d ?b sp\<rparr>)
      else it_stand (db_Seek D d ?b sp) (newIterator q))"
    by (simp add: assms it_seek_def newIterator_def Let_def)
  have new: "it_query (newIterator q) = q" "\<not> it_exhausted (newIterator q)" "it_pending (newIterator q) = []"
    by (simp_all add: newIterator_def)
  show "it_query it = q" "it_pending it = []" using new by (auto simp: it it_stand_def split: option.split)
  show "it_ok D d it"
    using new seek_Some prev_Some by (auto simp: it it_ok_def it_stand_def split: option.split)
  have le_seek: "k \<le> sp \<longleftrightarrow> k < k'" if "db_Seek D d ?b sp = Some k'" "k' \<noteq> sp" "present D d ?b k" for k k'
    using seek_Some [OF that(1)] that(2,3) by (auto simp: bytes_Compare_less not_less le_less)
  have none: "k \<le> sp" if "db_Seek D d ?b sp = None" "present D d ?b k" for k
    using seek_None [OF that] by (simp add: bytes_Compare_less)
  have gt: "bytes_Compare k sp = 1 \<longleftrightarrow> sp < k" for k
    using bytes_Compare_anti [of k sp] bytes_Compare_less [of sp k] bytes_Compare_less_1 [of sp k] by simp
  show "if it_exhausted it then \<forall>k. present D d ?b k \<longrightarrow> \<not> k \<le> sp
      else \<exists>p. it_pos it = Some p \<and> (\<forall>k. present D d ?b k \<longrightarrow> (k \<le> p \<longleftrightarrow> k \<le> sp))"
  proof (cases "db_Seek D d ?b sp")
    case None
    show ?thesis
    proof (cases "db_Prev D d ?b None")
      case N: None
      then have "\<not> present D d ?b k" for k using prev_None [OF N] by auto
      then show ?thesis using None N by (simp add: it it_stand_def)
    next
      case (Some p)
      then have "k \<le> p" if "present D d ?b k" for k
        using prev_Some [OF Some] that by (auto simp: bytes_Compare_less not_less)
      then show ?thesis using None Some none new by (simp add: it it_stand_def)
    qed
  next
    case (Some k')
    have k': "present D d ?b k'" "\<not> k' < sp" using seek_Some [OF Some] by (simp_all add: bytes_Compare_less)
    show ?thesis
    proof (cases "k' = sp")
      case True
      then show ?thesis using Some new gt by (simp add: it it_stand_def)
    next
      case False
      then have gt': "bytes_Compare k' sp = 1" using k' gt by simp
      show ?thesis
      proof (cases "db_Prev D d ?b (Some k')")
        case N: None
        then show ?thesis using Some gt' prev_None [OF N] le_seek [OF Some False] by (simp add: it it_stand_def)
      next
        case P: (Some p)
        have "k \<le> p \<longleftrightarrow> k < k'" if "present D d ?b k" for k
          using prev_Some [OF P] that by (auto simp: bytes_Compare_less not_less intro: order_le_less_trans)
        then show ?thesis using Some P gt' le_seek [OF Some False] new by (simp add: it it_stand_def)
      qed
    qed
  qed
qed

text \<open>A scan reads all keys of the range, because they stand together.\<close>

lemma between_prefixed:
  "p @ a \<le> k \<Longrightarrow> k \<le> p @ b \<Longrightarrow> \<exists>c. k = p @ (c :: 'a :: linorder list)"
proof (induction p arbitrary: k)
  case (Cons x p)
  then show ?case by (cases k) auto
qed simp

lemma takeWhile_filter:
  assumes "sorted_wrt R xs" "\<And>x y. x \<in> set xs \<Longrightarrow> y \<in> set xs \<Longrightarrow> R x y \<Longrightarrow> P y \<Longrightarrow> P x"
  shows "takeWhile P xs = filter P xs"
  using assms
proof (induction xs)
  case (Cons x xs)
  then have "filter P xs = []" if "\<not> P x" using that by (fastforce simp: filter_empty_conv)
  then show ?case using Cons by auto
qed simp

lemma in_scan_closed:
  assumes "sized d q" "present D d (q_bucket q) k" "present D d (q_bucket q) k'" "k' \<le> k" "k \<le> q_prefix q @ u" "in_scan q since k'"
  shows "in_scan q since k"
proof -
  have uni: "uniform d q" using assms(1) by (rule sized_uniform)
  obtain t r where k': "k' = q_prefix q @ t @ r" "scan_entry k' = (getBE t, r)" using scan_key [OF uni assms(3,6)] by auto
  obtain c where c: "k = q_prefix q @ c" using between_prefixed [of "q_prefix q" "t @ r" k u] assms(4,5) k' by auto
  have len: "length c = 12" using assms(1,2) c by (auto simp: sized_def)
  have "in_scan q 0 k" using c len by (simp add: in_scan_def bytes_HasPrefix_def)
  moreover have "in_scan q 0 k'" using assms(6) by (simp add: in_scan_def)
  ultimately have "fst (scan_entry k') \<le> fst (scan_entry k)" using scan_mono [OF uni assms(2) _ assms(3) _ assms(4)] by blast
  then show ?thesis using assms(6) \<open>in_scan q 0 k\<close> by (simp add: in_scan_def scan_entry_def)
qed

lemma todo_start:
  assumes "sized d q" "it = it_seek D d sp (newIterator q)" "sp = q_prefix q @ u"
  shows "mset (todo D d since it) = image_mset scan_entry (mset_set {k. present D d (q_bucket q) k \<and> k \<le> sp \<and> in_scan q since k})"
proof -
  note seek = it_seek_spec [OF assms(2)]
  let ?b = "q_bucket q"
  show ?thesis
  proof (cases "it_exhausted it")
    case True
    then have none: "{k. present D d ?b k \<and> k \<le> sp \<and> in_scan q since k} = {}" using seek(4) by auto
    show ?thesis using True unfolding none by (simp add: todo_def)
  next
    case False
    then obtain p where p: "it_pos it = Some p" "\<And>k. present D d ?b k \<Longrightarrow> (k \<le> p \<longleftrightarrow> k \<le> sp)" using seek(4) by auto
    let ?ks = "keys_from D d ?b p"
    have keys: "set ?ks = {k. present D d ?b k \<and> k \<le> sp}" using p(2) by (auto simp: set_keys_from)
    have "sorted_wrt (\<ge>) ?ks" "distinct ?ks" by (simp_all add: keys_from_def sorted_wrt_rev)
    then have "takeWhile (in_scan q since) ?ks = filter (in_scan q since) ?ks"
      using keys assms(3) in_scan_closed [OF assms(1)] by (rule_tac takeWhile_filter [where R = "(\<ge>)"]) auto
    then have "todo D d since it = map scan_entry (filter (in_scan q since) ?ks)" using False p(1) seek(2) by (simp add: todo_def)
    moreover have "mset (filter (in_scan q since) ?ks) = mset_set (set (filter (in_scan q since) ?ks))"
      using \<open>distinct ?ks\<close> by (intro mset_set_set [symmetric] distinct_filter)
    moreover have "set (filter (in_scan q since) ?ks) = {k. present D d ?b k \<and> k \<le> sp \<and> in_scan q since k}" using keys by auto
    ultimately show ?thesis by (metis mset_map)
  qed
qed

section \<open>The events of a scan\<close>

lemma held_wf:
  assumes "bolt_inv D B d"
  shows "e \<in> held D d \<longleftrightarrow> (\<exists>p. stored D d p = Some e)" and "e \<in> held D d \<Longrightarrow> wf_event e"
proof -
  have raw: "id_ptr (evID e) = p \<and> wf_event e" if "stored D d p = Some e" for p
  proof -
    have "present D d RawEventStore p" using that by (auto simp: stored_def present_def split: option.splits)
    then show ?thesis using assms that by (auto simp: bolt_inv_def raw_ok_def)
  qed
  then show "e \<in> held D d \<longleftrightarrow> (\<exists>p. stored D d p = Some e)" by (auto simp: held_def)
  show "e \<in> held D d \<Longrightarrow> wf_event e" using raw by (auto simp: held_def)
qed

lemma held_inj: "inj_on (\<lambda>e. id_ptr (evID e)) (held D d)"
  by (rule inj_onI) (simp add: held_def)

lemma finite_held: "finite (held D d)"
proof (rule finite_imageD [OF _ held_inj])
  have "(\<lambda>e. id_ptr (evID e)) ` held D d \<subseteq> {k. present D d RawEventStore k}"
    by (auto simp: held_def stored_def present_def split: option.splits)
  then show "finite ((\<lambda>e. id_ptr (evID e)) ` held D d)" using finite_bucket finite_subset by blast
qed

lemma query_sized:
  assumes "bolt_inv D B d" "query_ok until q"
  shows "sized d q"
  unfolding sized_def
proof (intro allI impI)
  fix k assume "present D d (q_bucket q) k"
  then obtain p e where "stored D d p = Some e" "(q_bucket q, k) \<in> set (getIndexKeysForEvent B e)"
    using assms by (auto simp: bolt_inv_def index_ok_def query_ok_def)
  then show "length k = length (q_prefix q) + 12"
    using held_wf [OF assms(1), of e] key_exact assms(2) by (auto simp: query_ok_def)
qed

lemma prefix_of_stamp:
  assumes "length p = length pre" "pre @ stamp e = p @ c"
  shows "c = stamp e" "p = pre"
  using assms by auto

lemma start_bound: "until < 2 ^ 32 \<Longrightarrow> wf_event e \<Longrightarrow> p @ stamp e \<le> p @ putBE 4 until \<longleftrightarrow> uint32 (evCreatedAt e) < until"
proof -
  assume u: "until < 2 ^ 32" and wf: "wf_event e"
  have shorter: "t @ r \<le> s \<longleftrightarrow> t < s" if "length t = length s" "r \<noteq> []" for t s r :: bytes
    using that by (induction t s rule: list_induct2) (auto simp: neq_Nil_conv)
  have c: "uint32 (evCreatedAt e) < 2 ^ 32" by (simp add: uint32_def nat_less_iff)
  have mono: "v \<le> w" if "putBE 4 v \<le> putBE 4 w" "v < 2 ^ 32" "w < 2 ^ 32" for v w
    using getBE_mono [of "putBE 4 v" "putBE 4 w"] that by (simp add: getBE_putBE)
  have "putBE 4 (uint32 (evCreatedAt e)) < putBE 4 until \<longleftrightarrow> uint32 (evCreatedAt e) < until"
    using mono [OF _ c u] mono [OF _ u c] by (metis leI less_le less_le_not_le)
  moreover have "id_ptr (evID e) \<noteq> []" using length_id_ptr [OF wf] by auto
  ultimately show ?thesis by (simp add: append_less_iff stamp_def shorter)
qed

lemma stamp_entry: "wf_event e \<Longrightarrow> scan_entry (p @ stamp e) = (uint32 (evCreatedAt e), id_ptr (evID e))"
proof -
  assume wf: "wf_event e"
  have "uint32 (evCreatedAt e) < 256 ^ 4" by (simp add: uint32_def nat_less_iff)
  then show ?thesis using length_id_ptr [OF wf] by (simp add: scan_entry_def key_time_def stamp_def getBE_putBE)
qed

lemma stamp_in_scan: "wf_event e \<Longrightarrow> in_scan q since (q_prefix q @ stamp e) \<longleftrightarrow> since \<le> uint32 (evCreatedAt e)"
  using arg_cong [OF stamp_entry [of e "q_prefix q"], of fst] length_stamp [of e]
  by (auto simp: in_scan_def bytes_HasPrefix_def scan_entry_def)

definition selected :: "'d \<Rightarrow> nat \<Rightarrow> nat \<Rightarrow> query \<Rightarrow> event set" where
  "selected d since until q = {e \<in> held D d. hit B q e \<and> in_range since until e}"

lemma scan_keys:
  assumes inv: "bolt_inv D B d" and q: "query_ok until q" and u: "until < 2 ^ 32"
  shows "{k. present D d (q_bucket q) k \<and> k \<le> q_startingPoint q \<and> in_scan q since k} =
    (\<lambda>e. q_prefix q @ stamp e) ` selected d since until q"
proof (intro equalityI subsetI)
  fix k assume k: "k \<in> {k. present D d (q_bucket q) k \<and> k \<le> q_startingPoint q \<and> in_scan q since k}"
  then obtain t r where tr: "k = q_prefix q @ t @ r" "length t = 4" "length r = 8"
    using scan_key [OF sized_uniform [OF query_sized [OF inv q]], of k since] by auto
  obtain e where e: "e \<in> held D d" "(q_bucket q, k) \<in> set (getIndexKeysForEvent B e)"
    using k inv q held_wf(1) [OF inv] by (auto simp: bolt_inv_def index_ok_def query_ok_def)
  have wf: "wf_event e" using held_wf(2) [OF inv e(1)] .
  obtain pre where "k = pre @ stamp e" using key_stamp [OF e(2)] by blast
  then have ke: "k = q_prefix q @ stamp e" using tr length_stamp [OF wf] by auto
  then have "in_range since until e"
    using k start_bound [OF u wf] stamp_in_scan [OF wf] q by (simp add: in_range_def query_ok_def)
  then show "k \<in> (\<lambda>e. q_prefix q @ stamp e) ` selected d since until q" using e ke by (auto simp: selected_def hit_def)
next
  fix k assume "k \<in> (\<lambda>e. q_prefix q @ stamp e) ` selected d since until q"
  then obtain e where e: "e \<in> held D d" "hit B q e" "in_range since until e" "k = q_prefix q @ stamp e"
    by (auto simp: selected_def)
  have wf: "wf_event e" using held_wf(2) [OF inv e(1)] .
  have "present D d (q_bucket q) k"
    using e inv q held_wf(1) [OF inv, of e] by (auto simp: bolt_inv_def index_ok_def query_ok_def hit_def)
  then show "k \<in> {k. present D d (q_bucket q) k \<and> k \<le> q_startingPoint q \<and> in_scan q since k}"
    using e start_bound [OF u wf] stamp_in_scan [OF wf] q by (simp add: in_range_def query_ok_def)
qed

lemma todo_selected:
  assumes inv: "bolt_inv D B d" and q: "query_ok until q" and u: "until < 2 ^ 32"
  shows "mset (todo D d since (it_seek D d (q_startingPoint q) (newIterator q))) =
    image_mset (\<lambda>e. (uint32 (evCreatedAt e), id_ptr (evID e))) (mset_set (selected d since until q))"
proof -
  have inj: "inj_on (\<lambda>e. q_prefix q @ stamp e) (selected d since until q)"
    by (rule inj_on_subset [of _ "held D d"], rule inj_onI)
       (auto simp: stamp_def selected_def dest: inj_onD [OF held_inj])
  have "mset (todo D d since (it_seek D d (q_startingPoint q) (newIterator q))) =
      image_mset scan_entry (mset_set ((\<lambda>e. q_prefix q @ stamp e) ` selected d since until q))"
    using todo_start [OF query_sized [OF inv q] refl, of "q_startingPoint q" "putBE 4 until" since] q
    unfolding scan_keys [OF inv q u] by (simp add: query_ok_def)
  also have "\<dots> = image_mset (\<lambda>e. scan_entry (q_prefix q @ stamp e)) (mset_set (selected d since until q))"
    by (simp add: image_mset_mset_set [OF inj, symmetric] image_mset.compositionality o_def)
  also have "\<dots> = image_mset (\<lambda>e. (uint32 (evCreatedAt e), id_ptr (evID e))) (mset_set (selected d since until q))"
    using held_wf(2) [OF inv] finite_held by (intro image_mset_cong) (auto simp: selected_def stamp_entry)
  finally show ?thesis .
qed

section \<open>The run of a plan\<close>

lemma fetched_selected:
  assumes "finite S" "S \<subseteq> held D d"
  shows "fetched d pl (image_mset (\<lambda>e. (uint32 (evCreatedAt e), id_ptr (evID e))) (mset_set S)) = mset_set {e \<in> S. passes pl e}"
  using assms
proof (induction S rule: finite_induct)
  case (insert e S)
  have "fetch D d pl (id_ptr (evID e)) = (if passes pl e then Some e else None)"
    using insert.prems by (intro fetch_stored) (simp add: held_def)
  moreover have "{x \<in> insert e S. passes pl x} = (if passes pl e then insert e {x \<in> S. passes pl x} else {x \<in> S. passes pl x})"
    by auto
  ultimately show ?case using insert by simp
qed simp

definition answers :: "'d \<Rightarrow> nat \<Rightarrow> plan \<Rightarrow> event multiset" where
  "answers d until pl = (\<Sum>q \<leftarrow> pl_queries pl. mset_set {e \<in> selected d (pl_since pl) until q. passes pl e})"

definition start_entries :: "'d \<Rightarrow> nat \<Rightarrow> nat \<Rightarrow> query list \<Rightarrow> (nat \<times> bytes) multiset" where
  "start_entries d since until qs =
     (\<Sum>q \<leftarrow> qs. image_mset (\<lambda>e. (uint32 (evCreatedAt e), id_ptr (evID e))) (mset_set (selected d since until q)))"

lemma selected_held: "finite (selected d since until q)" "selected d since until q \<subseteq> held D d"
  using finite_held [of d] by (auto simp: selected_def)

lemma fetched_start: "fetched d pl (start_entries d (pl_since pl) until qs) =
    (\<Sum>q \<leftarrow> qs. mset_set {e \<in> selected d (pl_since pl) until q. passes pl e})"
  by (induction qs) (simp_all add: start_entries_def fetched_selected selected_held)

lemma start_iterators_spec:
  assumes inv: "bolt_inv D B d" and u: "until < 2 ^ 32" and n: "0 < n" and qs: "\<forall>q \<in> set qs. query_ok until q"
    and its: "its = map (it_pull D d n since)
      (filter (\<lambda>it. \<not> it_exhausted it) (map (\<lambda>q. it_seek D d (q_startingPoint q) (newIterator q)) qs))"
  shows "(\<forall>it \<in> set its. it_inv d since it) \<and> open_entries d since its = start_entries d since until qs"
  using qs its
proof (induction qs arbitrary: its)
  case (Cons q qs)
  let ?it = "it_seek D d (q_startingPoint q) (newIterator q)"
  note seek = it_seek_spec [OF refl, of d "q_startingPoint q" q]
  have q: "query_ok until q" using Cons.prems by simp
  have sel: "mset (todo D d since ?it) = image_mset (\<lambda>e. (uint32 (evCreatedAt e), id_ptr (evID e))) (mset_set (selected d since until q))"
    by (rule todo_selected [OF inv q u])
  define its' where "its' = map (it_pull D d n since)
      (filter (\<lambda>it. \<not> it_exhausted it) (map (\<lambda>q. it_seek D d (q_startingPoint q) (newIterator q)) qs))"
  have IH: "\<forall>it \<in> set its'. it_inv d since it" "open_entries d since its' = start_entries d since until qs"
    using Cons.IH [OF _ its'_def] Cons.prems(1) by auto
  show ?case
  proof (cases "it_exhausted ?it")
    case True
    then have "todo D d since ?it = []" by (simp add: todo_def)
    then show ?thesis using True IH sel Cons.prems(2) its'_def by (simp add: start_entries_def)
  next
    case False
    have inv1: "it_inv d since (it_pull D d n since ?it)"
      using first_pull_inv [OF seek(1) False _ seek(3) n] sized_uniform [OF query_sized [OF inv q]] seek(2) by simp
    obtain got where "pulls d since ?it (it_pull D d n since ?it) got" using it_pull_spec [OF seek(1) False] by blast
    then have "mset (it_pending (it_pull D d n since ?it) @ todo D d since (it_pull D d n since ?it)) = mset (todo D d since ?it)"
      using seek(3) by (simp add: pulls_def)
    then show ?thesis using False IH inv1 sel Cons.prems(2) its'_def by (simp add: start_entries_def)
  qed
qed (simp add: start_entries_def)

lemma in_start_entries: "x \<in># start_entries d since until qs \<Longrightarrow>
    \<exists>e \<in> held D d. x = (uint32 (evCreatedAt e), id_ptr (evID e))"
proof (induction qs)
  case (Cons q qs)
  then show ?case using selected_held [of d since until q] by (auto simp: start_entries_def)
qed (simp add: start_entries_def)

lemma uint32_held: "timely D d \<Longrightarrow> e \<in> held D d \<Longrightarrow> int (uint32 (evCreatedAt e)) = evCreatedAt e"
  by (auto simp: timely_def uint32_def)

lemma start_dated:
  assumes "timely D d"
  shows "dated d pl (start_entries d since until qs)"
  unfolding dated_def
proof (intro ballI allI impI)
  fix x e assume x: "x \<in># start_entries d since until qs" and e: "fetch D d pl (snd x) = Some e"
  obtain e' where e': "e' \<in> held D d" "x = (uint32 (evCreatedAt e'), id_ptr (evID e'))" using in_start_entries [OF x] by blast
  then have "e = e'" using e fetch_stored [of D d "id_ptr (evID e')" e' pl] by (simp add: held_def split: if_splits)
  then show "evCreatedAt e = int (fst x)" using e' uint32_held [OF assms] by simp
qed

lemma batch_positive: "0 < limit \<Longrightarrow> 0 < BatchSizePerNumberOfQueries pow limit m"
  by (auto simp: BatchSizePerNumberOfQueries_def max_def)

lemma bolt_run_newest:
  assumes inv: "bolt_inv D B d" and "timely D d" and plan: "plan_ok until pl" and u: "until < 2 ^ 32" and limit: "0 < limit"
  shows "\<exists>out rest. bolt_run D B d pl limit = Some out \<and> mset out + rest = answers d until pl \<and> newest out rest \<and>
    int (length out) \<le> limit \<and> (rest \<noteq> {#} \<longrightarrow> int (length out) = limit)"
proof -
  define batch where "batch = nat (BatchSizePerNumberOfQueries (be_pow B) limit (length (pl_queries pl)))"
  define its where "its = map (it_pull D d batch (pl_since pl)) (start_iterators D d pl)"
  have batch: "0 < batch" using batch_positive [OF limit] by (simp add: batch_def)
  have its: "\<forall>it \<in> set its. it_inv d (pl_since pl) it"
      "open_entries d (pl_since pl) its = start_entries d (pl_since pl) until (pl_queries pl)"
    using start_iterators_spec [OF inv u batch, of "pl_queries pl" its "pl_since pl"] plan
    by (simp_all add: its_def start_iterators_def plan_ok_def)
  have "bolt_run D B d pl limit = bolt_loop D d pl limit batch (max 1 ((length (start_iterators D d pl) + 11) div 12)) 0 its"
    by (simp add: bolt_run_def batch_def its_def Let_def)
  moreover have "fetched d pl (open_entries d (pl_since pl) its) = answers d until pl"
    unfolding its(2) by (simp add: fetched_start answers_def)
  ultimately show ?thesis
    using bolt_loop_newest [OF its(1) _ batch, where n = "max 1 ((length (start_iterators D d pl) + 11) div 12)"
        and emitted = 0 and limit = limit]
      start_dated [OF assms(2)] its(2) limit by simp
qed

section \<open>The plan of a filter\<close>

lemma uint32_bound: "uint32 v < 2 ^ 32"
  by (simp add: uint32_def nat_less_iff)

lemma plan_until_bound: "plan_until f < 2 ^ 32"
  by (simp add: plan_until_def)

lemma tag_prefixes_set:
  "tag_prefixes B key vs = Ret bps \<Longrightarrow>
    set bps = {(b, take (length k - 12) k) |b k. \<exists>v \<in> set vs. getTagIndexPrefix B key v = Ret (b, k)}"
proof (induction vs arbitrary: bps)
  case (Cons v vs)
  then obtain b k bps' where *: "getTagIndexPrefix B key v = Ret (b, k)" "tag_prefixes B key vs = Ret bps'"
      "bps = (b, take (length k - 12) k) # bps'"
    by (auto simp: obind_Ret_iff)
  show ?case unfolding *(3) using Cons.IH [OF *(2)] *(1) by auto
qed simp

lemma prefix_shape:
  assumes "getTagIndexPrefix B key v = Ret (b, k)"
  shows "index_bucket b" "length (take (length k - 12) k) = prefix_length b"
  using assms tag_index_key_exact by (auto simp: getTagIndexPrefix_def split: list.splits)

lemma mk_query_ok: "index_bucket (fst bp) \<Longrightarrow> length (snd bp) = prefix_length (fst bp) \<Longrightarrow> query_ok (plan_until f) (mk_query f bp)"
  by (simp add: mk_query_def query_ok_def)

lemma plan_without_tag_ok: "filter_keys f \<Longrightarrow> plan_ok (plan_until f) (plan_without_tag f)"
  by (auto simp: plan_without_tag_def plan_ok_def filter_keys_def Let_def index_bucket_def intro!: mk_query_ok split: prod.splits)

lemma prepareQueries_cases:
  assumes "prepareQueries B f = Ret pl" "ChooseNarrowestTag f = (key, vs, g)"
  shows "(fTags f = [] \<or> g < 2 \<and> (opt_list (fAuthors f) \<noteq> [] \<or> opt_list (fKinds f) \<noteq> [])) \<and> pl = plan_without_tag f \<or>
    fTags f \<noteq> [] \<and> (\<exists>bps. tag_prefixes B key (opt_list vs) = Ret bps \<and> pl = tag_plan f key bps)"
proof (cases "fTags f = [] \<or> g < 2 \<and> (opt_list (fAuthors f) \<noteq> [] \<or> opt_list (fKinds f) \<noteq> [])")
  case True
  then have "prepareQueries B f = Ret (plan_without_tag f)" using assms(2) by (cases "fTags f = []") (auto simp: prepareQueries_def)
  then show ?thesis using assms(1) True by simp
next
  case False
  then obtain bps where "tag_prefixes B key (opt_list vs) = Ret bps"
    using assms by (auto simp: prepareQueries_def obind_Ret_iff)
  then show ?thesis using assms False
    by (cases "ChooseNarrowestTag (f\<lparr>fTags := CopyMapWithoutKey (fTags f) key\<rparr>)")
       (auto simp: prepareQueries_def tag_plan_def extra_tag_def Let_def split: if_splits)
qed

lemma prepareQueries_ok:
  assumes "filter_keys f" "prepareQueries B f = Ret pl"
  shows "plan_ok (plan_until f) pl" "pl_since pl = plan_since f"
proof -
  obtain key vs g where c: "ChooseNarrowestTag f = (key, vs, g)" by (cases "ChooseNarrowestTag f")
  have "plan_ok (plan_until f) (tag_plan f key bps)" if bps: "tag_prefixes B key (opt_list vs) = Ret bps" for bps
  proof -
    have "index_bucket (fst bp) \<and> length (snd bp) = prefix_length (fst bp)" if "bp \<in> set bps" for bp
      using that prefix_shape unfolding tag_prefixes_set [OF bps] by fastforce
    then show ?thesis by (auto simp: plan_ok_def tag_plan_def intro: mk_query_ok)
  qed
  then show "plan_ok (plan_until f) pl" "pl_since pl = plan_since f"
    using prepareQueries_cases [OF assms(2) c] plan_without_tag_ok [OF assms(1)]
    by (auto simp: tag_plan_def plan_without_tag_def Let_def split: prod.splits)
qed

section \<open>Plans without a tag\<close>

lemma choose_none: "fTags f = [] \<Longrightarrow> ChooseNarrowestTag f = ('''', None, 0)"
  by (simp add: ChooseNarrowestTag_def)

lemma tag_key_bucket: "tag_key B e t = (b, k) \<Longrightarrow> b \<in> {IndexTag, IndexTag32, IndexTagAddr}"
  by (auto simp: tag_key_def tag_index_key_def split: option.splits)

lemma hit_simps:
  "hit B (mk_query f (IndexPubkey, p)) e \<longleftrightarrow> p = take 8 (evPubKey e)"
  "hit B (mk_query f (IndexKind, p)) e \<longleftrightarrow> p = putBE 2 (unat (evKind e))"
  "hit B (mk_query f (IndexPubkeyKind, p)) e \<longleftrightarrow> p = take 8 (evPubKey e) @ putBE 2 (unat (evKind e))"
  "hit B (mk_query f (IndexCreatedAt, p)) e \<longleftrightarrow> p = []"
  by (auto simp: hit_def mk_query_def getIndexKeysForEvent_def dest!: sym [of "(_, _)"] dest: tag_key_bucket)

lemma putBE_kind: "putBE 2 (unat (k :: Kind)) = putBE 2 (unat k') \<longleftrightarrow> k = k'"
proof
  assume "putBE 2 (unat k) = putBE 2 (unat k')"
  then have "getBE (putBE 2 (unat k)) = getBE (putBE 2 (unat k'))" by simp
  moreover have "unat k < 256 ^ 2" "unat k' < 256 ^ 2" using unsigned_less [of k] unsigned_less [of k'] by simp_all
  ultimately show "k = k'" by (simp add: getBE_putBE word_unat_eq_iff)
qed simp

lemma in_range_Matches:
  assumes "filter_times f" "0 \<le> evCreatedAt e" "evCreatedAt e < 4294967295"
  shows "in_range (plan_since f) (plan_until f) e \<longleftrightarrow>
    (fSince f \<noteq> 0 \<longrightarrow> fSince f \<le> evCreatedAt e) \<and> (fUntil f \<noteq> 0 \<longrightarrow> evCreatedAt e \<le> fUntil f)"
  using assms by (auto simp: in_range_def plan_since_def plan_until_def uint32_def filter_times_def nat_le_eq_zle nat_less_iff
      split: if_splits)

lemma sum_disjoint:
  assumes "finite A" "distinct (map g xs)"
  shows "(\<Sum>x \<leftarrow> xs. mset_set {e \<in> A. g x = h e}) = mset_set {e \<in> A. h e \<in> g ` set xs}"
  using assms(2)
proof (induction xs)
  case (Cons x xs)
  have "{e \<in> A. h e \<in> g ` set (x # xs)} = {e \<in> A. g x = h e} \<union> {e \<in> A. h e \<in> g ` set xs}" by auto
  moreover have "{e \<in> A. g x = h e} \<inter> {e \<in> A. h e \<in> g ` set xs} = {}" using Cons.prems by auto
  ultimately show ?case using Cons assms(1) by (simp add: mset_set_Union)
qed simp

lemma answers_without_tag:
  assumes tags: "fTags f = []" and keys: "filter_keys f" and d1: "distinct (opt_list (fKinds f))"
    and d2: "distinct (map (take 8) (opt_list (fAuthors f)))"
  shows "answers d (plan_until f) (plan_without_tag f) =
    mset_set {e \<in> held D d. in_range (plan_since f) (plan_until f) e \<and> same_key f e}"
proof -
  let ?as = "opt_list (fAuthors f)" and ?ks = "opt_list (fKinds f)"
  let ?A = "{e \<in> held D d. in_range (plan_since f) (plan_until f) e}"
  let ?R = "mset_set {e \<in> held D d. in_range (plan_since f) (plan_until f) e \<and> same_key f e}"
  have fin: "finite ?A" using finite_held by simp
  have passes: "passes (plan_without_tag f) e" for e
    by (simp add: passes_def plan_without_tag_def choose_none [OF tags] Let_def)
  have sum: "(\<Sum>x \<leftarrow> xs. mset_set {e \<in> ?A. g x = h e}) = ?R"
    if "distinct (map g xs)" "\<And>e. h e \<in> g ` set xs \<longleftrightarrow> same_key f e" for g :: "'a \<Rightarrow> bytes" and xs h
    unfolding sum_disjoint [OF fin that(1)] using that(2) by (auto intro: arg_cong [of _ _ mset_set])
  have query: "{e \<in> selected d (plan_since f) (plan_until f) q. passes (plan_without_tag f) e} = {e \<in> ?A. hit B q e}" for q
    using passes by (auto simp: selected_def)
  consider "?as = []" "?ks = []" | "?as \<noteq> []" "?ks = []" | "?as = []" "?ks \<noteq> []" | "?as \<noteq> []" "?ks \<noteq> []" by blast
  then show ?thesis
  proof cases
    case 1
    then have "pl_queries (plan_without_tag f) = [mk_query f (IndexCreatedAt, [])]" "pl_since (plan_without_tag f) = plan_since f"
      by (simp_all add: plan_without_tag_def choose_none [OF tags] Let_def)
    then show ?thesis using 1 by (simp add: answers_def query hit_simps same_key_def)
  next
    case 2
    then have "pl_queries (plan_without_tag f) = map (\<lambda>pk. mk_query f (IndexPubkey, take 8 pk)) ?as"
        "pl_since (plan_without_tag f) = plan_since f"
      by (simp_all add: plan_without_tag_def choose_none [OF tags] Let_def o_def)
    then have "answers d (plan_until f) (plan_without_tag f) = (\<Sum>pk \<leftarrow> ?as. mset_set {e \<in> ?A. take 8 pk = take 8 (evPubKey e)})"
      by (simp add: answers_def query hit_simps o_def)
    also have "\<dots> = ?R" by (rule sum) (use d2 2 in \<open>auto simp: same_key_def\<close>)
    finally show ?thesis .
  next
    case 3
    then have "pl_queries (plan_without_tag f) = map (\<lambda>k. mk_query f (IndexKind, putBE 2 (unat k))) ?ks"
        "pl_since (plan_without_tag f) = plan_since f"
      by (simp_all add: plan_without_tag_def choose_none [OF tags] Let_def o_def)
    then have "answers d (plan_until f) (plan_without_tag f) =
        (\<Sum>k \<leftarrow> ?ks. mset_set {e \<in> ?A. putBE 2 (unat k) = putBE 2 (unat (evKind e))})"
      by (simp add: answers_def query hit_simps o_def)
    also have "\<dots> = ?R"
      by (rule sum) (use d1 3 in \<open>auto simp: same_key_def putBE_kind distinct_map inj_on_def\<close>)
    finally show ?thesis .
  next
    case 4
    let ?g = "\<lambda>(pk, k). take 8 pk @ putBE 2 (unat k)"
    have keys8: "length (take 8 pk) = 8" if "pk \<in> set ?as" for pk using keys that by (simp add: filter_keys_def)
    have same: "take 8 pk = take 8 pk' \<and> k = k'" if "take 8 pk @ putBE 2 (unat k) = take 8 pk' @ putBE 2 (unat k')" for pk pk' :: PubKey and k k' :: Kind
    proof -
      have "length (putBE 2 (unat k)) = length (putBE 2 (unat k'))" by simp
      then show ?thesis using that by (simp add: putBE_kind)
    qed
    have "pl_queries (plan_without_tag f) = map (\<lambda>x. mk_query f (IndexPubkeyKind, ?g x)) (List.product ?as ?ks)"
        "pl_since (plan_without_tag f) = plan_since f"
      using 4 by (simp_all add: plan_without_tag_def choose_none [OF tags] Let_def o_def product_concat_map map_concat)
    then have "answers d (plan_until f) (plan_without_tag f) =
        (\<Sum>x \<leftarrow> List.product ?as ?ks. mset_set {e \<in> ?A. ?g x = take 8 (evPubKey e) @ putBE 2 (unat (evKind e))})"
      by (simp add: answers_def query hit_simps o_def case_prod_unfold)
    also have "\<dots> = ?R"
    proof (rule sum)
      have "inj_on ?g (set (List.product ?as ?ks))"
        using d2 same by (auto simp: inj_on_def distinct_map)
      then show "distinct (map ?g (List.product ?as ?ks))"
        using d1 d2 by (simp add: distinct_map distinct_product)
      show "take 8 (evPubKey e) @ putBE 2 (unat (evKind e)) \<in> ?g ` set (List.product ?as ?ks) \<longleftrightarrow> same_key f e" for e
        using 4 same [of "evPubKey e" "evKind e"] by (auto simp: same_key_def image_iff)
    qed
    finally show ?thesis .
  qed
qed

section \<open>No matching event is missed\<close>

lemma narrowest_step_cases:
  "fst (narrowest_step f (key, values) (k, vs, g)) = key \<and> fst (snd (narrowest_step f (key, values) (k, vs, g))) = Some values \<or>
   g \<noteq> 0 \<and> narrowest_step f (key, values) (k, vs, g) = (k, vs, g)"
  unfolding narrowest_step_def Let_def prod.case
  by (simp del: insert_iff empty_iff split del: if_split split: if_split)

lemma narrowest_step_choice:
  "narrowest_step f kv (k, vs, g) = (k', vs', g') \<Longrightarrow> (vs = None \<longrightarrow> g = 0) \<Longrightarrow>
    vs' \<noteq> None \<and> (vs' = Some (snd kv) \<and> k' = fst kv \<or> vs' = vs \<and> k' = k)"
  using narrowest_step_cases [of f "fst kv" "snd kv" k vs g] by (cases vs) auto

lemma fold_narrowest:
  "fold (narrowest_step f) kvs (k, vs, g) = (k', vs', g') \<Longrightarrow> (vs = None \<longrightarrow> g = 0) \<Longrightarrow>
    (\<exists>x. (k', vs') = (fst x, Some (snd x)) \<and> x \<in> set kvs) \<or> (k', vs') = (k, vs) \<and> (kvs = [] \<or> vs \<noteq> None)"
proof (induction kvs arbitrary: k vs g)
  case (Cons kv kvs)
  obtain k1 vs1 g1 where one: "narrowest_step f kv (k, vs, g) = (k1, vs1, g1)" by (cases "narrowest_step f kv (k, vs, g)")
  have c: "vs1 \<noteq> None" "vs1 = Some (snd kv) \<and> k1 = fst kv \<or> vs1 = vs \<and> k1 = k"
    using narrowest_step_choice [OF one] Cons.prems(2) by auto
  then have "(\<exists>x. (k', vs') = (fst x, Some (snd x)) \<and> x \<in> set kvs) \<or> (k', vs') = (k1, vs1)"
    using Cons.IH [of k1 vs1 g1] Cons.prems(1) one by auto
  then show ?case using c by auto
qed simp

lemma choose_some: "ChooseNarrowestTag f = (k, vs, g) \<Longrightarrow> fTags f \<noteq> [] \<Longrightarrow> \<exists>v. vs = Some v \<and> (k, v) \<in> set (fTags f)"
  unfolding ChooseNarrowestTag_def by (drule fold_narrowest) auto

lemma tag_prefixes_total: "key \<noteq> [] \<Longrightarrow> \<exists>bps. tag_prefixes B key vs = Ret bps"
  by (induction vs) (auto simp: getTagIndexPrefix_def split: list.splits prod.splits)

lemma in_set_takeE: "x \<in> set (take m xs) \<Longrightarrow> \<exists>j < m. j < length xs \<and> x = xs ! j"
  by (auto simp: in_set_conv_nth)

lemma first_tag:
  assumes "t \<in> set tags" "length t \<ge> 2"
  shows "\<exists>i < length tags. length (tags ! i) \<ge> 2 \<and> tags ! i ! 0 = t ! 0 \<and> tags ! i ! 1 = t ! 1 \<and> first_such tags i"
proof -
  define P where "P i \<longleftrightarrow> i < length tags \<and> length (tags ! i) \<ge> 2 \<and> tags ! i ! 0 = t ! 0 \<and> tags ! i ! 1 = t ! 1" for i
  obtain i where "P i" using assms by (auto simp: P_def in_set_conv_nth)
  then obtain m where m: "P m" and before: "\<And>j. j < m \<Longrightarrow> \<not> P j" using LeastI not_less_Least by metis
  have at: "m < length tags" "length (tags ! m) \<ge> 2" "tags ! m ! 0 = t ! 0" "tags ! m ! 1 = t ! 1" using m by (simp_all add: P_def)
  have "\<not> (length x \<ge> 2 \<and> x ! 0 = t ! 0 \<and> x ! 1 = t ! 1)" if x: "x \<in> set (take m tags)" for x
  proof -
    obtain j where "j < m" "j < length tags" "x = tags ! j" using in_set_takeE [OF x] by blast
    then show ?thesis using before by (simp add: P_def)
  qed
  then have "first_such tags m" unfolding first_such_def list_all_iff at(3,4) by blast
  then show ?thesis using at by blast
qed

lemma hit_tag:
  assumes "ContainsAny (evTags e) key vs" "length key = 1" "\<forall>v \<in> set vs. 0 < length v \<and> length v \<le> 100"
    "tag_prefixes B key vs = Ret bps"
  shows "\<exists>bp \<in> set bps. hit B (mk_query f bp) e"
proof -
  obtain t where t: "t \<in> set (evTags e)" "length t \<ge> 2" "t ! 0 = key" "t ! 1 \<in> set vs" using assms(1) by (auto simp: ContainsAny_iff)
  obtain i where i: "i < length (evTags e)" "length (evTags e ! i) \<ge> 2" "evTags e ! i ! 0 = key" "evTags e ! i ! 1 = t ! 1"
      "first_such (evTags e) i"
    using first_tag [OF t(1,2)] t(3) by auto
  have ix: "indexable (evTags e ! i)" using i t assms(2,3) by (auto simp: indexable_def)
  obtain c where c: "key = [c]" using assms(2) by (auto simp: length_Suc_conv)
  obtain b k where bk: "tag_index_key B (byte_of_char c) (t ! 1) = (b, k)" by (cases "tag_index_key B (byte_of_char c) (t ! 1)")
  have "tag_key B e (evTags e ! i) = (b, take (length k - 12) k @ stamp e)" using i c bk by (simp add: tag_key_def)
  moreover have "tag_key B e (evTags e ! i) \<in> set (getIndexKeysForEvent B e)"
    using i ix by (auto simp: getIndexKeysForEvent_def)
  moreover have "(b, take (length k - 12) k) \<in> set bps"
    unfolding tag_prefixes_set [OF assms(4)] using t(4) c bk by (auto simp: getTagIndexPrefix_def)
  ultimately show ?thesis by (intro bexI [of _ "(b, take (length k - 12) k)"]) (simp_all add: hit_def mk_query_def)
qed

lemma in_answers: "e \<in># answers d until pl \<longleftrightarrow>
    (\<exists>q \<in> set (pl_queries pl). hit B q e) \<and> e \<in> held D d \<and> in_range (pl_since pl) until e \<and> passes pl e"
proof -
  have "e \<in># (\<Sum>q \<leftarrow> qs. mset_set {e \<in> selected d since until q. passes pl e}) \<longleftrightarrow>
      (\<exists>q \<in> set qs. e \<in> selected d since until q) \<and> passes pl e" for qs since
    using selected_held(1) [of d since until] by (induction qs) auto
  then show ?thesis by (auto simp: answers_def selected_def)
qed

lemma extra_tag_passes:
  assumes "\<forall>(k, v) \<in> set (fTags f). ContainsAny (evTags e) k v" "extra_tag f key = (k, Some vs)"
  shows "ContainsAny (evTags e) k vs"
proof -
  let ?g = "f\<lparr>fTags := CopyMapWithoutKey (fTags f) key\<rparr>"
  have ne: "fTags ?g \<noteq> []" using assms(2) by (auto simp: extra_tag_def Let_def split: if_splits)
  obtain k' vs' g' where c: "ChooseNarrowestTag ?g = (k', vs', g')" by (cases "ChooseNarrowestTag ?g")
  have "(k, vs) \<in> set (fTags ?g)"
    using choose_some [OF c ne] assms(2) c ne by (auto simp: extra_tag_def Let_def split: if_splits)
  then show ?thesis using assms(1) by (auto simp: CopyMapWithoutKey_def)
qed

lemma plan_without_tag_hits:
  assumes "\<forall>l. fKinds f = Some l \<longrightarrow> evKind e \<in> set l" "\<forall>l. fAuthors f = Some l \<longrightarrow> evPubKey e \<in> set l"
  shows "\<exists>q \<in> set (pl_queries (plan_without_tag f)). hit B q e"
proof -
  have "opt_list (fKinds f) \<noteq> [] \<Longrightarrow> evKind e \<in> set (opt_list (fKinds f))"
      "opt_list (fAuthors f) \<noteq> [] \<Longrightarrow> evPubKey e \<in> set (opt_list (fAuthors f))"
    using assms by (cases "fKinds f"; cases "fAuthors f"; simp)+
  then show ?thesis
    by (cases "opt_list (fAuthors f) = []"; cases "opt_list (fKinds f) = []")
       (auto simp: plan_without_tag_def Let_def hit_simps split: prod.splits)
qed

lemma plan_complete:
  assumes "filter_tags f" "filter_times f" "timely D d" "prepareQueries B f = Ret pl" "e \<in> held D d" "Matches f e"
  shows "e \<in># answers d (plan_until f) pl"
proof -
  have m: "\<forall>l. fKinds f = Some l \<longrightarrow> evKind e \<in> set l" "\<forall>l. fAuthors f = Some l \<longrightarrow> evPubKey e \<in> set l"
      "\<forall>(k, v) \<in> set (fTags f). ContainsAny (evTags e) k v"
    using assms(6) by (simp_all add: Matches_iff MatchesIgnoring_iff)
  have range: "in_range (plan_since f) (plan_until f) e"
    using in_range_Matches [OF assms(2)] assms(3,5,6) by (auto simp: timely_def Matches_iff)
  obtain key vs g where c: "ChooseNarrowestTag f = (key, vs, g)" by (cases "ChooseNarrowestTag f")
  from prepareQueries_cases [OF assms(4) c] show ?thesis
  proof
    assume "(fTags f = [] \<or> g < 2 \<and> (opt_list (fAuthors f) \<noteq> [] \<or> opt_list (fKinds f) \<noteq> [])) \<and> pl = plan_without_tag f"
    then have pl: "pl = plan_without_tag f" by simp
    have "passes pl e"
      using m(3) choose_some [OF c] choose_none [of f] c unfolding pl passes_def
      by (cases "fTags f = []") (auto simp: plan_without_tag_def Let_def split: prod.splits option.splits if_splits)
    then show ?thesis unfolding in_answers using plan_without_tag_hits [OF m(1,2)] pl range assms(5)
      by (auto simp: plan_without_tag_def Let_def split: prod.splits)
  next
    assume "fTags f \<noteq> [] \<and> (\<exists>bps. tag_prefixes B key (opt_list vs) = Ret bps \<and> pl = tag_plan f key bps)"
    then obtain bps where bps: "fTags f \<noteq> []" "tag_prefixes B key (opt_list vs) = Ret bps" "pl = tag_plan f key bps" by blast
    obtain v where v: "vs = Some v" "(key, v) \<in> set (fTags f)" using choose_some [OF c bps(1)] by blast
    have "ContainsAny (evTags e) key v" "length key = 1" "\<forall>v \<in> set v. 0 < length v \<and> length v \<le> 100"
      using m(3) assms(1) v(2) unfolding filter_tags_def by blast+
    then have "\<exists>bp \<in> set bps. hit B (mk_query f bp) e" using hit_tag v(1) bps(2) by simp
    moreover have "passes pl e"
      using m(1,2) extra_tag_passes [OF m(3), of key] bps(3)
      by (cases "extra_tag f key") (auto simp: passes_def tag_plan_def split: option.splits)
    ultimately show ?thesis unfolding in_answers using bps(3) range assms(5) by (auto simp: tag_plan_def)
  qed
qed

section \<open>The query of a filter\<close>

lemma bolt_query_newest:
  assumes "bolt_inv D B d" "timely D d" "filter_keys f" "prepareQueries B f = Ret pl" "0 < limit"
  shows "\<exists>out rest. bolt_query D B d f limit = Some (Ret out) \<and> mset out + rest = answers d (plan_until f) pl \<and> newest out rest \<and>
    int (length out) \<le> limit \<and> (rest \<noteq> {#} \<longrightarrow> int (length out) = limit)"
  using bolt_run_newest [OF assms(1,2) prepareQueries_ok(1) [OF assms(3,4)] plan_until_bound assms(5)]
    batch_positive [OF assms(5), of "be_pow B" "length (pl_queries pl)"]
  by (auto simp: bolt_query_def assms(4))

lemma prepareQueries_total: "filter_tags f \<Longrightarrow> \<exists>pl. prepareQueries B f = Ret pl"
proof -
  assume tags: "filter_tags f"
  obtain key vs g where c: "ChooseNarrowestTag f = (key, vs, g)" by (cases "ChooseNarrowestTag f")
  show ?thesis
  proof (cases "fTags f = []")
    case False
    then have "key \<noteq> []" using choose_some [OF c] tags by (fastforce simp: filter_tags_def)
    then obtain bps where "tag_prefixes B key (opt_list vs) = Ret bps" using tag_prefixes_total by blast
    then show ?thesis using c False by (auto simp: prepareQueries_def Let_def split: prod.splits)
  qed (simp add: prepareQueries_def)
qed

lemma answers_held: "x \<in># answers d until pl \<Longrightarrow> x \<in> held D d"
  by (simp add: in_answers)

lemma tagless_answers:
  assumes "fTags f = []" "filter_keys f" "filter_times f" "timely D d" "fIDs f = None"
    "fKinds f \<noteq> Some []" "fAuthors f \<noteq> Some []" "distinct (opt_list (fKinds f))" "distinct (map (take 8) (opt_list (fAuthors f)))"
    and clear: "\<forall>e \<in> held D d. \<forall>pk \<in> set (opt_list (fAuthors f)). take 8 (evPubKey e) = take 8 pk \<longrightarrow> evPubKey e = pk"
  shows "answers d (plan_until f) (plan_without_tag f) = mset_set {e \<in> held D d. Matches f e}"
proof -
  have "same_key f e \<longleftrightarrow> MatchesIgnoringTimestampConstraints f e" if "e \<in> held D d" for e
  proof -
    have "take 8 (evPubKey e) \<in> take 8 ` set (opt_list (fAuthors f)) \<longleftrightarrow> evPubKey e \<in> set (opt_list (fAuthors f))"
      using clear that by auto
    then show ?thesis using assms(1,5-7) by (cases "fKinds f"; cases "fAuthors f") (auto simp: same_key_def MatchesIgnoring_iff)
  qed
  then have "{e \<in> held D d. in_range (plan_since f) (plan_until f) e \<and> same_key f e} = {e \<in> held D d. Matches f e}"
    using in_range_Matches [OF assms(3)] assms(4) by (auto simp: timely_def Matches_iff)
  then show ?thesis using answers_without_tag [OF assms(1,2,8,9)] by simp
qed

end

section \<open>Limits\<close>

lemma idle_round:
  assumes "\<forall>it \<in> set its. \<not> it_exhausted it \<and> it_pending it = []" "bolt_round D d pl batch n its = (its', tmp)"
  shows "(\<forall>it \<in> set its'. \<not> it_exhausted it \<and> it_pending it = []) \<and> length its' = length its \<and> tmp = []"
proof -
  define ys where "ys = quickselect (min n (length its)) its"
  obtain T es where T: "emit_all D d pl T ys [] = (its', es)" "tmp = slices_SortFunc CompareEventReverse es"
    using assms(2) by (auto simp: bolt_round_def Let_def ys_def split: prod.splits)
  have idle: "\<forall>it \<in> set zs. it_pending it = [] \<Longrightarrow> emit_all D d pl T zs acc = (zs, acc)" for zs acc
    by (induction zs arbitrary: acc) (auto simp: emit_pending.simps)
  have "set ys = set its" "length ys = length its" by (simp_all add: ys_def)
  then show ?thesis using T idle [of ys "[]"] assms(1) by auto
qed

lemma idle_pull: "\<forall>it \<in> set its. \<not> it_exhausted it \<Longrightarrow> pull_more D d 0 since n i its = its"
proof (induction "length its - i" arbitrary: i rule: less_induct)
  case less
  show ?case
  proof (cases "i < min (length its) n")
    case True
    then have "pull_more D d 0 since n i its = pull_more D d 0 since n (i + 1) its"
      using less.prems by (subst pull_more.simps) simp
    moreover have "length its - (i + 1) < length its - i" using True by simp linarith
    ultimately show ?thesis using less.hyps [of "i + 1"] less.prems by simp
  qed (subst pull_more.simps, simp only: if_False)
qed

lemma idle_loop_aux:
  fixes d :: 'd
  shows "bolt_loop D d pl limit batch n emitted its = Some y \<Longrightarrow>
    batch = 0 \<longrightarrow> its \<noteq> [] \<longrightarrow> (\<exists>it \<in> set its. it_exhausted it \<or> it_pending it \<noteq> [])"
proof (rule bolt_loop.raw_induct [of "\<lambda>(D :: 'd bolt_db) (d :: 'd) pl limit batch n emitted its y. batch = 0 \<longrightarrow> its \<noteq> [] \<longrightarrow>
       (\<exists>it \<in> set its. it_exhausted it \<or> it_pending it \<noteq> [])"], goal_cases)
  case (1 f D d pl limit batch n emitted its y)
  note IH = 1(2) and body = 1(3)
  show ?case
  proof (intro impI, rule ccontr)
    assume b: "batch = 0" "its \<noteq> []" and "\<not> (\<exists>it \<in> set its. it_exhausted it \<or> it_pending it \<noteq> [])"
    then have idle: "\<forall>it \<in> set its. \<not> it_exhausted it \<and> it_pending it = []" by blast
    obtain its' tmp where round: "bolt_round D d pl batch n its = (its', tmp)" by (cases "bolt_round D d pl batch n its")
    have its': "\<forall>it \<in> set its'. \<not> it_exhausted it \<and> it_pending it = []" "length its' = length its" "tmp = []"
      using idle_round [OF idle round] by simp_all
    have "pull_more D d 0 (pl_since pl) n 0 its' = its'" using its'(1) by (intro idle_pull) blast
    then obtain z where "f D d pl limit batch n emitted its' = Some z"
      using body b round its'(3) by (auto simp: bind_eq_Some_conv)
    moreover have "its' \<noteq> []" using its'(2) b by auto
    ultimately show False using IH b(1) its'(1) by blast
  qed
qed

lemma idle_loop: "its \<noteq> [] \<Longrightarrow> \<forall>it \<in> set its. \<not> it_exhausted it \<and> it_pending it = [] \<Longrightarrow>
    bolt_loop D d pl limit 0 n emitted its = None"
  using idle_loop_aux [of D d pl limit 0 n emitted its] by (cases "bolt_loop D d pl limit 0 n emitted its") auto

section \<open>Properties\<close>

lemma bolt_QueryEvents_query:
  assumes "fIDs f = None" "fSearch f = ''''" "0 < GetTheoreticalLimit f"
  shows "bolt_QueryEvents D B d f maxLimit = bolt_query D B d f (min (GetTheoreticalLimit f) maxLimit)"
  using assms by (auto simp: bolt_QueryEvents_def Let_def min_def)




section \<open>A store with one note\<close>

definition one_note :: "list_state" where
  "one_note = snd (bolt_SaveEvent list_db std_bolt note1 [])"

definition notes_filter :: Filter where
  "notes_filter = \<lparr>fIDs = None, fKinds = Some [1], fAuthors = None, fTags = [], fSince = 0, fUntil = 0, fLimit = 0,
     fSearch = '''', fLimitZero = False\<rparr>"

lemma one_note_inv: "bolt_inv list_db std_bolt one_note" and one_note_held: "held list_db one_note = {note1}"
proof -
  have fresh: "db_Get list_db [] RawEventStore (id_ptr (evID note1)) = None" by (simp add: list_db_def)
  obtain d' where d': "bolt_SaveEvent list_db std_bolt note1 [] = (None, d')" "bolt_inv list_db std_bolt d'"
      "stored list_db d' = (stored list_db [])(id_ptr (evID note1) \<mapsto> note1)"
    using list_store.bolt_save_fresh [OF bolt_inv_empty storable_note1 fresh] by blast
  show "bolt_inv list_db std_bolt one_note" using d' by (simp add: one_note_def)
  have "stored list_db [] p = None" for p by (simp add: stored_def list_db_def)
  then show "held list_db one_note = {note1}" using d' by (auto simp: held_def one_note_def split: if_splits)
qed

lemma one_note_timely: "timely list_db one_note"
  by (simp add: timely_def one_note_held) (simp add: note1_def)

lemma notes_filter_ok: "filter_keys notes_filter" "filter_times notes_filter" "filter_tags notes_filter"
  "fIDs notes_filter = None" "fSearch notes_filter = ''''" "fTags notes_filter = []" "fKinds notes_filter = Some [1]"
  "fAuthors notes_filter = None" "0 < GetTheoreticalLimit notes_filter" "Matches notes_filter note1"
  by (simp_all add: filter_keys_def filter_times_def filter_tags_def notes_filter_def GetTheoreticalLimit_def MaxInt64_def
      Matches_iff MatchesIgnoring_iff note1_def)


definition tag_filter :: Filter where
  "tag_filter = notes_filter\<lparr>fKinds := None, fTags := [(''e'', [''x''])]\<rparr>"

lemma tag_filter_ok: "filter_keys tag_filter" "filter_times tag_filter" "filter_tags tag_filter"
  "fIDs tag_filter = None" "fSearch tag_filter = ''''" "0 < GetTheoreticalLimit tag_filter"
  "GetTheoreticalLimit tag_filter \<ge> 500" "Matches tag_filter note1"
  by (simp_all add: filter_keys_def filter_times_def filter_tags_def tag_filter_def notes_filter_def GetTheoreticalLimit_def
      MaxInt64_def Matches_iff MatchesIgnoring_iff note1_def ContainsAny_iff)



end
