(* ===== verification/BoltCount.thy ===== *)
theory BoltCount
  imports BoltQuery HLL
begin

text \<open>
  Counting in the bolt store, \<^verbatim>\<open>eventstore/boltdb/count.go\<close>: the plain count and the count that also feeds a
  HyperLogLog sketch.  Both walk a cursor in a loop that stops only by its own tests, so the scans are
  partial functions: \<open>None\<close> is a scan that never ends.
\<close>

section \<open>Plain counts\<close>

text \<open>Whether the entry under the cursor counts.\<close>

definition counts :: "'d bolt_db \<Rightarrow> 'd \<Rightarrow> plan \<Rightarrow> bytes \<Rightarrow> bool" where
  "counts D d pl idPtr =
     (if pl_extraAuthors pl = None \<and> pl_extraKinds pl = None \<and> pl_extraTagValues pl = None then True
      else case db_Get D d RawEventStore idPtr of
        None \<Rightarrow> False
      | Some bin \<Rightarrow>
          if (case pl_extraAuthors pl of Some as \<Rightarrow> \<not> (\<exists>pk \<in> set as. GetPubKey bin = Ret pk) | None \<Rightarrow> False) then False
          else if (case pl_extraKinds pl of Some ks \<Rightarrow> \<not> (\<exists>k \<in> set ks. GetKind bin = Ret k) | None \<Rightarrow> False) then False
          else if pl_extraTagKey pl \<noteq> '''' then
            (case Unmarshal bin of
               Ret evt \<Rightarrow> ContainsAny (evTags evt) (pl_extraTagKey pl) (opt_list (pl_extraTagValues pl))
             | _ \<Rightarrow> False)
          else True)"

partial_function (option) count_scan :: "'d bolt_db \<Rightarrow> 'd \<Rightarrow> plan \<Rightarrow> iterator \<Rightarrow> int \<Rightarrow> int option" where
  "count_scan D d pl it n =
     (if \<not> bytes_HasPrefix (it_key it) (q_prefix (it_query it)) \<or> it_exhausted it then Some n
      else if key_time (it_key it) < pl_since pl then Some n
      else count_scan D d pl (it_next D d it) (if counts D d pl (it_currIdPtr it) then n + 1 else n))"

fun count_queries :: "'d bolt_db \<Rightarrow> 'd \<Rightarrow> plan \<Rightarrow> query list \<Rightarrow> int \<Rightarrow> int option" where
  "count_queries D d pl [] n = Some n"
| "count_queries D d pl (q # qs) n =
     Option.bind (count_scan D d pl (it_seek D d (q_startingPoint q) (newIterator q)) n) (count_queries D d pl qs)"

definition bolt_CountEvents :: "'d bolt_db \<Rightarrow> bolt_env \<Rightarrow> 'd \<Rightarrow> Filter \<Rightarrow> (unit, int) outcome option" where
  "bolt_CountEvents D B d f =
     (case prepareQueries B f of
        Ret pl \<Rightarrow> map_option Ret (count_queries D d pl (pl_queries pl) 0)
      | Fail e \<Rightarrow> Some (Fail e)
      | Panic \<Rightarrow> Some Panic)"

section \<open>Counts with a sketch\<close>

text \<open>
  The loop of \<^verbatim>\<open>CountEventsHLL\<close>: an entry without an event and an entry that counts go round again without moving
  the cursor.  The inner option is a panic of the sketch.
\<close>

partial_function (option) hll_scan :: "'d bolt_db \<Rightarrow> 'd \<Rightarrow> plan \<Rightarrow> iterator \<Rightarrow> 32 word \<Rightarrow> HyperLogLog
    \<Rightarrow> (unit, 32 word \<times> HyperLogLog) outcome option" where
  "hll_scan D d pl it c h =
     (if \<not> bytes_HasPrefix (it_key it) (q_prefix (it_query it)) then Some (Ret (c, h))
      else if key_time (it_key it) < pl_since pl then Some (Ret (c, h))
      else case db_Get D d RawEventStore (it_currIdPtr it) of
        None \<Rightarrow> hll_scan D d pl it c h
      | Some bin \<Rightarrow>
          if pl_extraKinds pl = None \<and> pl_extraTagValues pl = None then
            (case GetPubKey bin of
               Ret pk \<Rightarrow> (case hll_Add h pk of None \<Rightarrow> Some Panic | Some h \<Rightarrow> hll_scan D d pl it (c + 1) h)
             | _ \<Rightarrow> Some Panic)
          else if \<not> (\<exists>k \<in> set (opt_list (pl_extraKinds pl)). GetKind bin = Ret k) then hll_scan D d pl (it_next D d it) c h
          else
            (case Unmarshal bin of
               Ret evt \<Rightarrow>
                 (if \<not> ContainsAny (evTags evt) (pl_extraTagKey pl) (opt_list (pl_extraTagValues pl))
                  then hll_scan D d pl (it_next D d it) c h
                  else (case hll_Add h (evPubKey evt) of None \<Rightarrow> Some Panic | Some h \<Rightarrow> hll_scan D d pl it (c + 1) h))
             | _ \<Rightarrow> hll_scan D d pl (it_next D d it) c h))"

fun hll_queries :: "'d bolt_db \<Rightarrow> 'd \<Rightarrow> plan \<Rightarrow> query list \<Rightarrow> 32 word \<Rightarrow> HyperLogLog
    \<Rightarrow> (unit, 32 word \<times> HyperLogLog) outcome option" where
  "hll_queries D d pl [] c h = Some (Ret (c, h))"
| "hll_queries D d pl (q # qs) c h =
     (case hll_scan D d pl (it_seek D d (q_startingPoint q) (newIterator q)) c h of
        None \<Rightarrow> None
      | Some (Ret (c, h)) \<Rightarrow> hll_queries D d pl qs c h
      | Some r \<Rightarrow> Some Panic)"

text \<open>The case that the kind is not cached; \<^verbatim>\<open>filter.Kinds[0]\<close> panics when there is none.\<close>

definition CountEventsHLL :: "'d bolt_db \<Rightarrow> bolt_env \<Rightarrow> 'd \<Rightarrow> Filter \<Rightarrow> int
    \<Rightarrow> (unit, 32 word \<times> HyperLogLog) outcome option" where
  "CountEventsHLL D B d f offset =
     (if opt_list (fKinds f) = [] then Some Panic
      else case prepareQueries B f of
        Ret pl \<Rightarrow> (case hll_New offset of None \<Rightarrow> Some Panic | Some h \<Rightarrow> hll_queries D d pl (pl_queries pl) 0 h)
      | Fail e \<Rightarrow> Some (Fail e)
      | Panic \<Rightarrow> Some Panic)"

text \<open>An entry on which the loop stands still, and what follows from a scan that ends.\<close>

definition stuck :: "'d bolt_db \<Rightarrow> 'd \<Rightarrow> plan \<Rightarrow> iterator \<Rightarrow> bool" where
  "stuck D d pl it \<longleftrightarrow>
     bytes_HasPrefix (it_key it) (q_prefix (it_query it)) \<and> \<not> key_time (it_key it) < pl_since pl \<and>
     (case db_Get D d RawEventStore (it_currIdPtr it) of
        None \<Rightarrow> True
      | Some bin \<Rightarrow>
          (pl_extraKinds pl = None \<and> pl_extraTagValues pl = None) \<or>
          (\<exists>k \<in> set (opt_list (pl_extraKinds pl)). GetKind bin = Ret k) \<and>
          (case Unmarshal bin of
             Ret evt \<Rightarrow> ContainsAny (evTags evt) (pl_extraTagKey pl) (opt_list (pl_extraTagValues pl)) | _ \<Rightarrow> False))"

lemma hll_scan_ends:
  "hll_scan D d pl it c h = Some y \<Longrightarrow> \<forall>r. y = Ret r \<longrightarrow> r = (c, h) \<and> \<not> stuck D d pl it"
proof (rule hll_scan.raw_induct [of "\<lambda>D d pl it c h y. \<forall>r. y = Ret r \<longrightarrow> r = (c, h) \<and> \<not> stuck D d pl it"], goal_cases)
  case (1 f D d pl it c h y)
  note IH = 1(2) and body = 1(3)
  show ?case
  proof (cases "stuck D d pl it")
    case True
    then have "(\<exists>c' h'. f D d pl it c' h' = Some y) \<or> y = Panic"
      using body by (auto simp: stuck_def split: if_splits option.splits outcome.splits)
    then show ?thesis using IH True by blast
  next
    case False
    have "f D d pl (it_next D d it) c h = Some y \<or> y = Ret (c, h)"
    proof (cases "bytes_HasPrefix (it_key it) (q_prefix (it_query it)) \<and> \<not> key_time (it_key it) < pl_since pl")
      case here: True
      then obtain bin where bin: "db_Get D d RawEventStore (it_currIdPtr it) = Some bin"
        using False by (cases "db_Get D d RawEventStore (it_currIdPtr it)") (simp_all add: stuck_def)
      have ex: "\<not> (pl_extraKinds pl = None \<and> pl_extraTagValues pl = None)" using False here bin by (simp add: stuck_def)
      show ?thesis
      proof (cases "\<exists>k \<in> set (opt_list (pl_extraKinds pl)). GetKind bin = Ret k")
        case kind: True
        then have "case Unmarshal bin of
            Ret evt \<Rightarrow> \<not> ContainsAny (evTags evt) (pl_extraTagKey pl) (opt_list (pl_extraTagValues pl)) | _ \<Rightarrow> True"
          using False here bin ex by (cases "Unmarshal bin") (simp_all add: stuck_def)
        then show ?thesis using body here bin ex kind by (cases "Unmarshal bin") simp_all
      next
        case kind: False
        then show ?thesis using body here bin ex by simp
      qed
    next
      case there: False
      then show ?thesis using body by (cases "bytes_HasPrefix (it_key it) (q_prefix (it_query it))") simp_all
    qed
    then show ?thesis
    proof
      assume "f D d pl (it_next D d it) c h = Some y"
      then show ?thesis using IH False by metis
    qed (use False in simp)
  qed
qed

lemma hll_scan_nothing: "hll_scan D d pl it c h = Some (Ret r) \<Longrightarrow> r = (c, h) \<and> \<not> stuck D d pl it"
  by (drule hll_scan_ends) simp

lemma hll_queries_nothing: "hll_queries D d pl qs c h = Some (Ret r) \<Longrightarrow> r = (c, h)"
  by (induction D d pl qs c h rule: hll_queries.induct)
     (auto split: option.splits outcome.splits prod.splits dest!: hll_scan_nothing)

lemma hll_queries_start: "hll_queries D d pl qs c h = Some (Ret r) \<Longrightarrow> q \<in> set qs \<Longrightarrow>
    \<not> stuck D d pl (it_seek D d (q_startingPoint q) (newIterator q))"
proof (induction qs arbitrary: c h)
  case (Cons q' qs)
  then obtain c' h' where 1: "hll_scan D d pl (it_seek D d (q_startingPoint q') (newIterator q')) c h = Some (Ret (c', h'))"
      and 2: "hll_queries D d pl qs c' h' = Some (Ret r)"
    by (auto split: option.splits outcome.splits prod.splits)
  show ?case using Cons.IH [OF 2] hll_scan_nothing [OF 1] Cons.prems(2) by auto
qed simp

section \<open>Properties\<close>



end
