(* ===== verification/Schema.thy ===== *)
theory Schema
  imports Pointers
begin

text \<open>
  The schema validator, \<^verbatim>\<open>schema/schema.go\<close> and \<^verbatim>\<open>schema/helpers.go\<close>: events are checked
  against a table that gives, per kind, the type of the content and of the items of each tag.  A Go panic is
  \<open>Panic\<close>, an error of Go is \<open>Fail\<close>.  The YAML reader is third-party code; the schema is a value here.  Whether a text is
  JSON and the lower case of a text are taken from the environment, as are URL schemes (\<open>ext\<close>).
\<close>

section \<open>Schemas\<close>

datatype ContentSpec = ContentSpec
  (cs_Type: string) (cs_Required: bool) (cs_Min: int) (cs_Max: int) (cs_Either: "string list")
  (cs_Next: "ContentSpec option") (cs_Variadic: bool)

record TagSpec =
  ts_Name :: string
  ts_Prefix :: string
  ts_Next :: "ContentSpec option"

record KindSchema =
  ks_Content :: ContentSpec
  ks_Required :: "string list"
  ks_Tags :: "TagSpec list"

record Schema =
  sch_GenericTags :: "string \<rightharpoonup> ContentSpec"
  sch_Kinds :: "string \<rightharpoonup> KindSchema"

text \<open>What the standard library answers.\<close>

record schema_env =
  sv_ext :: ext
  sv_json_Valid :: "string \<Rightarrow> bool"
  sv_ToLower :: "string \<Rightarrow> string"

datatype value_error = Need64Hex | BadHexByte | OddHex | BadPubkey hex_error | BadAddr pointer_error | NotUnsigned | NotRelay
  | InvalidJson | NotAllowed | HexTooShort | HexTooLong | NotLowercase | BadTimestamp | NotKeyval | BadURL | BadMagnet
  | BadDim | BadWidth | BadHeight | BadSize | BadMime | UnknownImeta | NotEmpty

text \<open>The validators read two flags of the validator they belong to.\<close>

type_synonym type_validator = "bool \<Rightarrow> bool \<Rightarrow> string \<Rightarrow> ContentSpec \<Rightarrow> (value_error, unit) outcome"

record Validator =
  va_Schema :: Schema
  va_FailOnUnknownKind :: bool
  va_FailOnUnknownType :: bool
  va_FailOnNonEmpty :: bool
  va_TypeValidators :: "string \<rightharpoonup> type_validator"

section \<open>Values\<close>

text \<open>\<^verbatim>\<open>hex.Decode\<close> into a buffer of \<open>room\<close> bytes.\<close>

fun hex_Decode_into :: "nat \<Rightarrow> string \<Rightarrow> (value_error, unit) outcome" where
  "hex_Decode_into room [] = Ret ()"
| "hex_Decode_into room [p] = (if hex_value p = None then Fail BadHexByte else Fail OddHex)"
| "hex_Decode_into room (p # q # s) =
     (if hex_value p = None \<or> hex_value q = None then Fail BadHexByte
      else case room of 0 \<Rightarrow> Panic | Suc room \<Rightarrow> hex_Decode_into room s)"

text \<open>\<^verbatim>\<open>strconv.ParseUint(s, 10, bits)\<close>: whether the error is nil.\<close>

definition is_Uint :: "nat \<Rightarrow> string \<Rightarrow> bool" where
  "is_Uint bits s = (case parse_nat s of None \<Rightarrow> False | Some n \<Rightarrow> n < 2 ^ bits)"

definition id_validator :: type_validator where
  "id_validator _ _ value spec = (if length value \<noteq> 64 then Fail Need64Hex else hex_Decode_into 128 value)"

definition pubkey_validator :: "schema_env \<Rightarrow> type_validator" where
  "pubkey_validator E _ _ value spec =
     (case PubKeyFromHex (sv_ext E) value of Ret _ \<Rightarrow> Ret () | Fail e \<Rightarrow> Fail (BadPubkey e) | Panic \<Rightarrow> Panic)"

definition addr_validator :: "schema_env \<Rightarrow> type_validator" where
  "addr_validator E _ _ value spec =
     (case ParseAddrString (sv_ext E) value of Ret _ \<Rightarrow> Ret () | Fail e \<Rightarrow> Fail (BadAddr e) | Panic \<Rightarrow> Panic)"

definition kind_validator :: type_validator where
  "kind_validator _ _ value spec = (if is_Uint 16 value then Ret () else Fail NotUnsigned)"

definition relay_validator :: "schema_env \<Rightarrow> type_validator" where
  "relay_validator E _ _ value spec =
     (if url_Scheme (sv_ext E) value \<notin> {Some ''ws'', Some ''wss''} then Fail NotRelay else Ret ())"

definition json_validator :: "schema_env \<Rightarrow> type_validator" where
  "json_validator E _ _ value spec = (if \<not> sv_json_Valid E value then Fail InvalidJson else Ret ())"

definition constrained_validator :: type_validator where
  "constrained_validator _ _ value spec = (if value \<notin> set (cs_Either spec) then Fail NotAllowed else Ret ())"

definition hex_validator :: type_validator where
  "hex_validator _ _ value spec =
     (if cs_Min spec > 0 \<and> int (length value) < cs_Min spec then Fail HexTooShort
      else if cs_Max spec > 0 \<and> int (length value) > cs_Max spec then Fail HexTooLong
      else hex_Decode_into 128 value)"

definition lowercase_validator :: "schema_env \<Rightarrow> type_validator" where
  "lowercase_validator E _ _ value spec = (if sv_ToLower E value \<noteq> value then Fail NotLowercase else Ret ())"

definition timestamp_validator :: type_validator where
  "timestamp_validator _ _ value spec = (if is_Uint 64 value then Ret () else Fail BadTimestamp)"

definition imeta_dim :: "string \<Rightarrow> (value_error, unit) outcome" where
  "imeta_dim val =
     (case strings_Split val (CHR ''x'') of
        [w, h] \<Rightarrow> if \<not> is_Uint 32 w then Fail BadWidth else if \<not> is_Uint 32 h then Fail BadHeight else Ret ()
      | _ \<Rightarrow> Fail BadDim)"

definition imeta_value :: "schema_env \<Rightarrow> bool \<Rightarrow> string \<Rightarrow> string \<Rightarrow> (value_error, unit) outcome" where
  "imeta_value E failOnUnknownType key val =
     (if key \<in> {''url'', ''fallback'', ''thumb'', ''image''} then
        (if url_Scheme (sv_ext E) val \<notin> {Some ''http'', Some ''https'', Some ''data''} then Fail BadURL else Ret ())
      else if key = ''magnet'' then (if \<not> strings_HasPrefix val ''magnet:'' then Fail BadMagnet else Ret ())
      else if key \<in> {''x'', ''ox''} then (if length val \<noteq> 64 then Fail Need64Hex else hex_Decode_into 128 val)
      else if key = ''dim'' then imeta_dim val
      else if key = ''size'' then (if is_Uint 64 val then Ret () else Fail BadSize)
      else if key = ''m'' then (if \<not> strings_Contains val ''/'' then Fail BadMime else Ret ())
      else if key \<in> {''blurhash'', ''alt'', ''summary'', ''service'', ''i'', ''thumbhash''} then Ret ()
      else if failOnUnknownType then Fail UnknownImeta else Ret ())"

definition imeta_validator :: "schema_env \<Rightarrow> type_validator" where
  "imeta_validator E failOnUnknownType _ value spec =
     (case strings_SplitN value (CHR '' '') 2 of
        [key, val] \<Rightarrow> imeta_value E failOnUnknownType key val
      | _ \<Rightarrow> Fail NotKeyval)"

definition empty_validator :: type_validator where
  "empty_validator _ failOnNonEmpty value spec = (if length value > 0 \<and> failOnNonEmpty then Fail NotEmpty else Ret ())"

definition free_validator :: type_validator where
  "free_validator _ _ value spec = Ret ()"

definition std_validators :: "schema_env \<Rightarrow> string \<rightharpoonup> type_validator" where
  "std_validators E = [''id'' \<mapsto> id_validator, ''pubkey'' \<mapsto> pubkey_validator E, ''addr'' \<mapsto> addr_validator E,
     ''kind'' \<mapsto> kind_validator, ''relay'' \<mapsto> relay_validator E, ''json'' \<mapsto> json_validator E,
     ''constrained'' \<mapsto> constrained_validator, ''hex'' \<mapsto> hex_validator, ''lowercase'' \<mapsto> lowercase_validator E,
     ''timestamp'' \<mapsto> timestamp_validator, ''imeta'' \<mapsto> imeta_validator E, ''empty'' \<mapsto> empty_validator,
     ''free'' \<mapsto> free_validator]"

definition NewValidatorFromSchema :: "schema_env \<Rightarrow> Schema \<Rightarrow> Validator" where
  "NewValidatorFromSchema E sch =
     \<lparr>va_Schema = sch, va_FailOnUnknownKind = False, va_FailOnUnknownType = False, va_FailOnNonEmpty = False,
       va_TypeValidators = std_validators E\<rparr>"

text \<open>
  Texts are UTF-8 bytes.  A rune is a space when its encoding is one of these; a text begins (ends) with a space
  rune when it has such a prefix (suffix).
\<close>

definition space_encodings :: "nat list list" where
  "space_encodings = [[9], [10], [11], [12], [13], [32], [194, 133], [194, 160], [225, 154, 128]] @
     map (\<lambda>b. [226, 128, b]) ([128..<139] @ [168, 169, 175]) @ [[226, 129, 159], [227, 128, 128]]"

definition isTrimmed :: "string \<Rightarrow> bool" where
  "isTrimmed s =
     (if length s = 0 then True
      else if list_ex (\<lambda>e. take (length e) (map of_char s) = e) space_encodings then False
      else if list_ex (\<lambda>e. length e \<le> length s \<and> drop (length s - length e) (map of_char s) = e) space_encodings then False
      else True)"

section \<open>Tags\<close>

datatype next_error = MissingIndex | DanglingSpace | InvalidValue value_error | UnknownTagType

text \<open>\<open>Fail (i, e)\<close> is the error \<open>e\<close> at item \<open>i\<close>; on success the code answers the index \<open>-1\<close>.\<close>

function validateNext :: "Validator \<Rightarrow> Tag \<Rightarrow> nat \<Rightarrow> ContentSpec \<Rightarrow> (nat \<times> next_error, unit) outcome" where
  "validateNext v tag index this =
     (if length tag \<le> index then (if cs_Required this then Fail (index, MissingIndex) else Ret ())
      else if \<not> isTrimmed (tag ! index) then Fail (index, DanglingSpace)
      else
        obind (if tag ! index = '''' \<and> \<not> cs_Required this then Ret ()
           else case va_TypeValidators v (cs_Type this) of
             Some validator \<Rightarrow>
               (case validator (va_FailOnUnknownType v) (va_FailOnNonEmpty v) (tag ! index) this of
                  Ret _ \<Rightarrow> Ret () | Fail e \<Rightarrow> Fail (index, InvalidValue e) | Panic \<Rightarrow> Panic)
           | None \<Rightarrow> if va_FailOnUnknownType v then Fail (index, UnknownTagType) else Ret ())
          (\<lambda>_.
           if cs_Variadic this then
             validateNext v tag (index + 1)
               (ContentSpec (cs_Type this) False (cs_Min this) (cs_Max this) (cs_Either this) (cs_Next this) (cs_Variadic this))
           else case cs_Next this of Some spec \<Rightarrow> validateNext v tag (index + 1) spec | None \<Rightarrow> Ret ()))"
  by pat_completeness auto
termination by (relation "measure (\<lambda>(v, tag, index, this). length tag - index)") auto

declare validateNext.simps [simp del]

datatype schema_error = UnknownContent | ContentErr value_error | UnknownKindErr | EmptyTag | DTagInNonAddressable
  | TagErr nat nat next_error | RequiredTagErr "string list"

definition spec_applies :: "TagSpec \<Rightarrow> string \<Rightarrow> bool" where
  "spec_applies ts name \<longleftrightarrow> ts_Name ts = name \<or> ts_Prefix ts \<noteq> '''' \<and> strings_HasPrefix name (ts_Prefix ts)"

text \<open>
  The loop over the specifications of the kind: \<open>Ret None\<close> when one of them accepts the tag, otherwise the last error
  and whether any of them was tried.
\<close>

fun specs_loop :: "Validator \<Rightarrow> nat \<Rightarrow> Tag \<Rightarrow> TagSpec list \<Rightarrow> schema_error option \<Rightarrow> bool
    \<Rightarrow> (schema_error, (schema_error option \<times> bool) option) outcome" where
  "specs_loop v ti tag [] lastErr tagWasValidated = Ret (Some (lastErr, tagWasValidated))"
| "specs_loop v ti tag (tagspec # specs) lastErr tagWasValidated =
     (if spec_applies tagspec (tag ! 0) then
        (case ts_Next tagspec of
           Some spec \<Rightarrow>
             (case validateNext v tag 1 spec of
                Fail (ii, e) \<Rightarrow> specs_loop v ti tag specs (Some (TagErr ti ii e)) True
              | Ret _ \<Rightarrow> Ret None
              | Panic \<Rightarrow> Panic)
         | None \<Rightarrow> specs_loop v ti tag specs lastErr tagWasValidated)
      else specs_loop v ti tag specs lastErr tagWasValidated)"

text \<open>\<^verbatim>\<open>requiredTags[idx] = requiredTags[len-1]; requiredTags = requiredTags[0 : len-1]\<close>\<close>

definition drop_required :: "string \<Rightarrow> string list \<Rightarrow> string list" where
  "drop_required name req =
     (if name \<in> set req then butlast (req[length (takeWhile (\<lambda>r. r \<noteq> name) req) := last req]) else req)"

definition generic_check :: "Validator \<Rightarrow> nat \<Rightarrow> Tag \<Rightarrow> (schema_error, unit) outcome" where
  "generic_check v ti tag =
     (case sch_GenericTags (va_Schema v) (tag ! 0) of
        Some spec \<Rightarrow>
          (case validateNext v tag 1 spec of Fail (ii, e) \<Rightarrow> Fail (TagErr ti ii e) | Ret _ \<Rightarrow> Ret () | Panic \<Rightarrow> Panic)
      | None \<Rightarrow> Ret ())"

definition check_tag :: "Validator \<Rightarrow> KindSchema \<Rightarrow> nat \<Rightarrow> Tag \<Rightarrow> (schema_error, unit) outcome" where
  "check_tag v sch ti tag =
     obind (specs_loop v ti tag (ks_Tags sch) None False) (\<lambda>r.
     case r of
       None \<Rightarrow> Ret ()
     | Some (Some lastErr, _) \<Rightarrow> Fail lastErr
     | Some (None, True) \<Rightarrow> Ret ()
     | Some (None, False) \<Rightarrow> generic_check v ti tag)"

fun tags_loop :: "Validator \<Rightarrow> KindSchema \<Rightarrow> Kind \<Rightarrow> nat \<Rightarrow> Tag list \<Rightarrow> string list \<Rightarrow> bool
    \<Rightarrow> (schema_error, unit) outcome" where
  "tags_loop v sch kind ti [] requiredTags needsD =
     (if length requiredTags > 0 then Fail (RequiredTagErr requiredTags)
      else if needsD then Fail (RequiredTagErr [''d'']) else Ret ())"
| "tags_loop v sch kind ti (tag # tags) requiredTags needsD =
     (if length tag = 0 then Fail EmptyTag
      else if tag ! 0 = ''d'' \<and> \<not> IsAddressable kind then Fail DTagInNonAddressable
      else
        obind (check_tag v sch ti tag) (\<lambda>_.
        tags_loop v sch kind (ti + 1) tags (drop_required (tag ! 0) requiredTags) (needsD \<and> tag ! 0 \<noteq> ''d'')))"

definition ValidateEvent :: "Validator \<Rightarrow> event \<Rightarrow> (schema_error, unit) outcome" where
  "ValidateEvent v evt =
     obind
       (case sch_Kinds (va_Schema v) (nat_Itoa (unat (evKind evt))) of
          Some sch \<Rightarrow>
            obind
              (case va_TypeValidators v (cs_Type (ks_Content sch)) of
                 Some validator \<Rightarrow>
                   (case validator (va_FailOnUnknownType v) (va_FailOnNonEmpty v) (evContent evt) (ks_Content sch) of
                      Ret _ \<Rightarrow> Ret () | Fail e \<Rightarrow> Fail (ContentErr e) | Panic \<Rightarrow> Panic)
               | None \<Rightarrow> if va_FailOnUnknownType v then Fail UnknownContent else Ret ())
              (\<lambda>_. tags_loop v sch (evKind evt) 0 (evTags evt) (ks_Required sch) (IsAddressable (evKind evt)))
        | None \<Rightarrow> Ret ())
       (\<lambda>_. if va_FailOnUnknownKind v then Fail UnknownKindErr else Ret ())"

section \<open>Unknown types\<close>

text \<open>The slice of visited types is passed by value: it grows along one chain of items only.\<close>

fun collectTypes :: "ContentSpec \<Rightarrow> string list \<Rightarrow> string list" where
  "collectTypes (ContentSpec ty r mi ma ei nxt va) visited =
     (if ty \<in> set visited then [] else [ty]) @
     (case nxt of
        None \<Rightarrow> []
      | Some spec \<Rightarrow> collectTypes spec (if ty \<in> set visited then visited else visited @ [ty]))"

definition collect_opt :: "ContentSpec option \<Rightarrow> string list" where
  "collect_opt spec = (case spec of None \<Rightarrow> [] | Some s \<Rightarrow> collectTypes s [])"

text \<open>The two maps are read in some order, given as lists.\<close>

definition findUnknownTypes :: "(string \<rightharpoonup> type_validator) \<Rightarrow> KindSchema list \<Rightarrow> ContentSpec list \<Rightarrow> string list" where
  "findUnknownTypes validators kinds generic =
     filter (\<lambda>t. validators t = None)
       (concat (map (\<lambda>ks. concat (map (\<lambda>ts. collect_opt (ts_Next ts)) (ks_Tags ks))) kinds) @
        concat (map (\<lambda>s. collect_opt (cs_Next s)) generic))"

section \<open>What a schema describes\<close>

definition value_ok :: "Validator \<Rightarrow> ContentSpec \<Rightarrow> string \<Rightarrow> bool" where
  "value_ok v spec x \<longleftrightarrow>
     (case va_TypeValidators v (cs_Type spec) of
        Some f \<Rightarrow> f (va_FailOnUnknownType v) (va_FailOnNonEmpty v) x spec = Ret ()
      | None \<Rightarrow> \<not> va_FailOnUnknownType v)"

definition optional :: "ContentSpec \<Rightarrow> ContentSpec" where
  "optional spec = ContentSpec (cs_Type spec) False (cs_Min spec) (cs_Max spec) (cs_Either spec) (cs_Next spec) (cs_Variadic spec)"

text \<open>The items of a tag that a specification admits: a missing item unless it is required, a value of the type, and after a
  value either more of the same or what comes next.\<close>

inductive well_typed :: "Validator \<Rightarrow> ContentSpec \<Rightarrow> string list \<Rightarrow> bool" for v where
  missing: "\<not> cs_Required spec \<Longrightarrow> well_typed v spec []"
| last_item: "isTrimmed x \<Longrightarrow> x = '''' \<and> \<not> cs_Required spec \<or> value_ok v spec x \<Longrightarrow> \<not> cs_Variadic spec \<Longrightarrow>
    cs_Next spec = None \<Longrightarrow> well_typed v spec (x # xs)"
| next_item: "isTrimmed x \<Longrightarrow> x = '''' \<and> \<not> cs_Required spec \<or> value_ok v spec x \<Longrightarrow> \<not> cs_Variadic spec \<Longrightarrow>
    cs_Next spec = Some spec' \<Longrightarrow> well_typed v spec' xs \<Longrightarrow> well_typed v spec (x # xs)"
| same_item: "isTrimmed x \<Longrightarrow> x = '''' \<and> \<not> cs_Required spec \<or> value_ok v spec x \<Longrightarrow> cs_Variadic spec \<Longrightarrow>
    well_typed v (optional spec) xs \<Longrightarrow> well_typed v spec (x # xs)"

inductive_simps well_typed_simps: "well_typed v spec []" "well_typed v spec (x # xs)"

lemma unit_Ret: "(case r of Ret (_::unit) \<Rightarrow> Ret () | Fail e \<Rightarrow> Fail (g e) | Panic \<Rightarrow> Panic) = Ret () \<longleftrightarrow> r = Ret ()"
  by (cases r) auto

lemma obind_unit: "obind r (\<lambda>_. s) = Ret () \<longleftrightarrow> r = Ret () \<and> s = Ret ()"
  by (cases r) auto

lemma validateNext_step:
  assumes "i < length tag" "isTrimmed (tag ! i)"
  shows "validateNext v tag i spec = Ret () \<longleftrightarrow>
    (tag ! i = '''' \<and> \<not> cs_Required spec \<or> value_ok v spec (tag ! i)) \<and>
    (if cs_Variadic spec then validateNext v tag (i + 1) (optional spec) = Ret ()
     else case cs_Next spec of Some spec' \<Rightarrow> validateNext v tag (i + 1) spec' = Ret () | None \<Rightarrow> True)"
  using assms by (subst validateNext.simps)
    (auto simp: obind_unit value_ok_def optional_def unit_Ret split: option.splits)

lemma validateNext_iff: "validateNext v tag i spec = Ret () \<longleftrightarrow> well_typed v spec (drop i tag)"
proof (induction "length tag - i" arbitrary: i spec rule: less_induct)
  case less
  show ?case
  proof (cases "i < length tag")
    case False
    then show ?thesis by (subst validateNext.simps) (simp add: well_typed_simps)
  next
    case True
    then have d: "drop i tag = tag ! i # drop (i + 1) tag" by (simp add: Cons_nth_drop_Suc)
    have IH: "validateNext v tag (i + 1) s = Ret () \<longleftrightarrow> well_typed v s (drop (i + 1) tag)" for s
      using less.hyps [of "i + 1" s] True by simp
    show ?thesis
    proof (cases "isTrimmed (tag ! i)")
      case trimmed: True
      show ?thesis unfolding validateNext_step [OF True trimmed] IH d well_typed_simps
        using trimmed by (auto split: option.splits)
    next
      case nottrim: False
      then show ?thesis using True unfolding d by (subst validateNext.simps) (simp add: well_typed_simps)
    qed
  qed
qed

text \<open>The specifications of the kind that name the tag and say what its items are.\<close>

definition candidates :: "string \<Rightarrow> TagSpec list \<Rightarrow> ContentSpec list" where
  "candidates name specs = List.map_filter (\<lambda>ts. if spec_applies ts name then ts_Next ts else None) specs"

definition tag_accepted :: "Validator \<Rightarrow> KindSchema \<Rightarrow> Tag \<Rightarrow> bool" where
  "tag_accepted v sch tag \<longleftrightarrow>
     (if candidates (hd tag) (ks_Tags sch) \<noteq> [] then \<exists>s \<in> set (candidates (hd tag) (ks_Tags sch)). well_typed v s (tl tag)
      else case sch_GenericTags (va_Schema v) (hd tag) of Some s \<Rightarrow> well_typed v s (tl tag) | None \<Rightarrow> True)"

definition kind_conforms :: "Validator \<Rightarrow> KindSchema \<Rightarrow> event \<Rightarrow> bool" where
  "kind_conforms v sch e \<longleftrightarrow> value_ok v (ks_Content sch) (evContent e) \<and>
     (\<forall>tag \<in> set (evTags e). tag \<noteq> [] \<and> (hd tag = ''d'' \<longrightarrow> IsAddressable (evKind e)) \<and> tag_accepted v sch tag) \<and>
     mset (ks_Required sch) \<subseteq># mset (map hd (evTags e)) \<and>
     (IsAddressable (evKind e) \<longrightarrow> ''d'' \<in> hd ` set (evTags e))"

definition event_conforms :: "Validator \<Rightarrow> event \<Rightarrow> bool" where
  "event_conforms v e \<longleftrightarrow>
     (case sch_Kinds (va_Schema v) (nat_Itoa (unat (evKind e))) of None \<Rightarrow> True | Some sch \<Rightarrow> kind_conforms v sch e)"

section \<open>The validator decides conformance\<close>

lemma next_tag: "tag \<noteq> [] \<Longrightarrow> validateNext v tag 1 s = Ret () \<longleftrightarrow> well_typed v s (tl tag)"
  by (simp add: validateNext_iff drop_Suc)

lemma candidates_simps [simp]:
  "candidates name [] = []"
  "candidates name (ts # specs) =
     (if spec_applies ts name then (case ts_Next ts of None \<Rightarrow> [] | Some s \<Rightarrow> [s]) else []) @ candidates name specs"
  by (auto simp: candidates_def List.map_filter_def split: option.splits)

lemma specs_loop_spec:
  assumes "specs_loop v ti tag specs lastErr tried = r" "tag \<noteq> []"
  shows "case r of
    Ret None \<Rightarrow> \<exists>s \<in> set (candidates (hd tag) specs). validateNext v tag 1 s = Ret ()
  | Ret (Some (err, tried')) \<Rightarrow>
      (\<forall>s \<in> set (candidates (hd tag) specs). \<exists>x. validateNext v tag 1 s = Fail x) \<and>
      (tried' \<longleftrightarrow> tried \<or> candidates (hd tag) specs \<noteq> []) \<and> (err \<noteq> None \<longleftrightarrow> lastErr \<noteq> None \<or> candidates (hd tag) specs \<noteq> [])
  | Fail e \<Rightarrow> False
  | Panic \<Rightarrow> \<exists>s \<in> set (candidates (hd tag) specs). validateNext v tag 1 s = Panic"
  using assms
proof (induction specs arbitrary: lastErr tried)
  case (Cons ts specs)
  have hd: "tag ! 0 = hd tag" using Cons.prems(2) by (simp add: hd_conv_nth)
  consider "candidates (hd tag) [ts] = []" | s where "candidates (hd tag) [ts] = [s]" "spec_applies ts (hd tag)" "ts_Next ts = Some s"
    by (cases "spec_applies ts (hd tag)"; cases "ts_Next ts") auto
  then show ?case
  proof cases
    case 1
    then have loop: "specs_loop v ti tag specs lastErr tried = r" using Cons.prems(1) hd by (auto split: if_splits option.splits)
    from 1 have cands: "candidates (hd tag) (ts # specs) = candidates (hd tag) specs" by simp
    show ?thesis unfolding cands by (rule Cons.IH [OF loop Cons.prems(2)])
  next
    case 2
    then have cands: "candidates (hd tag) (ts # specs) = s # candidates (hd tag) specs" by simp
    consider "validateNext v tag 1 s = Ret ()" | i e where "validateNext v tag 1 s = Fail (i, e)" | "validateNext v tag 1 s = Panic"
      by (cases "validateNext v tag 1 s") auto
    then show ?thesis
    proof cases
      case f: 2
      then have "specs_loop v ti tag specs (Some (TagErr ti i e)) True = r" using Cons.prems(1) 2 hd by simp
      from Cons.IH [OF this Cons.prems(2)] show ?thesis unfolding cands using f
        by (auto split: outcome.splits option.splits)
    qed (use Cons.prems(1) 2 hd cands in auto)
  qed
qed auto

lemma check_tag_cases:
  assumes "tag \<noteq> []"
  shows "case check_tag v sch ti tag of
    Ret _ \<Rightarrow> tag_accepted v sch tag | Fail _ \<Rightarrow> \<not> tag_accepted v sch tag | Panic \<Rightarrow> \<exists>s. validateNext v tag 1 s = Panic"
proof -
  let ?c = "candidates (hd tag) (ks_Tags sch)"
  note spec = specs_loop_spec [OF refl assms, where v = v and ti = ti and specs = "ks_Tags sch" and lastErr = None and tried = False]
  have hd: "tag ! 0 = hd tag" using assms by (simp add: hd_conv_nth)
  have typed: "validateNext v tag 1 s = Ret () \<longleftrightarrow> well_typed v s (tl tag)" for s by (rule next_tag [OF assms])
  show ?thesis
  proof (cases "specs_loop v ti tag (ks_Tags sch) None False")
    case (Ret x)
    show ?thesis
    proof (cases x)
      case None
      then obtain s where "s \<in> set ?c" "well_typed v s (tl tag)" using spec Ret typed by auto
      then show ?thesis using Ret None by (auto simp: check_tag_def tag_accepted_def)
    next
      case (Some y)
      obtain err tried where y: "y = (err, tried)" by (cases y)
      have *: "\<forall>s \<in> set ?c. \<exists>x. validateNext v tag 1 s = Fail x" "tried \<longleftrightarrow> ?c \<noteq> []" "err \<noteq> None \<longleftrightarrow> ?c \<noteq> []"
        using spec Ret Some y by auto
      have none: "\<forall>s \<in> set ?c. \<not> well_typed v s (tl tag)" using *(1) typed [symmetric] by (metis outcome.distinct(1))
      show ?thesis
      proof (cases "?c = []")
        case True
        then have "check_tag v sch ti tag = generic_check v ti tag" using Ret Some y * by (simp add: check_tag_def)
        then show ?thesis using True typed [symmetric] hd
          by (auto simp: generic_check_def tag_accepted_def split: option.splits outcome.splits)
      next
        case False
        then obtain e where "err = Some e" using *(3) by auto
        then show ?thesis using False none Ret Some y by (auto simp: check_tag_def tag_accepted_def)
      qed
    qed
  qed (use spec in \<open>auto simp: check_tag_def\<close>)
qed

lemma mset_drop_required: "mset (drop_required name req) = mset req - {#name#}"
proof (cases "name \<in> set req")
  case True
  let ?i = "length (takeWhile (\<lambda>r. r \<noteq> name) req)"
  have i: "?i < length req \<and> req ! ?i = name"
    using True by (induction req) auto
  have ne: "req \<noteq> []" "req[?i := last req] \<noteq> []" using True by auto
  have "mset (butlast (req[?i := last req])) = mset (req[?i := last req]) - {#last (req[?i := last req])#}"
    using append_butlast_last_id [OF ne(2)] by (metis add_mset_remove_trivial mset_append mset_single_iff_right union_mset_add_mset_right add.right_neutral mset.simps)
  also have "last (req[?i := last req]) = last req" using ne by (simp add: last_list_update)
  also have "mset (req[?i := last req]) = add_mset (last req) (mset req - {#name#})" using i by (simp add: mset_update)
  finally show ?thesis using True by (simp add: drop_required_def)
qed (simp add: drop_required_def)

subsection \<open>When a validator panics\<close>

lemma hex_Decode_into_panic: "hex_Decode_into room s = Panic \<Longrightarrow> 2 * room < length s"
  by (induction room s rule: hex_Decode_into.induct) (auto split: if_splits nat.splits)

lemma std_validator_panic:
  assumes "std_validators E ty = Some f" "f b1 b2 x spec = Panic"
  shows "256 < length x"
proof -
  consider "f = id_validator" | "f = pubkey_validator E" | "f = addr_validator E" | "f = kind_validator" | "f = relay_validator E"
    | "f = json_validator E" | "f = constrained_validator" | "f = hex_validator" | "f = lowercase_validator E"
    | "f = timestamp_validator" | "f = imeta_validator E" | "f = empty_validator" | "f = free_validator"
    using assms(1) by (auto simp: std_validators_def split: if_splits)
  then show ?thesis
  proof cases
    case 2
    then show ?thesis using assms(2) by (auto simp: pubkey_validator_def PubKeyFromHex_def split: if_splits option.splits)
  next
    case 3
    then have "ParseAddrString (sv_ext E) x = Panic" using assms(2) by (auto simp: addr_validator_def split: outcome.splits)
    then show ?thesis
      by (auto simp: ParseAddrString_def PubKeyFromHex_def Let_def
          split: list.splits if_splits option.splits prod.splits outcome.splits)
  next
    case 11
    have "length val = 64 \<Longrightarrow> hex_Decode_into 128 val \<noteq> Panic" for val using hex_Decode_into_panic [of 128 val] by auto
    moreover have "imeta_dim val \<noteq> Panic" for val by (simp add: imeta_dim_def split: list.split if_split)
    ultimately have "imeta_value E b key val \<noteq> Panic" for b key val
      unfolding imeta_value_def by (simp del: insert_iff split: if_split)
    then have "imeta_validator E b1 b2 x spec \<noteq> Panic" by (simp add: imeta_validator_def split: list.split)
    then show ?thesis using 11 assms(2) by simp
  qed (use assms(2) in \<open>auto simp: id_validator_def kind_validator_def relay_validator_def json_validator_def constrained_validator_def
        hex_validator_def lowercase_validator_def timestamp_validator_def empty_validator_def free_validator_def
        dest!: hex_Decode_into_panic split: if_splits\<close>)
qed

lemma validateNext_panic_step:
  assumes "validateNext v tag i spec = Panic"
  shows "i < length tag \<and>
    ((\<exists>f. va_TypeValidators v (cs_Type spec) = Some f \<and> f (va_FailOnUnknownType v) (va_FailOnNonEmpty v) (tag ! i) spec = Panic) \<or>
     (\<exists>s. validateNext v tag (i + 1) s = Panic))"
  using assms by (subst (asm) validateNext.simps) (auto split: if_splits option.splits outcome.splits)

lemma validateNext_panic:
  assumes "va_TypeValidators v = std_validators E" "validateNext v tag i spec = Panic"
  shows "\<exists>x \<in> set tag. 256 < length x"
  using assms(2)
proof (induction "length tag - i" arbitrary: i spec rule: less_induct)
  case less
  from validateNext_panic_step [OF less.prems] show ?case
  proof (elim conjE disjE exE)
    fix f assume "i < length tag" "va_TypeValidators v (cs_Type spec) = Some f"
      "f (va_FailOnUnknownType v) (va_FailOnNonEmpty v) (tag ! i) spec = Panic"
    then show ?thesis using std_validator_panic assms(1) nth_mem by metis
  next
    fix s assume "i < length tag" "validateNext v tag (i + 1) s = Panic"
    then show ?thesis using less.hyps [of "i + 1" s] by simp
  qed
qed

lemma tags_loop_exact:
  assumes "va_TypeValidators v = std_validators E"
  shows "case tags_loop v sch kind ti tags req needsD of
      Panic \<Rightarrow> \<exists>tag \<in> set tags. \<exists>x \<in> set tag. 256 < length x
    | r \<Rightarrow> r = Ret () \<longleftrightarrow>
        (\<forall>tag \<in> set tags. tag \<noteq> [] \<and> (hd tag = ''d'' \<longrightarrow> IsAddressable kind) \<and> tag_accepted v sch tag) \<and>
        mset req \<subseteq># mset (map hd tags) \<and> (needsD \<longrightarrow> ''d'' \<in> hd ` set tags)"
proof (induction tags arbitrary: ti req needsD)
  case Nil
  then show ?case by (cases req) auto
next
  case (Cons tag tags)
  show ?case
  proof (cases "tag = [] \<or> tag ! 0 = ''d'' \<and> \<not> IsAddressable kind")
    case True
    then show ?thesis by (cases tag) auto
  next
    case False
    then have tag: "tag \<noteq> []" and d: "hd tag = ''d'' \<Longrightarrow> IsAddressable kind" and hd: "tag ! 0 = hd tag" by (auto simp: hd_conv_nth)
    have loop: "tags_loop v sch kind ti (tag # tags) req needsD = obind (check_tag v sch ti tag)
       (\<lambda>_. tags_loop v sch kind (ti + 1) tags (drop_required (hd tag) req) (needsD \<and> hd tag \<noteq> ''d''))"
      using False hd by auto
    have req: "mset (drop_required (hd tag) req) \<subseteq># mset (map hd tags) \<longleftrightarrow> mset req \<subseteq># mset (map hd (tag # tags))"
      by (simp add: mset_drop_required subset_eq_diff_conv)
    have needs: "(needsD \<and> hd tag \<noteq> ''d'' \<longrightarrow> ''d'' \<in> hd ` set tags) \<longleftrightarrow> (needsD \<longrightarrow> ''d'' \<in> hd ` set (tag # tags))" by auto
    note IH = Cons.IH [where ti = "ti + 1" and req = "drop_required (hd tag) req" and needsD = "needsD \<and> hd tag \<noteq> ''d''", unfolded req needs]
    show ?thesis
    proof (cases "check_tag v sch ti tag")
      case (Ret u)
      have acc: "tag_accepted v sch tag" using check_tag_cases [OF tag, of v sch ti] Ret by simp
      show ?thesis unfolding loop Ret using IH acc tag d
        by (cases "tags_loop v sch kind (ti + 1) tags (drop_required (hd tag) req) (needsD \<and> hd tag \<noteq> ''d'')") auto
    next
      case (Fail e)
      then show ?thesis unfolding loop using check_tag_cases [OF tag, of v sch ti] by simp
    next
      case Panic
      then obtain s where "validateNext v tag 1 s = Panic" using check_tag_cases [OF tag, of v sch ti] by auto
      then show ?thesis unfolding loop Panic using validateNext_panic [OF assms] by simp
    qed
  qed

qed

definition configured :: "schema_env \<Rightarrow> Schema \<Rightarrow> bool \<Rightarrow> bool \<Rightarrow> Validator" where
  "configured E sch unknownType nonEmpty =
     (NewValidatorFromSchema E sch) \<lparr>va_FailOnUnknownType := unknownType, va_FailOnNonEmpty := nonEmpty\<rparr>"

lemma configured_simps [simp]:
  "va_Schema (configured E sch b1 b2) = sch"
  "va_FailOnUnknownKind (configured E sch b1 b2) = False"
  "va_FailOnUnknownType (configured E sch b1 b2) = b1"
  "va_FailOnNonEmpty (configured E sch b1 b2) = b2"
  "va_TypeValidators (configured E sch b1 b2) = std_validators E"
  by (simp_all add: configured_def NewValidatorFromSchema_def)

text \<open>The check of the content, and what it decides.\<close>

definition check_content :: "Validator \<Rightarrow> ContentSpec \<Rightarrow> string \<Rightarrow> (schema_error, unit) outcome" where
  "check_content v spec content =
     (case va_TypeValidators v (cs_Type spec) of
        Some validator \<Rightarrow>
          (case validator (va_FailOnUnknownType v) (va_FailOnNonEmpty v) content spec of
             Ret _ \<Rightarrow> Ret () | Fail e \<Rightarrow> Fail (ContentErr e) | Panic \<Rightarrow> Panic)
      | None \<Rightarrow> if va_FailOnUnknownType v then Fail UnknownContent else Ret ())"

lemma check_content_value: "check_content v spec content = Ret () \<longleftrightarrow> value_ok v spec content"
  by (auto simp: check_content_def value_ok_def unit_Ret split: option.splits)

lemma check_content_panic: "va_TypeValidators v = std_validators E \<Longrightarrow> check_content v spec content = Panic \<Longrightarrow> 256 < length content"
  by (auto simp: check_content_def split: option.splits outcome.splits if_splits dest: std_validator_panic)

lemma ValidateEvent_kind:
  "sch_Kinds (va_Schema v) (nat_Itoa (unat (evKind e))) = Some sch \<Longrightarrow>
     ValidateEvent v e =
       obind (obind (check_content v (ks_Content sch) (evContent e))
         (\<lambda>_. tags_loop v sch (evKind e) 0 (evTags e) (ks_Required sch) (IsAddressable (evKind e))))
       (\<lambda>_. if va_FailOnUnknownKind v then Fail UnknownKindErr else Ret ())"
  by (simp add: ValidateEvent_def check_content_def)

text \<open>C39: A validator as the library builds it, with either of the other two options, decides conformance to the schema: it
  accepts exactly the events whose content has the type the kind gives it, whose tags are each accepted by one of the
  specifications that name them (by the generic ones where no specification of the kind does), and which carry every
  required tag as often as the kind requires it, a d tag on addressable kinds and on no other; it rejects all others.
  It panics on no event unless the content or an item of a tag has more than 256 characters.\<close>
theorem validate_event_exact:
  "case ValidateEvent (configured E sch unknownType nonEmpty) e of
     Ret _ \<Rightarrow> event_conforms (configured E sch unknownType nonEmpty) e
   | Fail _ \<Rightarrow> \<not> event_conforms (configured E sch unknownType nonEmpty) e
   | Panic \<Rightarrow> \<exists>x \<in> insert (evContent e) (\<Union>tag \<in> set (evTags e). set tag). 256 < length x"
proof -
  let ?v = "configured E sch unknownType nonEmpty"
  show ?thesis
  proof (cases "sch_Kinds (va_Schema ?v) (nat_Itoa (unat (evKind e)))")
    case None
    then show ?thesis by (simp add: ValidateEvent_def event_conforms_def)
  next
    case (Some ks)
    let ?tags = "tags_loop ?v ks (evKind e) 0 (evTags e) (ks_Required ks) (IsAddressable (evKind e))"
    note tags = tags_loop_exact [where v = ?v and E = E and sch = ks and kind = "evKind e" and ti = 0 and tags = "evTags e"
        and req = "ks_Required ks" and needsD = "IsAddressable (evKind e)"]
    show ?thesis
    proof (cases "check_content ?v (ks_Content ks) (evContent e)")
      case (Ret u)
      then have "value_ok ?v (ks_Content ks) (evContent e)" by (simp add: check_content_value [symmetric])
      moreover have "ValidateEvent ?v e = ?tags" using ValidateEvent_kind [OF Some] Ret by (cases ?tags) simp_all
      ultimately show ?thesis using Some tags by (cases ?tags) (auto simp: event_conforms_def kind_conforms_def)
    next
      case (Fail x)
      then have "\<not> value_ok ?v (ks_Content ks) (evContent e)" by (simp add: check_content_value [symmetric])
      then show ?thesis using ValidateEvent_kind [OF Some] Fail Some by (simp add: event_conforms_def kind_conforms_def)
    next
      case Panic
      then show ?thesis using ValidateEvent_kind [OF Some] check_content_panic [of ?v E] by simp
    qed
  qed
qed

section \<open>The option that rejects unknown kinds\<close>

lemma validateNext_flag: "validateNext (v\<lparr>va_FailOnUnknownKind := b\<rparr>) tag i spec = validateNext v tag i spec"
proof (induction "length tag - i" arbitrary: i spec rule: less_induct)
  case less
  show ?case
  proof (cases "i < length tag")
    case True
    have IH: "validateNext (v\<lparr>va_FailOnUnknownKind := b\<rparr>) tag (i + 1) s = validateNext v tag (i + 1) s" for s
      using less.hyps [of "i + 1"] True by simp
    have sel: "va_FailOnUnknownType (v\<lparr>va_FailOnUnknownKind := b\<rparr>) = va_FailOnUnknownType v"
      "va_FailOnNonEmpty (v\<lparr>va_FailOnUnknownKind := b\<rparr>) = va_FailOnNonEmpty v"
      "va_TypeValidators (v\<lparr>va_FailOnUnknownKind := b\<rparr>) = va_TypeValidators v" by simp_all
    show ?thesis
      unfolding validateNext.simps [of "v\<lparr>va_FailOnUnknownKind := b\<rparr>" tag i spec] validateNext.simps [of v tag i spec] IH sel ..
  qed (simp add: validateNext.simps)
qed

lemma specs_loop_flag: "specs_loop (v\<lparr>va_FailOnUnknownKind := b\<rparr>) ti tag specs l w = specs_loop v ti tag specs l w"
  by (induction specs arbitrary: l w) (auto simp: validateNext_flag split: option.splits outcome.splits)

lemma check_tag_flag: "check_tag (v\<lparr>va_FailOnUnknownKind := b\<rparr>) sch ti tag = check_tag v sch ti tag"
proof -
  have "generic_check (v\<lparr>va_FailOnUnknownKind := b\<rparr>) ti tag = generic_check v ti tag"
    unfolding generic_check_def validateNext_flag by simp
  then show ?thesis unfolding check_tag_def specs_loop_flag by (rule arg_cong)
qed

lemma tags_loop_flag: "tags_loop (v\<lparr>va_FailOnUnknownKind := b\<rparr>) sch k ti tags req d = tags_loop v sch k ti tags req d"
  by (induction tags arbitrary: ti req d) (simp_all add: check_tag_flag)

text \<open>C40: With FailOnUnknownKind set, every event is rejected, whether the schema knows its kind or not: an event that
  passes all the checks of its kind is then answered with the error for an unknown kind.\<close>
theorem fail_on_unknown_kind_rejects_all:
  "ValidateEvent (v\<lparr>va_FailOnUnknownKind := True\<rparr>) e =
     (case ValidateEvent (v\<lparr>va_FailOnUnknownKind := False\<rparr>) e of Ret _ \<Rightarrow> Fail UnknownKindErr | r \<Rightarrow> r)"
proof (cases "sch_Kinds (va_Schema v) (nat_Itoa (unat (evKind e)))")
  case (Some ks)
  have content: "check_content (v\<lparr>va_FailOnUnknownKind := b\<rparr>) = check_content v" for b
    by (intro ext) (simp add: check_content_def split: option.split)
  let ?r = "obind (check_content v (ks_Content ks) (evContent e))
      (\<lambda>_. tags_loop v ks (evKind e) 0 (evTags e) (ks_Required ks) (IsAddressable (evKind e)))"
  have "ValidateEvent (v\<lparr>va_FailOnUnknownKind := b\<rparr>) e = obind ?r (\<lambda>_. if b then Fail UnknownKindErr else Ret ())" for b
    using Some by (subst ValidateEvent_kind [of _ _ ks]) (simp_all add: content tags_loop_flag)
  then show ?thesis by (cases ?r) simp_all
qed (simp add: ValidateEvent_def)

section \<open>Hexadecimal texts of any length\<close>

lemma hex_Decode_into_full:
  "\<forall>c \<in> set s. hex_value c \<noteq> None \<Longrightarrow> 2 * room + 2 \<le> length s \<Longrightarrow> hex_Decode_into room s = Panic"
  by (induction room s rule: hex_Decode_into.induct) (auto split: nat.splits)

text \<open>The validator of hexadecimal texts decodes into a buffer of 128 bytes: an event of a kind whose content is
  hexadecimal, with no maximum given in the schema, crashes the validator as soon as its content has 258 hexadecimal
  digits or more.\<close>
theorem hex_content_crashes:
  assumes "sch_Kinds sch (nat_Itoa (unat (evKind e))) = Some ks" "cs_Type (ks_Content ks) = ''hex''"
    "cs_Max (ks_Content ks) \<le> 0" "cs_Min (ks_Content ks) \<le> int (length (evContent e))"
    "\<forall>c \<in> set (evContent e). hex_value c \<noteq> None" "258 \<le> length (evContent e)"
  shows "ValidateEvent (configured E sch unknownType nonEmpty) e = Panic"
proof -
  have "hex_Decode_into 128 (evContent e) = Panic" using assms(5,6) by (intro hex_Decode_into_full) auto
  then have "check_content (configured E sch unknownType nonEmpty) (ks_Content ks) (evContent e) = Panic"
    using assms(2-4) by (simp add: check_content_def std_validators_def hex_validator_def)
  then show ?thesis using assms(1) by (subst ValidateEvent_kind [of _ _ ks]) simp_all
qed

definition hex_kind :: KindSchema where
  "hex_kind = \<lparr>ks_Content = ContentSpec ''hex'' True 0 0 [] None False, ks_Required = [], ks_Tags = []\<rparr>"

definition hex_schema :: Schema where
  "hex_schema = \<lparr>sch_GenericTags = (\<lambda>_. None), sch_Kinds = [''1'' \<mapsto> hex_kind]\<rparr>"

theorem hex_content_crashes_witness:
  "ValidateEvent (configured E hex_schema False False)
     \<lparr>evID = [], evPubKey = [], evCreatedAt = 0, evKind = 1, evTags = [], evContent = replicate 258 (CHR ''0''), evSig = []\<rparr> = Panic"
proof -
  have "nat_Itoa 1 = ''1''" by code_simp
  then show ?thesis
    by (intro hex_content_crashes [where ks = hex_kind]) (simp_all add: hex_schema_def hex_kind_def hex_value_def)
qed


end
