(* ===== verification/PebbleKeys.thy ===== *)
theory PebbleKeys
  imports Store BetterBinary KeyOrder "HOL-Library.AList"
begin

text \<open>
  The keys of the pebble store, \<^verbatim>\<open>eventstore/pebbledb2/keys.go\<close>: how events are filed, the ranges that scans read, the merging of
  counters and sketches, and the database as the code uses it.  Ids and public keys are arrays of 32 bytes, timestamps
  in keys are 64-bit numbers without sign.
\<close>

section \<open>Keys\<close>

definition pfxLocator :: byte where "pfxLocator = 101"
definition pfxBody :: byte where "pfxBody = 118"
definition pfxPubkey :: byte where "pfxPubkey = 112"
definition pfxPubkeyKnd :: byte where "pfxPubkeyKnd = 99"
definition pfxKind :: byte where "pfxKind = 107"
definition pfxTag :: byte where "pfxTag = 116"
definition pfxTime :: byte where "pfxTime = 84"
definition pfxBloom :: byte where "pfxBloom = 70"
definition pfxHLL :: byte where "pfxHLL = 72"
definition pfxCounter :: byte where "pfxCounter = 78"

lemmas pfx_defs = pfxLocator_def pfxBody_def pfxPubkey_def pfxPubkeyKnd_def pfxKind_def pfxTag_def pfxTime_def
  pfxBloom_def pfxHLL_def pfxCounter_def

definition encTS :: "nat \<Rightarrow> bytes" where
  "encTS ts = putBE 8 ts"

definition locatorKey :: "bytes \<Rightarrow> bytes" where
  "locatorKey i = pfxLocator # i"

definition bodyKey :: "nat \<Rightarrow> bytes \<Rightarrow> bytes" where
  "bodyKey ts i = pfxBody # putBE 8 ts @ i"

definition pubkeyPrefix :: "bytes \<Rightarrow> bytes" where
  "pubkeyPrefix pk = pfxPubkey # pk"

definition pubkeyKindPrefix :: "bytes \<Rightarrow> nat \<Rightarrow> bytes" where
  "pubkeyKindPrefix pk kind = pfxPubkeyKnd # pk @ putBE 4 kind"

definition kindPrefix :: "nat \<Rightarrow> bytes" where
  "kindPrefix kind = pfxKind # putBE 4 kind"

definition tagPrefix :: "string \<Rightarrow> string \<Rightarrow> bytes" where
  "tagPrefix name value =
     pfxTag # word_of_nat (length name) # bytes_of name @ putBE 2 (length value mod 65536) @ bytes_of value"

definition timePrefix :: bytes where
  "timePrefix = [pfxTime]"

definition bloomPrefix :: bytes where
  "bloomPrefix = [pfxBloom]"

definition bloomKey :: "nat \<Rightarrow> bytes \<Rightarrow> bytes" where
  "bloomKey ts i = pfxBloom # putBE 8 ts @ i"

definition hllKey :: "char \<Rightarrow> nat \<Rightarrow> bytes \<Rightarrow> bytes" where
  "hllKey tagKey kind ref = pfxHLL # byte_of_char tagKey # putBE 4 kind @ ref"

text \<open>Counters.  The division of Go truncates; timestamps of stored events are not negative.\<close>

definition dayOf :: "int \<Rightarrow> nat" where
  "dayOf ts = uint32 (if ts < 0 then - (- ts div 86400) else ts div 86400)"

definition hourOf :: "int \<Rightarrow> nat" where
  "hourOf ts = uint32 (if ts < 0 then - (- ts div 3600) else ts div 3600)"

definition kindDayCounterPrefix :: "nat \<Rightarrow> bytes" where
  "kindDayCounterPrefix kind = pfxCounter # 1 # putBE 4 kind"

definition dayCounterPrefix :: bytes where
  "dayCounterPrefix = [pfxCounter, 2]"

definition kindHourCounterPrefix :: "nat \<Rightarrow> bytes" where
  "kindHourCounterPrefix kind = pfxCounter # 3 # putBE 4 kind"

definition hourCounterPrefix :: bytes where
  "hourCounterPrefix = [pfxCounter, 4]"

definition pkKindCounterKey :: "bytes \<Rightarrow> nat \<Rightarrow> bytes" where
  "pkKindCounterKey pk kind = pfxCounter # 5 # pk @ putBE 4 kind"

definition counterKey :: "bytes \<Rightarrow> nat \<Rightarrow> bytes" where
  "counterKey prefix day = prefix @ putBE 4 day"

definition enc64 :: "int \<Rightarrow> bytes" where
  "enc64 v = putBE 8 (nat (uint64 v))"

definition dec64 :: "bytes \<Rightarrow> int" where
  "dec64 b = int64 (int (getBE (take 8 b)))"

section \<open>Index entries\<close>

definition appendTail :: "bytes \<Rightarrow> nat \<Rightarrow> bytes \<Rightarrow> bytes" where
  "appendTail prefix ts i = prefix @ putBE 8 ts @ i"

fun successor_rev :: "bytes \<Rightarrow> bytes option" where
  "successor_rev [] = None"
| "successor_rev (b # bs) = (if b \<noteq> 255 then Some (rev ((b + 1) # bs)) else successor_rev bs)"

definition prefixSuccessor :: "bytes \<Rightarrow> bytes option" where
  "prefixSuccessor prefix = successor_rev (rev prefix)"

definition timeBounds :: "bytes \<Rightarrow> int \<Rightarrow> int \<Rightarrow> bytes \<times> bytes option" where
  "timeBounds prefix since until =
     (let lo = nat (uint64 since); hi = nat (uint64 until) in
      (prefix @ putBE 8 lo,
       if hi = 18446744073709551615 then prefixSuccessor prefix else Some (prefix @ putBE 8 (hi + 1))))"

definition timeBounds4 :: "bytes \<Rightarrow> nat \<Rightarrow> nat \<Rightarrow> bytes \<times> bytes option" where
  "timeBounds4 prefix d0 d1 =
     (prefix @ putBE 4 d0, if d1 = 4294967295 then prefixSuccessor prefix else Some (prefix @ putBE 4 (d1 + 1)))"

text \<open>The tags of an event that are indexed, each once.\<close>

fun tag_prefixes :: "(string \<Rightarrow> bool) \<Rightarrow> bytes set \<Rightarrow> Tag list \<Rightarrow> bytes list" where
  "tag_prefixes indexedTag seen [] = []"
| "tag_prefixes indexedTag seen (t # tags) =
     (if length t < 2 \<or> \<not> indexedTag (t ! 0) then tag_prefixes indexedTag seen tags
      else if length (t ! 0) > 255 \<or> length (t ! 1) > 65535 then tag_prefixes indexedTag seen tags
      else
        let prefix = tagPrefix (t ! 0) (t ! 1) in
        if prefix \<in> seen then tag_prefixes indexedTag seen tags
        else prefix # tag_prefixes indexedTag (insert prefix seen) tags)"

definition index_prefixes :: "(string \<Rightarrow> bool) \<Rightarrow> event \<Rightarrow> bytes list" where
  "index_prefixes indexedTag ev =
     [pubkeyPrefix (evPubKey ev), pubkeyKindPrefix (evPubKey ev) (unat (evKind ev)), kindPrefix (unat (evKind ev)), timePrefix] @
     tag_prefixes indexedTag {} (evTags ev)"

definition event_ts :: "event \<Rightarrow> nat" where
  "event_ts ev = nat (uint64 (evCreatedAt ev))"

definition indexKeysFor :: "(string \<Rightarrow> bool) \<Rightarrow> event \<Rightarrow> bytes list" where
  "indexKeysFor indexedTag ev = map (\<lambda>prefix. appendTail prefix (event_ts ev) (evID ev)) (index_prefixes indexedTag ev)"

section \<open>Merging\<close>

text \<open>The value of a counter is the sum of its operands, that of a sketch the maximum per register; malformed operands are
  skipped.\<close>

definition counter_apply :: "int \<Rightarrow> bytes \<Rightarrow> int" where
  "counter_apply s value = (if length value \<noteq> 8 then s else int64 (s + dec64 value))"

definition hll_apply :: "bytes \<Rightarrow> bytes \<Rightarrow> bytes" where
  "hll_apply registers value =
     (if value = [] then registers
      else if value ! 0 = 0 then
        (if length value = 1 + 256 then map2 (\<lambda>v r. if v > r then v else r) (tl value) registers else registers)
      else if value ! 0 = 1 then
        (if length value = 3 then
           let idx = unat (value ! 1); v = value ! 2 in if v > registers ! idx then registers[idx := v] else registers
         else registers)
      else registers)"

definition CounterMerger :: "bytes \<Rightarrow> bytes list \<Rightarrow> bytes" where
  "CounterMerger key operands =
     (if length key > 0 \<and> key ! 0 = pfxHLL then 0 # foldl hll_apply (replicate 256 0) operands
      else enc64 (foldl counter_apply 0 operands))"

section \<open>The database\<close>

text \<open>
  What the code calls of pebble: point reads, the entries of a range in order, and batches.  Errors are texts.  A batch is
  the list of its operations; \<open>pb_reject\<close> tells which additions to a batch fail.
\<close>

datatype batch_op = BSet bytes bytes | BDelete bytes | BMerge bytes bytes

record 'd pebble =
  pb_Get :: "'d \<Rightarrow> bytes \<Rightarrow> (string, bytes option) outcome"
  pb_Iter :: "'d \<Rightarrow> bytes \<Rightarrow> bytes option \<Rightarrow> (string, (bytes \<times> bytes) list) outcome"
  pb_reject :: "batch_op \<Rightarrow> string option"
  pb_Commit :: "'d \<Rightarrow> batch_op list \<Rightarrow> (string, 'd) outcome"

text \<open>What a batch does to the contents.\<close>

fun apply_op :: "batch_op \<Rightarrow> (bytes \<rightharpoonup> bytes) \<Rightarrow> (bytes \<rightharpoonup> bytes)" where
  "apply_op (BSet k v) m = m(k \<mapsto> v)"
| "apply_op (BDelete k) m = m(k := None)"
| "apply_op (BMerge k v) m = m(k \<mapsto> CounterMerger k (case m k of None \<Rightarrow> [v] | Some b \<Rightarrow> [b, v]))"

definition apply_batch :: "batch_op list \<Rightarrow> (bytes \<rightharpoonup> bytes) \<Rightarrow> (bytes \<rightharpoonup> bytes)" where
  "apply_batch b m = fold apply_op b m"

definition in_bounds :: "bytes \<Rightarrow> bytes option \<Rightarrow> bytes \<Rightarrow> bool" where
  "in_bounds lower upper k \<longleftrightarrow> lower \<le> k \<and> (case upper of None \<Rightarrow> True | Some u \<Rightarrow> k < u)"

locale pebble_db =
  fixes P :: "'d pebble" and kv :: "'d \<Rightarrow> bytes \<rightharpoonup> bytes"
  assumes get_value: "pb_Get P d k = Ret v \<Longrightarrow> v = kv d k"
    and get_panic: "pb_Get P d k \<noteq> Panic"
    and iter_sorted: "pb_Iter P d lower upper = Ret es \<Longrightarrow> sorted_wrt (\<lambda>a b. fst a < fst b) es"
    and iter_entries: "pb_Iter P d lower upper = Ret es \<Longrightarrow> set es = {(k, v). kv d k = Some v \<and> in_bounds lower upper k}"
    and iter_panic: "pb_Iter P d lower upper \<noteq> Panic"
    and commit_value: "pb_Commit P d b = Ret d' \<Longrightarrow> kv d' = apply_batch b (kv d)"
    and commit_panic: "pb_Commit P d b \<noteq> Panic"

section \<open>Scanning a range\<close>

definition time_range :: "int \<Rightarrow> int \<Rightarrow> bool" where
  "time_range since until \<longleftrightarrow> 0 \<le> since \<and> since < 2 ^ 63 \<and> 0 \<le> until \<and> until < 2 ^ 63"

lemma timeBounds_eq:
  "time_range since until \<Longrightarrow>
     timeBounds prefix since until = (prefix @ putBE 8 (nat since), Some (prefix @ putBE 8 (nat until + 1)))"
  by (auto simp: timeBounds_def time_range_def uint64_id Let_def nat_eq_iff)

lemma bounds_stamp:
  assumes "time_range since until" "ts < 2 ^ 64" "timeBounds prefix since until = (lower, upper)"
  shows "in_bounds lower upper (prefix @ putBE 8 ts @ i) \<longleftrightarrow> nat since \<le> ts \<and> ts \<le> nat until"
proof -
  have r: "nat since < 256 ^ 8" "nat until + 1 < 256 ^ 8" "ts < 256 ^ 8" using assms(1,2) by (auto simp: time_range_def nat_less_iff)
  have b: "lower = prefix @ putBE 8 (nat since)" "upper = Some (prefix @ putBE 8 (nat until + 1))"
    using timeBounds_eq [OF assms(1), of prefix] assms(3) by auto
  have "putBE 8 (nat since) \<le> putBE 8 ts @ i \<longleftrightarrow> \<not> putBE 8 ts < putBE 8 (nat since)"
    using append_less_append [of "putBE 8 ts" "putBE 8 (nat since)" i "[]"] by (auto simp: not_less [symmetric])
  moreover have "putBE 8 ts @ i < putBE 8 (nat until + 1) \<longleftrightarrow> putBE 8 ts < putBE 8 (nat until + 1)"
    using append_less_append [of "putBE 8 ts" "putBE 8 (nat until + 1)" i "[]"] by auto
  ultimately show ?thesis using r putBE_less [OF r(3) r(1)] putBE_less [OF r(3) r(2)]
    by (auto simp: in_bounds_def b append_less_iff append_less_same)
qed

lemma bounds_prefix:
  assumes "time_range since until" "timeBounds prefix since until = (lower, upper)" "in_bounds lower upper k"
  shows "\<exists>r. k = prefix @ r"
proof -
  have b: "lower = prefix @ putBE 8 (nat since)" "upper = Some (prefix @ putBE 8 (nat until + 1))"
    using timeBounds_eq [OF assms(1), of prefix] assms(2) by auto
  have "prefix @ putBE 8 (nat since) \<le> k" "k \<le> prefix @ putBE 8 (nat until + 1)"
    using assms(3) by (auto simp: in_bounds_def b)
  then have "take (length prefix) k = prefix"
    using take_mono [of "prefix @ putBE 8 (nat since)" k "length prefix"]
      take_mono [of k "prefix @ putBE 8 (nat until + 1)" "length prefix"] by simp
  then show ?thesis by (metis append_take_drop_id)
qed

lemma bounds4_bucket:
  assumes "d0 < 2 ^ 32" "d1 < 2 ^ 32 - 1" "n < 2 ^ 32" "timeBounds4 prefix d0 d1 = (lower, upper)"
  shows "in_bounds lower upper (prefix @ putBE 4 n) \<longleftrightarrow> d0 \<le> n \<and> n \<le> d1"
proof -
  have r: "d0 < 256 ^ 4" "d1 + 1 < 256 ^ 4" "n < 256 ^ 4" using assms(1-3) by auto
  have "lower = prefix @ putBE 4 d0" "upper = Some (prefix @ putBE 4 (d1 + 1))"
    using assms(2,4) by (auto simp: timeBounds4_def)
  then show ?thesis using putBE_less [OF r(3) r(1)] putBE_less [OF r(3) r(2)]
    by (auto simp: in_bounds_def append_less_iff append_less_same not_less [symmetric])
qed

lemma bounds4_prefix:
  assumes "d1 < 2 ^ 32 - 1" "timeBounds4 prefix d0 d1 = (lower, upper)" "in_bounds lower upper k"
  shows "\<exists>r. k = prefix @ r"
proof -
  have b: "lower = prefix @ putBE 4 d0" "upper = Some (prefix @ putBE 4 (d1 + 1))"
    using assms(1,2) by (auto simp: timeBounds4_def)
  have "prefix @ putBE 4 d0 \<le> k" "k \<le> prefix @ putBE 4 (d1 + 1)" using assms(3) by (auto simp: in_bounds_def b)
  then have "take (length prefix) k = prefix"
    using take_mono [of "prefix @ putBE 4 d0" k "length prefix"] take_mono [of k "prefix @ putBE 4 (d1 + 1)" "length prefix"] by simp
  then show ?thesis by (metis append_take_drop_id)
qed

section \<open>Which entry a key belongs to\<close>

definition wf_entry :: "event \<Rightarrow> bool" where
  "wf_entry e \<longleftrightarrow> wf_event e \<and> 0 \<le> evCreatedAt e"

lemma event_ts_eq: "wf_entry e \<Longrightarrow> event_ts e = nat (evCreatedAt e)"
  by (auto simp: event_ts_def wf_entry_def wf_event_def in_int64_def uint64_id)

lemma event_ts_bound: "event_ts e < 2 ^ 64"
  using uint64_range [of "evCreatedAt e"] by (simp add: event_ts_def nat_less_iff)

text \<open>The forms of the prefixes of index entries; no two of them begin the same key.\<close>

definition index_prefix :: "bytes \<Rightarrow> bool" where
  "index_prefix p \<longleftrightarrow>
     (\<exists>pk. length pk = 32 \<and> p = pubkeyPrefix pk) \<or>
     (\<exists>pk k. length pk = 32 \<and> p = pubkeyKindPrefix pk k) \<or>
     (\<exists>k. p = kindPrefix k) \<or> p = timePrefix \<or>
     (\<exists>n v. length n \<le> 255 \<and> length v \<le> 65535 \<and> p = tagPrefix n v)"

lemma byte_length_inj: "n \<le> 255 \<Longrightarrow> m \<le> 255 \<Longrightarrow> (word_of_nat n :: byte) = word_of_nat m \<longleftrightarrow> n = m"
  by (simp add: word_of_nat_eq_iff take_bit_eq_mod)

lemma tagPrefix_free:
  assumes "tagPrefix n v @ x = tagPrefix n' v' @ y" "length n \<le> 255" "length n' \<le> 255" "length v \<le> 65535" "length v' \<le> 65535"
  shows "n = n' \<and> v = v' \<and> x = y"
proof -
  have "length n = length n'" using assms byte_length_inj [of "length n" "length n'"] by (simp add: tagPrefix_def)
  then have n: "n = n'" and r: "putBE 2 (length v mod 65536) @ bytes_of v @ x = putBE 2 (length v' mod 65536) @ bytes_of v' @ y"
    using assms(1) by (auto simp: tagPrefix_def append_eq_append_conv bytes_of_inj)
  then have "putBE 2 (length v mod 65536) = putBE 2 (length v' mod 65536)" by (simp add: append_eq_append_conv)
  then have "length v = length v'" using assms(4,5) putBE_inj [of "length v mod 65536" 2 "length v' mod 65536"] by simp
  then show ?thesis using n r by (auto simp: append_eq_append_conv bytes_of_inj)
qed

lemma index_prefix_fixed:
  "index_prefix p \<Longrightarrow> hd p \<noteq> pfxTag \<Longrightarrow>
     p \<noteq> [] \<and> length p = (if hd p = pfxPubkey then 33 else if hd p = pfxPubkeyKnd then 37 else if hd p = pfxKind then 5 else 1)"
  by (auto simp: index_prefix_def pubkeyPrefix_def pubkeyKindPrefix_def kindPrefix_def timePrefix_def tagPrefix_def pfx_defs)

lemma index_prefix_tag:
  "index_prefix p \<Longrightarrow> hd p = pfxTag \<Longrightarrow> \<exists>n v. length n \<le> 255 \<and> length v \<le> 65535 \<and> p = tagPrefix n v"
  by (auto simp: index_prefix_def pubkeyPrefix_def pubkeyKindPrefix_def kindPrefix_def timePrefix_def pfx_defs)

lemma index_prefix_ne: "index_prefix p \<Longrightarrow> p \<noteq> []"
  by (auto simp: index_prefix_def pubkeyPrefix_def pubkeyKindPrefix_def kindPrefix_def timePrefix_def tagPrefix_def)

lemma index_prefix_free:
  assumes "index_prefix p" "index_prefix q" "p @ x = q @ y"
  shows "p = q \<and> x = y"
proof (cases "hd p = pfxTag")
  case True
  then have "hd q = pfxTag" using assms index_prefix_ne by (metis hd_append2)
  then obtain n v n' v' where "length n \<le> 255" "length v \<le> 65535" "p = tagPrefix n v"
      "length n' \<le> 255" "length v' \<le> 65535" "q = tagPrefix n' v'"
    using index_prefix_tag [OF assms(1) True] index_prefix_tag [OF assms(2)] by blast
  then show ?thesis using tagPrefix_free assms(3) by metis
next
  case False
  have "hd q = hd p" using assms index_prefix_ne by (metis hd_append2)
  then have "length p = length q" using index_prefix_fixed [OF assms(1) False] index_prefix_fixed [OF assms(2)] False by simp
  then show ?thesis using assms(3) by (simp add: append_eq_append_conv)
qed

lemma tag_prefixes_form: "p \<in> set (tag_prefixes ix seen tags) \<longleftrightarrow>
    p \<notin> seen \<and> (\<exists>t \<in> set tags. 2 \<le> length t \<and> ix (t ! 0) \<and> length (t ! 0) \<le> 255 \<and> length (t ! 1) \<le> 65535 \<and> p = tagPrefix (t ! 0) (t ! 1))"
  by (induction ix seen tags rule: tag_prefixes.induct) (auto simp: Let_def)

lemma distinct_tag_prefixes: "distinct (tag_prefixes ix seen tags)"
  by (induction ix seen tags rule: tag_prefixes.induct) (auto simp: Let_def tag_prefixes_form)

lemma index_prefixes_form: "wf_event e \<Longrightarrow> p \<in> set (index_prefixes ix e) \<Longrightarrow> index_prefix p"
  unfolding index_prefixes_def index_prefix_def wf_event_def wf32_def
  by (auto simp: tag_prefixes_form; blast)

lemma appendTail_inj:
  assumes "index_prefix p" "index_prefix q" "appendTail p ts i = appendTail q ts' i'" "ts < 2 ^ 64" "ts' < 2 ^ 64"
  shows "p = q \<and> ts = ts' \<and> i = i'"
proof -
  have "p = q \<and> putBE 8 ts @ i = putBE 8 ts' @ i'" using index_prefix_free [OF assms(1,2)] assms(3) by (simp add: appendTail_def)
  then show ?thesis using assms(4,5) putBE_inj [of ts 8 ts'] by (simp add: append_eq_append_conv)
qed

lemma enc64_length [simp]: "length (enc64 v) = 8"
  by (simp add: enc64_def)

lemma dec64_enc64: "dec64 (enc64 v) = int64 v"
proof -
  have "nat (uint64 v) < 256 ^ 8" using uint64_range [of v] by (simp add: nat_less_iff)
  then show ?thesis using uint64_range [of v] by (simp add: dec64_def enc64_def getBE_putBE)
qed


section \<open>A database in a list\<close>

type_synonym list_state = "(bytes \<times> bytes) list"

fun list_op :: "batch_op \<Rightarrow> list_state \<Rightarrow> list_state" where
  "list_op (BSet k v) d = AList.update k v d"
| "list_op (BDelete k) d = AList.delete k d"
| "list_op (BMerge k v) d = AList.update k (CounterMerger k (case map_of d k of None \<Rightarrow> [v] | Some b \<Rightarrow> [b, v])) d"

definition list_pebble :: "list_state pebble" where
  "list_pebble = \<lparr>
     pb_Get = (\<lambda>d k. Ret (map_of d k)),
     pb_Iter = (\<lambda>d lower upper. Ret (sort_key fst (filter (\<lambda>e. in_bounds lower upper (fst e)) (AList.clearjunk d)))),
     pb_reject = (\<lambda>op. None),
     pb_Commit = (\<lambda>d b. Ret (fold list_op b d))\<rparr>"

lemma list_op_map: "map_of (list_op x d) = apply_op x (map_of d)"
  by (cases x) (auto simp: update_conv' delete_conv' split: option.split)

lemma list_ops_map: "map_of (fold list_op b d) = apply_batch b (map_of d)"
  by (induction b arbitrary: d) (simp_all add: apply_batch_def list_op_map)

lemma sorted_distinct_keys: "sorted (map fst es) \<Longrightarrow> distinct (map fst es) \<Longrightarrow> sorted_wrt (\<lambda>a b. fst a < (fst b :: bytes)) es"
  by (induction es) (auto simp: less_le)

lemma in_clearjunk: "(k, v) \<in> set (AList.clearjunk d) \<longleftrightarrow> map_of d k = Some v"
  by (metis distinct_clearjunk map_of_clearjunk map_of_eq_Some_iff)

interpretation list_pebble: pebble_db list_pebble map_of
proof
  fix d d' :: list_state and k v es lower upper b
  show "v = map_of d k" if "pb_Get list_pebble d k = Ret v" using that by (simp add: list_pebble_def)
  show "map_of d' = apply_batch b (map_of d)" if "pb_Commit list_pebble d b = Ret d'"
    using that list_ops_map by (auto simp: list_pebble_def)
  show "sorted_wrt (\<lambda>a b. fst a < fst b) es" if "pb_Iter list_pebble d lower upper = Ret es"
  proof (rule sorted_distinct_keys)
    have es: "es = sort_key fst (filter (\<lambda>e. in_bounds lower upper (fst e)) (AList.clearjunk d))"
      using that by (simp add: list_pebble_def)
    show "sorted (map fst es)" by (simp add: es)
    have "distinct (map fst (filter (\<lambda>e. in_bounds lower upper (fst e)) (AList.clearjunk d)))"
      using distinct_clearjunk by (rule distinct_map_filter)
    then show "distinct (map fst es)" by (simp add: es distinct_map)
  qed
  show "set es = {(k, v). map_of d k = Some v \<and> in_bounds lower upper k}" if "pb_Iter list_pebble d lower upper = Ret es"
    using that by (auto simp: list_pebble_def in_clearjunk)
qed (simp_all add: list_pebble_def)

end
