(* ===== verification/Bloom.thy ===== *)
theory Bloom
  imports GoStd
begin

text \<open>
  The text search of the pebble store: the substring search of \<^verbatim>\<open>eventstore/searcher/searcher.go\<close> (Boyer and Moore's, as
  simplified by Horspool) and the signatures of \<^verbatim>\<open>eventstore/pebbledb2/bloom.go\<close> that let a scan skip events whose content
  cannot match.  \<^verbatim>\<open>strings.ToLower\<close> is an argument; a text is its bytes.
\<close>

unbundle bit_operations_syntax

section \<open>The searcher\<close>

definition asciiLower :: "char \<Rightarrow> char" where
  "asciiLower c = (let b = of_char c :: nat in if 65 \<le> b \<and> b \<le> 90 then char_of (b + 32) else c)"

record Searcher =
  sr_pattern :: string
  sr_skip :: "nat list"
  sr_patLen :: nat

function skip_loop :: "nat \<Rightarrow> nat \<Rightarrow> string \<Rightarrow> nat list \<Rightarrow> (unit, nat list) outcome" where
  "skip_loop i patLen lowerPattern skip =
     (if i + 1 < patLen then
        obind (or_panic (index_at lowerPattern i)) (\<lambda>c.
        skip_loop (i + 1) patLen lowerPattern (skip[of_char c := patLen - 1 - i]))
      else Ret skip)"
  by pat_completeness auto
termination by (relation "measure (\<lambda>(i, patLen, _, _). patLen - i)") auto

declare skip_loop.simps [simp del]

definition NewSearcher :: "(string \<Rightarrow> string) \<Rightarrow> string \<Rightarrow> (unit, Searcher) outcome" where
  "NewSearcher ToLower substr =
     (let patLen = length substr in
      if patLen < 1 then Ret \<lparr>sr_pattern = '''', sr_skip = replicate 256 0, sr_patLen = 0\<rparr>
      else
        let lowerPattern = ToLower substr in
        obind (skip_loop 0 patLen lowerPattern (replicate 256 patLen)) (\<lambda>skip.
        Ret \<lparr>sr_pattern = lowerPattern, sr_skip = skip, sr_patLen = patLen\<rparr>))"

text \<open>The comparison backwards: \<open>n\<close> characters of the pattern are left, the last one met in the text is at \<open>k\<close>.\<close>

fun match_back :: "string \<Rightarrow> string \<Rightarrow> nat \<Rightarrow> nat \<Rightarrow> (unit, bool) outcome" where
  "match_back pattern hay 0 k = Ret True"
| "match_back pattern hay (Suc j) 0 = Panic"
| "match_back pattern hay (Suc j) (Suc k) =
     obind (or_panic (index_at hay k)) (\<lambda>c.
     obind (or_panic (index_at pattern j)) (\<lambda>p.
     if asciiLower c \<noteq> p then Ret False else match_back pattern hay j k))"

partial_function (option) contains_loop :: "Searcher \<Rightarrow> string \<Rightarrow> nat \<Rightarrow> (unit, bool) outcome option" where
  "contains_loop s hay i =
     (if i < length hay then
        let lowerTextChar = asciiLower (hay ! i) in
        (case obind (or_panic (index_at (sr_pattern s) (sr_patLen s - 1)))
            (\<lambda>p. if lowerTextChar = p then match_back (sr_pattern s) hay (sr_patLen s - 1) i else Ret False) of
           Ret found \<Rightarrow>
             if found then Some (Ret True) else contains_loop s hay (i + sr_skip s ! of_char lowerTextChar)
         | Fail e \<Rightarrow> Some (Fail e)
         | Panic \<Rightarrow> Some Panic)
      else Some (Ret False))"

definition Searcher_Contains :: "Searcher \<Rightarrow> string \<Rightarrow> (unit, bool) outcome option" where
  "Searcher_Contains s hay =
     (if sr_patLen s < 1 then Some (Ret False)
      else if length hay < sr_patLen s then Some (Ret False)
      else contains_loop s hay (sr_patLen s - 1))"

section \<open>Signatures\<close>

type_synonym gram = "char \<times> char \<times> char"

definition fnv1a64 :: "64 word \<Rightarrow> bytes \<Rightarrow> 64 word" where
  "fnv1a64 seed b = fold (\<lambda>c h. (h XOR ucast c) * 1099511628211) b seed"

definition gram_bytes :: "gram \<Rightarrow> bytes" where
  "gram_bytes g = (case g of (a, b, c) \<Rightarrow> bytes_of [a, b, c])"

definition bloom_bit :: "gram \<Rightarrow> nat \<Rightarrow> nat" where
  "bloom_bit g k =
     (let h1 = fnv1a64 14695981039346656037 (gram_bytes g); h2 = fnv1a64 0x9e3779b97f4a7c15 (gram_bytes g) in
      unat ((h1 + word_of_nat k * h2) mod 1024))"

definition bloom_has :: "bytes \<Rightarrow> nat \<Rightarrow> bool" where
  "bloom_has bloom i \<longleftrightarrow> bloom ! (i div 8) AND push_bit (i mod 8) 1 \<noteq> 0"

definition bloom_add :: "bytes \<Rightarrow> nat \<Rightarrow> bytes" where
  "bloom_add bloom i = bloom[i div 8 := bloom ! (i div 8) OR push_bit (i mod 8) 1]"

fun set_bits :: "nat list \<Rightarrow> bytes \<Rightarrow> bool \<Rightarrow> bytes \<times> bool" where
  "set_bits [] bloom added = (bloom, added)"
| "set_bits (i # is) bloom added =
     (if \<not> bloom_has bloom i then set_bits is (bloom_add bloom i) True else set_bits is bloom added)"

definition bloomSetCount :: "bytes \<Rightarrow> gram \<Rightarrow> bytes \<times> bool" where
  "bloomSetCount bloom g = set_bits (map (bloom_bit g) [0..<4]) bloom False"

fun grams_loop :: "string \<Rightarrow> bytes \<Rightarrow> nat \<Rightarrow> bytes" where
  "grams_loop (a # b # c # lower) bloom setBits =
     (case bloomSetCount bloom (a, b, c) of
        (bloom, True) \<Rightarrow> if setBits + 1 \<ge> 1024 then bloom else grams_loop (b # c # lower) bloom (setBits + 1)
      | (bloom, False) \<Rightarrow> grams_loop (b # c # lower) bloom setBits)"
| "grams_loop _ bloom setBits = bloom"

definition contentBloom :: "string \<Rightarrow> bytes option" where
  "contentBloom content =
     (if length content < 3 then None else Some (grams_loop (map asciiLower content) (replicate 128 0) 0))"

fun search_grams_loop :: "string \<Rightarrow> gram set \<Rightarrow> nat \<Rightarrow> gram list" where
  "search_grams_loop (b0 # b1 # b2 # pattern) seen n =
     (if n < 16 then
        let g = (asciiLower b0, asciiLower b1, asciiLower b2) in
        if g \<in> seen then search_grams_loop (b1 # b2 # pattern) seen n
        else g # search_grams_loop (b1 # b2 # pattern) (insert g seen) (n + 1)
      else [])"
| "search_grams_loop _ seen n = []"

text \<open>\<^verbatim>\<open>nil\<close> for a short pattern; only the length of the result is looked at.\<close>

definition buildSearchGrams :: "string \<Rightarrow> gram list" where
  "buildSearchGrams pattern = (if length pattern < 3 then [] else search_grams_loop pattern {} 0)"

definition bloomMaybeContains :: "bytes \<Rightarrow> gram list \<Rightarrow> bool" where
  "bloomMaybeContains bloom grams =
     (if length bloom \<noteq> 128 then True
      else list_all (\<lambda>g. list_all (\<lambda>k. bloom_has bloom (bloom_bit g k)) [0..<4]) grams)"

section \<open>The search is exact\<close>

text \<open>An occurrence of the pattern that ends at a position of the text.\<close>

definition ends_at :: "string \<Rightarrow> string \<Rightarrow> nat \<Rightarrow> bool" where
  "ends_at pattern l i \<longleftrightarrow> length pattern \<le> i + 1 \<and> i < length l \<and>
     (\<forall>d < length pattern. l ! (i - d) = pattern ! (length pattern - 1 - d))"

lemma ends_at_factor: "pattern \<noteq> [] \<Longrightarrow> (\<exists>i. ends_at pattern l i) \<longleftrightarrow> (\<exists>a b. l = a @ pattern @ b)"
proof
  assume ne: "pattern \<noteq> []" and "\<exists>i. ends_at pattern l i"
  then obtain i where i: "length pattern \<le> i + 1" "i < length l"
    "\<And>d. d < length pattern \<Longrightarrow> l ! (i - d) = pattern ! (length pattern - 1 - d)" by (auto simp: ends_at_def)
  let ?s = "i + 1 - length pattern"
  have "take (length pattern) (drop ?s l) = pattern"
  proof (rule nth_equalityI)
    fix j assume "j < length (take (length pattern) (drop ?s l))"
    then have j: "j < length pattern" using i(1,2) by simp
    then show "take (length pattern) (drop ?s l) ! j = pattern ! j"
      using i(3) [of "length pattern - 1 - j"] i(1,2) by simp
  qed (use i(1,2) in simp)
  then have "l = take ?s l @ pattern @ drop (length pattern) (drop ?s l)" by (metis append_take_drop_id)
  then show "\<exists>a b. l = a @ pattern @ b" by blast
next
  assume ne: "pattern \<noteq> []" and "\<exists>a b. l = a @ pattern @ b"
  then obtain a b where l: "l = a @ pattern @ b" by blast
  obtain c cs where "pattern = c # cs" using ne by (cases pattern) auto
  then have "ends_at pattern l (length a + length cs)"
    by (auto simp: ends_at_def l nth_append nth_Cons')
  then show "\<exists>i. ends_at pattern l i" by blast
qed

text \<open>The skip table after the characters before \<open>i\<close>.\<close>

definition skips :: "string \<Rightarrow> nat \<Rightarrow> nat list \<Rightarrow> bool" where
  "skips pattern i skip \<longleftrightarrow> length skip = 256 \<and> (\<forall>s \<in> set skip. 1 \<le> s) \<and>
     (\<forall>c. skip ! of_char c \<le> length pattern) \<and>
     (\<forall>j < i. skip ! of_char (pattern ! j) \<le> length pattern - 1 - j)"

lemma of_char_less: "(of_char c :: nat) < 256"
  by (cases c) (simp add: of_char_def)

lemma skip_loop_table:
  assumes "skips pattern i skip" "pattern \<noteq> []"
  shows "\<exists>skip'. skip_loop i (length pattern) pattern skip = Ret skip' \<and> skips pattern (max i (length pattern - 1)) skip'"
  using assms(1)
proof (induction "length pattern - i" arbitrary: i skip rule: less_induct)
  case less
  show ?case
  proof (cases "i + 1 < length pattern")
    case False
    then have "max i (length pattern - 1) = i" by simp
    then show ?thesis using less.prems False by (subst skip_loop.simps) simp
  next
    case True
    let ?skip = "skip[of_char (pattern ! i) := length pattern - 1 - i]"
    have b: "(of_char c :: nat) < length skip" for c using less.prems of_char_less by (simp add: skips_def)
    have "skips pattern (i + 1) ?skip"
      using less.prems True b unfolding skips_def
      by (auto simp: nth_list_update less_Suc_eq dest!: set_update_subset_insert [THEN subsetD])
    moreover have "max (i + 1) (length pattern - 1) = length pattern - 1" "max i (length pattern - 1) = length pattern - 1"
      using True by auto
    ultimately show ?thesis using less.hyps [of "i + 1" ?skip] True
      by (subst skip_loop.simps) (simp add: index_at_def)
  qed
qed

lemma match_back_exact:
  "n \<le> length pattern \<Longrightarrow> n \<le> k \<Longrightarrow> k \<le> length hay \<Longrightarrow>
     match_back pattern hay n k = Ret (\<forall>d < n. asciiLower (hay ! (k - 1 - d)) = pattern ! (n - 1 - d))"
proof (induction pattern hay n k rule: match_back.induct)
  case (3 pattern hay j k)
  have both: "(\<forall>d < Suc j. asciiLower (hay ! (k - d)) = pattern ! (j - d)) \<longleftrightarrow>
      asciiLower (hay ! k) = pattern ! j \<and> (\<forall>d < j. asciiLower (hay ! (k - 1 - d)) = pattern ! (j - 1 - d))"
    by (simp add: All_less_Suc2)
  show ?case using 3 by (simp add: index_at_def both del: All_less_Suc2 cong: if_cong)
qed simp_all

lemma contains_loop_exact:
  fixes hay :: string
  assumes s: "skips pattern (length pattern - 1) skip" and ne: "pattern \<noteq> []"
    and i: "length pattern \<le> i + 1" and before: "\<forall>i' < i. \<not> ends_at pattern (map asciiLower hay) i'"
  shows "contains_loop \<lparr>sr_pattern = pattern, sr_skip = skip, sr_patLen = length pattern\<rparr> hay i =
    Some (Ret (\<exists>i. ends_at pattern (map asciiLower hay) i))"
  using i before
proof (induction "length hay - i" arbitrary: i rule: less_induct)
  case less
  let ?s = "\<lparr>sr_pattern = pattern, sr_skip = skip, sr_patLen = length pattern\<rparr>"
  let ?l = "map asciiLower hay"
  have pos: "0 < length pattern" using ne by simp
  show ?case
  proof (cases "i < length hay")
    case False
    then have "\<not> ends_at pattern ?l i'" for i' using less.prems(2) by (cases "i' < i") (auto simp: ends_at_def)
    then show ?thesis using False by (subst contains_loop.simps) simp
  next
    case True
    have last: "ends_at pattern ?l i \<longleftrightarrow>
        asciiLower (hay ! i) = pattern ! (length pattern - 1) \<and>
        (\<forall>d < length pattern - 1. asciiLower (hay ! (i - 1 - d)) = pattern ! (length pattern - 1 - 1 - d))"
    proof -
      have "(\<forall>d < length pattern. ?l ! (i - d) = pattern ! (length pattern - 1 - d)) \<longleftrightarrow>
          (\<forall>d < Suc (length pattern - 1). asciiLower (hay ! (i - d)) = pattern ! (length pattern - 1 - d))"
        using True pos by (auto simp: less_imp_diff_less)
      then show ?thesis using less.prems(1) True by (simp add: ends_at_def All_less_Suc2)
    qed
    have test: "obind (or_panic (index_at pattern (length pattern - 1)))
        (\<lambda>p. if asciiLower (hay ! i) = p then match_back pattern hay (length pattern - 1) i else Ret False) =
        (Ret (ends_at pattern ?l i) :: (unit, bool) outcome)"
      using match_back_exact [of "length pattern - 1" pattern i hay] less.prems(1) True pos last
      by (simp add: index_at_def)
    have unf: "contains_loop ?s hay i =
        (case (Ret (ends_at pattern ?l i) :: (unit, bool) outcome) of
           Ret found \<Rightarrow> if found then Some (Ret True) else contains_loop ?s hay (i + skip ! of_char (asciiLower (hay ! i)))
         | Fail e \<Rightarrow> Some (Fail e)
         | Panic \<Rightarrow> Some Panic)"
      unfolding test [symmetric] by (subst contains_loop.simps) (simp only: Let_def Searcher.select_convs True if_True)
    show ?thesis
    proof (cases "ends_at pattern ?l i")
      case True
      then show ?thesis unfolding unf by auto
    next
      case notend: False
      let ?step = "skip ! of_char (asciiLower (hay ! i))"
      have "skip ! of_char (asciiLower (hay ! i)) \<in> set skip"
        using s of_char_less by (intro nth_mem) (simp add: skips_def)
      then have step: "1 \<le> ?step" using s by (auto simp: skips_def)
      have "\<not> ends_at pattern ?l i'" if "i' < i + ?step" for i'
      proof
        assume e: "ends_at pattern ?l i'"
        then have "i < i'" using less.prems(2) notend by (metis linorder_neqE_nat)
        define d where "d = i' - i"
        have "?step \<le> length pattern" using s by (simp add: skips_def)
        then have "d < length pattern" "0 < d" using that \<open>i < i'\<close> d_def by linarith+
        then have "?l ! (i' - d) = pattern ! (length pattern - 1 - d)" using e by (auto simp: ends_at_def)
        then have c: "asciiLower (hay ! i) = pattern ! (length pattern - 1 - d)" using d_def \<open>i < i'\<close> True by simp
        have "skip ! of_char (pattern ! (length pattern - 1 - d)) \<le> length pattern - 1 - (length pattern - 1 - d)"
        proof -
          have "length pattern - 1 - d < length pattern - 1" using \<open>0 < d\<close> \<open>d < length pattern\<close> by linarith
          then show ?thesis using s unfolding skips_def by blast
        qed
        then show False using c that d_def \<open>i < i'\<close> \<open>d < length pattern\<close> by simp
      qed
      moreover have "length hay - (i + ?step) < length hay - i" using True step by linarith
      ultimately have "contains_loop ?s hay (i + ?step) = Some (Ret (\<exists>i. ends_at pattern ?l i))"
        using less.hyps [of "i + ?step"] less.prems(1) by simp
      then show ?thesis unfolding unf using notend by simp
    qed
  qed
qed

lemma searcher_finds:
  assumes "length (ToLower substr) = length substr" "substr \<noteq> ''''"
  shows "\<exists>s. NewSearcher ToLower substr = Ret s \<and>
    (\<forall>hay. Searcher_Contains s hay = Some (Ret (\<exists>a b. map asciiLower hay = a @ ToLower substr @ b)))"
proof -
  let ?p = "ToLower substr"
  have ne: "?p \<noteq> []" using assms by auto
  have "skips ?p 0 (replicate 256 (length ?p))" using ne of_char_less by (auto simp: skips_def Suc_le_eq)
  from skip_loop_table [OF this ne] obtain skip
    where skip: "skip_loop 0 (length ?p) ?p (replicate 256 (length ?p)) = Ret skip" "skips ?p (length ?p - 1) skip" by auto
  let ?s = "\<lparr>sr_pattern = ?p, sr_skip = skip, sr_patLen = length ?p\<rparr>"
  have "NewSearcher ToLower substr = Ret ?s" using assms skip(1) by (simp add: NewSearcher_def Let_def Suc_le_eq)
  moreover have "Searcher_Contains ?s hay = Some (Ret (\<exists>a b. map asciiLower hay = a @ ?p @ b))" for hay
  proof (cases "length hay < length ?p")
    case True
    then have "\<nexists>a b. map asciiLower hay = a @ ?p @ b" by (auto dest: arg_cong [where f = length])
    then show ?thesis using True ne by (simp add: Searcher_Contains_def)
  next
    case False
    have "\<not> ends_at ?p (map asciiLower hay) i" if "i < length ?p - 1" for i using that by (auto simp: ends_at_def)
    then show ?thesis using False ne contains_loop_exact [OF skip(2) ne, of "length ?p - 1" hay] ends_at_factor [OF ne]
      by (simp add: Searcher_Contains_def)
  qed
  ultimately show ?thesis by blast
qed

text \<open>C6: The substring search is exact: a searcher for a text whose lower case has the same length finds its pattern in a text
  just when the lower-case pattern occurs in the text with its ASCII letters in lower case.  It always ends and never reads
  outside its arrays.\<close>
theorem searcher_exact:
  assumes "length (ToLower substr) = length substr" "substr \<noteq> ''''"
  shows "\<exists>s. NewSearcher ToLower substr = Ret s \<and>
    (\<forall>hay. Searcher_Contains s hay = Some (Ret (\<exists>a b. map asciiLower hay = a @ ToLower substr @ b)))"
  using assms by (rule searcher_finds)

theorem searcher_exact_witness:
  "\<exists>s. NewSearcher (map asciiLower) ''Cat'' = Ret s \<and>
    (\<forall>hay. Searcher_Contains s hay = Some (Ret (\<exists>a b. map asciiLower hay = a @ map asciiLower ''Cat'' @ b)))"
  by (rule searcher_exact) simp_all

text \<open>C8: A search text that gets shorter in lower case breaks the searcher: building it panics when two bytes or more are
  lost, and when one is lost every look into a text that is long enough panics.\<close>
theorem shrinking_pattern_panics:
  assumes "length (ToLower substr) < length substr"
  shows "if length (ToLower substr) + 1 < length substr then NewSearcher ToLower substr = Panic
    else \<exists>s. NewSearcher ToLower substr = Ret s \<and>
      (\<forall>hay. length substr \<le> length hay \<longrightarrow> Searcher_Contains s hay = Some Panic)"
proof -
  let ?p = "ToLower substr"
  have loop: "length ?p + 1 < length substr \<Longrightarrow> i \<le> length ?p \<Longrightarrow> skip_loop i (length substr) ?p skip = Panic" for i skip
  proof (induction "length ?p - i" arbitrary: i skip rule: less_induct)
    case less
    show ?case
    proof (cases "i < length ?p")
      case True
      then show ?thesis using less.hyps [of "i + 1"] less.prems by (subst skip_loop.simps) (simp add: index_at_def)
    next
      case False
      then show ?thesis using less.prems by (subst skip_loop.simps) (simp add: index_at_def)
    qed
  qed
  have short: "length ?p + 1 = length substr \<Longrightarrow> \<exists>skip'. skip_loop i (length substr) ?p skip = Ret skip'" for i skip
  proof (induction "length ?p - i" arbitrary: i skip rule: less_induct)
    case less
    show ?case
    proof (cases "i < length ?p")
      case True
      then show ?thesis using less.hyps [of "i + 1"] less.prems by (subst skip_loop.simps) (simp add: index_at_def)
    qed (use less.prems in \<open>subst skip_loop.simps, simp\<close>)
  qed
  show ?thesis
  proof (cases "length ?p + 1 < length substr")
    case True
    then have "substr \<noteq> []" by auto
    then show ?thesis using True loop [OF True, of 0] by (simp add: NewSearcher_def Let_def)
  next
    case False
    then have one: "length ?p + 1 = length substr" using assms by simp
    obtain skip where skip: "skip_loop 0 (length substr) ?p (replicate 256 (length substr)) = Ret skip" using short [OF one] by blast
    let ?s = "\<lparr>sr_pattern = ?p, sr_skip = skip, sr_patLen = length substr\<rparr>"
    have sne: "substr \<noteq> []" using one by auto
    then have "NewSearcher ToLower substr = Ret ?s" using skip by (simp add: NewSearcher_def Let_def)
    moreover have "Searcher_Contains ?s hay = Some Panic" if "length substr \<le> length hay" for hay
    proof -
      have "index_at ?p (length substr - 1) = None" "length substr - 1 < length hay" using one that by (auto simp: index_at_def)
      then have "contains_loop ?s hay (length substr - 1) = Some Panic" by (subst contains_loop.simps) (simp add: Let_def)
      then show ?thesis using sne that by (simp add: Searcher_Contains_def)
    qed
    ultimately show ?thesis using False by auto
  qed
qed

text \<open>The Kelvin sign, three bytes, has the letter k as its lower case.\<close>

definition kelvin :: string where
  "kelvin = map char_of [226, 132, 170 :: nat]"

theorem shrinking_pattern_panics_witness: "NewSearcher (\<lambda>s. if s = kelvin then ''k'' else s) kelvin = Panic"
  using shrinking_pattern_panics [of "\<lambda>s. if s = kelvin then ''k'' else s" kelvin] by (simp add: kelvin_def)

section \<open>Signatures miss nothing\<close>

definition bits_of :: "bytes \<Rightarrow> nat set" where
  "bits_of bloom = {i. i < 1024 \<and> bloom_has bloom i}"

lemma bloom_bit_less: "bloom_bit g k < 1024"
proof -
  have "unat (w mod 1024) < 1024" for w :: "64 word" by (simp add: unat_mod_distrib)
  then show ?thesis by (simp add: bloom_bit_def Let_def)
qed

lemma bloom_has_bit: "i < 1024 \<Longrightarrow> length bloom = 128 \<Longrightarrow> bloom_has bloom i \<longleftrightarrow> bit (bloom ! (i div 8)) (i mod 8)"
  by (simp add: bloom_has_def push_bit_of_1 and_exp_eq_0_iff_not_bit)

lemma bloom_add_bits: "i < 1024 \<Longrightarrow> length bloom = 128 \<Longrightarrow> bits_of (bloom_add bloom i) = insert i (bits_of bloom)"
proof -
  assume i: "i < 1024" and len: "length bloom = 128"
  have "bloom_has (bloom_add bloom i) j \<longleftrightarrow> j = i \<or> bloom_has bloom j" if j: "j < 1024" for j
  proof (cases "j div 8 = i div 8")
    case True
    have "bit (push_bit (i mod 8) (1 :: byte)) (j mod 8) \<longleftrightarrow> j mod 8 = i mod 8" by (auto simp: bit_simps)
    moreover have "j mod 8 = i mod 8 \<longleftrightarrow> j = i" using True by (metis div_mult_mod_eq)
    ultimately show ?thesis using i j len True by (auto simp: bloom_has_bit bloom_add_def bit_or_iff)
  next
    case False
    then have "j \<noteq> i" by auto
    then show ?thesis using i j len False by (simp add: bloom_has_bit bloom_add_def)
  qed
  then show ?thesis using i by (auto simp: bits_of_def)
qed

lemma set_bits_result:
  assumes "length bloom = 128" "\<forall>i \<in> set is. i < 1024"
  shows "length (fst (set_bits is bloom added)) = 128 \<and> bits_of (fst (set_bits is bloom added)) = bits_of bloom \<union> set is \<and>
    (snd (set_bits is bloom added) \<longleftrightarrow> added \<or> \<not> set is \<subseteq> bits_of bloom)"
  using assms
proof (induction "is" arbitrary: bloom added)
  case (Cons i "is")
  have len: "length (bloom_add bloom i) = 128" using Cons.prems by (simp add: bloom_add_def)
  show ?case
  proof (cases "bloom_has bloom i")
    case True
    then have "i \<in> bits_of bloom" using Cons.prems by (simp add: bits_of_def)
    then show ?thesis using True Cons.IH [of bloom added] Cons.prems by auto
  next
    case False
    then have "i \<notin> bits_of bloom" by (simp add: bits_of_def)
    then show ?thesis using False Cons.IH [OF len, of True] Cons.prems bloom_add_bits [of i bloom] by auto
  qed
qed simp

definition gram_bits :: "gram \<Rightarrow> nat set" where
  "gram_bits g = set (map (bloom_bit g) [0..<4])"

lemma bloomSetCount_result:
  assumes "length bloom = 128" "bloomSetCount bloom g = (bloom', added)"
  shows "length bloom' = 128 \<and> bits_of bloom' = bits_of bloom \<union> gram_bits g \<and> (added \<longleftrightarrow> \<not> gram_bits g \<subseteq> bits_of bloom)"
  using set_bits_result [OF assms(1), of "map (bloom_bit g) [0..<4]" False] assms(2) bloom_bit_less
  by (auto simp: bloomSetCount_def gram_bits_def simp del: upt_Suc)

fun grams :: "string \<Rightarrow> gram set" where
  "grams (a # b # c # s) = insert (a, b, c) (grams (b # c # s))"
| "grams _ = {}"

lemma grams_factor: "grams p \<subseteq> grams (a @ p @ b)"
proof (induction a)
  case Nil
  have "grams p \<subseteq> grams (p @ b)" by (induction p rule: grams.induct) auto
  then show ?case by simp
next
  case (Cons x a)
  then show ?case by (cases "a @ p @ b" rule: grams.cases) auto
qed

lemma card_bits: "card (bits_of bloom) \<le> 1024"
  using card_mono [of "{..<1024}" "bits_of bloom"] by (auto simp: bits_of_def)

lemma full_bits: "1024 \<le> card (bits_of bloom) \<Longrightarrow> bits_of bloom = {..<1024}"
  using card_subset_eq [of "{..<1024}" "bits_of bloom"] card_bits [of bloom] by (auto simp: bits_of_def)

text \<open>Each count stands for a bit that was new, so the loop is left early only when all bits are set.\<close>

lemma grams_loop_covers:
  assumes "length bloom = 128" "n \<le> card (bits_of bloom)"
  shows "length (grams_loop s bloom n) = 128 \<and> bits_of bloom \<subseteq> bits_of (grams_loop s bloom n) \<and>
    (\<forall>g \<in> grams s. gram_bits g \<subseteq> bits_of (grams_loop s bloom n))"
  using assms
proof (induction s bloom n rule: grams_loop.induct)
  case (1 a b c lower bloom n)
  obtain bloom' added where set: "bloomSetCount bloom (a, b, c) = (bloom', added)" by (metis surj_pair)
  note res = bloomSetCount_result [OF "1.prems"(1) set]
  have fin: "finite (bits_of bloom')" by (simp add: bits_of_def)
  show ?case
  proof (cases added)
    case True
    have "bits_of bloom \<subset> bits_of bloom'" using res True by auto
    from psubset_card_mono [OF fin this] have card: "n + 1 \<le> card (bits_of bloom')" using "1.prems"(2) by linarith
    show ?thesis
    proof (cases "1024 \<le> n + 1")
      case full: True
      have "gram_bits g \<subseteq> bits_of bloom'" for g
      proof -
        have "gram_bits g \<subseteq> {..<1024}" unfolding gram_bits_def using bloom_bit_less [of g] by auto
        then show ?thesis using full_bits [of bloom'] card full by simp
      qed
      moreover have "grams_loop (a # b # c # lower) bloom n = bloom'" using full True set by simp
      ultimately show ?thesis using res by auto
    next
      case False
      have loop: "grams_loop (a # b # c # lower) bloom n = grams_loop (b # c # lower) bloom' (n + 1)"
        using set True False by simp
      have "length (grams_loop (b # c # lower) bloom' (n + 1)) = 128 \<and>
          bits_of bloom' \<subseteq> bits_of (grams_loop (b # c # lower) bloom' (n + 1)) \<and>
          (\<forall>g \<in> grams (b # c # lower). gram_bits g \<subseteq> bits_of (grams_loop (b # c # lower) bloom' (n + 1)))"
        by (rule "1.IH"(1)) (use set True False res card in auto)
      then show ?thesis unfolding loop using res by auto
    qed
  next
    case False
    then have "bits_of bloom' = bits_of bloom" using res by auto
    then have "n \<le> card (bits_of bloom')" using "1.prems"(2) by simp
    have loop: "grams_loop (a # b # c # lower) bloom n = grams_loop (b # c # lower) bloom' n" using set False by simp
    have "length (grams_loop (b # c # lower) bloom' n) = 128 \<and>
        bits_of bloom' \<subseteq> bits_of (grams_loop (b # c # lower) bloom' n) \<and>
        (\<forall>g \<in> grams (b # c # lower). gram_bits g \<subseteq> bits_of (grams_loop (b # c # lower) bloom' n))"
      by (rule "1.IH"(2)) (use set False res \<open>n \<le> card (bits_of bloom')\<close> in auto)
    then show ?thesis unfolding loop using res by auto
  qed
qed auto

lemma search_grams_subset: "set (search_grams_loop p seen n) \<subseteq> grams (map asciiLower p)"
  by (induction p seen n rule: search_grams_loop.induct) (auto simp: Let_def)

lemma bloom_complete:
  assumes "map asciiLower content = a @ map asciiLower pattern @ b" "contentBloom content = Some bloom"
  shows "bloomMaybeContains bloom (buildSearchGrams pattern)"
proof -
  let ?l = "map asciiLower content"
  have "bloom = grams_loop ?l (replicate 128 0) 0" using assms(2) by (auto simp: contentBloom_def split: if_splits)
  then have bits: "gram_bits g \<subseteq> bits_of bloom" if "g \<in> grams ?l" for g
    using grams_loop_covers [of "replicate 128 0" 0 ?l] that by simp
  have "set (buildSearchGrams pattern) \<subseteq> grams ?l"
    using search_grams_subset [of pattern "{}" 0] grams_factor [of "map asciiLower pattern" a b] assms(1)
    by (auto simp: buildSearchGrams_def)
  then have "bloom_has bloom (bloom_bit g k)" if "g \<in> set (buildSearchGrams pattern)" "k < 4" for g k
  proof -
    have "bloom_bit g k \<in> gram_bits g" using that(2) by (simp add: gram_bits_def del: upt_Suc)
    then show ?thesis using bits [of g] that(1) \<open>set (buildSearchGrams pattern) \<subseteq> grams ?l\<close> by (auto simp: bits_of_def)
  qed
  then show ?thesis by (auto simp: bloomMaybeContains_def list_all_iff simp del: upt_Suc)
qed

text \<open>C7: A signature has no false negatives: when the search text occurs in the content, both with their ASCII letters in lower
  case, the content's signature passes the test of the text's trigrams, also when the content is so long that the loop
  over its trigrams stops early.\<close>
theorem bloom_misses_nothing:
  assumes "map asciiLower content = a @ map asciiLower pattern @ b" "contentBloom content = Some bloom"
  shows "bloomMaybeContains bloom (buildSearchGrams pattern)"
  using assms by (rule bloom_complete)

theorem bloom_misses_nothing_witness:
  "\<exists>bloom. contentBloom ''A Cat!'' = Some bloom \<and> bloomMaybeContains bloom (buildSearchGrams ''cAt'')"
proof -
  have "map asciiLower ''A Cat!'' = ''a '' @ map asciiLower ''cAt'' @ ''!''" by code_simp
  moreover obtain bloom where "contentBloom ''A Cat!'' = Some bloom" by (simp add: contentBloom_def)
  ultimately show ?thesis using bloom_misses_nothing by blast
qed

text \<open>
  The trigrams of the search text are lowered as ASCII only, its pattern as Unicode: with a capital letter outside ASCII in the
  search text, the signature of a content that the searcher accepts fails the test.
\<close>

definition e_acute_a :: string where "e_acute_a = map char_of [195, 169, 97 :: nat]"
definition E_acute_a :: string where "E_acute_a = map char_of [195, 137, 97 :: nat]"

lemma capital_bits:
  "contentBloom e_acute_a = Some bloom \<Longrightarrow> \<not> bloomMaybeContains bloom (buildSearchGrams E_acute_a)"
proof -
  assume "contentBloom e_acute_a = Some bloom"
  moreover have "(case contentBloom e_acute_a of None \<Rightarrow> False | Some b \<Rightarrow> \<not> bloomMaybeContains b (buildSearchGrams E_acute_a))"
    by code_simp
  ultimately show ?thesis by simp
qed

text \<open>The signatures do miss matches when the search text has capital letters outside ASCII: the searcher for a capital E with
  acute and an a finds the small letters in a content whose signature says that it cannot match.\<close>
theorem capital_letters_missed:
  assumes "ToLower E_acute_a = e_acute_a"
  shows "\<exists>s bloom. NewSearcher ToLower E_acute_a = Ret s \<and> Searcher_Contains s e_acute_a = Some (Ret True) \<and>
    contentBloom e_acute_a = Some bloom \<and> \<not> bloomMaybeContains bloom (buildSearchGrams E_acute_a)"
proof -
  have lower: "map asciiLower e_acute_a = e_acute_a" by code_simp
  have "length (ToLower E_acute_a) = length E_acute_a" "E_acute_a \<noteq> ''''"
    unfolding assms by (simp_all add: e_acute_a_def E_acute_a_def)
  from searcher_finds [of ToLower E_acute_a, OF this] obtain s where s: "NewSearcher ToLower E_acute_a = Ret s"
    "\<And>hay. Searcher_Contains s hay = Some (Ret (\<exists>a b. map asciiLower hay = a @ ToLower E_acute_a @ b))" by blast
  have "\<exists>a b. map asciiLower e_acute_a = a @ ToLower E_acute_a @ b"
    unfolding assms lower by (rule exI [of _ "[]"], rule exI [of _ "[]"]) simp
  moreover obtain bloom where "contentBloom e_acute_a = Some bloom" by (simp add: contentBloom_def e_acute_a_def)
  ultimately show ?thesis using s capital_bits by auto
qed

theorem capital_letters_missed_witness:
  "\<exists>s. NewSearcher (\<lambda>s. e_acute_a) E_acute_a = Ret s \<and> Searcher_Contains s e_acute_a = Some (Ret True)"
  using capital_letters_missed [of "\<lambda>s. e_acute_a"] by auto

end
