(* ===== verification/PebbleState.thy ===== *)
theory PebbleState
  imports PebbleKeys Bloom
begin

text \<open>
  What a pebble database holds for a set of events: the entries of each event and the rollup counters, and what a scan over
  an index then reads.  \<open>holds\<close> is the invariant of the store.
\<close>

section \<open>Entries\<close>

definition event_entries :: "(string \<Rightarrow> bool) \<Rightarrow> event \<Rightarrow> (bytes \<times> bytes) list" where
  "event_entries ix e =
     [(locatorKey (evID e), encTS (event_ts e)), (bodyKey (event_ts e) (evID e), layout e)] @
     map (\<lambda>k. (k, [])) (indexKeysFor ix e) @
     (case contentBloom (evContent e) of None \<Rightarrow> [] | Some b \<Rightarrow> [(bloomKey (event_ts e) (evID e), b)])"

definition plain_key :: "bytes \<Rightarrow> bool" where
  "plain_key k \<longleftrightarrow> k \<noteq> [] \<and> hd k \<noteq> pfxHLL \<and> hd k \<noteq> pfxCounter"

definition counter_key :: "bytes \<Rightarrow> bool" where
  "counter_key k \<longleftrightarrow> k \<noteq> [] \<and> hd k = pfxCounter"

definition counter_keys :: "event \<Rightarrow> bytes list" where
  "counter_keys e =
     (let kind = unat (evKind e); day = dayOf (evCreatedAt e); hour = hourOf (evCreatedAt e) in
      [counterKey (kindDayCounterPrefix kind) day, counterKey dayCounterPrefix day,
       counterKey (kindHourCounterPrefix kind) hour, counterKey hourCounterPrefix hour, pkKindCounterKey (evPubKey e) kind])"

definition bucket :: "event set \<Rightarrow> bytes \<Rightarrow> nat" where
  "bucket S k = card {e \<in> S. k \<in> set (counter_keys e)}"

text \<open>Events the store can take and read back.\<close>

definition good_event :: "event \<Rightarrow> bool" where
  "good_event e \<longleftrightarrow> wf_event e \<and> 0 \<le> evCreatedAt e \<and> fits e"

definition entries_ok :: "(string \<Rightarrow> bool) \<Rightarrow> event set \<Rightarrow> (bytes \<rightharpoonup> bytes) \<Rightarrow> bool" where
  "entries_ok ix S m \<longleftrightarrow> (\<forall>k v. plain_key k \<longrightarrow> (m k = Some v \<longleftrightarrow> (\<exists>e \<in> S. (k, v) \<in> set (event_entries ix e))))"

definition counters_ok :: "event set \<Rightarrow> (bytes \<rightharpoonup> bytes) \<Rightarrow> bool" where
  "counters_ok S m \<longleftrightarrow>
     (\<forall>k. counter_key k \<longrightarrow> (case m k of None \<Rightarrow> bucket S k = 0 | Some v \<Rightarrow> v = enc64 (int (bucket S k))))"

definition holds :: "(string \<Rightarrow> bool) \<Rightarrow> event set \<Rightarrow> (bytes \<rightharpoonup> bytes) \<Rightarrow> bool" where
  "holds ix S m \<longleftrightarrow> finite S \<and> (\<forall>e \<in> S. good_event e) \<and> inj_on evID S \<and> entries_ok ix S m \<and> counters_ok S m"

lemma good_wf: "good_event e \<Longrightarrow> wf_event e" "good_event e \<Longrightarrow> length (evID e) = 32" "good_event e \<Longrightarrow> wf_entry e"
  by (auto simp: good_event_def wf_event_def wf32_def wf_entry_def)

text \<open>The place of an event in all scans: its time, then its id.\<close>

definition place :: "event \<Rightarrow> nat \<times> bytes" where
  "place e = (event_ts e, evID e)"

definition later :: "nat \<times> bytes \<Rightarrow> nat \<times> bytes \<Rightarrow> bool" where
  "later a b \<longleftrightarrow> fst b < fst a \<or> fst b = fst a \<and> snd b < snd a"

lemma later_trans: "later a b \<Longrightarrow> later b c \<Longrightarrow> later a c"
  by (auto simp: later_def)

lemma later_irrefl [simp]: "\<not> later a a"
  by (simp add: later_def)

lemma later_total: "later a b \<or> a = b \<or> later b a"
  by (auto simp: later_def prod_eq_iff)

text \<open>The tail of a key.\<close>

definition key_ts :: "bytes \<Rightarrow> nat" where
  "key_ts k = getBE (take 8 (drop (length k - 40) k))"

definition key_id :: "bytes \<Rightarrow> bytes" where
  "key_id k = drop (length k - 32) k"

lemma key_tail: "length i = 32 \<Longrightarrow> ts < 2 ^ 64 \<Longrightarrow> key_ts (p @ putBE 8 ts @ i) = ts \<and> key_id (p @ putBE 8 ts @ i) = i"
  by (simp add: key_ts_def key_id_def getBE_putBE)

lemma tail_less:
  assumes "ts < 2 ^ 64" "ts' < 2 ^ 64"
  shows "p @ putBE 8 ts @ i < p @ putBE 8 ts' @ i' \<longleftrightarrow> later (ts', i') (ts, i)"
  using assms putBE_less [of ts 8 ts'] putBE_inj [of ts 8 ts']
  by (auto simp: append_less_same append_less_append later_def)

lemma index_key_hd: "wf_event e \<Longrightarrow> k \<in> set (indexKeysFor ix e) \<Longrightarrow>
    k \<noteq> [] \<and> hd k \<in> {pfxPubkey, pfxPubkeyKnd, pfxKind, pfxTime, pfxTag}"
  by (auto simp: indexKeysFor_def index_prefixes_def appendTail_def pubkeyPrefix_def pubkeyKindPrefix_def kindPrefix_def
      timePrefix_def tag_prefixes_form tagPrefix_def)

lemma entry_plain: "wf_event e \<Longrightarrow> (k, v) \<in> set (event_entries ix e) \<Longrightarrow> plain_key k"
  by (auto simp: event_entries_def plain_key_def locatorKey_def bodyKey_def bloomKey_def pfx_defs
      dest: index_key_hd split: option.splits)

lemma entry_id: "wf_event e \<Longrightarrow> (k, v) \<in> set (event_entries ix e) \<Longrightarrow> key_id k = evID e"
  by (auto simp: event_entries_def locatorKey_def bodyKey_def bloomKey_def indexKeysFor_def appendTail_def key_id_def
      wf_event_def wf32_def split: option.splits)

lemma entry_cases: "wf_event e \<Longrightarrow> (k, v) \<in> set (event_entries ix e) \<longleftrightarrow>
    k = locatorKey (evID e) \<and> v = encTS (event_ts e) \<or> k = bodyKey (event_ts e) (evID e) \<and> v = layout e \<or>
    k \<in> set (indexKeysFor ix e) \<and> v = [] \<or> contentBloom (evContent e) = Some v \<and> k = bloomKey (event_ts e) (evID e)"
  by (auto simp: event_entries_def split: option.splits)

lemma entry_fun: "wf_event e \<Longrightarrow> (k, v) \<in> set (event_entries ix e) \<Longrightarrow> (k, v') \<in> set (event_entries ix e) \<Longrightarrow> v = v'"
  by (auto simp: entry_cases locatorKey_def bodyKey_def bloomKey_def pfx_defs dest: index_key_hd)

section \<open>Reading\<close>

lemma entry_index:
  assumes "wf_event e" "index_prefix p"
  shows "(p @ r, v) \<in> set (event_entries ix e) \<longleftrightarrow> v = [] \<and> p \<in> set (index_prefixes ix e) \<and> r = putBE 8 (event_ts e) @ evID e"
proof -
  obtain c p' where "p = c # p'" "c \<in> {pfxPubkey, pfxPubkeyKnd, pfxKind, pfxTime, pfxTag}"
    using assms(2) by (auto simp: index_prefix_def pubkeyPrefix_def pubkeyKindPrefix_def kindPrefix_def timePrefix_def tagPrefix_def)
  then have "(p @ r, v) \<in> set (event_entries ix e) \<longleftrightarrow> v = [] \<and> p @ r \<in> set (indexKeysFor ix e)"
    using assms(1) by (auto simp: entry_cases locatorKey_def bodyKey_def bloomKey_def pfx_defs Cons_eq_append_conv)
  moreover have "p @ r \<in> set (indexKeysFor ix e) \<longleftrightarrow> p \<in> set (index_prefixes ix e) \<and> r = putBE 8 (event_ts e) @ evID e"
    using index_prefix_free [OF assms(2) index_prefixes_form [OF assms(1)]]
    by (auto simp: indexKeysFor_def appendTail_def)
  ultimately show ?thesis by blast
qed

lemma entry_locator: "wf_event e \<Longrightarrow> (locatorKey i, v) \<in> set (event_entries ix e) \<longleftrightarrow> i = evID e \<and> v = encTS (event_ts e)"
  by (auto simp: entry_cases locatorKey_def bodyKey_def bloomKey_def pfx_defs dest: index_key_hd)

lemma entry_body: "wf_event e \<Longrightarrow> ts < 2 ^ 64 \<Longrightarrow>
    (bodyKey ts i, v) \<in> set (event_entries ix e) \<longleftrightarrow> ts = event_ts e \<and> i = evID e \<and> v = layout e"
  using event_ts_bound [of e] putBE_inj [of ts 8 "event_ts e"]
  by (auto simp: entry_cases locatorKey_def bodyKey_def bloomKey_def pfx_defs append_eq_append_conv dest: index_key_hd)

lemma entry_bloom: "wf_event e \<Longrightarrow>
    (pfxBloom # r, v) \<in> set (event_entries ix e) \<longleftrightarrow> contentBloom (evContent e) = Some v \<and> r = putBE 8 (event_ts e) @ evID e"
  by (auto simp: entry_cases locatorKey_def bodyKey_def bloomKey_def pfx_defs dest: index_key_hd)

lemma plain_prefix: "index_prefix p \<Longrightarrow> plain_key (p @ r)"
  by (auto simp: plain_key_def index_prefix_def pubkeyPrefix_def pubkeyKindPrefix_def kindPrefix_def timePrefix_def
      tagPrefix_def pfx_defs)

text \<open>The rows of a scan, newest first, as the scan sources see them.\<close>

definition scan_rows :: "(bytes \<times> bytes) list \<Rightarrow> (nat \<times> bytes) list" where
  "scan_rows es = map (\<lambda>(k, v). (key_ts k, key_id k)) (rev es)"

definition indexed :: "(string \<Rightarrow> bool) \<Rightarrow> event set \<Rightarrow> bytes \<Rightarrow> int \<Rightarrow> int \<Rightarrow> event set" where
  "indexed ix S p since until = {e \<in> S. p \<in> set (index_prefixes ix e) \<and> nat since \<le> event_ts e \<and> event_ts e \<le> nat until}"

text \<open>Entries with a common head followed by time and id, in the order of the keys.\<close>

lemma rows_sorted:
  assumes "sorted_wrt (\<lambda>a b. fst a < fst b) es"
    and "\<And>k v. (k, v) \<in> set es \<Longrightarrow> \<exists>e. k = p @ putBE 8 (event_ts e) @ evID e \<and> length (evID e) = 32"
  shows "sorted_wrt later (scan_rows es)"
proof -
  have "sorted_wrt (\<lambda>a b. later (key_ts (fst b), key_id (fst b)) (key_ts (fst a), key_id (fst a))) es"
  proof (rule sorted_wrt_mono_rel [OF _ assms(1)])
    fix a b assume "a \<in> set es" "b \<in> set es" and less: "fst a < fst b"
    then obtain e e' where a: "fst a = p @ putBE 8 (event_ts e) @ evID e" "length (evID e) = 32"
      and b: "fst b = p @ putBE 8 (event_ts e') @ evID e'" "length (evID e') = 32"
      using assms(2) by (metis prod.collapse)
    show "later (key_ts (fst b), key_id (fst b)) (key_ts (fst a), key_id (fst a))"
      using less tail_less [OF event_ts_bound event_ts_bound, where p = p]
        key_tail [OF a(2) event_ts_bound] key_tail [OF b(2) event_ts_bound] a(1) b(1) by simp
  qed
  then show ?thesis by (simp add: scan_rows_def sorted_wrt_map sorted_wrt_rev split_def)
qed

lemma index_scan:
  assumes h: "holds ix S m" and p: "index_prefix p" and range: "time_range since until"
    and bounds: "timeBounds p since until = (lower, upper)"
    and es: "set es = {(k, v). m k = Some v \<and> in_bounds lower upper k}" "sorted_wrt (\<lambda>a b. fst a < fst b) es"
  shows "sorted_wrt later (scan_rows es) \<and> set (scan_rows es) = place ` indexed ix S p since until"
proof -
  have wf: "wf_event e \<and> length (evID e) = 32" if "e \<in> S" for e using h that good_wf by (auto simp: holds_def)
  have mem: "(k, v) \<in> set es \<longleftrightarrow> (\<exists>e \<in> indexed ix S p since until. k = p @ putBE 8 (event_ts e) @ evID e \<and> v = [])" for k v
  proof
    assume "(k, v) \<in> set es"
    then have k: "m k = Some v" "in_bounds lower upper k" using es(1) by auto
    obtain r where r: "k = p @ r" using bounds_prefix [OF range bounds k(2)] by blast
    then obtain e where e: "e \<in> S" "(p @ r, v) \<in> set (event_entries ix e)"
      using h k(1) plain_prefix [OF p] by (auto simp: holds_def entries_ok_def)
    then have "v = []" "p \<in> set (index_prefixes ix e)" "r = putBE 8 (event_ts e) @ evID e"
      using entry_index [OF _ p] wf by auto
    moreover have "nat since \<le> event_ts e" "event_ts e \<le> nat until"
      using bounds_stamp [OF range event_ts_bound bounds] k(2) r \<open>r = _\<close> by auto
    ultimately show "\<exists>e \<in> indexed ix S p since until. k = p @ putBE 8 (event_ts e) @ evID e \<and> v = []"
      using e(1) r by (auto simp: indexed_def)
  next
    assume "\<exists>e \<in> indexed ix S p since until. k = p @ putBE 8 (event_ts e) @ evID e \<and> v = []"
    then obtain e where e: "e \<in> S" "p \<in> set (index_prefixes ix e)" "nat since \<le> event_ts e" "event_ts e \<le> nat until"
      "k = p @ putBE 8 (event_ts e) @ evID e" "v = []" by (auto simp: indexed_def)
    then have "(k, v) \<in> set (event_entries ix e)" using entry_index [OF _ p] wf by auto
    then have "m k = Some v" using h e(1,5) plain_prefix [OF p] by (auto simp: holds_def entries_ok_def)
    moreover have "in_bounds lower upper k" using bounds_stamp [OF range event_ts_bound bounds] e(3-5) by auto
    ultimately show "(k, v) \<in> set es" using es(1) by simp
  qed
  have ent: "\<exists>e. k = p @ putBE 8 (event_ts e) @ evID e \<and> length (evID e) = 32" if "(k, v) \<in> set es" for k v
    using that wf by (auto simp: mem indexed_def)
  have "set (scan_rows es) = (\<lambda>(k, v). (key_ts k, key_id k)) ` set es" by (simp add: scan_rows_def)
  also have "\<dots> = place ` indexed ix S p since until"
  proof (rule set_eqI, rule iffI)
    fix x assume "x \<in> (\<lambda>(k, v). (key_ts k, key_id k)) ` set es"
    then obtain k v where kv: "(k, v) \<in> set es" "x = (key_ts k, key_id k)" by auto
    then obtain e where e: "e \<in> indexed ix S p since until" "k = p @ putBE 8 (event_ts e) @ evID e" by (auto simp: mem)
    then have "x = place e" using kv(2) key_tail [OF _ event_ts_bound, of "evID e"] wf by (auto simp: place_def indexed_def)
    then show "x \<in> place ` indexed ix S p since until" using e(1) by blast
  next
    fix x assume "x \<in> place ` indexed ix S p since until"
    then obtain e where e: "e \<in> indexed ix S p since until" "x = place e" by auto
    let ?k = "p @ putBE 8 (event_ts e) @ evID e"
    have "(?k, []) \<in> set es" using e(1) by (auto simp: mem)
    moreover have "x = (key_ts ?k, key_id ?k)" using e key_tail [OF _ event_ts_bound, of "evID e"] wf by (auto simp: place_def indexed_def)
    ultimately show "x \<in> (\<lambda>(k, v). (key_ts k, key_id k)) ` set es" by force
  qed
  finally show ?thesis using rows_sorted [OF es(2) ent] by simp
qed

text \<open>Point reads.\<close>

lemma locator_read:
  assumes "holds ix S m"
  shows "m (locatorKey i) = Some v \<longleftrightarrow> (\<exists>e \<in> S. evID e = i \<and> v = encTS (event_ts e))"
proof -
  have "plain_key (locatorKey i)" by (simp add: plain_key_def locatorKey_def pfx_defs)
  moreover have "wf_event e" if "e \<in> S" for e using assms that good_wf by (auto simp: holds_def)
  ultimately show ?thesis using assms by (auto simp: holds_def entries_ok_def entry_locator)
qed

lemma body_read:
  assumes "holds ix S m" "ts < 2 ^ 64"
  shows "m (bodyKey ts i) = Some v \<longleftrightarrow> (\<exists>e \<in> S. place e = (ts, i) \<and> v = layout e)"
proof -
  have "plain_key (bodyKey ts i)" by (simp add: plain_key_def bodyKey_def pfx_defs)
  moreover have "wf_event e" if "e \<in> S" for e using assms that good_wf by (auto simp: holds_def)
  ultimately show ?thesis using assms by (auto simp: holds_def entries_ok_def entry_body place_def)
qed

lemma layout_read: "good_event e \<Longrightarrow> Unmarshal (layout e) = Ret e"
  using Unmarshal_layout [of e "[]"] by (simp add: good_event_def)

lemma counter_read:
  "holds ix S m \<Longrightarrow> counter_key k \<Longrightarrow> (case m k of None \<Rightarrow> 0 | Some v \<Rightarrow> dec64 v) = int64 (int (bucket S k))"
proof -
  assume "holds ix S m" "counter_key k"
  then have "case m k of None \<Rightarrow> bucket S k = 0 | Some v \<Rightarrow> v = enc64 (int (bucket S k))" by (simp add: holds_def counters_ok_def)
  moreover have "int64 0 = 0" by (simp add: int64_def)
  ultimately show ?thesis by (auto simp: dec64_enc64 split: option.splits)
qed

lemma places_inj: "holds ix S m \<Longrightarrow> inj_on place S"
  by (auto simp: holds_def inj_on_def place_def)


section \<open>Adding and removing an event\<close>

lemma entry_map: "wf_event e \<Longrightarrow> map_of (event_entries ix e) k = Some v \<longleftrightarrow> (k, v) \<in> set (event_entries ix e)"
proof
  assume wf: "wf_event e" and kv: "(k, v) \<in> set (event_entries ix e)"
  then obtain v' where v': "map_of (event_entries ix e) k = Some v'" by (cases "map_of (event_entries ix e) k") (force simp: map_of_eq_None_iff)+
  then have "(k, v') \<in> set (event_entries ix e)" by (rule map_of_SomeD)
  then show "map_of (event_entries ix e) k = Some v" using entry_fun [OF wf kv] v' by simp
qed (rule map_of_SomeD)

lemma counter_not_plain: "counter_key k \<Longrightarrow> \<not> plain_key k"
  by (simp add: counter_key_def plain_key_def)

lemma counter_keys_counter: "k \<in> set (counter_keys e) \<Longrightarrow> counter_key k"
  by (auto simp: counter_keys_def counter_key_def Let_def counterKey_def kindDayCounterPrefix_def dayCounterPrefix_def
      kindHourCounterPrefix_def hourCounterPrefix_def pkKindCounterKey_def)

lemma bucket_insert: "finite S \<Longrightarrow> e \<notin> S \<Longrightarrow> bucket (insert e S) k = bucket S k + (if k \<in> set (counter_keys e) then 1 else 0)"
proof -
  assume fin: "finite S" and e: "e \<notin> S"
  have "{x \<in> insert e S. k \<in> set (counter_keys x)} =
      (if k \<in> set (counter_keys e) then insert e {x \<in> S. k \<in> set (counter_keys x)} else {x \<in> S. k \<in> set (counter_keys x)})" by auto
  then show ?thesis using fin e by (auto simp: bucket_def)
qed

lemma entries_insert:
  assumes m: "entries_ok ix S m" and wf: "\<And>x. x \<in> insert e S \<Longrightarrow> wf_event x" and e: "evID e \<notin> evID ` S"
    and plain: "\<And>k. plain_key k \<Longrightarrow> m' k = (case map_of (event_entries ix e) k of Some v \<Rightarrow> Some v | None \<Rightarrow> m k)"
  shows "entries_ok ix (insert e S) m'"
  unfolding entries_ok_def
proof (intro allI impI)
  fix k v assume k: "plain_key k"
  show "m' k = Some v \<longleftrightarrow> (\<exists>x \<in> insert e S. (k, v) \<in> set (event_entries ix x))"
  proof (cases "map_of (event_entries ix e) k")
    case None
    then have "(k, v) \<notin> set (event_entries ix e)" by (simp add: entry_map [OF wf, symmetric])
    then show ?thesis using plain [OF k] None m k by (auto simp: entries_ok_def)
  next
    case (Some w)
    then have w: "(k, w) \<in> set (event_entries ix e)" by (rule map_of_SomeD)
    have others: "(k, v) \<notin> set (event_entries ix x)" if "x \<in> S" for x
    proof
      assume "(k, v) \<in> set (event_entries ix x)"
      then have "evID x = evID e" using entry_id [of x k v ix] entry_id [of e k w ix] w wf that by simp
      then show False using e that by (metis imageI)
    qed
    have "(k, v) \<in> set (event_entries ix e) \<longleftrightarrow> v = w" using w entry_fun [OF wf w, of v] by blast
    moreover have "m' k = Some w" using plain [OF k] Some by simp
    ultimately show ?thesis using others by (simp add: eq_commute [of w])
  qed
qed

lemma entries_remove:
  assumes m: "entries_ok ix S m" and wf: "\<And>x. x \<in> S \<Longrightarrow> wf_event x" and e: "e \<in> S" "inj_on evID S"
    and plain: "\<And>k. plain_key k \<Longrightarrow> m' k = (if k \<in> K then None else m k)"
    and K: "fst ` set (event_entries ix e) \<subseteq> K" "\<And>k. k \<in> K \<Longrightarrow> key_id k = evID e"
  shows "entries_ok ix (S - {e}) m'"
  unfolding entries_ok_def
proof (intro allI impI)
  fix k v assume k: "plain_key k"
  have others: "k \<notin> K" if "x \<in> S - {e}" "(k, v) \<in> set (event_entries ix x)" for x
  proof
    assume "k \<in> K"
    then have "evID x = evID e" using K(2) entry_id [OF wf that(2)] that(1) by simp
    then show False using e that(1) by (auto simp: inj_on_def)
  qed
  have own: "k \<in> K" if "(k, v) \<in> set (event_entries ix e)" using that K(1) by force
  show "m' k = Some v \<longleftrightarrow> (\<exists>x \<in> S - {e}. (k, v) \<in> set (event_entries ix x))"
    using plain [OF k] others own m k by (auto simp: entries_ok_def)
qed

text \<open>The contents after an event was added: its entries, and one more in its counters.\<close>

lemma holds_insert:
  assumes h: "holds ix S m" and e: "good_event e" "evID e \<notin> evID ` S"
    and plain: "\<And>k. plain_key k \<Longrightarrow> m' k = (case map_of (event_entries ix e) k of Some v \<Rightarrow> Some v | None \<Rightarrow> m k)"
    and counters: "\<And>k. counter_key k \<Longrightarrow>
      m' k = (if k \<in> set (counter_keys e) then Some (enc64 (int (bucket S k) + 1)) else m k)"
  shows "holds ix (insert e S) m'"
proof -
  have wf: "wf_event x" if "x \<in> insert e S" for x using h e(1) that good_wf(1) by (auto simp: holds_def)
  have new: "e \<notin> S" using e(2) by blast
  have "entries_ok ix (insert e S) m'" using h by (intro entries_insert [OF _ wf e(2) plain]) (simp_all add: holds_def)
  moreover have "counters_ok (insert e S) m'"
    unfolding counters_ok_def
  proof (intro allI impI)
    fix k :: bytes assume k: "counter_key k"
    have "case m k of None \<Rightarrow> bucket S k = 0 | Some v \<Rightarrow> v = enc64 (int (bucket S k))"
      using h k by (simp add: holds_def counters_ok_def)
    moreover have "bucket (insert e S) k = bucket S k + (if k \<in> set (counter_keys e) then 1 else 0)"
      using h new by (intro bucket_insert) (simp_all add: holds_def)
    ultimately show "case m' k of None \<Rightarrow> bucket (insert e S) k = 0 | Some v \<Rightarrow> v = enc64 (int (bucket (insert e S) k))"
      unfolding counters [OF k] by (cases "k \<in> set (counter_keys e)"; cases "m k") (simp_all add: add.commute)
  qed
  moreover have "inj_on evID (insert e S)" using h e(2) by (auto simp: holds_def inj_on_insert)
  ultimately show ?thesis using h e(1) by (auto simp: holds_def)
qed

lemma holds_empty: "holds ix {} Map.empty"
  by (simp add: holds_def entries_ok_def counters_ok_def bucket_def)

text \<open>A database with a single event.\<close>

definition single_db :: "(string \<Rightarrow> bool) \<Rightarrow> event \<Rightarrow> (bytes \<times> bytes) list" where
  "single_db ix e = event_entries ix e @ map (\<lambda>k. (k, enc64 1)) (counter_keys e)"

lemma holds_single: "good_event e \<Longrightarrow> holds ix {e} (map_of (single_db ix e))"
proof (rule holds_insert [OF holds_empty])
  fix k
  assume e: "good_event e"
  have none: "map_of (map (\<lambda>k. (k, enc64 1)) (counter_keys e)) k = (if k \<in> set (counter_keys e) then Some (enc64 1) else None)"
    by (auto simp: map_of_eq_None_iff map_of_map_restrict)
  show "map_of (single_db ix e) k = (case map_of (event_entries ix e) k of Some v \<Rightarrow> Some v | None \<Rightarrow> Map.empty k)" if "plain_key k"
    using that none counter_keys_counter counter_not_plain by (auto simp: single_db_def map_add_def split: option.split)
  show "map_of (single_db ix e) k = (if k \<in> set (counter_keys e) then Some (enc64 (int (bucket {} k) + 1)) else Map.empty k)" if "counter_key k"
  proof -
    have "map_of (event_entries ix e) k = None"
      using that counter_not_plain entry_plain good_wf(1) [OF e] by (fastforce simp: map_of_eq_None_iff)
    then show ?thesis using none by (auto simp: single_db_def map_add_def bucket_def)
  qed
qed simp_all

end
