(* ===== verification/PebbleQuery.thy ===== *)
theory PebbleQuery
  imports PebbleState
begin

text \<open>
  Queries of the pebble store, \<^verbatim>\<open>eventstore/pebbledb2/query.go\<close>: the plan of a filter, the scans it opens, their merge, newest
  first, and the cursor that loads the events in batches and gives them out up to the limit.  The worker goroutines that
  load a batch put each result at its own place, so a batch is a map over its rows; contexts are not cancelled.
\<close>

datatype pebble_error = DbErr string | DecodeErr bb_error | EncodeErr bb_error | ErrScanBudgetExceeded | ErrClosed | ErrInvalidTimestamp

text \<open>The store: the database calls, its options and \<^verbatim>\<open>strings.ToLower\<close>.\<close>

record 'd pstore =
  ps_db :: "'d pebble"
  ps_IndexedTags :: "(string \<Rightarrow> bool) option"
  ps_MaxLimit :: int
  ps_MaxScanKeys :: int
  ps_ToLower :: "string \<Rightarrow> string"

definition indexedTag :: "'d pstore \<Rightarrow> string \<Rightarrow> bool" where
  "indexedTag s name = (case ps_IndexedTags s of None \<Rightarrow> length name = 1 | Some tags \<Rightarrow> tags name)"

fun lift_db :: "(string, 'a) outcome \<Rightarrow> (pebble_error, 'a) outcome" where
  "lift_db (Ret a) = Ret a"
| "lift_db (Fail e) = Fail (DbErr e)"
| "lift_db Panic = Panic"

definition loadBody :: "'d pstore \<Rightarrow> 'd \<Rightarrow> nat \<Rightarrow> bytes \<Rightarrow> (pebble_error, event option) outcome" where
  "loadBody s d ts i =
     obind (lift_db (pb_Get (ps_db s) d (bodyKey ts i))) (\<lambda>raw.
     case raw of
       None \<Rightarrow> Ret None
     | Some raw \<Rightarrow> (case Unmarshal raw of Ret evt \<Rightarrow> Ret (Some evt) | Fail e \<Rightarrow> Fail (DecodeErr e) | Panic \<Rightarrow> Panic))"

section \<open>Plans\<close>

datatype planMode = modeIDs | modeAuthors | modeTags | modeKinds | modeTime

record filterRun =
  fr_f :: Filter
  fr_limit :: int
  fr_budget :: int
  fr_query :: bool
  fr_search :: "Searcher option"
  fr_searchGrams :: "gram list"

definition newFilterRun :: "'d pstore \<Rightarrow> Filter \<Rightarrow> bool \<Rightarrow> int \<Rightarrow> (pebble_error, filterRun) outcome" where
  "newFilterRun s f forQuery maxClamp =
     (let limit =
        (if forQuery then
           let maxClamp = (if maxClamp = 0 then ps_MaxLimit s else maxClamp) in
           if maxClamp > 0 \<and> (fLimit f \<le> 0 \<or> fLimit f > maxClamp) then maxClamp else fLimit f
         else 0);
        fr = \<lparr>fr_f = f, fr_limit = limit, fr_budget = ps_MaxScanKeys s, fr_query = forQuery, fr_search = None, fr_searchGrams = []\<rparr> in
      if fSearch f \<noteq> '''' then
        (case NewSearcher (ps_ToLower s) (fSearch f) of
           Ret sr \<Rightarrow> Ret (fr\<lparr>fr_search := Some sr, fr_searchGrams := buildSearchGrams (fSearch f)\<rparr>)
         | _ \<Rightarrow> Panic)
      else Ret fr)"

definition countTagPreds :: "Filter \<Rightarrow> nat" where
  "countTagPreds f = length (filter (\<lambda>(_, vals). length vals > 0) (fTags f))"

definition plan :: "Filter \<Rightarrow> planMode" where
  "plan f =
     (if length (opt_list (fIDs f)) > 0 then modeIDs
      else if length (opt_list (fAuthors f)) > 0 then modeAuthors
      else if countTagPreds f > 0 then modeTags
      else if length (opt_list (fKinds f)) > 0 then modeKinds
      else modeTime)"

definition sinceUntil :: "Filter \<Rightarrow> int \<times> int" where
  "sinceUntil f = (if fSince f > 0 then fSince f else 0, if fUntil f > 0 then fUntil f else 9223372036854775807)"

section \<open>Scans\<close>

definition newScanSource :: "'d pstore \<Rightarrow> 'd \<Rightarrow> bytes \<Rightarrow> int \<Rightarrow> int \<Rightarrow> (pebble_error, (nat \<times> bytes) list) outcome" where
  "newScanSource s d prefix since until =
     (let (lower, upper) = timeBounds prefix since until in
      obind (lift_db (pb_Iter (ps_db s) d lower upper)) (\<lambda>es. Ret (scan_rows es)))"

text \<open>The tag name with the fewest values, the first in the order of names among equals.\<close>

definition tag_names :: "Filter \<Rightarrow> string list" where
  "tag_names f = sort_key bytes_of (map fst (filter (\<lambda>(_, vals). length vals > 0) (fTags f)))"

definition driving_tag :: "Filter \<Rightarrow> string" where
  "driving_tag f =
     foldl (\<lambda>driving n. if length (tagmap_get (fTags f) n) < length (tagmap_get (fTags f) driving) then n else driving)
       (hd (tag_names f)) (tl (tag_names f))"

text \<open>The prefixes to scan, and whether what they yield has to be checked against the filter.\<close>

definition source_prefixes :: "Filter \<Rightarrow> bytes list \<times> bool" where
  "source_prefixes f =
     (case plan f of
        modeAuthors \<Rightarrow>
          (concat (map (\<lambda>a.
             if length (opt_list (fKinds f)) > 0 then map (\<lambda>kind. pubkeyKindPrefix a (unat kind)) (opt_list (fKinds f))
             else [pubkeyPrefix a]) (opt_list (fAuthors f))),
           countTagPreds f > 0)
      | modeTags \<Rightarrow>
          (map (tagPrefix (driving_tag f)) (tagmap_get (fTags f) (driving_tag f)),
           length (opt_list (fKinds f)) > 0 \<or> length (opt_list (fAuthors f)) > 0 \<or> length (tag_names f) > 1)
      | modeKinds \<Rightarrow> (map (\<lambda>kind. kindPrefix (unat kind)) (opt_list (fKinds f)), False)
      | _ \<Rightarrow> ([timePrefix], False))"

fun open_sources :: "'d pstore \<Rightarrow> 'd \<Rightarrow> int \<Rightarrow> int \<Rightarrow> bytes list \<Rightarrow> (pebble_error, (nat \<times> bytes) list list) outcome" where
  "open_sources s d since until [] = Ret []"
| "open_sources s d since until (p # ps) =
     obind (newScanSource s d p since until) (\<lambda>src.
     obind (open_sources s d since until ps) (\<lambda>srcs. Ret (src # srcs)))"

definition buildSources :: "'d pstore \<Rightarrow> 'd \<Rightarrow> Filter \<Rightarrow> (pebble_error, (nat \<times> bytes) list list \<times> bool) outcome" where
  "buildSources s d f =
     (let (since, until) = sinceUntil f; (prefixes, postCheck) = source_prefixes f in
      obind (open_sources s d since until prefixes) (\<lambda>srcs. Ret (srcs, postCheck)))"

section \<open>The merge\<close>

text \<open>
  The heap of \<^verbatim>\<open>container/heap\<close> keeps a source with the latest (time, id) at the root; \<open>pop_root\<close> takes its row and moves the
  source on, or drops it when it is exhausted.  Sources with equal rows may be taken in any order.
\<close>

fun advance_source :: "(nat \<times> bytes) list \<Rightarrow> (nat \<times> bytes) list list \<Rightarrow> (nat \<times> bytes) list list" where
  "advance_source src srcs = (if length src \<le> 1 then srcs else tl src # srcs)"

fun pop_root :: "(nat \<times> bytes) list list \<Rightarrow> ((nat \<times> bytes) \<times> (nat \<times> bytes) list list) option" where
  "pop_root [] = None"
| "pop_root (src # srcs) =
     (case pop_root srcs of
        None \<Rightarrow> Some (hd src, advance_source src srcs)
      | Some (row, srcs') \<Rightarrow> if later row (hd src) then Some (row, src # srcs') else Some (hd src, advance_source src srcs))"

definition heap_size :: "(nat \<times> bytes) list list \<Rightarrow> nat" where
  "heap_size h = sum_list (map (\<lambda>src. length src + 1) h)"

lemma heap_size_simps [simp]: "heap_size [] = 0" "heap_size (src # h) = length src + 1 + heap_size h"
  by (simp_all add: heap_size_def)

lemma pop_root_size: "pop_root h = Some (row, h') \<Longrightarrow> heap_size h' < heap_size h"
  by (induction h arbitrary: row h') (auto split: option.splits prod.splits if_splits)

text \<open>Collecting rows for a batch; a row equal to the one before it is dropped.\<close>

type_synonym merge_state = "(nat \<times> bytes) list list \<times> (nat \<times> bytes) option \<times> int"

function collect :: "int \<Rightarrow> merge_state \<Rightarrow> (nat \<times> bytes) list \<Rightarrow> (pebble_error, (nat \<times> bytes) list \<times> merge_state) outcome" where
  "collect budget (h, last', scanned) rawCands =
     (case pop_root h of
        None \<Rightarrow> Ret (rawCands, h, last', scanned)
      | Some (row, h') \<Rightarrow>
          if \<not> length rawCands < 32 then Ret (rawCands, h, last', scanned)
          else if scanned \<ge> budget then Fail ErrScanBudgetExceeded
          else if last' = Some row then collect budget (h', last', scanned + 1) rawCands
          else collect budget (h', Some row, scanned + 1) (rawCands @ [row]))"
  by pat_completeness auto
termination by (relation "measure (\<lambda>(_, (h, _, _), _). heap_size h)") (auto dest: pop_root_size)

declare collect.simps [simp del]

section \<open>The cursor\<close>

record candidate =
  cd_ts :: nat
  cd_id :: bytes
  cd_ev :: "event option"

record cursor =
  cu_postCheck :: bool
  cu_isIDs :: bool
  cu_merge :: merge_state
  cu_ids :: "candidate list"
  cu_prefBuf :: "candidate list"
  cu_accepted :: int
  cu_cur :: "candidate option"
  cu_valid :: bool
  cu_err :: "pebble_error option"

text \<open>Whether the content passes the search; a searcher always answers or panics.\<close>

definition search_ok :: "filterRun \<Rightarrow> string \<Rightarrow> (pebble_error, bool) outcome" where
  "search_ok fr content =
     (case fr_search fr of
        None \<Rightarrow> Ret True
      | Some sr \<Rightarrow> (case Searcher_Contains sr content of Some (Ret b) \<Rightarrow> Ret b | _ \<Rightarrow> Panic))"

text \<open>The load of one row: the signature, the body and the checks.\<close>

definition signature_ok :: "'d pstore \<Rightarrow> 'd \<Rightarrow> filterRun \<Rightarrow> nat \<Rightarrow> bytes \<Rightarrow> bool" where
  "signature_ok s d fr ts i =
     (if fr_search fr \<noteq> None \<and> length (fr_searchGrams fr) > 0 then
        (case pb_Get (ps_db s) d (bloomKey ts i) of
           Ret (Some bloom) \<Rightarrow> length bloom \<noteq> 128 \<or> bloomMaybeContains bloom (fr_searchGrams fr)
         | _ \<Rightarrow> True)
      else True)"

definition load_row :: "'d pstore \<Rightarrow> 'd \<Rightarrow> filterRun \<Rightarrow> bool \<Rightarrow> nat \<times> bytes \<Rightarrow> (pebble_error, candidate option) outcome" where
  "load_row s d fr postCheck row =
     (case row of (ts, i) \<Rightarrow>
       if \<not> signature_ok s d fr ts i then Ret None
       else
         obind (loadBody s d ts i) (\<lambda>ev.
         case ev of
           None \<Rightarrow> Ret None
         | Some ev \<Rightarrow>
             if postCheck \<and> \<not> Matches (fr_f fr) ev then Ret None
             else
               obind (search_ok fr (evContent ev)) (\<lambda>ok.
               Ret (if ok then Some \<lparr>cd_ts = ts, cd_id = i, cd_ev = Some ev\<rparr> else None))))"

fun load_batch :: "'d pstore \<Rightarrow> 'd \<Rightarrow> filterRun \<Rightarrow> bool \<Rightarrow> (nat \<times> bytes) list \<Rightarrow> (pebble_error, candidate list) outcome" where
  "load_batch s d fr postCheck [] = Ret []"
| "load_batch s d fr postCheck (row # rows) =
     obind (load_row s d fr postCheck row) (\<lambda>c.
     obind (load_batch s d fr postCheck rows) (\<lambda>cs.
     Ret (case c of None \<Rightarrow> cs | Some c \<Rightarrow> c # cs)))"

lemma collect_size:
  "collect budget ms rawCands = Ret (rows, ms') \<Longrightarrow>
     length rawCands \<le> length rows \<and> length rows + heap_size (fst ms') \<le> length rawCands + heap_size (fst ms)"
proof (induction budget ms rawCands rule: collect.induct)
  case (1 budget h last' scanned rawCands)
  show ?case
  proof (cases "pop_root h")
    case None
    then show ?thesis using "1.prems" by (simp add: collect.simps)
  next
    case (Some x)
    obtain row h' where x: "x = (row, h')" by (cases x)
    have size: "heap_size h' < heap_size h" using Some x pop_root_size by simp
    show ?thesis using "1.prems" "1.IH" [OF Some x [symmetric]] size Some x
      by (subst (asm) collect.simps) (auto split: if_splits)
  qed
qed

text \<open>Batches until one has an accepted event.\<close>

function fill_buffer :: "'d pstore \<Rightarrow> 'd \<Rightarrow> filterRun \<Rightarrow> bool \<Rightarrow> merge_state
    \<Rightarrow> (pebble_error, candidate list \<times> merge_state) outcome" where
  "fill_buffer s d fr postCheck ms =
     (if fst ms = [] then Ret ([], ms)
      else
        case collect (fr_budget fr) ms [] of
          Ret (rawCands, ms') \<Rightarrow>
            if rawCands = [] then Ret ([], ms')
            else
              (case load_batch s d fr postCheck rawCands of
                 Ret [] \<Rightarrow> fill_buffer s d fr postCheck ms'
               | Ret (c # cs) \<Rightarrow> Ret (c # cs, ms')
               | Fail e \<Rightarrow> Fail e
               | Panic \<Rightarrow> Panic)
        | Fail e \<Rightarrow> Fail e
        | Panic \<Rightarrow> Panic)"
  by pat_completeness auto
termination
proof (relation "measure (\<lambda>(_, _, _, _, ms). heap_size (fst ms))")
  fix s :: "'a pstore" and d fr postCheck ms x rows ms'
  assume "collect (fr_budget fr) ms [] = Ret x" "(rows, ms') = x" "rows \<noteq> []"
  then show "((s, d, fr, postCheck, ms'), s, d, fr, postCheck, ms) \<in> measure (\<lambda>(_, _, _, _, ms). heap_size (fst ms))"
    using collect_size [of "fr_budget fr" ms "[]" rows ms'] by (cases rows) auto
qed simp

declare fill_buffer.simps [simp del]

text \<open>One row without its event, for counts.\<close>

function advanceOne :: "filterRun \<Rightarrow> cursor \<Rightarrow> cursor" where
  "advanceOne fr c =
     (case cu_merge c of (h, last', scanned) \<Rightarrow>
       (case pop_root h of
          None \<Rightarrow> c\<lparr>cu_valid := False\<rparr>
        | Some (row, h') \<Rightarrow>
            if fr_limit fr > 0 \<and> cu_accepted c \<ge> fr_limit fr then c\<lparr>cu_valid := False\<rparr>
            else if scanned \<ge> fr_budget fr then c\<lparr>cu_valid := False, cu_err := Some ErrScanBudgetExceeded\<rparr>
            else if last' = Some row then advanceOne fr (c\<lparr>cu_merge := (h', last', scanned + 1)\<rparr>)
            else c\<lparr>cu_merge := (h', Some row, scanned + 1), cu_accepted := cu_accepted c + 1,
                   cu_cur := Some \<lparr>cd_ts = fst row, cd_id = snd row, cd_ev = None\<rparr>, cu_valid := True\<rparr>))"
  by pat_completeness auto
termination by (relation "measure (\<lambda>(_, c). heap_size (fst (cu_merge c)))") (simp, auto dest!: pop_root_size, (metis fst_conv)+)

declare advanceOne.simps [simp del]

text \<open>The first event of the buffer is given out, unless the limit is met.\<close>

definition serve :: "filterRun \<Rightarrow> cursor \<Rightarrow> cursor" where
  "serve fr c =
     (if fr_limit fr > 0 \<and> cu_accepted c \<ge> fr_limit fr then c\<lparr>cu_prefBuf := [], cu_valid := False\<rparr>
      else c\<lparr>cu_prefBuf := tl (cu_prefBuf c), cu_accepted := cu_accepted c + 1, cu_cur := Some (hd (cu_prefBuf c)), cu_valid := True\<rparr>)"

definition cursor_advance :: "'d pstore \<Rightarrow> 'd \<Rightarrow> filterRun \<Rightarrow> cursor \<Rightarrow> (pebble_error, cursor) outcome" where
  "cursor_advance s d fr c =
     (if cu_isIDs c then
        (case cu_ids c of
           [] \<Rightarrow> Ret (c\<lparr>cu_valid := False\<rparr>)
         | cand # rest \<Rightarrow> Ret (c\<lparr>cu_ids := rest, cu_cur := Some cand, cu_valid := True\<rparr>))
      else if cu_prefBuf c \<noteq> [] then Ret (serve fr c)
      else if \<not> fr_query fr \<and> \<not> cu_postCheck c then Ret (advanceOne fr c)
      else
        case fill_buffer s d fr (cu_postCheck c) (cu_merge c) of
          Ret (buf, ms) \<Rightarrow>
            let c = c\<lparr>cu_merge := ms, cu_prefBuf := buf\<rparr> in
            Ret (if buf = [] then c\<lparr>cu_valid := False\<rparr> else serve fr c)
        | Fail e \<Rightarrow> Ret (c\<lparr>cu_valid := False, cu_err := Some e\<rparr>)
        | Panic \<Rightarrow> Panic)"

section \<open>Queries by id\<close>

fun uniq_loop :: "ID list \<Rightarrow> ID set \<Rightarrow> ID list" where
  "uniq_loop [] seen = []"
| "uniq_loop (i # ids) seen = (if i \<in> seen then uniq_loop ids seen else i # uniq_loop ids (insert i seen))"

text \<open>Lookups that fail count as missing.\<close>

definition lookup_id :: "'d pstore \<Rightarrow> 'd \<Rightarrow> ID \<Rightarrow> candidate option" where
  "lookup_id s d i =
     (case pb_Get (ps_db s) d (locatorKey i) of
        Ret (Some tsb) \<Rightarrow>
          (case loadBody s d (getBE (take 8 tsb)) i of
             Ret (Some ev) \<Rightarrow> Some \<lparr>cd_ts = getBE (take 8 tsb), cd_id = i, cd_ev = Some ev\<rparr>
           | _ \<Rightarrow> None)
      | _ \<Rightarrow> None)"

fun check_ids :: "filterRun \<Rightarrow> candidate list \<Rightarrow> (pebble_error, candidate list) outcome" where
  "check_ids fr [] = Ret []"
| "check_ids fr (c # cs) =
     obind
       (case cd_ev c of
          None \<Rightarrow> Panic
        | Some ev \<Rightarrow> if \<not> Matches (fr_f fr) ev then Ret False else search_ok fr (evContent ev))
       (\<lambda>ok.
     obind (check_ids fr cs) (\<lambda>out. Ret (if ok then c # out else out)))"

definition cand_cmp :: "candidate \<Rightarrow> candidate \<Rightarrow> int" where
  "cand_cmp a b =
     (if later (cd_ts a, cd_id a) (cd_ts b, cd_id b) then -1 else if later (cd_ts b, cd_id b) (cd_ts a, cd_id a) then 1 else 0)"

text \<open>\<^verbatim>\<open>if limit > 0 && len(out) > limit { out = out[:limit] }\<close>\<close>

definition cut :: "int \<Rightarrow> 'a list \<Rightarrow> 'a list" where
  "cut limit xs = (if limit > 0 \<and> int (length xs) > limit then take (nat limit) xs else xs)"

definition runIDs :: "'d pstore \<Rightarrow> 'd \<Rightarrow> filterRun \<Rightarrow> (pebble_error, candidate list) outcome" where
  "runIDs s d fr =
     (let ids = opt_list (fIDs (fr_f fr)) in
      if length ids = 0 then Ret []
      else
        obind (check_ids fr (List.map_filter (lookup_id s d) (uniq_loop ids {}))) (\<lambda>out.
        Ret (cut (fr_limit fr) (slices_SortFunc cand_cmp out))))"

section \<open>Queries\<close>

definition empty_cursor :: cursor where
  "empty_cursor = \<lparr>cu_postCheck = False, cu_isIDs = False, cu_merge = ([], None, 0), cu_ids = [], cu_prefBuf = [],
     cu_accepted = 0, cu_cur = None, cu_valid = False, cu_err = None\<rparr>"

definition openCursor :: "'d pstore \<Rightarrow> 'd \<Rightarrow> filterRun \<Rightarrow> (pebble_error, cursor) outcome" where
  "openCursor s d fr =
     (if plan (fr_f fr) = modeIDs then
        obind (runIDs s d fr) (\<lambda>ids. cursor_advance s d fr (empty_cursor\<lparr>cu_isIDs := True, cu_ids := ids\<rparr>))
      else
        obind (buildSources s d (fr_f fr)) (\<lambda>(srcs, postCheck).
        cursor_advance s d fr
          (empty_cursor\<lparr>cu_postCheck := postCheck \<or> fr_search fr \<noteq> None, cu_merge := (filter (\<lambda>src. src \<noteq> []) srcs, None, 0)\<rparr>)))"

text \<open>The loop of a reader: the events it meets and the error of \<^verbatim>\<open>finish\<close>.\<close>

partial_function (option) drain :: "'d pstore \<Rightarrow> 'd \<Rightarrow> filterRun \<Rightarrow> cursor \<Rightarrow> candidate list
    \<Rightarrow> (pebble_error, candidate list \<times> pebble_error option) outcome option" where
  "drain s d fr c out =
     (if \<not> cu_valid c then Some (Ret (out, cu_err c))
      else
        case cursor_advance s d fr c of
          Ret c' \<Rightarrow> drain s d fr c' (out @ [the (cu_cur c)])
        | Fail e \<Rightarrow> Some (Fail e)
        | Panic \<Rightarrow> Some Panic)"

definition run_cursor :: "'d pstore \<Rightarrow> 'd \<Rightarrow> filterRun \<Rightarrow> (pebble_error, candidate list \<times> pebble_error option) outcome option" where
  "run_cursor s d fr =
     (case openCursor s d fr of
        Ret c \<Rightarrow> drain s d fr c []
      | Fail e \<Rightarrow> Some (Fail e)
      | Panic \<Rightarrow> Some Panic)"

section \<open>What the merge yields\<close>

definition sources_ok :: "(nat \<times> bytes) list list \<Rightarrow> bool" where
  "sources_ok h \<longleftrightarrow> (\<forall>src \<in> set h. src \<noteq> [] \<and> sorted_wrt later src)"

lemma pop_root_None: "pop_root h = None \<longleftrightarrow> h = []"
  by (cases h) (auto split: option.splits prod.splits if_splits)

lemma pop_root_max:
  assumes "pop_root h = Some (row, h')" "sources_ok h"
  shows "sources_ok h' \<and> mset (concat h) = add_mset row (mset (concat h')) \<and> (\<forall>x \<in> set (concat h). \<not> later x row)"
  using assms
proof (induction h arbitrary: row h')
  case (Cons src h)
  obtain x xs where src: "src = x # xs" "sorted_wrt later (x # xs)" using Cons.prems(2) by (cases src) (auto simp: sources_ok_def)
  have h: "sources_ok h" using Cons.prems(2) by (simp add: sources_ok_def)
  have head: "\<forall>y \<in> set src. \<not> later y x" using src by (auto simp: later_def)
  have adv: "sources_ok (advance_source src h) \<and> mset (concat (src # h)) = add_mset x (mset (concat (advance_source src h)))"
    using h src by (cases xs) (auto simp: sources_ok_def)
  show ?case
  proof (cases "pop_root h")
    case None
    then have "h = []" by (simp add: pop_root_None)
    moreover have eq: "row = x" "h' = advance_source src h" using Cons.prems(1) None src(1) by auto
    ultimately show ?thesis unfolding eq using adv head by (simp del: advance_source.simps)
  next
    case (Some z)
    obtain r t where z: "z = (r, t)" by (cases z)
    note IH = Cons.IH [OF _ h, of r t]
    show ?thesis
    proof (cases "later r x")
      case True
      then have "row = r" "h' = src # t" using Cons.prems(1) Some z src(1) by auto
      moreover have "\<forall>y \<in> set src. \<not> later y r" using head True later_trans later_irrefl by blast
      ultimately show ?thesis using IH Some z Cons.prems(2) by (auto simp: sources_ok_def)
    next
      case False
      then have eq: "row = x" "h' = advance_source src h" using Cons.prems(1) Some z src(1) by auto
      have "\<forall>y \<in> set (concat h). \<not> later y x" using IH Some z False later_total [of r x] later_trans by (metis (full_types))
      then show ?thesis unfolding eq using adv head by (auto simp del: advance_source.simps)
    qed
  qed
qed simp

function merged :: "(nat \<times> bytes) list list \<Rightarrow> (nat \<times> bytes) list" where
  "merged h = (case pop_root h of None \<Rightarrow> [] | Some (row, h') \<Rightarrow> row # merged h')"
  by pat_completeness auto
termination by (relation "measure heap_size") (auto dest: pop_root_size)

declare merged.simps [simp del]

lemma merged_None: "pop_root h = None \<Longrightarrow> merged h = []"
  by (subst merged.simps) simp

lemma merged_Some: "pop_root h = Some (row, h') \<Longrightarrow> merged h = row # merged h'"
  by (subst merged.simps) simp

text \<open>The rows without those that repeat the row before them.\<close>

fun fresh :: "(nat \<times> bytes) option \<Rightarrow> (nat \<times> bytes) list \<Rightarrow> (nat \<times> bytes) list" where
  "fresh last' [] = []"
| "fresh last' (row # rows) = (if last' = Some row then fresh last' rows else row # fresh (Some row) rows)"

lemma merged_mset: "sources_ok h \<Longrightarrow> mset (merged h) = mset (concat h)"
proof (induction h rule: merged.induct)
  case (1 h)
  show ?case
  proof (cases "pop_root h")
    case None
    then show ?thesis by (simp add: merged_None pop_root_None)
  next
    case (Some x)
    then show ?thesis using "1.IH" [OF Some] pop_root_max [of h "fst x" "snd x"] "1.prems"
      by (cases x) (auto simp: merged_Some)
  qed
qed

lemma merged_sorted: "sources_ok h \<Longrightarrow> sorted_wrt (\<lambda>a b. \<not> later b a) (merged h)"
proof (induction h rule: merged.induct)
  case (1 h)
  show ?case
  proof (cases "pop_root h")
    case (Some x)
    obtain row h' where x: "x = (row, h')" by (cases x)
    have m: "sources_ok h'" "\<forall>y \<in> set (concat h). \<not> later y row" "mset (concat h) = add_mset row (mset (concat h'))"
      using pop_root_max [of h row h'] "1.prems" Some x by auto
    then have "set (concat h') \<subseteq> set (concat h)" by (metis set_mset_add_mset_insert set_mset_mset subset_insertI)
    moreover have "set (merged h') = set (concat h')" using merged_mset [OF m(1)] by (metis set_mset_mset)
    ultimately show ?thesis using "1.IH" [OF Some x [symmetric] m(1)] m(2) Some x by (auto simp: merged_Some)
  qed (simp add: merged_None)
qed

lemma fresh_sorted:
  assumes "sorted_wrt (\<lambda>a b. \<not> later b a) rows" "case last' of None \<Rightarrow> True | Some l \<Rightarrow> \<forall>x \<in> set rows. \<not> later x l"
  shows "sorted_wrt later (fresh last' rows) \<and> set (fresh last' rows) = set rows - set_option last' \<and>
    (\<forall>l. last' = Some l \<longrightarrow> (\<forall>x \<in> set (fresh last' rows). later l x))"
  using assms
proof (induction last' rows rule: fresh.induct)
  case (2 last' row rows)
  show ?case
  proof (cases "last' = Some row")
    case True
    then show ?thesis using "2.IH"(1) [OF True] "2.prems" by auto
  next
    case False
    have IH: "sorted_wrt later (fresh (Some row) rows) \<and> set (fresh (Some row) rows) = set rows - {row} \<and>
        (\<forall>x \<in> set (fresh (Some row) rows). later row x)"
      using "2.IH"(2) [OF False] "2.prems" by auto
    show ?thesis
    proof (cases last')
      case None
      then show ?thesis using IH "2.prems" by auto
    next
      case (Some l)
      have l: "later l row" using Some False "2.prems"(2) later_total [of l row] by auto
      then have "\<forall>x \<in> set (fresh (Some row) rows). later l x" using IH later_trans by blast
      moreover have "l \<notin> set rows" using l "2.prems"(1) by auto
      ultimately show ?thesis using IH l Some False by auto
    qed
  qed
qed simp

lemma fresh_merged:
  "sources_ok h \<Longrightarrow> sorted_wrt later (fresh None (merged h)) \<and> set (fresh None (merged h)) = set (concat h)"
  using fresh_sorted [OF merged_sorted, of h None] merged_mset [of h] by simp (metis set_mset_mset set_concat)

section \<open>What the cursor gives out\<close>

text \<open>The rows a merge state has still to yield, and whether the budget lasts for them.\<close>

definition rows_left :: "merge_state \<Rightarrow> (nat \<times> bytes) list" where
  "rows_left ms = (case ms of (h, last', _) \<Rightarrow> fresh last' (merged h))"

definition merge_ok :: "int \<Rightarrow> merge_state \<Rightarrow> bool" where
  "merge_ok budget ms \<longleftrightarrow> (case ms of (h, _, scanned) \<Rightarrow> sources_ok h \<and> scanned + int (length (merged h)) \<le> budget)"

lemma collect_rows:
  assumes "merge_ok budget ms" "length raw \<le> 32"
  shows "\<exists>ms'. collect budget ms raw = Ret (raw @ take (32 - length raw) (rows_left ms), ms') \<and> merge_ok budget ms' \<and>
    rows_left ms' = drop (32 - length raw) (rows_left ms)"
  using assms
proof (induction budget ms raw rule: collect.induct)
  case (1 budget h last' scanned raw)
  show ?case
  proof (cases "pop_root h")
    case None
    then show ?thesis using "1.prems" by (subst collect.simps) (simp add: rows_left_def merged_None merge_ok_def)
  next
    case (Some x)
    obtain row h' where x: "x = (row, h')" by (cases x)
    have m: "merged h = row # merged h'" using Some x by (simp add: merged_Some)
    have ok: "sources_ok h'" "sources_ok h" "\<not> scanned \<ge> budget" "scanned + 1 + int (length (merged h')) \<le> budget"
      using pop_root_max [of h row h'] "1.prems"(1) Some x m by (auto simp: merge_ok_def)
    show ?thesis
    proof (cases "length raw < 32")
      case False
      then have "collect budget (h, last', scanned) raw = Ret (raw, h, last', scanned)" using Some x by (simp add: collect.simps)
      then show ?thesis using False "1.prems" by auto
    next
      case True
      show ?thesis
      proof (cases "last' = Some row")
        case eq: True
        have "collect budget (h, last', scanned) raw = collect budget (h', last', scanned + 1) raw"
          using True Some x eq ok(3) by (subst collect.simps) simp
        moreover have "merge_ok budget (h', last', scanned + 1)" using ok by (simp add: merge_ok_def)
        ultimately show ?thesis using "1.IH"(1) [OF Some x [symmetric]] True ok(3) eq "1.prems"(2) m
          by (simp add: rows_left_def)
      next
        case neq: False
        have "collect budget (h, last', scanned) raw = collect budget (h', Some row, scanned + 1) (raw @ [row])"
          using True Some x neq ok(3) by (subst collect.simps) simp
        moreover have "merge_ok budget (h', Some row, scanned + 1)" using ok by (simp add: merge_ok_def)
        moreover have "32 - length raw = Suc (32 - length (raw @ [row]))" using True by simp
        ultimately show ?thesis using "1.IH"(2) [OF Some x [symmetric]] True ok(3) neq m
          by (simp add: rows_left_def)
      qed
    qed
  qed
qed

text \<open>The events of rows, once the loads succeed.\<close>

definition loads :: "'d pstore \<Rightarrow> 'd \<Rightarrow> filterRun \<Rightarrow> bool \<Rightarrow> (nat \<times> bytes \<Rightarrow> candidate option) \<Rightarrow> (nat \<times> bytes) set \<Rightarrow> bool" where
  "loads s d fr pc ld R \<longleftrightarrow> (\<forall>row \<in> R. load_row s d fr pc row = Ret (ld row))"

lemma load_batch_rows: "loads s d fr pc ld (set rows) \<Longrightarrow> load_batch s d fr pc rows = Ret (List.map_filter ld rows)"
  by (induction rows) (auto simp: loads_def List.map_filter_def split: option.splits)

lemma map_filter_take_drop: "List.map_filter f (take n xs) @ List.map_filter f (drop n xs) = List.map_filter f xs"
  by (metis append_take_drop_id filter_append map_append List.map_filter_def)

lemma fill_buffer_rows:
  assumes "merge_ok (fr_budget fr) ms" "loads s d fr pc ld (set (rows_left ms))"
  shows "\<exists>buf ms'. fill_buffer s d fr pc ms = Ret (buf, ms') \<and> merge_ok (fr_budget fr) ms' \<and>
    set (rows_left ms') \<subseteq> set (rows_left ms) \<and>
    buf @ List.map_filter ld (rows_left ms') = List.map_filter ld (rows_left ms) \<and>
    (buf = [] \<longrightarrow> List.map_filter ld (rows_left ms) = [])"
  using assms
proof (induction s d fr pc ms rule: fill_buffer.induct)
  case (1 s d fr pc ms)
  show ?case
  proof (cases "fst ms = []")
    case True
    then have "rows_left ms = []" by (cases ms) (simp add: rows_left_def merged_None)
    then show ?thesis using True "1.prems" by (subst fill_buffer.simps) (simp add: List.map_filter_def)
  next
    case False
    obtain ms' where c: "collect (fr_budget fr) ms [] = Ret (take 32 (rows_left ms), ms')" "merge_ok (fr_budget fr) ms'"
      "rows_left ms' = drop 32 (rows_left ms)"
      using collect_rows [OF "1.prems"(1), of "[]"] by auto
    have sub: "set (rows_left ms') \<subseteq> set (rows_left ms)" unfolding c(3) by (rule set_drop_subset)
    show ?thesis
    proof (cases "rows_left ms = []")
      case True
      then show ?thesis using False c by (subst fill_buffer.simps) (simp add: List.map_filter_def)
    next
      case ne: False
      have "loads s d fr pc ld (set (take 32 (rows_left ms)))"
        using "1.prems"(2) set_take_subset by (fastforce simp: loads_def)
      note lb = load_batch_rows [OF this]
      have split: "List.map_filter ld (take 32 (rows_left ms)) @ List.map_filter ld (rows_left ms') = List.map_filter ld (rows_left ms)"
        unfolding c(3) by (rule map_filter_take_drop)
      show ?thesis
      proof (cases "List.map_filter ld (take 32 (rows_left ms))")
        case Nil
        have eq: "fill_buffer s d fr pc ms = fill_buffer s d fr pc ms'"
          using False c(1) ne lb Nil by (subst fill_buffer.simps) simp
        have "loads s d fr pc ld (set (rows_left ms'))" using "1.prems"(2) sub by (auto simp: loads_def)
        then show ?thesis unfolding eq
          using "1.IH" [OF False c(1) refl _ lb Nil c(2)] ne sub split Nil by auto
      next
        case (Cons x xs)
        have "fill_buffer s d fr pc ms = Ret (x # xs, ms')"
          using False c(1) ne lb Cons by (subst fill_buffer.simps) simp
        then show ?thesis using c(2) sub split Cons by auto
      qed
    qed
  qed
qed

definition bare :: "nat \<times> bytes \<Rightarrow> candidate option" where
  "bare row = Some \<lparr>cd_ts = fst row, cd_id = snd row, cd_ev = None\<rparr>"

lemma map_filter_bare: "List.map_filter bare rows = map (\<lambda>row. the (bare row)) rows"
  by (induction rows) (auto simp: List.map_filter_def bare_def)

definition cursor_ok :: "'d pstore \<Rightarrow> 'd \<Rightarrow> filterRun \<Rightarrow> (nat \<times> bytes \<Rightarrow> candidate option) \<Rightarrow> cursor \<Rightarrow> bool" where
  "cursor_ok s d fr ld c \<longleftrightarrow> \<not> cu_isIDs c \<and> cu_err c = None \<and> merge_ok (fr_budget fr) (cu_merge c) \<and>
     (if fr_query fr \<or> cu_postCheck c then loads s d fr (cu_postCheck c) ld (set (rows_left (cu_merge c)))
      else cu_prefBuf c = [] \<and> ld = bare)"

definition todo :: "(nat \<times> bytes \<Rightarrow> candidate option) \<Rightarrow> cursor \<Rightarrow> candidate list" where
  "todo ld c = cu_prefBuf c @ List.map_filter ld (rows_left (cu_merge c))"

definition full :: "filterRun \<Rightarrow> cursor \<Rightarrow> bool" where
  "full fr c \<longleftrightarrow> 0 < fr_limit fr \<and> fr_limit fr \<le> cu_accepted c"

definition moved :: "filterRun \<Rightarrow> (nat \<times> bytes \<Rightarrow> candidate option) \<Rightarrow> cursor \<Rightarrow> cursor \<Rightarrow> bool" where
  "moved fr ld c c' \<longleftrightarrow>
     (if todo ld c = [] \<or> full fr c then \<not> cu_valid c'
      else cu_valid c' \<and> cu_cur c' = Some (hd (todo ld c)) \<and> todo ld c' = tl (todo ld c) \<and> cu_accepted c' = cu_accepted c + 1)"

lemma advanceOne_moves:
  assumes "cursor_ok s d fr bare c" "\<not> fr_query fr" "\<not> cu_postCheck c"
  shows "cursor_ok s d fr bare (advanceOne fr c) \<and> moved fr bare c (advanceOne fr c)"
  using assms
proof (induction fr c rule: advanceOne.induct)
  case (1 fr c)
  obtain h last' scanned where ms: "cu_merge c = (h, last', scanned)" by (cases "cu_merge c")
  have buf: "cu_prefBuf c = []" using "1.prems" by (simp add: cursor_ok_def)
  show ?case
  proof (cases "pop_root h")
    case None
    then have "advanceOne fr c = c\<lparr>cu_valid := False\<rparr>" using ms by (subst advanceOne.simps) simp
    moreover have "todo bare c = []" using None ms buf by (simp add: todo_def rows_left_def merged_None List.map_filter_def)
    ultimately show ?thesis using "1.prems" by (simp add: moved_def cursor_ok_def)
  next
    case (Some x)
    obtain row h' where x: "x = (row, h')" by (cases x)
    have m: "merged h = row # merged h'" using Some x by (simp add: merged_Some)
    have ok: "sources_ok h'" "\<not> scanned \<ge> fr_budget fr" "scanned + 1 + int (length (merged h')) \<le> fr_budget fr"
      using pop_root_max [of h row h'] "1.prems"(1) Some x m ms by (auto simp: cursor_ok_def merge_ok_def)
    show ?thesis
    proof (cases "full fr c")
      case True
      then have "advanceOne fr c = c\<lparr>cu_valid := False\<rparr>" using ms Some x by (subst advanceOne.simps) (simp add: full_def)
      then show ?thesis using "1.prems" True by (simp add: moved_def cursor_ok_def)
    next
      case False
      show ?thesis
      proof (cases "last' = Some row")
        case eq: True
        let ?c = "c\<lparr>cu_merge := (h', last', scanned + 1)\<rparr>"
        have step: "advanceOne fr c = advanceOne fr ?c"
          using ms Some x ok(2) False eq by (subst advanceOne.simps) (auto simp: full_def)
        have "cursor_ok s d fr bare ?c" using "1.prems" ok by (simp add: cursor_ok_def merge_ok_def)
        moreover have "todo bare ?c = todo bare c" using ms m eq by (simp add: todo_def rows_left_def)
        ultimately have "cursor_ok s d fr bare (advanceOne fr ?c) \<and> moved fr bare ?c (advanceOne fr ?c)"
          using "1.IH" [OF ms [symmetric] refl Some x [symmetric] _ ok(2) eq] "1.prems"(2,3) False by (auto simp: full_def)
        then show ?thesis unfolding step using \<open>todo bare ?c = todo bare c\<close> by (simp add: moved_def full_def)
      next
        case neq: False
        let ?c = "c\<lparr>cu_merge := (h', Some row, scanned + 1), cu_accepted := cu_accepted c + 1, cu_cur := bare row, cu_valid := True\<rparr>"
        have step: "advanceOne fr c = ?c"
          using ms Some x ok(2) False neq by (subst advanceOne.simps) (auto simp: full_def bare_def)
        have "todo bare c = the (bare row) # todo bare ?c"
          using ms m neq buf by (simp add: todo_def rows_left_def List.map_filter_simps bare_def)
        moreover have "cursor_ok s d fr bare ?c" using "1.prems" ok by (simp add: cursor_ok_def merge_ok_def)
        moreover have "bare row = Some (the (bare row))" by (simp add: bare_def)
        ultimately show ?thesis unfolding step using False by (simp add: moved_def)
      qed
    qed
  qed
qed

lemma serve_moves:
  assumes "cursor_ok s d fr ld c" "cu_prefBuf c \<noteq> []" "fr_query fr \<or> cu_postCheck c"
  shows "cursor_ok s d fr ld (serve fr c) \<and> moved fr ld c (serve fr c)"
proof (cases "full fr c")
  case True
  then show ?thesis using assms by (auto simp: serve_def full_def moved_def cursor_ok_def)
next
  case False
  then have serve: "serve fr c = c\<lparr>cu_prefBuf := tl (cu_prefBuf c), cu_accepted := cu_accepted c + 1,
      cu_cur := Some (hd (cu_prefBuf c)), cu_valid := True\<rparr>" by (auto simp: serve_def full_def)
  show ?thesis using assms False unfolding serve by (simp add: moved_def cursor_ok_def todo_def)
qed

lemma cursor_moves:
  assumes c: "cursor_ok s d fr ld c"
  shows "\<exists>c'. cursor_advance s d fr c = Ret c' \<and> cursor_ok s d fr ld c' \<and> moved fr ld c c'"
proof (cases "cu_prefBuf c = []")
  case False
  then have "cursor_advance s d fr c = Ret (serve fr c)" using c by (simp add: cursor_advance_def cursor_ok_def)
  moreover have "fr_query fr \<or> cu_postCheck c" using c False by (auto simp: cursor_ok_def split: if_splits)
  ultimately show ?thesis using serve_moves [OF c False] by blast
next
  case buf: True
  show ?thesis
  proof (cases "fr_query fr \<or> cu_postCheck c")
    case False
    then have "ld = bare" using c by (auto simp: cursor_ok_def split: if_splits)
    moreover have "cursor_advance s d fr c = Ret (advanceOne fr c)"
      using c False buf by (simp add: cursor_advance_def cursor_ok_def)
    ultimately show ?thesis using advanceOne_moves [of s d fr c] c False by auto
  next
    case True
    have ms: "merge_ok (fr_budget fr) (cu_merge c)" "loads s d fr (cu_postCheck c) ld (set (rows_left (cu_merge c)))"
      using c True by (auto simp: cursor_ok_def)
    obtain buf ms' where f: "fill_buffer s d fr (cu_postCheck c) (cu_merge c) = Ret (buf, ms')" "merge_ok (fr_budget fr) ms'"
      "set (rows_left ms') \<subseteq> set (rows_left (cu_merge c))"
      "buf @ List.map_filter ld (rows_left ms') = List.map_filter ld (rows_left (cu_merge c))"
      "buf = [] \<longrightarrow> List.map_filter ld (rows_left (cu_merge c)) = []"
      using fill_buffer_rows [OF ms] by blast
    let ?c = "c\<lparr>cu_merge := ms', cu_prefBuf := buf\<rparr>"
    have ok: "cursor_ok s d fr ld ?c" using c True ms f by (auto simp: cursor_ok_def loads_def)
    have same: "todo ld ?c = todo ld c" "full fr ?c = full fr c" "cu_accepted ?c = cu_accepted c"
      using f(4) buf by (simp_all add: todo_def full_def)
    have adv: "cursor_advance s d fr c = Ret (if buf = [] then ?c\<lparr>cu_valid := False\<rparr> else serve fr ?c)"
      using c True buf f(1) by (auto simp: cursor_advance_def cursor_ok_def Let_def)
    show ?thesis
    proof (cases "buf = []")
      case True
      then have "todo ld c = []" using f(5) buf by (simp add: todo_def)
      then show ?thesis using adv ok True by (auto simp: moved_def cursor_ok_def)
    next
      case False
      then have "cursor_ok s d fr ld (serve fr ?c) \<and> moved fr ld ?c (serve fr ?c)"
        using serve_moves [OF ok] True by simp
      then have "moved fr ld c (serve fr ?c)" unfolding moved_def same by simp
      then show ?thesis using adv False \<open>cursor_ok s d fr ld (serve fr ?c) \<and> _\<close> by auto
    qed
  qed
qed

text \<open>Draining gives out everything, up to the limit.\<close>

definition upto :: "int \<Rightarrow> int \<Rightarrow> 'a list \<Rightarrow> 'a list" where
  "upto limit given xs = (if 0 < limit then take (nat (limit - given)) xs else xs)"

lemma drain_all:
  assumes "cursor_ok s d fr ld c" "cu_valid c" "cu_cur c = Some x"
  shows "drain s d fr c out = Some (Ret (out @ x # upto (fr_limit fr) (cu_accepted c) (todo ld c), None))"
  using assms
proof (induction "todo ld c" arbitrary: c x out)
  case Nil
  obtain c' where c': "cursor_advance s d fr c = Ret c'" "cursor_ok s d fr ld c'" "moved fr ld c c'"
    using cursor_moves [OF Nil.prems(1)] by blast
  then have "\<not> cu_valid c'" "cu_err c' = None" using Nil.hyps by (simp_all add: moved_def cursor_ok_def)
  then have "drain s d fr c' (out @ [x]) = Some (Ret (out @ [x], None))" by (subst drain.simps) simp
  then show ?case using Nil c'(1) by (subst drain.simps) (simp add: upto_def)
next
  case (Cons y ys)
  obtain c' where c': "cursor_advance s d fr c = Ret c'" "cursor_ok s d fr ld c'" "moved fr ld c c'"
    using cursor_moves [OF Cons.prems(1)] by blast
  have first: "drain s d fr c out = drain s d fr c' (out @ [x])" using Cons.prems c'(1) by (subst drain.simps) simp
  show ?case
  proof (cases "full fr c")
    case True
    then have "\<not> cu_valid c'" "cu_err c' = None" using c'(2,3) by (simp_all add: moved_def cursor_ok_def)
    then have "drain s d fr c' (out @ [x]) = Some (Ret (out @ [x], None))" by (subst drain.simps) simp
    then show ?thesis using first True by (simp add: upto_def full_def)
  next
    case False
    then have m: "cu_valid c'" "cu_cur c' = Some y" "todo ld c' = ys" "cu_accepted c' = cu_accepted c + 1"
      using c'(3) Cons.hyps(2) [symmetric] by (simp_all add: moved_def)
    have "nat (fr_limit fr - cu_accepted c) = Suc (nat (fr_limit fr - (cu_accepted c + 1)))" if "0 < fr_limit fr"
      using False that by (simp add: full_def)
    then have "upto (fr_limit fr) (cu_accepted c) (y # ys) = y # upto (fr_limit fr) (cu_accepted c + 1) ys"
      by (simp add: upto_def)
    then show ?thesis using Cons.hyps(1) [of c' y "out @ [x]"] m c'(2) first Cons.hyps(2) [symmetric] by simp
  qed
qed

lemma cursor_run:
  assumes "cursor_ok s d fr ld c0" "cu_accepted c0 = 0" "openCursor s d fr = cursor_advance s d fr c0"
  shows "run_cursor s d fr = Some (Ret (cut (fr_limit fr) (todo ld c0), None))"
proof -
  obtain c' where c': "cursor_advance s d fr c0 = Ret c'" "cursor_ok s d fr ld c'" "moved fr ld c0 c'"
    using cursor_moves [OF assms(1)] by blast
  have run: "run_cursor s d fr = drain s d fr c' []" using c'(1) assms(3) by (simp add: run_cursor_def)
  show ?thesis
  proof (cases "todo ld c0")
    case Nil
    then have "\<not> cu_valid c'" "cu_err c' = None" using c'(2,3) by (simp_all add: moved_def cursor_ok_def)
    then show ?thesis unfolding run by (subst drain.simps) (simp add: Nil cut_def)
  next
    case (Cons y ys)
    have "\<not> full fr c0" using assms(2) by (simp add: full_def)
    then have m: "cu_valid c'" "cu_cur c' = Some y" "todo ld c' = ys" "cu_accepted c' = 1"
      using c'(3) Cons assms(2) by (simp_all add: moved_def)
    have "y # upto (fr_limit fr) 1 ys = cut (fr_limit fr) (y # ys)"
    proof (cases "0 < fr_limit fr")
      case True
      then have "nat (fr_limit fr) = Suc (nat (fr_limit fr - 1))" by simp
      then show ?thesis using True by (auto simp: upto_def cut_def)
    qed (simp add: upto_def cut_def)
    then show ?thesis unfolding run using drain_all [OF c'(2) m(1,2)] m(3,4) Cons by simp
  qed
qed

section \<open>The answer\<close>

text \<open>Reads that do not fail.\<close>

definition reads_ok :: "'d pebble \<Rightarrow> 'd \<Rightarrow> bool" where
  "reads_ok P d \<longleftrightarrow> (\<forall>k e. pb_Get P d k \<noteq> Fail e) \<and> (\<forall>lower upper e. pb_Iter P d lower upper \<noteq> Fail e)"

lemma later_distinct: "sorted_wrt later rows \<Longrightarrow> distinct rows"
  by (induction rows) auto

text \<open>What the prefixes of a plan select.\<close>

definition selected :: "(string \<Rightarrow> bool) \<Rightarrow> event set \<Rightarrow> Filter \<Rightarrow> event set" where
  "selected ix S f =
     (case sinceUntil f of (since, until) \<Rightarrow> \<Union>p \<in> set (fst (source_prefixes f)). indexed ix S p since until)"

text \<open>A list of events, newest first by time and id.\<close>

definition newest_list :: "event list \<Rightarrow> bool" where
  "newest_list es \<longleftrightarrow> sorted_wrt (\<lambda>a b. later (place a) (place b)) es"

lemma newest_unique:
  assumes "newest_list es" "newest_list es'" "set es = set es'"
  shows "es = es'"
  using assms
proof (induction es arbitrary: es')
  case (Cons e es)
  then obtain a as where es': "es' = a # as" by (cases es') auto
  have ne: "later (place x) (place y) \<Longrightarrow> x \<noteq> y" for x y by auto
  have "e = a"
  proof (rule ccontr)
    assume "e \<noteq> a"
    then have "a \<in> set es" "e \<in> set as" using Cons.prems(3) es' by auto
    then have "later (place e) (place a)" "later (place a) (place e)" using Cons.prems es' by (auto simp: newest_list_def)
    then show False using later_trans later_irrefl by blast
  qed
  moreover have "set es = set as"
  proof -
    have "e \<notin> set es" "a \<notin> set as" using Cons.prems es' ne by (auto simp: newest_list_def)
    then show ?thesis using Cons.prems(3) es' \<open>e = a\<close> by auto
  qed
  ultimately show ?case using Cons.IH [of as] Cons.prems es' by (simp add: newest_list_def)
qed simp

context pebble_db
begin

lemma get_ok: "reads_ok P d \<Longrightarrow> pb_Get P d k = Ret (kv d k)"
  using get_value [of d k] get_panic [of d k] by (cases "pb_Get P d k") (auto simp: reads_ok_def)

lemma iter_ok:
  assumes "reads_ok P d"
  obtains es where "pb_Iter P d lower upper = Ret es" "sorted_wrt (\<lambda>a b. fst a < fst b) es"
    "set es = {(k, v). kv d k = Some v \<and> in_bounds lower upper k}"
  using iter_sorted [of d lower upper] iter_entries [of d lower upper] iter_panic [of d lower upper] assms
  by (cases "pb_Iter P d lower upper") (auto simp: reads_ok_def)

lemma load_body:
  assumes "holds ix S (kv d)" "reads_ok P d" "e \<in> S" "ps_db s = P"
  shows "loadBody s d (event_ts e) (evID e) = Ret (Some e)"
proof -
  have "kv d (bodyKey (event_ts e) (evID e)) = Some (layout e)"
    using body_read [OF assms(1) event_ts_bound] assms(3) by (auto simp: place_def)
  moreover have "Unmarshal (layout e) = Ret e" using assms(1,3) layout_read by (auto simp: holds_def)
  ultimately show ?thesis using get_ok [OF assms(2)] assms(4) by (simp add: loadBody_def)
qed

lemma open_sources_rows:
  assumes "holds ix S (kv d)" "reads_ok P d" "ps_db s = P" "\<forall>p \<in> set ps. index_prefix p" "time_range since until"
  shows "\<exists>srcs. open_sources s d since until ps = Ret srcs \<and> (\<forall>src \<in> set srcs. sorted_wrt later src) \<and>
    set (concat srcs) = place ` (\<Union>p \<in> set ps. indexed ix S p since until) \<and>
    (\<forall>src \<in> set srcs. length src \<le> card S) \<and> length srcs = length ps"
  using assms(4)
proof (induction ps)
  case (Cons p ps)
  obtain srcs where srcs: "open_sources s d since until ps = Ret srcs" "\<forall>src \<in> set srcs. sorted_wrt later src"
    "set (concat srcs) = place ` (\<Union>p \<in> set ps. indexed ix S p since until)"
    "\<forall>src \<in> set srcs. length src \<le> card S" "length srcs = length ps"
    using Cons by auto
  obtain lower upper where b: "timeBounds p since until = (lower, upper)" by (metis surj_pair)
  obtain es where es: "pb_Iter P d lower upper = Ret es" "sorted_wrt (\<lambda>a b. fst a < fst b) es"
    "set es = {(k, v). kv d k = Some v \<and> in_bounds lower upper k}"
    using iter_ok [OF assms(2)] by blast
  have rows: "sorted_wrt later (scan_rows es)" "set (scan_rows es) = place ` indexed ix S p since until"
    using index_scan [OF assms(1) _ assms(5) b es(3,2)] Cons.prems by auto
  have fin: "finite S" using assms(1) by (simp add: holds_def)
  have "distinct (scan_rows es)" using rows(1) by (rule later_distinct)
  then have "length (scan_rows es) = card (place ` indexed ix S p since until)" using rows(2) by (metis distinct_card)
  also have "\<dots> \<le> card S" using fin card_image_le card_mono [of S "indexed ix S p since until"]
    by (metis (no_types, lifting) finite_subset indexed_def le_trans mem_Collect_eq subsetI)
  finally have len: "length (scan_rows es) \<le> card S" .
  have "open_sources s d since until (p # ps) = Ret (scan_rows es # srcs)"
    using srcs(1) b es(1) assms(3) by (simp add: newScanSource_def)
  then show ?case using srcs rows len by auto
qed simp

end

text \<open>The event a row stands for.\<close>

definition cand_of :: "event \<Rightarrow> candidate" where
  "cand_of e = \<lparr>cd_ts = event_ts e, cd_id = evID e, cd_ev = Some e\<rparr>"

lemma rows_events:
  assumes "inj_on place S" "sorted_wrt later rows" "set rows = place ` T" "T \<subseteq> S"
  shows "\<exists>es. rows = map place es \<and> newest_list es \<and> set es = T"
proof -
  let ?es = "map (the_inv_into T place) rows"
  have inj: "inj_on place T" using assms(1,4) by (rule inj_on_subset)
  have rows: "map place ?es = rows" using assms(3) f_the_inv_into_f [OF inj] by (auto intro!: map_idI)
  have "sorted_wrt later (map place ?es)" unfolding rows by (rule assms(2))
  then have "newest_list ?es" by (simp only: newest_list_def sorted_wrt_map)
  moreover have "set ?es = T" using the_inv_into_onto [OF inj] assms(3) by simp
  ultimately show ?thesis using rows by metis
qed

lemma map_filter_events:
  "\<forall>e \<in> set xs. g (place e) = (if acc e then Some (h e) else None) \<Longrightarrow>
     List.map_filter g (map place xs) = map h (filter acc xs)"
  by (induction xs) (auto simp: List.map_filter_simps)

lemma newest_filter: "newest_list es \<Longrightarrow> newest_list (filter P es)"
  by (simp add: newest_list_def sorted_wrt_filter)

lemma cut_map: "cut n (map f xs) = map f (cut n xs)"
  by (simp add: cut_def take_map)

definition time_bounds_ok :: "Filter \<Rightarrow> bool" where
  "time_bounds_ok f \<longleftrightarrow> 0 \<le> fSince f \<and> fSince f < 2 ^ 63 \<and> 0 \<le> fUntil f \<and> fUntil f < 2 ^ 63"

lemma sinceUntil_range: "time_bounds_ok f \<Longrightarrow> sinceUntil f = (since, until) \<Longrightarrow> time_range since until"
  by (auto simp: time_bounds_ok_def sinceUntil_def time_range_def split: if_splits)

context pebble_db
begin

lemma cursor_answer:
  assumes h: "holds ix S (kv d)" and reads: "reads_ok P d" and P: "ps_db s = P"
    and f: "plan (fr_f fr) \<noteq> modeIDs" "time_bounds_ok (fr_f fr)" "\<forall>p \<in> set (fst (source_prefixes (fr_f fr))). index_prefix p"
    and budget: "int (length (fst (source_prefixes (fr_f fr))) * card S) \<le> fr_budget fr"
    and bodies: "fr_query fr"
    and search: "\<And>e. e \<in> S \<Longrightarrow> search_ok fr (evContent e) = Ret (found e)"
      "\<And>e. e \<in> S \<Longrightarrow> found e \<Longrightarrow> signature_ok s d fr (event_ts e) (evID e)"
  shows "\<exists>all. newest_list all \<and>
    set all = {e \<in> selected ix S (fr_f fr). (snd (source_prefixes (fr_f fr)) \<or> fr_search fr \<noteq> None \<longrightarrow> Matches (fr_f fr) e) \<and> found e} \<and>
    run_cursor s d fr = Some (Ret (map cand_of (cut (fr_limit fr) all), None))"
proof -
  obtain since until where su: "sinceUntil (fr_f fr) = (since, until)" by (metis surj_pair)
  obtain ps pc0 where ps: "source_prefixes (fr_f fr) = (ps, pc0)" by (metis surj_pair)
  define pc where "pc \<longleftrightarrow> pc0 \<or> fr_search fr \<noteq> None"
  obtain srcs where srcs: "open_sources s d since until ps = Ret srcs" "\<forall>src \<in> set srcs. sorted_wrt later src"
    "set (concat srcs) = place ` (\<Union>p \<in> set ps. indexed ix S p since until)" "\<forall>src \<in> set srcs. length src \<le> card S"
    "length srcs = length ps"
    using open_sources_rows [OF h reads P _ sinceUntil_range [OF f(2) su], of ps] f(3) ps by auto
  let ?h = "filter (\<lambda>src. src \<noteq> []) srcs"
  have conc: "concat ?h = concat srcs" by (induction srcs) auto
  have ok: "sources_ok ?h" using srcs(2) by (simp add: sources_ok_def)
  have sel: "selected ix S (fr_f fr) = (\<Union>p \<in> set ps. indexed ix S p since until)" by (simp add: selected_def su ps)
  have sub: "selected ix S (fr_f fr) \<subseteq> S" unfolding sel by (auto simp: indexed_def)
  obtain es where es: "fresh None (merged ?h) = map place es" "newest_list es" "set es = selected ix S (fr_f fr)"
    using rows_events [OF places_inj [OF h] _ _ sub] fresh_merged [OF ok] conc srcs(3) sel by metis
  let ?acc = "\<lambda>e. (pc \<longrightarrow> Matches (fr_f fr) e) \<and> found e"
  let ?ld = "\<lambda>row. let e = the_inv_into S place row in if ?acc e then Some (cand_of e) else None"
  have ld: "?ld (place e) = (if ?acc e then Some (cand_of e) else None)" if "e \<in> S" for e
    using the_inv_into_f_f [OF places_inj [OF h] that] by (simp add: Let_def)
  have "load_row s d fr pc (place e) = Ret (?ld (place e))" if "e \<in> S" for e
    unfolding ld [OF that] using search [OF that] load_body [OF h reads that P]
    by (auto simp: load_row_def place_def cand_of_def)
  then have loads: "loads s d fr pc ?ld (set (map place es))" using es(3) sub by (auto simp: loads_def)
  let ?c = "empty_cursor\<lparr>cu_postCheck := pc, cu_merge := (?h, None, 0)\<rparr>"
  have "length (merged ?h) = length (concat srcs)" using merged_mset [OF ok] conc by (metis size_mset)
  also have "\<dots> \<le> length srcs * card S" using srcs(4) by (induction srcs) auto
  finally have "length (merged ?h) \<le> length ps * card S" using srcs(5) by simp
  then have "int (length (merged ?h)) \<le> int (length ps * card S)" by (simp only: of_nat_le_iff)
  also have "\<dots> \<le> fr_budget fr" using budget ps by simp
  finally have "int (length (merged ?h)) \<le> fr_budget fr" .
  then have "cursor_ok s d fr ?ld ?c"
    using ok loads es(1) bodies by (simp add: cursor_ok_def empty_cursor_def merge_ok_def rows_left_def)
  moreover have "openCursor s d fr = cursor_advance s d fr ?c"
    using f(1) srcs(1) by (simp add: openCursor_def buildSources_def su ps pc_def)
  ultimately have run: "run_cursor s d fr = Some (Ret (cut (fr_limit fr) (todo ?ld ?c), None))"
    by (intro cursor_run) (simp_all add: empty_cursor_def)
  have "List.map_filter ?ld (map place es) = map cand_of (filter ?acc es)"
    by (rule map_filter_events) (use ld es(3) sub in blast)
  then have "todo ?ld ?c = map cand_of (filter ?acc es)"
    using es(1) by (simp add: todo_def empty_cursor_def rows_left_def)
  then have "run_cursor s d fr = Some (Ret (map cand_of (cut (fr_limit fr) (filter ?acc es)), None))" using run by (simp add: cut_map)
  moreover have "set (filter ?acc es) = {e \<in> selected ix S (fr_f fr).
      (snd (source_prefixes (fr_f fr)) \<or> fr_search fr \<noteq> None \<longrightarrow> Matches (fr_f fr) e) \<and> found e}"
    using es(3) by (auto simp: pc_def ps)
  ultimately show ?thesis using newest_filter [OF es(2)] by blast
qed

end

section \<open>The plan selects what the filter matches\<close>

text \<open>
  Filters whose lists are nil or not empty and whose tag queries the index can answer: tag names that are indexed, values
  short enough to be filed.
\<close>

definition plannable :: "(string \<Rightarrow> bool) \<Rightarrow> Filter \<Rightarrow> bool" where
  "plannable ix f \<longleftrightarrow> time_bounds_ok f \<and> fIDs f = None \<and> fKinds f \<noteq> Some [] \<and> fAuthors f \<noteq> Some [] \<and>
     (\<forall>a \<in> set (opt_list (fAuthors f)). length a = 32) \<and> distinct (map fst (fTags f)) \<and>
     (\<forall>(k, vs) \<in> set (fTags f). vs \<noteq> [] \<and> ix k \<and> length k \<le> 255 \<and> (\<forall>v \<in> set vs. length v \<le> 65535))"

lemma plannable_plan: "plannable ix f \<Longrightarrow> plan f \<noteq> modeIDs"
  by (simp add: plannable_def plan_def)

lemma plannable_tags: "plannable ix f \<Longrightarrow> countTagPreds f = length (fTags f) \<and> set (tag_names f) = fst ` set (fTags f) \<and>
    length (tag_names f) = length (fTags f)"
proof -
  assume "plannable ix f"
  then have "filter (\<lambda>(_, vals). length vals > 0) (fTags f) = fTags f" by (auto simp: plannable_def intro!: filter_True)
  then show ?thesis by (simp add: countTagPreds_def tag_names_def)
qed

lemma foldl_choice: "foldl (\<lambda>b n. if Q n b then n else b) a xs \<in> insert a (set xs)"
proof (induction xs arbitrary: a)
  case (Cons x xs)
  then show ?case using Cons.IH [of x] Cons.IH [of a] by auto
qed simp

lemma driving_tag_in:
  assumes "plannable ix f" "fTags f \<noteq> []"
  shows "(driving_tag f, tagmap_get (fTags f) (driving_tag f)) \<in> set (fTags f)"
proof -
  have "tag_names f \<noteq> []" using plannable_tags [OF assms(1)] assms(2) by (metis length_0_conv)
  then have "insert (hd (tag_names f)) (set (tl (tag_names f))) = set (tag_names f)" by (cases "tag_names f") auto
  moreover have "driving_tag f \<in> insert (hd (tag_names f)) (set (tl (tag_names f)))"
    unfolding driving_tag_def
    by (rule foldl_choice [where Q = "\<lambda>n b. length (tagmap_get (fTags f) n) < length (tagmap_get (fTags f) b)"])
  ultimately have "driving_tag f \<in> set (tag_names f)" by simp
  then obtain vs where "(driving_tag f, vs) \<in> set (fTags f)" using plannable_tags [OF assms(1)] by auto
  moreover from this have "map_of (fTags f) (driving_tag f) = Some vs" using assms(1) by (simp add: plannable_def)
  ultimately show ?thesis by (simp add: tagmap_get_def)
qed

lemma tag_indexed:
  assumes "length n \<le> 255" "length v \<le> 65535"
  shows "tagPrefix n v \<in> set (index_prefixes ix e) \<longleftrightarrow> ix n \<and> (\<exists>t \<in> set (evTags e). 2 \<le> length t \<and> t ! 0 = n \<and> t ! 1 = v)"
proof -
  have "tagPrefix n v \<in> set (index_prefixes ix e) \<longleftrightarrow> tagPrefix n v \<in> set (tag_prefixes ix {} (evTags e))"
    by (auto simp: index_prefixes_def tagPrefix_def pubkeyPrefix_def pubkeyKindPrefix_def kindPrefix_def timePrefix_def pfx_defs)
  moreover have "tagPrefix n v = tagPrefix n' v' \<longleftrightarrow> n = n' \<and> v = v'" if "length n' \<le> 255" "length v' \<le> 65535" for n' v'
    using tagPrefix_free [of n v "[]" n' v' "[]"] assms that by auto
  ultimately show ?thesis using assms by (auto simp: tag_prefixes_form)
qed

lemma fixed_indexed:
  assumes "length a = 32" "length (evPubKey e) = 32"
  shows "pubkeyPrefix a \<in> set (index_prefixes ix e) \<longleftrightarrow> a = evPubKey e"
    "pubkeyKindPrefix a (unat (k :: Kind)) \<in> set (index_prefixes ix e) \<longleftrightarrow> a = evPubKey e \<and> k = evKind e"
    "kindPrefix (unat k) \<in> set (index_prefixes ix e) \<longleftrightarrow> k = evKind e"
    "timePrefix \<in> set (index_prefixes ix e)"
proof -
  have k: "putBE 4 (unat k) = putBE 4 (unat (evKind e)) \<longleftrightarrow> k = evKind e"
  proof -
    have "unat k < 65536" "unat (evKind e) < 65536" using unsigned_less [of k] unsigned_less [of "evKind e"] by simp_all
    then show ?thesis using putBE_inj [of "unat k" 4 "unat (evKind e)"] by (simp add: word_unat_eq_iff)
  qed
  show "pubkeyPrefix a \<in> set (index_prefixes ix e) \<longleftrightarrow> a = evPubKey e"
    by (auto simp: index_prefixes_def pubkeyPrefix_def pubkeyKindPrefix_def kindPrefix_def timePrefix_def tag_prefixes_form
        tagPrefix_def pfx_defs)
  show "pubkeyKindPrefix a (unat k) \<in> set (index_prefixes ix e) \<longleftrightarrow> a = evPubKey e \<and> k = evKind e"
    using assms k by (auto simp: index_prefixes_def pubkeyPrefix_def pubkeyKindPrefix_def kindPrefix_def timePrefix_def tag_prefixes_form
        tagPrefix_def pfx_defs append_eq_append_conv)
  show "kindPrefix (unat k) \<in> set (index_prefixes ix e) \<longleftrightarrow> k = evKind e"
    using k by (auto simp: index_prefixes_def pubkeyPrefix_def pubkeyKindPrefix_def kindPrefix_def timePrefix_def tag_prefixes_form
        tagPrefix_def pfx_defs)
  show "timePrefix \<in> set (index_prefixes ix e)" by (simp add: index_prefixes_def)
qed

lemma in_time:
  assumes "time_bounds_ok f" "sinceUntil f = (since, until)" "good_event e"
  shows "nat since \<le> event_ts e \<and> event_ts e \<le> nat until \<longleftrightarrow>
    (fSince f \<noteq> 0 \<longrightarrow> fSince f \<le> evCreatedAt e) \<and> (fUntil f \<noteq> 0 \<longrightarrow> evCreatedAt e \<le> fUntil f)"
proof -
  have "event_ts e = nat (evCreatedAt e)" using assms(3) event_ts_eq good_wf(3) by blast
  moreover have "0 \<le> evCreatedAt e" "evCreatedAt e < 2 ^ 63" using assms(3) by (auto simp: good_event_def wf_event_def in_int64_def)
  ultimately show ?thesis using assms(1,2) by (auto simp: sinceUntil_def time_bounds_ok_def split: if_splits)
qed

lemma plan_prefixes:
  assumes "plannable ix f"
  shows "\<forall>p \<in> set (fst (source_prefixes f)). index_prefix p"
proof (cases "plan f")
  case modeTags
  then have ne: "fTags f \<noteq> []" using plannable_tags [OF assms] by (auto simp: plan_def split: if_splits)
  show ?thesis using driving_tag_in [OF assms ne] assms modeTags
    by (fastforce simp: source_prefixes_def plannable_def index_prefix_def)
qed (use assms in \<open>auto simp: source_prefixes_def plannable_def index_prefix_def split: if_splits\<close>)

lemma plan_selects:
  assumes f: "plannable ix f" and S: "\<forall>e \<in> S. good_event e"
  shows "{e \<in> selected ix S f. snd (source_prefixes f) \<longrightarrow> Matches f e} = {e \<in> S. Matches f e}"
proof -
  obtain since until where su: "sinceUntil f = (since, until)" by (metis surj_pair)
  have sel: "e \<in> selected ix S f \<longleftrightarrow> e \<in> S \<and> (\<exists>p \<in> set (fst (source_prefixes f)). p \<in> set (index_prefixes ix e)) \<and>
      (fSince f \<noteq> 0 \<longrightarrow> fSince f \<le> evCreatedAt e) \<and> (fUntil f \<noteq> 0 \<longrightarrow> evCreatedAt e \<le> fUntil f)" for e
    using in_time [OF _ su, of e] f S by (auto simp: selected_def su indexed_def plannable_def)
  have "e \<in> selected ix S f \<and> (snd (source_prefixes f) \<longrightarrow> Matches f e) \<longleftrightarrow> e \<in> S \<and> Matches f e" if e: "e \<in> S" for e
  proof -
    have pk: "length (evPubKey e) = 32" using S e by (auto simp: good_event_def wf_event_def wf32_def)
    note fixed = fixed_indexed [OF _ pk]
    have auth: "length a = 32" if "a \<in> set (opt_list (fAuthors f))" for a using f that by (auto simp: plannable_def)
    note fi = fixed_indexed [OF pk pk]
    have ids: "fIDs f = None" using f by (simp add: plannable_def)
    have kinds: "(\<forall>l. fKinds f = Some l \<longrightarrow> evKind e \<in> set l) \<longleftrightarrow> opt_list (fKinds f) = [] \<or> evKind e \<in> set (opt_list (fKinds f))"
      using f by (cases "fKinds f") (auto simp: plannable_def)
    have authors: "(\<forall>l. fAuthors f = Some l \<longrightarrow> evPubKey e \<in> set l) \<longleftrightarrow>
        opt_list (fAuthors f) = [] \<or> evPubKey e \<in> set (opt_list (fAuthors f))"
      using f by (cases "fAuthors f") (auto simp: plannable_def)
    note m = Matches_iff [of f e] MatchesIgnoring_iff [of f e] ids kinds authors
    have tags: "countTagPreds f = length (fTags f)" using plannable_tags [OF f] by blast
    show ?thesis
    proof (cases "plan f")
      case modeIDs
      then show ?thesis using plannable_plan [OF f] by simp
    next
      case modeAuthors
      then have ne: "opt_list (fAuthors f) \<noteq> []" by (auto simp: plan_def split: if_splits)
      have "(\<exists>p \<in> set (fst (source_prefixes f)). p \<in> set (index_prefixes ix e)) \<longleftrightarrow>
          evPubKey e \<in> set (opt_list (fAuthors f)) \<and> (opt_list (fKinds f) = [] \<or> evKind e \<in> set (opt_list (fKinds f)))"
        using modeAuthors auth fixed(1,2) by (auto simp: source_prefixes_def)
      moreover have "snd (source_prefixes f) \<longleftrightarrow> fTags f \<noteq> []" using modeAuthors tags by (simp add: source_prefixes_def)
      ultimately show ?thesis unfolding sel m using e ne by auto
    next
      case modeTags
      then have ne: "fTags f \<noteq> []" and noauth: "opt_list (fAuthors f) = []" using tags by (auto simp: plan_def split: if_splits)
      let ?n = "driving_tag f" and ?vs = "tagmap_get (fTags f) (driving_tag f)"
      note d = driving_tag_in [OF f ne]
      have lens: "length ?n \<le> 255" "ix ?n" "v \<in> set ?vs \<Longrightarrow> length v \<le> 65535" for v using d f by (auto simp: plannable_def)
      have ex: "(\<exists>p \<in> set (fst (source_prefixes f)). p \<in> set (index_prefixes ix e)) \<longleftrightarrow> ContainsAny (evTags e) ?n ?vs"
        using modeTags lens tag_indexed [OF lens(1)] by (auto simp: source_prefixes_def ContainsAny_iff)
      have snd: "snd (source_prefixes f) \<longleftrightarrow> opt_list (fKinds f) \<noteq> [] \<or> length (fTags f) > 1"
        using modeTags noauth plannable_tags [OF f] by (simp add: source_prefixes_def)
      define T where "T \<longleftrightarrow> (\<forall>(k, v) \<in> set (fTags f). ContainsAny (evTags e) k v)"
      have "T \<longrightarrow> ContainsAny (evTags e) ?n ?vs" using d by (auto simp: T_def)
      moreover have "length (fTags f) > 1 \<or> set (fTags f) = {(?n, ?vs)}" using d by (cases "fTags f"; cases "tl (fTags f)") auto
      then have "length (fTags f) > 1 \<or> (ContainsAny (evTags e) ?n ?vs \<longrightarrow> T)" by (auto simp: T_def)
      ultimately show ?thesis unfolding sel m T_def [symmetric] ex snd using e noauth by (cases T) auto
    next
      case modeKinds
      then have "fTags f = []" "opt_list (fAuthors f) = []" "opt_list (fKinds f) \<noteq> []" using tags by (auto simp: plan_def split: if_splits)
      moreover have "(\<exists>p \<in> set (fst (source_prefixes f)). p \<in> set (index_prefixes ix e)) \<longleftrightarrow> evKind e \<in> set (opt_list (fKinds f))"
        using modeKinds fi(3) by (auto simp: source_prefixes_def)
      moreover have "\<not> snd (source_prefixes f)" using modeKinds by (simp add: source_prefixes_def)
      ultimately show ?thesis unfolding sel m using e by auto
    next
      case modeTime
      then have "fTags f = []" "opt_list (fAuthors f) = []" "opt_list (fKinds f) = []" using tags by (auto simp: plan_def split: if_splits)
      moreover have "\<exists>p \<in> set (fst (source_prefixes f)). p \<in> set (index_prefixes ix e)"
        using modeTime fi(4) by (auto simp: source_prefixes_def)
      moreover have "\<not> snd (source_prefixes f)" using modeTime by (simp add: source_prefixes_def)
      ultimately show ?thesis unfolding sel m using e by auto
    qed
  qed
  moreover have "selected ix S f \<subseteq> S" using sel by auto
  ultimately show ?thesis by blast
qed

end
