(* ===== verification/PebbleSearch.thy ===== *)
theory PebbleSearch
  imports PebbleQuery
begin

text \<open>
  Searches of the pebble store, \<^verbatim>\<open>eventstore/pebbledb2/search.go\<close>, and its queries as a whole (\<^verbatim>\<open>QueryEvents\<close> of
  \<^verbatim>\<open>query.go\<close>).  A search scans the time index in up to eight pieces, skipping events whose signature rules the text out.
  The pieces are worked on by goroutines whose results are sorted in the end; the model takes them one after the other.
\<close>

section \<open>The pieces\<close>

text \<open>\<open>None\<close> is the panic of a division by zero.\<close>

definition splitRange :: "int \<Rightarrow> int \<Rightarrow> nat \<Rightarrow> (int \<times> int) list option" where
  "splitRange dMin dMax n =
     (if dMax < dMin then Some []
      else
        let width = uint64 (uint64 dMax - uint64 dMin + 1);
            n = (if width \<noteq> 0 \<and> width < int n then nat width else n) in
        if n = 0 then None
        else
          let w = width div int n; w = (if w = 0 then 1 else w) in
          Some (map (\<lambda>i.
              let lo = uint64 (uint64 dMin + int i * w); hi = (if i = n - 1 then uint64 dMax else uint64 (lo + w - 1)) in
              (int64 lo, int64 hi)) [0..<n]))"

definition dataTimeRange :: "'d pstore \<Rightarrow> 'd \<Rightarrow> int \<times> int" where
  "dataTimeRange s d =
     (case pb_Iter (ps_db s) d timePrefix None of
        Ret [] \<Rightarrow> (0, -1)
      | Ret (e # es) \<Rightarrow> (int64 (int (key_ts (fst e))), int64 (int (key_ts (fst (last (e # es))))))
      | _ \<Rightarrow> (0, -1))"

definition searchTasks :: "'d pstore \<Rightarrow> 'd \<Rightarrow> filterRun \<Rightarrow> (int \<times> int) list option" where
  "searchTasks s d fr =
     (let (since, until) = sinceUntil (fr_f fr) in
      if since > until then Some []
      else
        let (dMin, dMax) = dataTimeRange s d in
        if dMax < 0 \<or> dMax < since \<or> dMin > until then Some []
        else
          let lo = max since dMin; hi = min until dMax in
          if lo > hi then Some [] else splitRange lo hi 8)"

section \<open>One piece\<close>

definition ascending_rows :: "(bytes \<times> bytes) list \<Rightarrow> ((nat \<times> bytes) \<times> bytes) list" where
  "ascending_rows es = map (\<lambda>(k, v). ((key_ts k, key_id k), v)) es"

text \<open>The merge of the stream of bodies with the stream of signatures.\<close>

fun search_merge :: "'d pstore \<Rightarrow> 'd \<Rightarrow> filterRun \<Rightarrow> (nat \<times> bytes) list \<Rightarrow> ((nat \<times> bytes) \<times> bytes) list \<Rightarrow> int
    \<Rightarrow> (pebble_error, candidate list \<times> int) outcome" where
  "search_merge s d fr [] sigs scanned = Ret ([], scanned)"
| "search_merge s d fr (b # bs) sigs scanned =
     (if scanned + 1 > fr_budget fr then Fail ErrScanBudgetExceeded
      else
        let sigs = dropWhile (\<lambda>(p, _). later b p) sigs in
        if sigs \<noteq> [] \<and> fst (hd sigs) = b \<and> \<not> bloomMaybeContains (snd (hd sigs)) (fr_searchGrams fr) then
          search_merge s d fr bs sigs (scanned + 1)
        else
          obind (loadBody s d (fst b) (snd b)) (\<lambda>ev.
          obind
            (case ev of
               None \<Rightarrow> Ret None
             | Some ev \<Rightarrow>
                 obind (search_ok fr (evContent ev)) (\<lambda>found.
                 Ret (if found \<and> Matches (fr_f fr) ev then Some \<lparr>cd_ts = fst b, cd_id = snd b, cd_ev = Some ev\<rparr> else None)))
            (\<lambda>c.
          obind (search_merge s d fr bs sigs (scanned + 1)) (\<lambda>(cs, n).
          Ret (case c of None \<Rightarrow> cs | Some c \<Rightarrow> c # cs, n)))))"

definition searchTask :: "'d pstore \<Rightarrow> 'd \<Rightarrow> filterRun \<Rightarrow> int \<times> int \<Rightarrow> int \<Rightarrow> (pebble_error, (candidate list \<times> int) \<times> int) outcome" where
  "searchTask s d fr t scanned =
     (let (lower, upper) = timeBounds timePrefix (fst t) (snd t); (fLower, fUpper) = timeBounds bloomPrefix (fst t) (snd t) in
      obind (lift_db (pb_Iter (ps_db s) d lower upper)) (\<lambda>bodies.
      obind (lift_db (pb_Iter (ps_db s) d fLower fUpper)) (\<lambda>sigs.
      obind (search_merge s d fr (map fst (ascending_rows bodies)) (ascending_rows sigs) scanned) (\<lambda>(cands, scanned).
      if fr_query fr then
        Ret ((if fr_limit fr > 0 \<and> int (length cands) > fr_limit fr
              then take (nat (fr_limit fr)) (slices_SortFunc cand_cmp cands) else cands, 0), scanned)
      else Ret (([], int (length cands)), scanned)))))"

section \<open>A search\<close>

fun run_tasks :: "'d pstore \<Rightarrow> 'd \<Rightarrow> filterRun \<Rightarrow> (int \<times> int) list \<Rightarrow> int \<Rightarrow> candidate list \<Rightarrow> int
    \<Rightarrow> (pebble_error, candidate list \<times> int) outcome" where
  "run_tasks s d fr [] scanned allc matches = Ret (allc, matches)"
| "run_tasks s d fr (t # ts) scanned allc matches =
     obind (searchTask s d fr t scanned) (\<lambda>((cands, n), scanned). run_tasks s d fr ts scanned (allc @ cands) (matches + n))"

definition searchRun :: "'d pstore \<Rightarrow> 'd \<Rightarrow> filterRun \<Rightarrow> (pebble_error, candidate list \<times> int) outcome" where
  "searchRun s d fr =
     obind (or_panic (searchTasks s d fr)) (\<lambda>tasks.
     if length tasks = 0 then Ret ([], 0)
     else
       obind (run_tasks s d fr tasks 0 [] 0) (\<lambda>(allc, matches).
       if \<not> fr_query fr then Ret ([], matches) else Ret (cut (fr_limit fr) (slices_SortFunc cand_cmp allc), 0)))"

text \<open>A query gives the events it meets, and an error in the end.\<close>

definition QueryEvents :: "'d pstore \<Rightarrow> 'd \<Rightarrow> Filter \<Rightarrow> int \<Rightarrow> (pebble_error, event list \<times> pebble_error option) outcome option" where
  "QueryEvents s d f maxLimit =
     (if fLimitZero f then Some (Ret ([], None))
      else
        case newFilterRun s f True maxLimit of
          Ret fr \<Rightarrow>
            if fr_search fr \<noteq> None \<and> plan f = modeTime \<and> length (fr_searchGrams fr) > 0 then
              (case searchRun s d fr of
                 Ret (cands, _) \<Rightarrow> Some (Ret (map (\<lambda>c. the (cd_ev c)) cands, None))
               | Fail e \<Rightarrow> Some (Ret ([], Some e))
               | Panic \<Rightarrow> Some Panic)
            else
              (case run_cursor s d fr of
                 Some (Ret (cands, e)) \<Rightarrow> Some (Ret (map (\<lambda>c. the (cd_ev c)) cands, e))
               | Some (Fail e) \<Rightarrow> Some (Ret ([], Some e))
               | Some Panic \<Rightarrow> Some Panic
               | None \<Rightarrow> None)
        | Fail e \<Rightarrow> Some (Fail e)
        | Panic \<Rightarrow> Some Panic)"

section \<open>The pieces cover the range\<close>

lemma int64_uint64_add: "int64 (uint64 a + k) = int64 (a + k)"
  unfolding int64_def uint64_def by (metis add.assoc mod_add_left_eq)

lemma split_range:
  assumes "in_int64 dMin" "in_int64 dMax" "dMin \<le> dMax" "0 < n" "int n < 2 ^ 63"
  shows "\<exists>segs. splitRange dMin dMax n = Some segs \<and> segs \<noteq> [] \<and> length segs \<le> n \<and>
    fst (hd segs) = dMin \<and> snd (last segs) = dMax \<and> (\<forall>seg \<in> set segs. fst seg \<le> snd seg) \<and>
    (\<forall>i. i + 1 < length segs \<longrightarrow> fst (segs ! (i + 1)) = snd (segs ! i) + 1)"
proof -
  define D where "D = dMax - dMin"
  have D: "0 \<le> D" "D < 2 ^ 64" using assms(1-3) by (auto simp: D_def in_int64_def)
  define width where "width = uint64 (D + 1)"
  have w0: "uint64 (uint64 dMax - uint64 dMin + 1) = width"
    unfolding width_def uint64_def D_def by (metis mod_add_left_eq mod_diff_eq)
  have width: "width = (if D + 1 = 2 ^ 64 then 0 else D + 1)" using D by (auto simp: width_def uint64_def)
  define n' where "n' = (if width \<noteq> 0 \<and> width < int n then nat width else n)"
  define w where "w = (if width div int n' = 0 then 1 else width div int n')"
  have n': "0 < n'" "n' \<le> n" using assms(4) D by (auto simp: n'_def width)
  have w: "1 \<le> w"
  proof -
    have "0 \<le> width div int n'" using D by (simp add: width pos_imp_zdiv_nonneg_iff n'(1))
    then show ?thesis by (auto simp: w_def)
  qed
  have fit: "int n' * w \<le> D + 1"
  proof (cases "width = 0")
    case True
    then have "D + 1 = 2 ^ 64" "w = 1" using D by (auto simp: width w_def split: if_splits)
    then show ?thesis using n'(2) assms(5) by simp
  next
    case False
    then have eq: "width = D + 1" by (auto simp: width split: if_splits)
    have "int n' \<le> width" using False D by (auto simp: n'_def eq)
    then have "width div int n' \<noteq> 0" using n'(1) by (metis div_by_1 int_one_le_iff_zero_less not_one_le_zero of_nat_0_less_iff zdiv_mono1 div_self less_le of_nat_0_eq_iff)
    then have "w = width div int n'" by (simp add: w_def)
    then have "int n' * w \<le> width" by (metis mult.commute div_mult_mod_eq le_add_same_cancel1 n'(1) of_nat_0_less_iff pos_mod_sign)
    then show ?thesis by (simp add: eq)
  qed
  define seg where "seg = (\<lambda>i. (dMin + int i * w, if i = n' - 1 then dMax else dMin + int i * w + w - 1))"
  have step: "int i * w + w \<le> D + 1" if "i < n'" for i
  proof -
    have "(int i + 1) * w \<le> int n' * w" using that w by (intro mult_right_mono) auto
    then show ?thesis using fit by (simp add: algebra_simps)
  qed
  have pos: "0 \<le> int i * w" for i using w by simp
  have "splitRange dMin dMax n = Some (map seg [0..<n'])"
  proof -
    have "(let lo = uint64 (uint64 dMin + int i * w); hi = (if i = n' - 1 then uint64 dMax else uint64 (lo + w - 1)) in (int64 lo, int64 hi)) = seg i"
      if i: "i < n'" for i
    proof -
      have "in_int64 (dMin + int i * w)" "in_int64 (dMin + int i * w + w - 1)"
        using step [OF i] pos [of i] w assms(1-3) unfolding in_int64_def D_def by (intro conjI; linarith)+
      then have "int64 (uint64 (uint64 dMin + int i * w)) = dMin + int i * w"
        "int64 (uint64 (uint64 (uint64 dMin + int i * w) + w - 1)) = dMin + int i * w + w - 1"
        using int64_uint64_add [of dMin "int i * w"] int64_uint64_add [of dMin "int i * w + (w - 1)"]
          int64_uint64_add [of "uint64 dMin + int i * w" "w - 1"]
        by (simp_all add: int64_id add.assoc add_diff_eq)
      then show ?thesis using assms(2) by (simp add: seg_def Let_def int64_id)
    qed
    then have pieces: "map (\<lambda>i. let lo = uint64 (uint64 dMin + int i * w);
          hi = (if i = n' - 1 then uint64 dMax else uint64 (lo + w - 1)) in (int64 lo, int64 hi)) [0..<n'] = map seg [0..<n']"
      by (intro map_cong) simp_all
    have "\<not> dMax < dMin" "n' \<noteq> 0" using assms(3) n'(1) by simp_all
    then show ?thesis unfolding pieces [symmetric] splitRange_def Let_def w0 n'_def [symmetric] w_def [symmetric]
      by (simp only: if_False)
  qed
  moreover have "fst (hd (map seg [0..<n'])) = dMin" using n'(1) by (simp add: hd_map seg_def)
  moreover have "snd (last (map seg [0..<n'])) = dMax" using n'(1) by (simp add: last_map seg_def)
  moreover have "fst (seg i) \<le> snd (seg i)" if "i < n'" for i
    using step [OF that] pos [of i] w by (auto simp: seg_def D_def)
  moreover have "fst (map seg [0..<n'] ! (i + 1)) = snd (map seg [0..<n'] ! i) + 1" if "i + 1 < n'" for i
    using that by (auto simp: seg_def algebra_simps)
  ultimately show ?thesis using n' by auto
qed

text \<open>C9: A range is split into at most the given number of pieces, in order and without gap or overlap: the first starts at the
  lower end, the last ends at the upper one, and each starts where the one before ended plus one, also when the range is
  so wide that its width does not fit 64 bits.\<close>
theorem split_covers:
  assumes "in_int64 dMin" "in_int64 dMax" "dMin \<le> dMax" "0 < n" "int n < 2 ^ 63"
  shows "\<exists>segs. splitRange dMin dMax n = Some segs \<and> segs \<noteq> [] \<and> length segs \<le> n \<and>
    fst (hd segs) = dMin \<and> snd (last segs) = dMax \<and> (\<forall>seg \<in> set segs. fst seg \<le> snd seg) \<and>
    (\<forall>i. i + 1 < length segs \<longrightarrow> fst (segs ! (i + 1)) = snd (segs ! i) + 1)"
  using assms by (rule split_range)

theorem split_covers_witness:
  "\<exists>segs. splitRange (- (2 ^ 63)) (2 ^ 63 - 1) 8 = Some segs \<and> segs \<noteq> []"
  using split_covers [of "- (2 ^ 63)" "2 ^ 63 - 1" 8] by (auto simp: in_int64_def)

section \<open>A piece gives out its matches\<close>

text \<open>The newest of a finite set of events, as many as the limit says.\<close>

definition beaten :: "event set \<Rightarrow> event \<Rightarrow> nat" where
  "beaten T e = card {x \<in> T. later (place x) (place e)}"

lemma newest_nth_beaten:
  assumes "newest_list es" "i < length es"
  shows "beaten (set es) (es ! i) = i"
proof -
  have lt: "later (place (es ! j)) (place (es ! k))" if "j < k" "k < length es" for j k
    using assms(1) that by (simp add: newest_list_def sorted_wrt_iff_nth_less)
  have "{x \<in> set es. later (place x) (place (es ! i))} = (\<lambda>j. es ! j) ` {..<i}"
  proof (rule set_eqI, rule iffI)
    fix x assume "x \<in> {x \<in> set es. later (place x) (place (es ! i))}"
    then obtain j where j: "j < length es" "x = es ! j" "later (place (es ! j)) (place (es ! i))" by (auto simp: in_set_conv_nth)
    then have "j < i" using lt [of i j] later_trans later_irrefl by (metis linorder_neqE_nat)
    then show "x \<in> (\<lambda>j. es ! j) ` {..<i}" using j(2) by auto
  qed (use lt assms(2) in auto)
  moreover have "inj_on (\<lambda>j. es ! j) {..<i}"
    by (rule inj_onI) (use lt assms(2) later_irrefl in \<open>metis lessThan_iff linorder_neqE_nat order_less_trans\<close>)
  ultimately show ?thesis by (simp add: beaten_def card_image)
qed

lemma set_take_newest: "newest_list es \<Longrightarrow> set (take n es) = {e \<in> set es. beaten (set es) e < n}"
proof -
  assume es: "newest_list es"
  have "e \<in> set (take n es) \<longleftrightarrow> (\<exists>i < length es. i < n \<and> e = es ! i)" for e
    by (auto simp: in_set_conv_nth)
  moreover have "e \<in> set es \<and> beaten (set es) e < n \<longleftrightarrow> (\<exists>i < length es. i < n \<and> e = es ! i)" for e
    using newest_nth_beaten [OF es] by (auto simp: in_set_conv_nth)
  ultimately show ?thesis by blast
qed

text \<open>Cutting parts before the whole makes no difference.\<close>

lemma beaten_cut:
  assumes "finite A" "finite B"
  shows "{e \<in> A \<union> B. beaten (A \<union> B) e < n} =
    {e \<in> {x \<in> A. beaten A x < n} \<union> B. beaten ({x \<in> A. beaten A x < n} \<union> B) e < n}" (is "?L = ?R")
proof -
  let ?A = "{x \<in> A. beaten A x < n}"
  have mono: "beaten X e \<le> beaten Y e" if "X \<subseteq> Y" "finite Y" for X Y e
    unfolding beaten_def by (rule card_mono) (use that in auto)
  have "e \<in> ?R" if "e \<in> ?L" for e
    using that mono [of A "A \<union> B" e] mono [of "?A \<union> B" "A \<union> B" e] assms by (auto intro: le_less_trans)
  moreover have "e \<in> ?L" if e: "e \<in> ?R" for e
  proof (rule ccontr)
    assume "e \<notin> ?L"
    then have many: "n \<le> beaten (A \<union> B) e" using e by auto
    have "\<not> {x \<in> A \<union> B. later (place x) (place e)} \<subseteq> ?A \<union> B"
    proof
      assume "{x \<in> A \<union> B. later (place x) (place e)} \<subseteq> ?A \<union> B"
      then have "{x \<in> A \<union> B. later (place x) (place e)} = {x \<in> ?A \<union> B. later (place x) (place e)}" by auto
      then show False using many e by (simp add: beaten_def)
    qed
    then obtain y0 where y0: "y0 \<in> A" "later (place y0) (place e)" "\<not> beaten A y0 < n" by auto
    define Y where "Y = {y \<in> A. later (place y) (place e) \<and> \<not> beaten A y < n}"
    have "Y \<noteq> {}" "finite Y" using y0 assms(1) by (auto simp: Y_def)
    then obtain y where y: "y \<in> Y" "\<forall>z \<in> Y. beaten A y \<le> beaten A z"
      using ex_min_if_finite [of "beaten A ` Y"] by (metis (mono_tags, lifting) arg_min_least arg_min_if_finite(1))
    let ?W = "{x \<in> A. later (place x) (place y)}"
    have "x \<in> ?A \<and> later (place x) (place e)" if x: "x \<in> ?W" for x
    proof -
      have le: "later (place x) (place e)" using x y(1) later_trans [of "place x" "place y" "place e"] by (simp add: Y_def)
      have "{z \<in> A. later (place z) (place x)} \<subset> ?W" using x later_trans later_irrefl by blast
      then have "beaten A x < beaten A y" unfolding beaten_def using assms(1) by (intro psubset_card_mono) auto
      then have "x \<notin> Y" using y(2) by fastforce
      then show ?thesis using x le by (simp add: Y_def)
    qed
    then have "?W \<subseteq> {x \<in> ?A \<union> B. later (place x) (place e)}" by blast
    then have "card ?W \<le> beaten (?A \<union> B) e" unfolding beaten_def using assms by (intro card_mono) auto
    moreover have "n \<le> card ?W" using y(1) by (simp add: Y_def beaten_def)
    ultimately show False using e by auto
  qed
  ultimately show ?thesis by blast
qed

definition top :: "int \<Rightarrow> event set \<Rightarrow> event set" where
  "top limit T = (if limit > 0 then {e \<in> T. beaten T e < nat limit} else T)"

lemma top_subset: "top limit T \<subseteq> T"
  by (auto simp: top_def)

lemma top_union: "finite A \<Longrightarrow> finite B \<Longrightarrow> top limit (top limit A \<union> B) = top limit (A \<union> B)"
  using beaten_cut [of A B "nat limit"] by (simp add: top_def)

lemma top_unions:
  assumes "\<forall>t \<in> set ts. finite (T t)" "finite B"
  shows "top limit ((\<Union>t \<in> set ts. top limit (T t)) \<union> B) = top limit ((\<Union>t \<in> set ts. T t) \<union> B)"
  using assms
proof (induction ts arbitrary: B)
  case (Cons t ts)
  have "top limit ((\<Union>t \<in> set (t # ts). top limit (T t)) \<union> B) = top limit (top limit (T t) \<union> ((\<Union>t \<in> set ts. top limit (T t)) \<union> B))"
    by (simp add: Un_assoc)
  also have "\<dots> = top limit (T t \<union> ((\<Union>t \<in> set ts. top limit (T t)) \<union> B))"
    using Cons.prems finite_subset [OF top_subset] by (intro top_union) auto
  also have "\<dots> = top limit ((\<Union>t \<in> set ts. top limit (T t)) \<union> (T t \<union> B))" by (simp add: Un_left_commute)
  also have "\<dots> = top limit ((\<Union>t \<in> set ts. T t) \<union> (T t \<union> B))" using Cons by simp
  finally show ?case by (simp add: Un_left_commute Un_assoc)
qed simp

lemma newest_list_take: "newest_list es \<Longrightarrow> newest_list (take n es)"
  by (auto simp: newest_list_def sorted_wrt_iff_nth_less)

lemma newest_distinct: "newest_list es \<Longrightarrow> distinct es"
  unfolding newest_list_def by (induction es) auto

lemma cut_newest:
  assumes "newest_list es"
  shows "newest_list (cut limit es)" "set (cut limit es) = top limit (set es)"
proof -
  show "newest_list (cut limit es)" using assms newest_list_take by (simp add: cut_def)
  have "beaten (set es) e < n" if "e \<in> set es" "length es \<le> n" for e n
    using newest_nth_beaten [OF assms] that by (auto simp: in_set_conv_nth)
  then show "set (cut limit es) = top limit (set es)"
    using set_take_newest [OF assms, of "nat limit"] by (auto simp: cut_def top_def)
qed

interpretation cand_order: go_comparator cand_cmp
proof
  show "cand_cmp b a = - cand_cmp a b" for a b by (auto simp: cand_cmp_def later_def)
  show "cand_cmp a c \<le> 0" if "cand_cmp a b \<le> 0" "cand_cmp b c \<le> 0" for a b c
    using that by (auto simp: cand_cmp_def later_def split: if_splits)
qed

lemma sort_events:
  assumes "distinct es" "inj_on place (set es)"
  shows "\<exists>es'. slices_SortFunc cand_cmp (map cand_of es) = map cand_of es' \<and> newest_list es' \<and> set es' = set es"
proof -
  let ?xs = "slices_SortFunc cand_cmp (map cand_of es)"
  define es' where "es' = map (\<lambda>c. the (cd_ev c)) ?xs"
  have m: "mset ?xs = image_mset cand_of (mset es)" by simp
  have ev: "the (cd_ev (cand_of e)) = e" for e by (simp add: cand_of_def)
  have "set ?xs = cand_of ` set es" using m by (metis set_image_mset set_mset_mset)
  then have xs: "?xs = map cand_of es'" unfolding es'_def by (auto simp: ev intro!: map_idI [symmetric])
  have "mset es' = image_mset (\<lambda>c. the (cd_ev c)) (image_mset cand_of (mset es))" unfolding es'_def mset_map m ..
  then have perm: "mset es' = mset es" by (simp add: image_mset.compositionality o_def ev)
  have d: "distinct es'" using perm assms(1) by (metis mset_eq_imp_distinct_iff)
  have same: "set es' = set es" using perm by (rule mset_eq_setD)
  have srt: "sorted_wrt (\<lambda>a b. \<not> later (place b) (place a)) es'"
    using cand_order.sorted_SortFunc [of "map cand_of es"] unfolding xs sorted_wrt_map
    by (rule sorted_wrt_mono_rel [rotated]) (auto simp: cand_cmp_def cand_of_def place_def later_def split: if_splits)
  have "newest_list es'"
    unfolding newest_list_def sorted_wrt_iff_nth_less
  proof (intro allI impI)
    fix i j assume ij: "i < j" "j < length es'"
    then have "es' ! i \<noteq> es' ! j" "es' ! i \<in> set es'" "es' ! j \<in> set es'" using d by (auto simp: nth_eq_iff_index_eq)
    then have "place (es' ! i) \<noteq> place (es' ! j)" using assms(2) same by (auto simp: inj_on_def)
    then show "later (place (es' ! i)) (place (es' ! j))"
      using srt ij later_total [of "place (es' ! i)" "place (es' ! j)"] by (auto simp: sorted_wrt_iff_nth_less)
  qed
  then show ?thesis using xs same by blast
qed

lemma newest_exists: "finite S \<Longrightarrow> inj_on place S \<Longrightarrow> T \<subseteq> S \<Longrightarrow> \<exists>es. newest_list es \<and> set es = T"
proof -
  assume "finite S" and inj: "inj_on place S" and sub: "T \<subseteq> S"
  then obtain xs where xs: "set xs = T" "distinct xs" using finite_distinct_list finite_subset by metis
  have "inj_on place (set xs)" unfolding xs(1) using inj sub by (rule inj_on_subset)
  from sort_events [OF xs(2) this] show "\<exists>es. newest_list es \<and> set es = T" using xs(1) by blast
qed

text \<open>What a search is to accept: \<open>found\<close> says whether the content has the text.\<close>

definition search_run :: "'d pstore \<Rightarrow> 'd \<Rightarrow> filterRun \<Rightarrow> event set \<Rightarrow> (event \<Rightarrow> bool) \<Rightarrow> bool" where
  "search_run s d fr S found \<longleftrightarrow> fr_query fr \<and>
     (\<forall>e \<in> S. search_ok fr (evContent e) = Ret (found e)) \<and>
     (\<forall>e \<in> S. \<forall>b. contentBloom (evContent e) = Some b \<longrightarrow> found e \<longrightarrow> bloomMaybeContains b (fr_searchGrams fr))"

definition accepted :: "filterRun \<Rightarrow> (event \<Rightarrow> bool) \<Rightarrow> event set \<Rightarrow> event set" where
  "accepted fr found T = {e \<in> T. found e \<and> Matches (fr_f fr) e}"

definition piece :: "event set \<Rightarrow> int \<times> int \<Rightarrow> event set" where
  "piece S t = {e \<in> S. nat (fst t) \<le> event_ts e \<and> event_ts e \<le> nat (snd t)}"

context pebble_db
begin

lemma iter_exists:
  assumes "reads_ok P d"
  shows "\<exists>es. pb_Iter P d lower upper = Ret es \<and> sorted_wrt (\<lambda>a b. fst a < fst b) es \<and>
    set es = {(k, v). kv d k = Some v \<and> in_bounds lower upper k}"
  by (rule iter_ok [OF assms, of lower upper]) blast

lemma search_merge_accepts:
  assumes h: "holds ix S (kv d)" and reads: "reads_ok P d" and P: "ps_db s = P" and run: "search_run s d fr S found"
    and "set es \<subseteq> S" "\<forall>e \<in> set es. \<forall>v. (place e, v) \<in> set sigs \<longrightarrow> contentBloom (evContent e) = Some v"
    and "scanned + int (length es) \<le> fr_budget fr"
  shows "search_merge s d fr (map place es) sigs scanned =
    Ret (map cand_of (filter (\<lambda>e. found e \<and> Matches (fr_f fr) e) es), scanned + int (length es))"
  using assms(5-7)
proof (induction es arbitrary: sigs scanned)
  case (Cons e es)
  let ?sigs = "dropWhile (\<lambda>(p, _). later (place e) p) sigs"
  have e: "e \<in> S" using Cons.prems(1) by simp
  have sub: "set ?sigs \<subseteq> set sigs" by (rule set_dropWhileD [THEN subsetI])
  have rest: "search_merge s d fr (map place es) ?sigs (scanned + 1) =
      Ret (map cand_of (filter (\<lambda>e. found e \<and> Matches (fr_f fr) e) es), scanned + 1 + int (length es))"
    by (rule Cons.IH) (use Cons.prems sub in auto)
  have acc: "search_ok fr (evContent e) = Ret (found e)" using run e by (simp add: search_run_def)
  have body: "loadBody s d (fst (place e)) (snd (place e)) = Ret (Some e)"
    using load_body [OF h reads e P] by (simp add: place_def)
  have room: "\<not> scanned + 1 > fr_budget fr" using Cons.prems(3) by simp
  show ?case
  proof (cases "?sigs \<noteq> [] \<and> fst (hd ?sigs) = place e \<and> \<not> bloomMaybeContains (snd (hd ?sigs)) (fr_searchGrams fr)")
    case True
    then have "hd ?sigs \<in> set sigs" using sub list.set_sel(1) [of ?sigs] by blast
    moreover have "hd ?sigs = (place e, snd (hd ?sigs))" using True by (simp add: prod_eq_iff)
    ultimately have "(place e, snd (hd ?sigs)) \<in> set sigs" by simp
    then have "contentBloom (evContent e) = Some (snd (hd ?sigs))" using Cons.prems(2) by simp
    then have "\<not> found e" using run e True by (auto simp: search_run_def)
    moreover have "search_merge s d fr (map place (e # es)) sigs scanned = search_merge s d fr (map place es) ?sigs (scanned + 1)"
      using True room by (simp add: Let_def)
    ultimately show ?thesis unfolding rest by simp
  next
    case False
    then have eq: "search_merge s d fr (map place (e # es)) sigs scanned =
        obind (loadBody s d (fst (place e)) (snd (place e))) (\<lambda>ev.
          obind
            (case ev of
               None \<Rightarrow> Ret None
             | Some ev \<Rightarrow>
                 obind (search_ok fr (evContent ev)) (\<lambda>found.
                 Ret (if found \<and> Matches (fr_f fr) ev then Some \<lparr>cd_ts = fst (place e), cd_id = snd (place e), cd_ev = Some ev\<rparr> else None)))
            (\<lambda>c.
          obind (search_merge s d fr (map place es) ?sigs (scanned + 1)) (\<lambda>(cs, n).
          Ret (case c of None \<Rightarrow> cs | Some c \<Rightarrow> c # cs, n))))"
      using room unfolding search_merge.simps list.map Let_def by (simp only: if_False)
    show ?thesis unfolding eq rest body by (simp add: acc place_def cand_of_def)
  qed
qed simp

lemma bloom_rows:
  assumes h: "holds ix S (kv d)" and range: "time_range lo hi" and b: "timeBounds bloomPrefix lo hi = (lower, upper)"
    and es: "set sigs = {(k, v). kv d k = Some v \<and> in_bounds lower upper k}" and e: "e \<in> S"
    and row: "(place e, v) \<in> set (ascending_rows sigs)"
  shows "contentBloom (evContent e) = Some v"
proof -
  have wf: "wf_event e \<and> length (evID e) = 32" if "e \<in> S" for e using h that good_wf by (auto simp: holds_def)
  obtain k where k: "(k, v) \<in> set sigs" "place e = (key_ts k, key_id k)" using row by (auto simp: ascending_rows_def)
  obtain r where r: "k = pfxBloom # r" using bounds_prefix [OF range b] k(1) es by (auto simp: bloomPrefix_def)
  then obtain e' where e': "e' \<in> S" "(pfxBloom # r, v) \<in> set (event_entries ix e')"
    using h k(1) es by (auto simp: holds_def entries_ok_def plain_key_def pfx_defs)
  then have b': "contentBloom (evContent e') = Some v" "k = pfxBloom # putBE 8 (event_ts e') @ evID e'"
    using entry_bloom wf r by auto
  then have "place e' = (key_ts k, key_id k)"
    using key_tail [OF _ event_ts_bound, of "evID e'" "[pfxBloom]" e'] wf [OF e'(1)] by (simp add: place_def)
  then have "e' = e" using places_inj [OF h] e e'(1) k(2) by (auto simp: inj_on_def)
  then show ?thesis using b'(1) by simp
qed


lemma search_task:
  assumes h: "holds ix S (kv d)" and reads: "reads_ok P d" and P: "ps_db s = P" and run: "search_run s d fr S found"
    and range: "time_range (fst t) (snd t)" and budget: "scanned + int (card (piece S t)) \<le> fr_budget fr"
  shows "\<exists>es. searchTask s d fr t scanned = Ret ((map cand_of es, 0), scanned + int (card (piece S t))) \<and> distinct es \<and>
    set es = top (fr_limit fr) (accepted fr found (piece S t))"
proof -
  obtain lower upper where b: "timeBounds timePrefix (fst t) (snd t) = (lower, upper)" by (metis surj_pair)
  obtain fl fu where fb: "timeBounds bloomPrefix (fst t) (snd t) = (fl, fu)" by (metis surj_pair)
  obtain bodies where bodies: "pb_Iter P d lower upper = Ret bodies" "sorted_wrt (\<lambda>a b. fst a < fst b) bodies"
    "set bodies = {(k, v). kv d k = Some v \<and> in_bounds lower upper k}" using iter_exists [OF reads, of lower upper] by auto
  obtain sigs where sigs: "pb_Iter P d fl fu = Ret sigs"
    "set sigs = {(k, v). kv d k = Some v \<and> in_bounds fl fu k}" using iter_exists [OF reads, of fl fu] by auto
  have idx: "indexed ix S timePrefix (fst t) (snd t) = piece S t" by (auto simp: indexed_def piece_def index_prefixes_def)
  have tp: "index_prefix timePrefix" by (simp add: index_prefix_def)
  have sub: "piece S t \<subseteq> S" by (auto simp: piece_def)
  obtain rs where rs: "scan_rows bodies = map place rs" "newest_list rs" "set rs = piece S t"
    using rows_events [OF places_inj [OF h] _ _ sub] index_scan [OF h tp range b bodies(3,2)] idx by metis
  have "rev (scan_rows bodies) = map fst (ascending_rows bodies)"
    by (simp add: scan_rows_def ascending_rows_def rev_map o_def split_def)
  then have rows: "map fst (ascending_rows bodies) = map place (rev rs)" by (simp add: rs(1) rev_map)
  have len: "length rs = card (piece S t)" using rs(3) newest_distinct [OF rs(2)] by (metis distinct_card)
  let ?es = "filter (\<lambda>e. found e \<and> Matches (fr_f fr) e) (rev rs)"
  have merge: "search_merge s d fr (map fst (ascending_rows bodies)) (ascending_rows sigs) scanned =
      Ret (map cand_of ?es, scanned + int (card (piece S t)))"
    unfolding rows using search_merge_accepts [OF h reads P run, of "rev rs" "ascending_rows sigs" scanned]
      bloom_rows [OF h range fb sigs(2)] rs(3) sub budget len by auto
  have es: "distinct ?es" "set ?es = accepted fr found (piece S t)"
    using newest_distinct [OF rs(2)] rs(3) by (auto simp: accepted_def)
  have "inj_on place (set ?es)" using places_inj [OF h] by (rule inj_on_subset) (use rs(3) sub in auto)
  from sort_events [OF es(1) this] obtain es' where es': "slices_SortFunc cand_cmp (map cand_of ?es) = map cand_of es'"
    "newest_list es'" "set es' = set ?es" by blast
  have same: "length es' = length ?es" using es' es(1) newest_distinct by (metis distinct_card)
  let ?out = "if fr_limit fr > 0 \<and> int (length ?es) > fr_limit fr then take (nat (fr_limit fr)) es' else ?es"
  have task: "searchTask s d fr t scanned = Ret ((map cand_of ?out, 0), scanned + int (card (piece S t)))"
    using run b fb bodies(1) sigs(1) merge es'(1) P by (simp add: searchTask_def search_run_def take_map)
  have "distinct ?out" using es(1) newest_distinct [OF es'(2)] by simp
  moreover have "set ?out = top (fr_limit fr) (accepted fr found (piece S t))"
    using cut_newest(2) [OF es'(2), of "fr_limit fr"] es(2) es'(3) same by (auto simp: cut_def split: if_splits)
  ultimately show ?thesis using task by blast
qed

end


section \<open>The pieces together\<close>

text \<open>Consecutive pieces from \<open>a\<close> to \<open>b\<close>.\<close>

fun chain :: "int \<Rightarrow> (int \<times> int) list \<Rightarrow> int \<Rightarrow> bool" where
  "chain a [] b \<longleftrightarrow> a = b + 1"
| "chain a (t # ts) b \<longleftrightarrow> fst t = a \<and> a \<le> snd t \<and> chain (snd t + 1) ts b"

lemma chain_le: "chain a ts b \<Longrightarrow> a \<le> b + 1"
  by (induction ts arbitrary: a) fastforce+

lemma chain_nth:
  assumes "ts \<noteq> []" "fst (hd ts) = a" "snd (last ts) = b" "\<forall>t \<in> set ts. fst t \<le> snd t"
    and "\<forall>i. i + 1 < length ts \<longrightarrow> fst (ts ! (i + 1)) = snd (ts ! i) + 1"
  shows "chain a ts b"
  using assms
proof (induction ts arbitrary: a)
  case (Cons t ts)
  show ?case
  proof (cases "ts = []")
    case False
    have "fst (hd ts) = snd t + 1" using Cons.prems(5) [rule_format, of 0] False by (simp add: hd_conv_nth)
    moreover have "\<forall>i. i + 1 < length ts \<longrightarrow> fst (ts ! (i + 1)) = snd (ts ! i) + 1"
      using Cons.prems(5) [rule_format, of "Suc i" for i] by simp
    ultimately show ?thesis using Cons.IH [of "snd t + 1"] Cons.prems(2-4) False by simp
  qed (use Cons.prems in auto)
qed simp

lemma piece_split:
  assumes "0 \<le> a" "a \<le> m" "m \<le> b"
  shows "piece S (a, b) = piece S (a, m) \<union> piece S (m + 1, b)" "piece S (a, m) \<inter> piece S (m + 1, b) = {}"
proof -
  have "nat (m + 1) = nat m + 1" "nat m \<le> nat b" "nat a \<le> nat m" using assms by auto
  then show "piece S (a, b) = piece S (a, m) \<union> piece S (m + 1, b)" "piece S (a, m) \<inter> piece S (m + 1, b) = {}"
    by (auto simp: piece_def)
qed

context pebble_db
begin

lemma tasks_run:
  assumes h: "holds ix S (kv d)" and reads: "reads_ok P d" and P: "ps_db s = P" and run: "search_run s d fr S found"
    and "chain a ts b" "0 \<le> a" "b < 2 ^ 63 \<and> 0 \<le> b" "scanned + int (card (piece S (a, b))) \<le> fr_budget fr"
  shows "\<exists>es. run_tasks s d fr ts scanned allc matches = Ret (allc @ map cand_of es, matches) \<and> distinct es \<and>
    set es = (\<Union>t \<in> set ts. top (fr_limit fr) (accepted fr found (piece S t))) \<and> (\<Union>t \<in> set ts. piece S t) = piece S (a, b)"
  using assms(5-8)
proof (induction ts arbitrary: a scanned allc)
  case Nil
  then have "nat b < nat a" by auto
  then have "piece S (a, b) = {}" by (auto simp: piece_def)
  then show ?case by simp
next
  case (Cons t ts)
  have t: "fst t = a" "a \<le> snd t" "chain (snd t + 1) ts b" using Cons.prems(1) by auto
  then have b: "snd t \<le> b" using chain_le [OF t(3)] by simp
  note split = piece_split [OF Cons.prems(2) t(2) b, of S]
  have pt: "piece S (a, snd t) = piece S t" using t(1) by (simp add: piece_def)
  have fin: "finite S" using h by (simp add: holds_def)
  then have "finite (piece S x)" for x by (simp add: piece_def)
  then have card: "card (piece S (a, b)) = card (piece S t) + card (piece S (snd t + 1, b))"
    unfolding split(1) using split(2) pt by (simp add: card_Un_disjoint)
  have range: "time_range (fst t) (snd t)" using t b Cons.prems(2,3) by (simp add: time_range_def)
  obtain es where es: "searchTask s d fr t scanned = Ret ((map cand_of es, 0), scanned + int (card (piece S t)))" "distinct es"
    "set es = top (fr_limit fr) (accepted fr found (piece S t))"
    using search_task [OF h reads P run range, of scanned] Cons.prems(4) card by auto
  obtain es' where es': "run_tasks s d fr ts (scanned + int (card (piece S t))) (allc @ map cand_of es) matches =
      Ret ((allc @ map cand_of es) @ map cand_of es', matches)" "distinct es'"
    "set es' = (\<Union>t \<in> set ts. top (fr_limit fr) (accepted fr found (piece S t)))"
    "(\<Union>t \<in> set ts. piece S t) = piece S (snd t + 1, b)"
    using Cons.IH [OF t(3) _ Cons.prems(3), of "scanned + int (card (piece S t))" "allc @ map cand_of es"] t Cons.prems(2,4) card by auto
  have sub: "top (fr_limit fr) (accepted fr found T) \<subseteq> T" for T using top_subset by (fastforce simp: accepted_def)
  have "set es \<inter> set es' = {}" using es(3) es'(3,4) sub split(2) pt by blast
  then have "distinct (es @ es')" using es(2) es'(2) by simp
  moreover have "run_tasks s d fr (t # ts) scanned allc matches = Ret (allc @ map cand_of (es @ es'), matches)"
    using es(1) es'(1) by simp
  moreover have "set (es @ es') = (\<Union>t \<in> set (t # ts). top (fr_limit fr) (accepted fr found (piece S t)))" using es(3) es'(3) by simp
  moreover have "(\<Union>t \<in> set (t # ts). piece S t) = piece S (a, b)" using es'(4) split(1) pt by simp
  ultimately show ?case by blast
qed

end


section \<open>The time range of the data\<close>

lemma head_le: "[a] \<le> (k :: bytes) \<longleftrightarrow> k \<noteq> [] \<and> a \<le> hd k"
  by (cases k) auto

lemma key_head_le: "(k :: bytes) \<le> k' \<Longrightarrow> k \<noteq> [] \<Longrightarrow> k' \<noteq> [] \<and> hd k \<le> hd k'"
  by (cases k; cases k') auto

lemma sorted_last: "sorted_wrt (\<lambda>a b. fst a < fst b) es \<Longrightarrow> x \<in> set es \<Longrightarrow> (fst x :: bytes) \<le> fst (last es)"
proof (induction es)
  case (Cons a es)
  show ?case
  proof (cases "es = []")
    case False
    then have "fst a < fst (last es)" using Cons.prems(1) by simp
    then have "fst a \<le> fst (last es)" by (rule less_imp_le)
    moreover have "x \<noteq> a \<Longrightarrow> fst x \<le> fst (last es)" using Cons by simp
    ultimately show ?thesis using False by (cases "x = a") simp_all
  qed (use Cons.prems in simp)
qed simp

lemma entry_ends:
  assumes "wf_event e" "(k, v) \<in> set (event_entries ix e)"
  shows "hd k \<le> pfxBody" "hd k = pfxBody \<Longrightarrow> k = bodyKey (event_ts e) (evID e)"
    "hd k = pfxTime \<Longrightarrow> k = appendTail timePrefix (event_ts e) (evID e)"
proof -
  note heads = locatorKey_def bodyKey_def bloomKey_def pfx_defs
  show "hd k \<le> pfxBody" using assms by (auto simp: entry_cases heads dest: index_key_hd)
  show "hd k = pfxBody \<Longrightarrow> k = bodyKey (event_ts e) (evID e)"
    using assms by (auto simp: entry_cases heads dest: index_key_hd)
  show "k = appendTail timePrefix (event_ts e) (evID e)" if "hd k = pfxTime"
  proof -
    have "k \<in> set (indexKeysFor ix e)" using assms that by (auto simp: entry_cases heads)
    then obtain p where p: "p \<in> set (index_prefixes ix e)" "k = appendTail p (event_ts e) (evID e)" by (auto simp: indexKeysFor_def)
    then have "p \<noteq> []" "index_prefix p" using index_prefixes_form [OF assms(1)] index_prefix_ne by blast+
    then have "p = timePrefix" using that p(2)
      by (auto simp: appendTail_def index_prefix_def pubkeyPrefix_def pubkeyKindPrefix_def kindPrefix_def timePrefix_def tagPrefix_def pfx_defs)
    then show ?thesis using p(2) by simp
  qed
qed

context pebble_db
begin

lemma data_range:
  assumes h: "holds ix S (kv d)" and reads: "reads_ok P d" and P: "ps_db s = P"
  shows "if S = {} then dataTimeRange s d = (0, -1)
    else \<exists>e1 \<in> S. \<exists>e2 \<in> S. dataTimeRange s d = (evCreatedAt e1, evCreatedAt e2) \<and>
      (\<forall>e \<in> S. evCreatedAt e1 \<le> evCreatedAt e \<and> evCreatedAt e \<le> evCreatedAt e2)"
proof -
  have good: "wf_event e \<and> length (evID e) = 32 \<and> good_event e" if "e \<in> S" for e using h that good_wf by (auto simp: holds_def)
  obtain es where es: "pb_Iter P d timePrefix None = Ret es" "sorted_wrt (\<lambda>a b. fst a < fst b) es"
    "set es = {(k, v). kv d k = Some v \<and> in_bounds timePrefix None k}" using iter_exists [OF reads, of timePrefix None] by auto
  have entry: "\<exists>e \<in> S. (k, v) \<in> set (event_entries ix e) \<and> k \<noteq> [] \<and> pfxTime \<le> hd k" if "(k, v) \<in> set es" for k v
  proof -
    have k: "kv d k = Some v" "k \<noteq> []" "pfxTime \<le> hd k" using that es(3) by (auto simp: in_bounds_def timePrefix_def head_le)
    moreover from this have "plain_key k" by (auto simp: plain_key_def pfx_defs)
    ultimately show ?thesis using h by (auto simp: holds_def entries_ok_def)
  qed
  have kept: "(k, v) \<in> set es" if "e \<in> S" "(k, v) \<in> set (event_entries ix e)" "k \<noteq> []" "pfxTime \<le> hd k" for e k v
  proof -
    have "plain_key k" using that by (auto simp: plain_key_def pfx_defs)
    then have "kv d k = Some v" using h that by (auto simp: holds_def entries_ok_def)
    then show ?thesis using es(3) that by (auto simp: in_bounds_def timePrefix_def head_le)
  qed
  have ts: "int64 (int (event_ts e)) = evCreatedAt e" "event_ts e = nat (evCreatedAt e)" "0 \<le> evCreatedAt e" if "e \<in> S" for e
  proof -
    show *: "0 \<le> evCreatedAt e" "event_ts e = nat (evCreatedAt e)" using good [OF that] event_ts_eq good_wf(3) by (auto simp: good_event_def)
    have "in_int64 (evCreatedAt e)" using good [OF that] by (simp add: wf_event_def)
    then show "int64 (int (event_ts e)) = evCreatedAt e" using * by (simp add: int64_id)
  qed
  have range: "dataTimeRange s d = (case es of [] \<Rightarrow> (0, -1)
      | x # xs \<Rightarrow> (int64 (int (key_ts (fst x))), int64 (int (key_ts (fst (last (x # xs)))))))"
    using es(1) P by (simp add: dataTimeRange_def)
  have T: "appendTail timePrefix (event_ts e) (evID e) = [pfxTime] @ putBE 8 (event_ts e) @ evID e" for e
    by (simp add: appendTail_def timePrefix_def)
  have V: "bodyKey (event_ts e) (evID e) = [pfxBody] @ putBE 8 (event_ts e) @ evID e" for e by (simp add: bodyKey_def)
  have tkey: "(appendTail timePrefix (event_ts e) (evID e), []) \<in> set es" if "e \<in> S" for e
  proof (rule kept [OF that])
    show "(appendTail timePrefix (event_ts e) (evID e), []) \<in> set (event_entries ix e)"
      by (auto simp: event_entries_def indexKeysFor_def index_prefixes_def)
  qed (simp_all add: T)
  have vkey: "(bodyKey (event_ts e) (evID e), layout e) \<in> set es" if "e \<in> S" for e
    by (rule kept [OF that]) (simp_all add: event_entries_def V pfx_defs)
  show ?thesis
  proof (cases "S = {}")
    case True
    then have "es = []" using entry by (cases es) fastforce+
    then show ?thesis using True range by simp
  next
    case False
    then obtain x xs where x: "es = x # xs" using tkey by (cases es) auto
    have first: "fst x \<le> k" if "(k, v) \<in> set es" for k v using that es(2) x by fastforce
    have final: "k \<le> fst (last es)" if "(k, v) \<in> set es" for k v using sorted_last [OF es(2) that] by simp
    obtain e where e: "e \<in> S" using False by blast
    obtain e1 where e1: "e1 \<in> S" "x \<in> set (event_entries ix e1)" "fst x \<noteq> []" "pfxTime \<le> hd (fst x)"
      using entry [of "fst x" "snd x"] x by auto
    have "hd (fst x) \<le> pfxTime" using key_head_le [OF first [OF tkey [OF e]] e1(3)] by (simp add: T)
    then have k1: "fst x = appendTail timePrefix (event_ts e1) (evID e1)"
      using entry_ends(3) [of e1 "fst x" "snd x" ix] good e1 by auto
    have "last es \<in> set es" using x by simp
    then obtain e2 where e2: "e2 \<in> S" "last es \<in> set (event_entries ix e2)" "fst (last es) \<noteq> []"
      using entry [of "fst (last es)" "snd (last es)"] by auto
    have "pfxBody \<le> hd (fst (last es))" using key_head_le [OF final [OF vkey [OF e]]] by (simp add: V)
    then have k2: "fst (last es) = bodyKey (event_ts e2) (evID e2)"
      using entry_ends(1,2) [of e2 "fst (last es)" "snd (last es)" ix] good e2 by auto
    have "key_ts (fst x) = event_ts e1" "key_ts (fst (last es)) = event_ts e2"
      unfolding k1 k2 T V using key_tail event_ts_bound good e1(1) e2(1) by blast+
    then have eq: "dataTimeRange s d = (evCreatedAt e1, evCreatedAt e2)" using range x ts e1(1) e2(1) by simp
    have "evCreatedAt e1 \<le> evCreatedAt y \<and> evCreatedAt y \<le> evCreatedAt e2" if y: "y \<in> S" for y
    proof -
      have "\<not> appendTail timePrefix (event_ts y) (evID y) < fst x" using first [OF tkey [OF y]] by simp
      then have "event_ts e1 \<le> event_ts y"
        unfolding k1 T tail_less [OF event_ts_bound event_ts_bound] by (simp add: later_def)
      moreover have "\<not> fst (last es) < bodyKey (event_ts y) (evID y)" using final [OF vkey [OF y]] by simp
      then have "event_ts y \<le> event_ts e2"
        unfolding k2 V tail_less [OF event_ts_bound event_ts_bound] by (simp add: later_def)
      ultimately show ?thesis using ts(2,3) e1(1) e2(1) y by (simp add: nat_le_eq_zle)
    qed
    then show ?thesis using False eq e1(1) e2(1) by auto
  qed
qed

end


section \<open>A search finds what the filter matches\<close>

lemma Matches_time:
  assumes "time_bounds_ok f" "sinceUntil f = (since, until)" "good_event e" "Matches f e"
  shows "since \<le> evCreatedAt e \<and> evCreatedAt e \<le> until"
proof -
  have "(fSince f \<noteq> 0 \<longrightarrow> fSince f \<le> evCreatedAt e) \<and> (fUntil f \<noteq> 0 \<longrightarrow> evCreatedAt e \<le> fUntil f)"
    using assms(4) by (simp add: Matches_iff)
  then have "nat since \<le> event_ts e" "event_ts e \<le> nat until" using in_time [OF assms(1-3)] by blast+
  moreover have "event_ts e = nat (evCreatedAt e)" "0 \<le> evCreatedAt e" using assms(3) event_ts_eq good_wf(3) by (auto simp: good_event_def)
  moreover have "0 \<le> since" "0 \<le> until" using sinceUntil_range [OF assms(1,2)] by (simp_all add: time_range_def)
  ultimately show ?thesis by auto
qed

context pebble_db
begin

lemma search_answer:
  assumes h: "holds ix S (kv d)" and reads: "reads_ok P d" and P: "ps_db s = P" and run: "search_run s d fr S found"
    and f: "time_bounds_ok (fr_f fr)" and budget: "int (card S) \<le> fr_budget fr"
  shows "\<exists>all. newest_list all \<and> set all = accepted fr found S \<and> searchRun s d fr = Ret (map cand_of (cut (fr_limit fr) all), 0)"
proof -
  obtain since until where su: "sinceUntil (fr_f fr) = (since, until)" by (metis surj_pair)
  have fin: "finite S" and good: "e \<in> S \<Longrightarrow> good_event e" for e using h by (auto simp: holds_def)
  have timely: "since \<le> evCreatedAt e \<and> evCreatedAt e \<le> until" if "e \<in> accepted fr found S" for e
    using Matches_time [OF f su good] that by (auto simp: accepted_def)
  have bounds: "0 \<le> since" "until < 2 ^ 63" using sinceUntil_range [OF f su] by (simp_all add: time_range_def)
  obtain dMin dMax where D: "dataTimeRange s d = (dMin, dMax)" by (metis surj_pair)
  have created: "0 \<le> evCreatedAt e \<and> evCreatedAt e < 2 ^ 63 \<and> event_ts e = nat (evCreatedAt e)" if "e \<in> S" for e
    using good [OF that] event_ts_eq good_wf(3) by (auto simp: good_event_def wf_event_def in_int64_def)
  have data: "S \<noteq> {} \<Longrightarrow> 0 \<le> dMin \<and> dMin \<le> dMax \<and> dMax < 2 ^ 63" "e \<in> S \<Longrightarrow> dMin \<le> evCreatedAt e \<and> evCreatedAt e \<le> dMax" for e
    using data_range [OF h reads P] D created by (auto split: if_splits)
  show ?thesis
  proof (cases "since > until \<or> dMax < 0 \<or> dMax < since \<or> dMin > until")
    case True
    then have none: "accepted fr found S = {}" using timely data created by (fastforce simp: accepted_def)
    have "searchTasks s d fr = Some []" using True by (auto simp: searchTasks_def su D)
    then have "searchRun s d fr = Ret ([], 0)" by (simp add: searchRun_def)
    then show ?thesis using none by (intro exI [of _ "[]"]) (simp add: newest_list_def cut_def)
  next
    case False
    let ?lo = "max since dMin" and ?hi = "min until dMax"
    have "S \<noteq> {}" using data_range [OF h reads P] D False by auto
    then have le: "?lo \<le> ?hi" "0 \<le> ?lo" "?hi < 2 ^ 63 \<and> 0 \<le> ?hi" using False bounds data(1) by auto
    then have "in_int64 ?lo" "in_int64 ?hi" by (auto simp: in_int64_def)
    from split_range [OF this le(1), of 8] obtain segs where segs: "splitRange ?lo ?hi 8 = Some segs" "segs \<noteq> []"
      "fst (hd segs) = ?lo" "snd (last segs) = ?hi" "\<forall>seg \<in> set segs. fst seg \<le> snd seg"
      "\<forall>i. i + 1 < length segs \<longrightarrow> fst (segs ! (i + 1)) = snd (segs ! i) + 1" by auto
    have chain: "chain ?lo segs ?hi" using segs by (intro chain_nth)
    have "\<not> since > until" "\<not> (dMax < 0 \<or> dMax < since \<or> dMin > until)" "\<not> ?lo > ?hi" using False le(1) by (auto simp only: not_less)
    then have tasks: "searchTasks s d fr = Some segs"
      by (simp only: searchTasks_def su D Let_def prod.case segs(1) if_False)
    have "card (piece S (?lo, ?hi)) \<le> card S" using fin by (intro card_mono) (auto simp: piece_def)
    then have "0 + int (card (piece S (?lo, ?hi))) \<le> fr_budget fr" using budget by simp
    from tasks_run [OF h reads P run chain le(2,3) this, of "[]" 0] obtain es where
      es: "run_tasks s d fr segs 0 [] 0 = Ret (map cand_of es, 0)" "distinct es"
      "set es = (\<Union>t \<in> set segs. top (fr_limit fr) (accepted fr found (piece S t)))" "(\<Union>t \<in> set segs. piece S t) = piece S (?lo, ?hi)"
      by auto
    have sub: "accepted fr found T \<subseteq> T" "accepted fr found (piece S t) \<subseteq> S" for T t by (auto simp: accepted_def piece_def)
    have "set es \<subseteq> S" using es(3) top_subset sub(2) by blast
    then have "inj_on place (set es)" using places_inj [OF h] inj_on_subset by blast
    from sort_events [OF es(2) this] obtain es' where es': "slices_SortFunc cand_cmp (map cand_of es) = map cand_of es'"
      "newest_list es'" "set es' = set es" by blast
    have result: "searchRun s d fr = Ret (map cand_of (cut (fr_limit fr) es'), 0)"
      using tasks segs(2) es(1) es'(1) run by (simp add: searchRun_def search_run_def cut_map)
    have "accepted fr found (piece S (?lo, ?hi)) = accepted fr found S"
      using timely data(2) created bounds by (fastforce simp: accepted_def piece_def nat_le_iff nat_le_eq_zle)
    moreover have "(\<Union>t \<in> set segs. accepted fr found (piece S t)) = accepted fr found (\<Union>t \<in> set segs. piece S t)"
      by (auto simp: accepted_def)
    ultimately have union: "(\<Union>t \<in> set segs. accepted fr found (piece S t)) = accepted fr found S" using es(4) by simp
    have "finite (accepted fr found S)" using fin sub(1) finite_subset by blast
    moreover have "finite (accepted fr found (piece S t))" for t using fin sub(2) finite_subset by blast
    ultimately have topset: "top (fr_limit fr) (set es) = top (fr_limit fr) (accepted fr found S)"
      using top_unions [of segs "\<lambda>t. accepted fr found (piece S t)" "{}" "fr_limit fr"] es(3) union by simp
    have "accepted fr found S \<subseteq> S" by (rule sub)
    then obtain all where all: "newest_list all" "set all = accepted fr found S"
      using newest_exists fin places_inj [OF h] by blast
    have "cut (fr_limit fr) es' = cut (fr_limit fr) all"
      using cut_newest [OF es'(2)] cut_newest [OF all(1)] es'(3) all(2) topset by (intro newest_unique) simp_all
    then show ?thesis using result all by auto
  qed
qed

end


section \<open>The answer of a query\<close>

text \<open>What is asked of a result: the search text occurs in the content, and the limit that holds.\<close>

definition finds :: "Filter \<Rightarrow> event \<Rightarrow> bool" where
  "finds f e \<longleftrightarrow> fSearch f = '''' \<or> (\<exists>a b. map asciiLower (evContent e) = a @ map asciiLower (fSearch f) @ b)"

definition query_limit :: "'d pstore \<Rightarrow> Filter \<Rightarrow> int \<Rightarrow> int" where
  "query_limit s f maxLimit =
     (let clamp = (if maxLimit = 0 then ps_MaxLimit s else maxLimit) in
      if clamp > 0 \<and> (fLimit f \<le> 0 \<or> fLimit f > clamp) then clamp else fLimit f)"

lemma filter_run:
  assumes "fSearch f \<noteq> '''' \<Longrightarrow> ps_ToLower s (fSearch f) = map asciiLower (fSearch f)"
  shows "\<exists>fr. newFilterRun s f True maxLimit = Ret fr \<and> fr_f fr = f \<and> fr_limit fr = query_limit s f maxLimit \<and>
    fr_budget fr = ps_MaxScanKeys s \<and> fr_query fr \<and> (fr_search fr \<noteq> None \<longleftrightarrow> fSearch f \<noteq> '''') \<and>
    fr_searchGrams fr = (if fSearch f = '''' then [] else buildSearchGrams (fSearch f)) \<and>
    (\<forall>e. search_ok fr (evContent e) = Ret (finds f e))"
proof (cases "fSearch f = ''''")
  case True
  then show ?thesis by (auto simp: newFilterRun_def query_limit_def Let_def search_ok_def finds_def)
next
  case False
  then obtain sr where "NewSearcher (ps_ToLower s) (fSearch f) = Ret sr"
    "\<forall>hay. Searcher_Contains sr hay = Some (Ret (\<exists>a b. map asciiLower hay = a @ map asciiLower (fSearch f) @ b))"
    using searcher_finds [of "ps_ToLower s" "fSearch f"] assms by auto
  then show ?thesis using False by (auto simp: newFilterRun_def query_limit_def Let_def search_ok_def finds_def)
qed

lemma time_plannable: "plannable ix f \<Longrightarrow> time_bounds_ok f"
  by (simp add: plannable_def)

context pebble_db
begin

lemma found_signature:
  assumes "holds ix S (kv d)" "reads_ok P d" "ps_db s = P" "e \<in> S" "finds f e" "fSearch f \<noteq> ''''"
    and "fr_searchGrams fr = buildSearchGrams (fSearch f)"
  shows "signature_ok s d fr (event_ts e) (evID e)"
proof -
  have "bloomMaybeContains b (fr_searchGrams fr)" if b: "kv d (bloomKey (event_ts e) (evID e)) = Some b" for b
  proof -
    have wf: "wf_event x" if "x \<in> S" for x using assms(1) that good_wf(1) by (auto simp: holds_def)
    have "plain_key (bloomKey (event_ts e) (evID e))" by (simp add: plain_key_def bloomKey_def pfx_defs)
    then obtain x where x: "x \<in> S" "(bloomKey (event_ts e) (evID e), b) \<in> set (event_entries ix x)"
      using assms(1) b by (auto simp: holds_def entries_ok_def)
    have "evID x = evID e" using entry_id [OF wf x(2)] x(1) good_wf(2) assms(1,4) by (auto simp: bloomKey_def key_id_def holds_def)
    then have "x = e" using assms(1,4) x(1) by (auto simp: holds_def inj_on_def)
    then have "contentBloom (evContent e) = Some b" using x entry_bloom [OF wf] by (auto simp: bloomKey_def)
    then show ?thesis using bloom_complete assms(5-7) unfolding finds_def by auto
  qed
  then show ?thesis using get_ok [OF assms(2)] assms(3) by (auto simp: signature_ok_def split: option.split)
qed

lemma cursor_exact:
  assumes h: "holds (indexedTag s) S (kv d)" and reads: "reads_ok P d" and P: "ps_db s = P" and f: "plannable (indexedTag s) f"
    and budget: "int (length (fst (source_prefixes f)) * card S) \<le> ps_MaxScanKeys s"
    and fr: "fr_f fr = f" "fr_budget fr = ps_MaxScanKeys s" "fr_query fr" "fr_search fr \<noteq> None \<longleftrightarrow> fSearch f \<noteq> ''''"
      "fr_searchGrams fr = (if fSearch f = '''' then [] else buildSearchGrams (fSearch f))"
      "\<forall>e. search_ok fr (evContent e) = Ret (finds f e)"
  shows "\<exists>all. newest_list all \<and> set all = {e \<in> S. Matches f e \<and> finds f e} \<and>
    run_cursor s d fr = Some (Ret (map cand_of (cut (fr_limit fr) all), None))"
proof -
  have good: "\<forall>e \<in> S. good_event e" using h by (simp add: holds_def)
  have sig: "signature_ok s d fr (event_ts e) (evID e)" if e: "e \<in> S" "finds f e" for e
  proof (cases "fSearch f = ''''")
    case True
    then show ?thesis using fr(4) by (simp add: signature_ok_def)
  qed (use found_signature [OF h reads P e] fr(5) in simp)
  have "\<exists>all. newest_list all \<and>
      set all = {e \<in> selected (indexedTag s) S (fr_f fr). (snd (source_prefixes (fr_f fr)) \<or> fr_search fr \<noteq> None \<longrightarrow> Matches (fr_f fr) e) \<and> finds f e} \<and>
      run_cursor s d fr = Some (Ret (map cand_of (cut (fr_limit fr) all), None))"
    by (rule cursor_answer [OF h reads P])
      (use plannable_plan [OF f] time_plannable [OF f] plan_prefixes [OF f] budget fr sig in auto)
  then obtain all where all: "newest_list all"
    "set all = {e \<in> selected (indexedTag s) S f. (snd (source_prefixes f) \<or> fr_search fr \<noteq> None \<longrightarrow> Matches f e) \<and> finds f e}"
    "run_cursor s d fr = Some (Ret (map cand_of (cut (fr_limit fr) all), None))"
    unfolding fr(1) by blast
  have "{e \<in> selected (indexedTag s) S f. snd (source_prefixes f) \<longrightarrow> Matches f e} = {e \<in> S. Matches f e}"
    by (rule plan_selects [OF f good])
  then have "set all = {e \<in> S. Matches f e \<and> finds f e}" unfolding all(2) by blast
  then show ?thesis using all(1,3) by blast
qed

lemma query_exact:
  assumes h: "holds (indexedTag s) S (kv d)" and reads: "reads_ok P d" and P: "ps_db s = P"
    and f: "plannable (indexedTag s) f" "\<not> fLimitZero f"
    and lower: "fSearch f \<noteq> '''' \<Longrightarrow> ps_ToLower s (fSearch f) = map asciiLower (fSearch f)"
    and budget: "int (length (fst (source_prefixes f)) * card S) \<le> ps_MaxScanKeys s"
  shows "\<exists>all. newest_list all \<and> set all = {e \<in> S. Matches f e \<and> finds f e} \<and>
    QueryEvents s d f maxLimit = Some (Ret (cut (query_limit s f maxLimit) all, None))"
proof -
  obtain fr where fr: "newFilterRun s f True maxLimit = Ret fr" "fr_f fr = f" "fr_limit fr = query_limit s f maxLimit"
    "fr_budget fr = ps_MaxScanKeys s" "fr_query fr" "fr_search fr \<noteq> None \<longleftrightarrow> fSearch f \<noteq> ''''"
    "fr_searchGrams fr = (if fSearch f = '''' then [] else buildSearchGrams (fSearch f))"
    "\<forall>e. search_ok fr (evContent e) = Ret (finds f e)"
    using filter_run [OF lower] by blast
  have good: "\<forall>e \<in> S. good_event e" using h by (simp add: holds_def)
  have events: "map (\<lambda>c. the (cd_ev c)) (map cand_of es) = es" for es by (simp add: cand_of_def map_idI)
  show ?thesis
  proof (cases "fr_search fr \<noteq> None \<and> plan f = modeTime \<and> length (fr_searchGrams fr) > 0")
    case True
    then have prefixes: "fst (source_prefixes f) = [timePrefix]" by (simp add: source_prefixes_def)
    have grams: "fSearch f \<noteq> ''''" "fr_searchGrams fr = buildSearchGrams (fSearch f)" using True fr(6,7) by auto
    have "search_run s d fr S (finds f)"
      unfolding search_run_def using fr(5,8) bloom_complete grams by (auto simp: finds_def)
    from search_answer [OF h reads P this] obtain all where all: "newest_list all" "set all = accepted fr (finds f) S"
      "searchRun s d fr = Ret (map cand_of (cut (fr_limit fr) all), 0)"
      using time_plannable [OF f(1)] budget prefixes fr(2,4) by auto
    have "QueryEvents s d f maxLimit = Some (Ret (cut (query_limit s f maxLimit) all, None))"
      using f(2) fr(1,3) True all(3) events by (simp add: QueryEvents_def)
    moreover have "set all = {e \<in> S. Matches f e \<and> finds f e}" using all(2) fr(2) by (auto simp: accepted_def)
    ultimately show ?thesis using all(1) by blast
  next
    case False
    obtain all where all: "newest_list all" "set all = {e \<in> S. Matches f e \<and> finds f e}"
      "run_cursor s d fr = Some (Ret (map cand_of (cut (fr_limit fr) all), None))"
      using cursor_exact [OF h reads P f(1) budget fr(2,4-8)] by blast
    then have "QueryEvents s d f maxLimit = Some (Ret (cut (query_limit s f maxLimit) all, None))"
      using f(2) fr(1,3) False events by (auto simp: QueryEvents_def)
    then show ?thesis using all(1,2) by blast
  qed
qed

end

text \<open>C5: On a database that holds a set of events, a query gives out exactly the stored events that match the filter and whose
  content has the search text (both with their ASCII letters in lower case), newest first, cut at the limit, and ends
  without an error.  Whatever index the plan chooses, however many scans it merges, and whether or not a signature let an
  event be skipped, makes no difference.  Supposed are reads that succeed, tag names and values that are indexed, a scan
  budget of all entries the scans can meet, and a search text that Go lowers like ASCII.\<close>
theorem pebble_query_exact:
  assumes "pebble_db P kv" "holds (indexedTag s) S (kv d)" "reads_ok P d" "ps_db s = P"
    and "plannable (indexedTag s) f" "\<not> fLimitZero f"
    and "fSearch f \<noteq> '''' \<Longrightarrow> ps_ToLower s (fSearch f) = map asciiLower (fSearch f)"
    and "int (length (fst (source_prefixes f)) * card S) \<le> ps_MaxScanKeys s"
  shows "\<exists>all. newest_list all \<and> set all = {e \<in> S. Matches f e \<and> finds f e} \<and>
    QueryEvents s d f maxLimit = Some (Ret (cut (query_limit s f maxLimit) all, None))"
  using assms by (rule pebble_db.query_exact)


definition list_pstore :: "list_state pstore" where
  "list_pstore = \<lparr>ps_db = list_pebble, ps_IndexedTags = None, ps_MaxLimit = 1000, ps_MaxScanKeys = 500000, ps_ToLower = map asciiLower\<rparr>"

definition cat_note :: event where
  "cat_note = note1\<lparr>evContent := ''A Cat''\<rparr>"

definition cat_filter :: Filter where
  "cat_filter = \<lparr>fIDs = None, fKinds = None, fAuthors = None, fTags = [(''e'', [''x'', ''y''])], fSince = 0, fUntil = 100, fLimit = 0,
     fSearch = ''CAT'', fLimitZero = False\<rparr>"

lemma good_cat_note: "good_event cat_note"
  by (simp add: good_event_def wf_event_def wf32_def cat_note_def note1_def in_int64_def MaxInt64_def fits_def encodable_def
      section_length_def enc_tag_def enc_item_def)

lemma reads_list: "reads_ok list_pebble d"
  by (simp add: reads_ok_def list_pebble_def)

theorem pebble_query_exact_witness:
  "QueryEvents list_pstore (single_db (indexedTag list_pstore) cat_note) cat_filter 0 = Some (Ret ([cat_note], None))"
proof -
  let ?d = "single_db (indexedTag list_pstore) cat_note"
  have ix: "indexedTag list_pstore ''e''" by (simp add: indexedTag_def list_pstore_def)
  have plan: "plannable (indexedTag list_pstore) cat_filter" using ix by (simp add: plannable_def cat_filter_def time_bounds_ok_def)
  have budget: "int (length (fst (source_prefixes cat_filter)) * card {cat_note}) \<le> ps_MaxScanKeys list_pstore"
    by (simp add: source_prefixes_def plan_def cat_filter_def countTagPreds_def driving_tag_def tag_names_def tagmap_get_def list_pstore_def)
  obtain all where all: "newest_list all" "set all = {e \<in> {cat_note}. Matches cat_filter e \<and> finds cat_filter e}"
    "QueryEvents list_pstore ?d cat_filter 0 = Some (Ret (cut (query_limit list_pstore cat_filter 0) all, None))"
    using pebble_query_exact [OF list_pebble.pebble_db_axioms holds_single [OF good_cat_note] reads_list _ plan _ _ budget]
    by (auto simp: list_pstore_def cat_filter_def)
  have "map asciiLower ''A Cat'' = ''a '' @ map asciiLower ''CAT'' @ ''''" by code_simp
  moreover have "fSearch cat_filter = ''CAT''" "evContent cat_note = ''A Cat''" by (simp_all add: cat_filter_def cat_note_def)
  ultimately have "finds cat_filter cat_note" unfolding finds_def by metis
  moreover have "Matches cat_filter cat_note"
    by (simp add: Matches_iff MatchesIgnoring_iff cat_filter_def cat_note_def note1_def ContainsAny_iff)
  ultimately have "set all = {cat_note}" using all(2) by auto
  then have "all = [cat_note]" using all(1) by (intro newest_unique) (simp_all add: newest_list_def)
  then show ?thesis using all(3) by (simp add: cut_def query_limit_def list_pstore_def cat_filter_def)
qed

end
